(* ===== verification/Globus_Prelude.thy ===== *)
theory Globus_Prelude
  imports Main "HOL-Library.Word" "HOL-Library.Monad_Syntax" "HOL-Library.Multiset"
begin

text \<open>
  Shared vocabulary of the development.

  \<^item> C values: \<open>'v vptr\<close> is a \<open>void *\<close> (\<open>None\<close> is NULL), \<open>addr option\<close> is a pointer to a
    cell of a store.
  \<^item> The store: \<open>'c mem\<close> is the part of the process heap that holds the cells of one C struct
    type. \<open>mem_get\<close> reads through a pointer, \<open>mem_alloc\<close> is \<open>malloc\<close> (\<open>None\<close> when memory is
    exhausted), \<open>mem_free\<close> is \<open>free\<close>.
  \<^item> Faults: an operation with result type \<open>'a option\<close> returns \<open>None\<close> exactly where the C code
    fails an \<open>assert\<close>, reads or writes through NULL or a freed cell, or does not terminate. A
    theorem that concludes \<open>op s = Some t\<close> therefore includes memory safety and termination.
  \<^item> Collections: \<open>store_simps\<close> (the reads-after-writes laws of the store), \<open>c_int_simps\<close> (the
    laws of C's truncating conversions).
\<close>

named_theorems store_simps \<open>reads after writes, allocation and release\<close>
named_theorems c_int_simps \<open>conversions between machine integers and mathematical integers\<close>

section \<open>C scalars\<close>

type_synonym addr = nat
type_synonym 'v vptr = "'v option"

definition GLOBUS_SUCCESS :: int where
  "GLOBUS_SUCCESS = 0"

definition GLOBUS_FAILURE :: int where
  "GLOBUS_FAILURE = -1"

text \<open>Conversion of a mathematical integer to a \<open>w\<close>-bit two's complement value.\<close>

definition wrap_s :: "nat \<Rightarrow> int \<Rightarrow> int" where
  "wrap_s w x = (x + 2 ^ (w - 1)) mod 2 ^ w - 2 ^ (w - 1)"

lemma wrap_s_id [c_int_simps]:
  assumes "0 < w" and "- (2 ^ (w - 1)) \<le> x" and "x < 2 ^ (w - 1)"
  shows "wrap_s w x = x"
proof -
  have "(2::int) ^ w = 2 * 2 ^ (w - 1)"
    using assms(1) by (cases w) simp_all
  then show ?thesis
    using assms(2,3) by (simp add: wrap_s_def)
qed

lemma wrap_s_range:
  assumes "0 < w"
  shows "- (2 ^ (w - 1)) \<le> wrap_s w x \<and> wrap_s w x < 2 ^ (w - 1)"
proof -
  have eq: "(2::int) ^ w = 2 * 2 ^ (w - 1)"
    using assms by (cases w) simp_all
  have "0 \<le> (x + 2 ^ (w - 1)) mod (2::int) ^ w" and "(x + 2 ^ (w - 1)) mod (2::int) ^ w < 2 ^ w"
    by simp_all
  with eq show ?thesis
    by (simp add: wrap_s_def)
qed

text \<open>C's \<open>/\<close> and \<open>%\<close> truncate towards zero.\<close>

definition c_div :: "int \<Rightarrow> int \<Rightarrow> int" where
  "c_div a b = sgn a * sgn b * (\<bar>a\<bar> div \<bar>b\<bar>)"

definition c_mod :: "int \<Rightarrow> int \<Rightarrow> int" where
  "c_mod a b = a - b * c_div a b"

lemma c_mod_nonneg [c_int_simps]:
  assumes "0 \<le> a" and "0 < b"
  shows "c_mod a b = a mod b"
proof -
  have "c_div a b = a div b"
    using assms by (cases "a = 0") (simp_all add: c_div_def)
  then show ?thesis
    by (simp add: c_mod_def minus_mult_div_eq_mod)
qed

section \<open>A store of cells\<close>

record 'c mem =
  mem_cells :: "addr \<rightharpoonup> 'c"
  mem_brk :: addr
  mem_room :: nat

text \<open>Every live cell lies below the allocation point, so that a fresh cell is not live.\<close>

definition mem_ok :: "'c mem \<Rightarrow> bool" where
  "mem_ok m \<longleftrightarrow> (\<forall>a. mem_cells m a \<noteq> None \<longrightarrow> a < mem_brk m)"

definition mem_empty :: "nat \<Rightarrow> 'c mem" where
  "mem_empty room = \<lparr>mem_cells = Map.empty, mem_brk = 0, mem_room = room\<rparr>"

definition mem_get :: "'c mem \<Rightarrow> addr option \<Rightarrow> 'c option" where
  "mem_get m p = Option.bind p (mem_cells m)"

text \<open>A write goes through a live cell only.\<close>

definition mem_set :: "'c mem \<Rightarrow> addr \<Rightarrow> 'c \<Rightarrow> 'c mem option" where
  "mem_set m a c =
     (if mem_cells m a = None then None else Some (m\<lparr>mem_cells := (mem_cells m)(a \<mapsto> c)\<rparr>))"

definition mem_alloc :: "'c mem \<Rightarrow> 'c \<Rightarrow> (addr \<times> 'c mem) option" where
  "mem_alloc m c =
     (if mem_room m = 0 then None
      else Some (mem_brk m,
        m\<lparr>mem_cells := (mem_cells m)(mem_brk m \<mapsto> c), mem_brk := Suc (mem_brk m),
          mem_room := mem_room m - 1\<rparr>))"

definition mem_free :: "'c mem \<Rightarrow> addr \<Rightarrow> 'c mem option" where
  "mem_free m a =
     (if mem_cells m a = None then None
      else Some (m\<lparr>mem_cells := (mem_cells m)(a := None), mem_room := Suc (mem_room m)\<rparr>))"

lemma mem_get_simps [simp, store_simps]:
  "mem_get m None = None"
  "mem_get m (Some a) = mem_cells m a"
  by (simp_all add: mem_get_def)

lemma mem_ok_empty [simp]: "mem_ok (mem_empty n)"
  by (simp add: mem_ok_def mem_empty_def)

lemma mem_empty_cells [simp]: "mem_cells (mem_empty n) = Map.empty" "mem_room (mem_empty n) = n"
  by (simp_all add: mem_empty_def)

lemma mem_ok_fresh [simp]: "mem_ok m \<Longrightarrow> mem_cells m (mem_brk m) = None"
  by (auto simp: mem_ok_def)

lemma mem_alloc_Some:
  "0 < mem_room m \<Longrightarrow> mem_alloc m c =
     Some (mem_brk m, m\<lparr>mem_cells := (mem_cells m)(mem_brk m \<mapsto> c), mem_brk := Suc (mem_brk m),
          mem_room := mem_room m - 1\<rparr>)"
  by (simp add: mem_alloc_def)

lemma mem_alloc_ok: "mem_ok m \<Longrightarrow> mem_alloc m c = Some (a, m') \<Longrightarrow> mem_ok m'"
  by (auto simp: mem_alloc_def mem_ok_def less_Suc_eq split: if_splits)

lemma mem_free_ok: "mem_ok m \<Longrightarrow> mem_free m a = Some m' \<Longrightarrow> mem_ok m'"
  by (auto simp: mem_free_def mem_ok_def split: if_splits)

lemma mem_set_ok: "mem_ok m \<Longrightarrow> mem_set m a c = Some m' \<Longrightarrow> mem_ok m'"
  by (auto simp: mem_set_def mem_ok_def split: if_splits)

section \<open>Lists\<close>

text \<open>Ordering a list by a comparison on a key of its elements.\<close>

fun merge_by :: "('a \<Rightarrow> 'a \<Rightarrow> bool) \<Rightarrow> 'a list \<Rightarrow> 'a list \<Rightarrow> 'a list" where
  "merge_by R [] ys = ys"
| "merge_by R xs [] = xs"
| "merge_by R (x # xs) (y # ys) =
     (if R x y then x # merge_by R xs (y # ys) else y # merge_by R (x # xs) ys)"

fun msort_by :: "('a \<Rightarrow> 'a \<Rightarrow> bool) \<Rightarrow> 'a list \<Rightarrow> 'a list" where
  "msort_by R xs =
     (if length xs < 2 then xs
      else merge_by R (msort_by R (take (length xs div 2) xs))
                      (msort_by R (drop (length xs div 2) xs)))"

declare msort_by.simps [simp del]

lemma msort_by_short [simp]: "length xs < 2 \<Longrightarrow> msort_by R xs = xs"
  by (simp add: msort_by.simps)

lemma merge_by_Nil2 [simp]: "merge_by R xs [] = xs"
  by (cases xs) simp_all

lemma mset_merge_by [simp]: "mset (merge_by R xs ys) = mset xs + mset ys"
  by (induction R xs ys rule: merge_by.induct) auto

lemma set_merge_by [simp]: "set (merge_by R xs ys) = set xs \<union> set ys"
  by (metis mset_merge_by set_mset_mset set_mset_union)

lemma mset_msort_by [simp]: "mset (msort_by R xs) = mset xs"
proof (induction R xs rule: msort_by.induct)
  case (1 R xs)
  show ?case
  proof (cases "length xs < 2")
    case True
    then show ?thesis by (simp add: msort_by.simps [of R xs])
  next
    case False
    with "1.IH" have "mset (msort_by R xs)
        = mset (take (length xs div 2) xs) + mset (drop (length xs div 2) xs)"
      by (simp add: msort_by.simps [of R xs])
    then show ?thesis
      by (metis append_take_drop_id mset_append)
  qed
qed

lemma set_msort_by [simp]: "set (msort_by R xs) = set xs"
  by (metis mset_msort_by set_mset_mset)

lemma length_msort_by [simp]: "length (msort_by R xs) = length xs"
  by (metis mset_msort_by size_mset)

lemma distinct_msort_by [simp]: "distinct (msort_by R xs) = distinct xs"
  by (metis mset_msort_by mset_eq_imp_distinct_iff)

lemma map_merge_by:
  "map f (merge_by (\<lambda>x y. R (f x) (f y)) xs ys) = merge_by R (map f xs) (map f ys)"
  by (induction "\<lambda>x y. R (f x) (f y)" xs ys rule: merge_by.induct) auto

lemma map_msort_by:
  "map f (msort_by (\<lambda>x y. R (f x) (f y)) xs) = msort_by R (map f xs)"
proof (induction xs rule: length_induct)
  case (1 xs)
  show ?case
  proof (cases "length xs < 2")
    case True
    then show ?thesis by (simp add: msort_by.simps [of _ xs] msort_by.simps [of _ "map f xs"])
  next
    case False
    with 1 show ?thesis
      by (simp add: msort_by.simps [of _ xs] msort_by.simps [of _ "map f xs"] map_merge_by
          take_map drop_map)
  qed
qed

lemma sorted_merge_by:
  assumes "\<And>x y. R x y \<Longrightarrow> (f x :: 'k::linorder) \<le> f y" and "\<And>x y. \<not> R x y \<Longrightarrow> f y \<le> f x"
    and "sorted (map f xs)" and "sorted (map f ys)"
  shows "sorted (map f (merge_by R xs ys))"
  using assms
proof (induction R xs ys rule: merge_by.induct)
  case (3 R x xs y ys)
  have "R x y \<Longrightarrow> f x \<le> f y" and "\<not> R x y \<Longrightarrow> f y \<le> f x"
    using "3.prems"(1,2) by blast+
  with 3 show ?case
    by (cases "R x y")
      (auto intro: order_trans [of "f x" "f y"] order_trans [of "f y" "f x"])
qed simp_all

lemma sorted_msort_by:
  assumes "\<And>x y. R x y \<Longrightarrow> (f x :: 'k::linorder) \<le> f y" and "\<And>x y. \<not> R x y \<Longrightarrow> f y \<le> f x"
  shows "sorted (map f (msort_by R xs))"
  using assms
proof (induction R xs rule: msort_by.induct)
  case (1 R xs)
  show ?case
  proof (cases "length xs < 2")
    case True
    then have "msort_by R xs = xs" by (simp add: msort_by.simps [of R xs])
    moreover have "sorted (map f xs)" using True by (simp add: sorted01)
    ultimately show ?thesis by simp
  next
    case False
    have "sorted (map f (merge_by R (msort_by R (take (length xs div 2) xs))
        (msort_by R (drop (length xs div 2) xs))))"
      using "1.IH" "1.prems" False by (intro sorted_merge_by) auto
    with False show ?thesis
      by (simp add: msort_by.simps [of R xs])
  qed
qed

lemma map_of_the: "m x = Some y \<Longrightarrow> the (m x) = y"
  by simp

end
