(* ===== verification/Globus_List.thy ===== *)
theory Globus_List
  imports Globus_Prelude
begin

text \<open>
  The linked list of \<open>common/source/library/globus_list.c\<close>, at the level of its nodes: a
  \<open>globus_list_t *\<close> is an address of a store of cells, every operation reads and writes the
  store as the C code does. \<open>list_at m p as\<close> says that the chain starting at \<open>p\<close> runs through
  the nodes \<open>as\<close> and ends in NULL; \<open>list_data m as\<close> are the data stored there. The lemmas show
  that each operation is memory safe, terminates, and has the effect on the data that its
  documentation names; \<open>globus_list_sort\<close> is a merge sort done by relinking the nodes.
\<close>

section \<open>Nodes\<close>

record 'v globus_list_s =
  li_datum :: "'v vptr"
  li_next :: "addr option"
  li_malloced :: bool

type_synonym 'v lmem = "'v globus_list_s mem"

section \<open>Operations\<close>

definition globus_list_first :: "'v lmem \<Rightarrow> addr option \<Rightarrow> 'v vptr option" where
  "globus_list_first m head = do { c \<leftarrow> mem_get m head; Some (li_datum c) }"

definition globus_list_rest :: "'v lmem \<Rightarrow> addr option \<Rightarrow> addr option option" where
  "globus_list_rest m head = do { c \<leftarrow> mem_get m head; Some (li_next c) }"

text \<open>
  \<open>globus_list_rest_ref\<close> returns the address of the \<open>next\<close> field; the model represents that
  reference by the node, and a write through it by \<open>set_rest\<close>.
\<close>

definition globus_list_rest_ref :: "'v lmem \<Rightarrow> addr option \<Rightarrow> addr option" where
  "globus_list_rest_ref m head = do { a \<leftarrow> head; c \<leftarrow> mem_cells m a; Some a }"

definition set_rest :: "'v lmem \<Rightarrow> addr \<Rightarrow> addr option \<Rightarrow> 'v lmem option" where
  "set_rest m a q = do { c \<leftarrow> mem_cells m a; mem_set m a (c\<lparr>li_next := q\<rparr>) }"

definition globus_list_empty :: "addr option \<Rightarrow> bool" where
  "globus_list_empty head \<longleftrightarrow> head = None"

partial_function (option) list_size_loop :: "'v lmem \<Rightarrow> addr option \<Rightarrow> nat \<Rightarrow> nat option" where
  "list_size_loop m l n =
     (if globus_list_empty l then Some n
      else do { l' \<leftarrow> globus_list_rest m l; list_size_loop m l' (Suc n) })"

definition globus_list_size :: "'v lmem \<Rightarrow> addr option \<Rightarrow> nat option" where
  "globus_list_size m head = list_size_loop m head 0"

definition globus_list_replace_first ::
  "'v lmem \<Rightarrow> addr option \<Rightarrow> 'v vptr \<Rightarrow> ('v vptr \<times> 'v lmem) option" where
  "globus_list_replace_first m head datum =
     do { a \<leftarrow> head;
          c \<leftarrow> mem_cells m a;
          m' \<leftarrow> mem_set m a (c\<lparr>li_datum := datum\<rparr>);
          Some (li_datum c, m') }"

partial_function (option) list_search_loop ::
  "'v lmem \<Rightarrow> addr option \<Rightarrow> 'v vptr \<Rightarrow> addr option option" where
  "list_search_loop m l datum =
     (if globus_list_empty l then Some None
      else do { td \<leftarrow> globus_list_first m l;
                if td = datum then Some l
                else do { l' \<leftarrow> globus_list_rest m l; list_search_loop m l' datum } })"

definition globus_list_search :: "'v lmem \<Rightarrow> addr option \<Rightarrow> 'v vptr \<Rightarrow> addr option option" where
  "globus_list_search m head datum =
     (if globus_list_empty head then Some None else list_search_loop m head datum)"

text \<open>The predicate and the relation come with their argument pointer already applied.\<close>

partial_function (option) globus_list_search_pred ::
  "'v lmem \<Rightarrow> addr option \<Rightarrow> ('v vptr \<Rightarrow> bool) \<Rightarrow> addr option option" where
  "globus_list_search_pred m head predicate =
     (if globus_list_empty head then Some None
      else do { d \<leftarrow> globus_list_first m head;
                if predicate d then Some head
                else do { r \<leftarrow> globus_list_rest m head;
                          globus_list_search_pred m r predicate } })"

partial_function (option) s_globus_list_min_with_register ::
  "'v lmem \<Rightarrow> addr option \<Rightarrow> addr option \<Rightarrow> ('v vptr \<Rightarrow> 'v vptr \<Rightarrow> bool) \<Rightarrow> addr option option" where
  "s_globus_list_min_with_register m current_min rest_head relation =
     (if globus_list_empty rest_head then Some current_min
      else do { x \<leftarrow> globus_list_first m current_min;
                y \<leftarrow> globus_list_first m rest_head;
                r \<leftarrow> globus_list_rest m rest_head;
                if relation x y
                then s_globus_list_min_with_register m current_min r relation
                else s_globus_list_min_with_register m rest_head r relation })"

definition globus_list_min ::
  "'v lmem \<Rightarrow> addr option \<Rightarrow> ('v vptr \<Rightarrow> 'v vptr \<Rightarrow> bool) \<Rightarrow> addr option option" where
  "globus_list_min m head relation =
     (if globus_list_empty head then Some None
      else do { r \<leftarrow> globus_list_rest m head;
                s_globus_list_min_with_register m head r relation })"

text \<open>\<open>for (i = 0; i < len/2 - 1; i++) head = rest(head)\<close>, with \<open>n\<close> iterations left.\<close>

fun halves_walk :: "'v lmem \<Rightarrow> addr option \<Rightarrow> nat \<Rightarrow> addr option option" where
  "halves_walk m head 0 = Some head"
| "halves_walk m head (Suc n) = do { h' \<leftarrow> globus_list_rest m head; halves_walk m h' n }"

definition globus_list_halves_destructive ::
  "'v lmem \<Rightarrow> addr option \<Rightarrow> (addr option \<times> addr option \<times> 'v lmem) option" where
  "globus_list_halves_destructive m head =
     do { len \<leftarrow> globus_list_size m head;
          h' \<leftarrow> halves_walk m head (len div 2 - 1);
          right \<leftarrow> globus_list_rest m h';
          a \<leftarrow> globus_list_rest_ref m h';
          m' \<leftarrow> set_rest m a None;
          Some (head, right, m') }"

text \<open>
  The merge loop. \<open>result_tail\<close> is the reference into the last node of the result, NULL while
  the result is empty; \<open>merge_link\<close> is the C idiom
  \<open>if (result_tail) *result_tail = p; else result = p\<close>.
\<close>

definition merge_link ::
  "'v lmem \<Rightarrow> addr option \<Rightarrow> addr option \<Rightarrow> addr option \<Rightarrow> (addr option \<times> 'v lmem) option" where
  "merge_link m result result_tail p =
     (case result_tail of
        None \<Rightarrow> Some (p, m)
      | Some t \<Rightarrow> do { m' \<leftarrow> set_rest m t p; Some (result, m') })"

partial_function (option) sort_merge_loop ::
  "('v vptr \<Rightarrow> 'v vptr \<Rightarrow> bool) \<Rightarrow> 'v lmem \<Rightarrow> addr option \<Rightarrow> addr option \<Rightarrow> addr option \<Rightarrow>
   addr option \<Rightarrow> (addr option \<times> 'v lmem) option" where
  "sort_merge_loop relation m left right result result_tail =
     (if \<not> globus_list_empty left \<and> \<not> globus_list_empty right
      then do {
        x \<leftarrow> globus_list_first m left;
        y \<leftarrow> globus_list_first m right;
        if relation x y
        then do {
          (result', m1) \<leftarrow> merge_link m result result_tail left;
          a \<leftarrow> globus_list_rest_ref m1 left;
          left' \<leftarrow> globus_list_rest m1 left;
          m2 \<leftarrow> set_rest m1 a None;
          sort_merge_loop relation m2 left' right result' (Some a) }
        else do {
          (result', m1) \<leftarrow> merge_link m result result_tail right;
          a \<leftarrow> globus_list_rest_ref m1 right;
          right' \<leftarrow> globus_list_rest m1 right;
          m2 \<leftarrow> set_rest m1 a None;
          sort_merge_loop relation m2 left right' result' (Some a) } }
      else if globus_list_empty left then merge_link m result result_tail right
      else if globus_list_empty right then merge_link m result result_tail left
      else None)"

definition globus_list_sort_merge_destructive ::
  "('v vptr \<Rightarrow> 'v vptr \<Rightarrow> bool) \<Rightarrow> 'v lmem \<Rightarrow> addr option \<Rightarrow> addr option \<Rightarrow>
   (addr option \<times> 'v lmem) option" where
  "globus_list_sort_merge_destructive relation m left right =
     sort_merge_loop relation m left right None None"

text \<open>C leaves the evaluation order of the two recursive calls open; they touch disjoint nodes.\<close>

partial_function (option) globus_list_sort_destructive ::
  "('v vptr \<Rightarrow> 'v vptr \<Rightarrow> bool) \<Rightarrow> 'v lmem \<Rightarrow> addr option \<Rightarrow> (addr option \<times> 'v lmem) option" where
  "globus_list_sort_destructive relation m head =
     (if globus_list_empty head then Some (head, m)
      else do {
        r \<leftarrow> globus_list_rest m head;
        if globus_list_empty r then Some (head, m)
        else do {
          (left, right, m1) \<leftarrow> globus_list_halves_destructive m head;
          (l', m2) \<leftarrow> globus_list_sort_destructive relation m1 left;
          (r', m3) \<leftarrow> globus_list_sort_destructive relation m2 right;
          globus_list_sort_merge_destructive relation m3 l' r' } })"

text \<open>
  \<open>globus_list_insert\<close> returns the value that the code stores through \<open>headp\<close>. The result of the
  allocation is used without a test, so that exhausted memory is a fault. \<open>active\<close> is the
  static \<open>globus_l_list_active\<close>, which selects the pool or \<open>malloc\<close>.
\<close>

definition globus_list_insert ::
  "bool \<Rightarrow> 'v lmem \<Rightarrow> addr option \<Rightarrow> 'v vptr \<Rightarrow> (addr option \<times> 'v lmem) option" where
  "globus_list_insert active m headv datum =
     do { (a, m') \<leftarrow> mem_alloc m \<lparr>li_datum = datum, li_next = headv, li_malloced = \<not> active\<rparr>;
          Some (Some a, m') }"

definition globus_list_cons ::
  "bool \<Rightarrow> 'v lmem \<Rightarrow> 'v vptr \<Rightarrow> addr option \<Rightarrow> (addr option \<times> 'v lmem) option" where
  "globus_list_cons active m datum rest = globus_list_insert active m rest datum"

partial_function (option) globus_list_copy ::
  "bool \<Rightarrow> 'v lmem \<Rightarrow> addr option \<Rightarrow> (addr option \<times> 'v lmem) option" where
  "globus_list_copy active m head =
     (if head = None then Some (None, m)
      else do {
        c \<leftarrow> mem_get m head;
        (a, m1) \<leftarrow> mem_alloc m \<lparr>li_datum = li_datum c, li_next = None, li_malloced = \<not> active\<rparr>;
        (n, m2) \<leftarrow> globus_list_copy active m1 (li_next c);
        m3 \<leftarrow> set_rest m2 a n;
        Some (Some a, m3) })"

partial_function (option) concat_last :: "'v lmem \<Rightarrow> addr option \<Rightarrow> addr option" where
  "concat_last m l =
     do { a \<leftarrow> l;
          c \<leftarrow> mem_cells m a;
          if li_next c = None then Some a else concat_last m (li_next c) }"

definition globus_list_concat ::
  "bool \<Rightarrow> 'v lmem \<Rightarrow> addr option \<Rightarrow> addr option \<Rightarrow> (addr option \<times> 'v lmem) option" where
  "globus_list_concat active m front_list back_list =
     do { (back_copy, m1) \<leftarrow> globus_list_copy active m back_list;
          if front_list = None then Some (back_copy, m1)
          else do {
            (front_copy, m2) \<leftarrow> globus_list_copy active m1 front_list;
            a \<leftarrow> concat_last m2 front_copy;
            m3 \<leftarrow> set_rest m2 a back_copy;
            Some (front_copy, m3) } }"

definition globus_list_sort ::
  "bool \<Rightarrow> ('v vptr \<Rightarrow> 'v vptr \<Rightarrow> bool) \<Rightarrow> 'v lmem \<Rightarrow> addr option \<Rightarrow> (addr option \<times> 'v lmem) option" where
  "globus_list_sort active relation m head =
     do { (c, m1) \<leftarrow> globus_list_copy active m head;
          globus_list_sort_destructive relation m1 c }"

text \<open>
  \<open>globus_list_remove\<close>: the result is the returned pointer, the value left in \<open>*headp\<close> and the
  store. Both ways of releasing the node (\<open>globus_free\<close> and the pool) make its cell dead.
\<close>

partial_function (option) list_remove_loop ::
  "'v lmem \<Rightarrow> addr option \<Rightarrow> addr option \<Rightarrow> addr \<Rightarrow> 'v vptr \<Rightarrow> ('v vptr \<times> 'v lmem) option" where
  "list_remove_loop m i j entry datum =
     (if globus_list_empty j then Some (None, m)
      else if Some entry = j then do {
        j' \<leftarrow> globus_list_rest m j;
        ia \<leftarrow> i;
        m1 \<leftarrow> set_rest m ia j';
        m2 \<leftarrow> mem_free m1 entry;
        Some (datum, m2) }
      else do {
        i' \<leftarrow> globus_list_rest m i;
        j' \<leftarrow> globus_list_rest m j;
        list_remove_loop m i' j' entry datum })"

definition globus_list_remove ::
  "'v lmem \<Rightarrow> addr option \<Rightarrow> addr \<Rightarrow> ('v vptr \<times> addr option \<times> 'v lmem) option" where
  "globus_list_remove m headv entry =
     do { datum \<leftarrow> globus_list_first m (Some entry);
          if headv = Some entry then do {
            h' \<leftarrow> globus_list_rest m headv;
            m1 \<leftarrow> mem_free m entry;
            Some (datum, h', m1) }
          else do {
            j \<leftarrow> globus_list_rest m headv;
            (r, m1) \<leftarrow> list_remove_loop m headv j entry datum;
            Some (r, headv, m1) } }"

partial_function (option) globus_list_free :: "'v lmem \<Rightarrow> addr option \<Rightarrow> 'v lmem option" where
  "globus_list_free m head =
     (if globus_list_empty head then Some m
      else do { a \<leftarrow> head;
                (d, h', m1) \<leftarrow> globus_list_remove m head a;
                globus_list_free m1 h' })"

text \<open>\<open>globus_list_destroy_all\<close>: the calls of \<open>data_free\<close> are returned in their order.\<close>

partial_function (option) list_destroy_all_loop ::
  "'v lmem \<Rightarrow> addr option \<Rightarrow> 'v list \<Rightarrow> ('v list \<times> 'v lmem) option" where
  "list_destroy_all_loop m head freed =
     (if globus_list_empty head then Some (freed, m)
      else do { a \<leftarrow> head;
                (d, h', m1) \<leftarrow> globus_list_remove m head a;
                list_destroy_all_loop m1 h' (case d of None \<Rightarrow> freed | Some v \<Rightarrow> freed @ [v]) })"

definition globus_list_destroy_all :: "'v lmem \<Rightarrow> addr option \<Rightarrow> ('v list \<times> 'v lmem) option" where
  "globus_list_destroy_all m head = list_destroy_all_loop m head []"

text \<open>
  \<open>globus_list_from_string\<close>: \<open>strchr\<close> splits at the delimiter; leading characters of \<open>ignored\<close>
  are dropped from every field that a delimiter ends, and each field is consed to the front.
\<close>

fun skip_ignored :: "string option \<Rightarrow> string \<Rightarrow> string" where
  "skip_ignored None s = s"
| "skip_ignored (Some ign) s = dropWhile (\<lambda>c. c \<in> set ign) s"

function from_string_loop ::
  "bool \<Rightarrow> string lmem \<Rightarrow> addr option \<Rightarrow> string \<Rightarrow> char \<Rightarrow> string option \<Rightarrow>
   (addr option \<times> string lmem) option" where
  "from_string_loop active m l entry delim ignored =
     (if delim \<in> set entry
      then do {
        (l', m') \<leftarrow> globus_list_insert active m l
           (Some (skip_ignored ignored (takeWhile (\<lambda>c. c \<noteq> delim) entry)));
        from_string_loop active m' l' (tl (dropWhile (\<lambda>c. c \<noteq> delim) entry)) delim ignored }
      else if entry \<noteq> [] then globus_list_insert active m l (Some entry)
      else Some (l, m))"
  by pat_completeness auto
termination
proof (relation "measure (\<lambda>(active, m, l, entry, delim, ignored). length entry)", goal_cases)
  case 1
  then show ?case by simp
next
  case (2 active m l entry delim ignored x l' m')
  have "dropWhile (\<lambda>c. c \<noteq> delim) entry \<noteq> []"
    using \<open>delim \<in> set entry\<close> by auto
  then have "length (tl (dropWhile (\<lambda>c. c \<noteq> delim) entry))
      < length (dropWhile (\<lambda>c. c \<noteq> delim) entry)"
    by (cases "dropWhile (\<lambda>c. c \<noteq> delim) entry") simp_all
  also have "\<dots> \<le> length entry"
    by (rule length_dropWhile_le)
  finally show ?case by simp
qed

declare from_string_loop.simps [simp del]

definition globus_list_from_string ::
  "bool \<Rightarrow> string lmem \<Rightarrow> string option \<Rightarrow> char \<Rightarrow> string option \<Rightarrow> (addr option \<times> string lmem) option" where
  "globus_list_from_string active m in_string delim ignored =
     (case in_string of
        None \<Rightarrow> Some (None, m)
      | Some s \<Rightarrow> from_string_loop active m None s delim ignored)"


section \<open>Chains of nodes\<close>

text \<open>\<open>seg h p as q\<close>: following \<open>next\<close> from \<open>p\<close> visits exactly the nodes \<open>as\<close> and arrives at \<open>q\<close>.\<close>

type_synonym 'v lheap = "addr \<rightharpoonup> 'v globus_list_s"

fun seg :: "'v lheap \<Rightarrow> addr option \<Rightarrow> addr list \<Rightarrow> addr option \<Rightarrow> bool" where
  "seg h p [] q \<longleftrightarrow> p = q"
| "seg h p (a # as) q \<longleftrightarrow> p = Some a \<and> (\<exists>c. h a = Some c \<and> seg h (li_next c) as q)"

abbreviation list_at :: "'v lmem \<Rightarrow> addr option \<Rightarrow> addr list \<Rightarrow> bool" where
  "list_at m p as \<equiv> seg (mem_cells m) p as None"

definition node_datum :: "'v lheap \<Rightarrow> addr \<Rightarrow> 'v vptr" where
  "node_datum h a = li_datum (the (h a))"

abbreviation list_data :: "'v lmem \<Rightarrow> addr list \<Rightarrow> 'v vptr list" where
  "list_data m as \<equiv> map (node_datum (mem_cells m)) as"

text \<open>\<open>relink S m m'\<close>: \<open>m'\<close> differs from \<open>m\<close> at most in the \<open>next\<close> fields of the nodes in \<open>S\<close>.\<close>

definition relink :: "addr set \<Rightarrow> 'v lmem \<Rightarrow> 'v lmem \<Rightarrow> bool" where
  "relink S m m' \<longleftrightarrow>
     mem_brk m' = mem_brk m \<and> mem_room m' = mem_room m \<and>
     (\<forall>a. a \<notin> S \<longrightarrow> mem_cells m' a = mem_cells m a) \<and>
     (\<forall>a. map_option li_datum (mem_cells m' a) = map_option li_datum (mem_cells m a))"

lemma relink_refl [simp]: "relink S m m"
  by (simp add: relink_def)

lemma relink_trans: "relink S m m1 \<Longrightarrow> relink T m1 m2 \<Longrightarrow> relink (S \<union> T) m m2"
  by (simp add: relink_def)

lemma relink_mono: "relink S m m' \<Longrightarrow> S \<subseteq> T \<Longrightarrow> relink T m m'"
  by (auto simp: relink_def)

lemma relink_live: "relink S m m' \<Longrightarrow> (mem_cells m' a = None) = (mem_cells m a = None)"
  by (metis map_option_is_None relink_def)

lemma node_datum_eqI:
  "map_option li_datum (h' a) = map_option li_datum (h a) \<Longrightarrow> node_datum h' a = node_datum h a"
  by (cases "h a"; cases "h' a") (auto simp: node_datum_def)

lemma node_datum_upd [simp]:
  "a \<noteq> b \<Longrightarrow> node_datum (h(b := x)) a = node_datum h a"
  "node_datum (h(b \<mapsto> c)) b = li_datum c"
  by (simp_all add: node_datum_def)

lemma list_data_upd [simp]:
  "b \<notin> set as \<Longrightarrow> map (node_datum (h(b := x))) as = map (node_datum h) as"
  by (induction as) auto

lemma relink_datum: "relink S m m' \<Longrightarrow> node_datum (mem_cells m') = node_datum (mem_cells m)"
  by (rule ext, rule node_datum_eqI) (simp add: relink_def)

lemma relink_ok: "relink S m m' \<Longrightarrow> mem_ok m \<Longrightarrow> mem_ok m'"
  unfolding mem_ok_def by (metis relink_def relink_live)

lemma seg_append:
  "seg h p (as @ bs) q \<longleftrightarrow> (\<exists>r. seg h p as r \<and> seg h r bs q)"
  by (induction as arbitrary: p) auto

lemma seg_upd [simp]: "a \<notin> set as \<Longrightarrow> seg (h(a := x)) p as q = seg h p as q"
  by (induction as arbitrary: p) auto

lemma seg_cong:
  "(\<And>a. a \<in> set as \<Longrightarrow> h' a = h a) \<Longrightarrow> seg h' p as q = seg h p as q"
  by (induction as arbitrary: p) auto

lemma seg_relink:
  "relink S m m' \<Longrightarrow> S \<inter> set as = {} \<Longrightarrow> seg (mem_cells m') p as q = seg (mem_cells m) p as q"
  by (rule seg_cong) (auto simp: relink_def)

lemma seg_live: "seg h p as q \<Longrightarrow> a \<in> set as \<Longrightarrow> h a \<noteq> None"
  by (induction as arbitrary: p) auto

lemma seg_unique: "seg h p as None \<Longrightarrow> seg h p bs None \<Longrightarrow> as = bs"
proof (induction as arbitrary: p bs)
  case Nil
  then show ?case by (cases bs) auto
next
  case (Cons a as)
  then show ?case by (cases bs) auto
qed

lemma seg_distinct: "seg h p as None \<Longrightarrow> distinct as"
proof (induction as arbitrary: p)
  case (Cons a as)
  then obtain c where c: "h a = Some c" "seg h (li_next c) as None" by auto
  have "a \<notin> set as"
  proof
    assume "a \<in> set as"
    then obtain xs ys where as: "as = xs @ a # ys" by (meson split_list)
    then have "seg h (Some a) (a # ys) None"
      using c by (auto simp: seg_append)
    moreover have "seg h (Some a) (a # as) None" using c by auto
    ultimately have "a # as = a # ys" by (metis seg_unique)
    with as show False by simp
  qed
  with Cons.IH c show ?case by auto
qed simp

lemma seg_last_upd:
  assumes "seg h p as r" and "as \<noteq> []" and "distinct as" and "h (last as) = Some c"
  shows "seg (h(last as \<mapsto> c\<lparr>li_next := q\<rparr>)) p as q"
  using assms
proof (induction as arbitrary: p)
  case (Cons a as)
  then show ?case by (cases "as = []") auto
qed simp

lemma seg_last_next:
  "seg h p as r \<Longrightarrow> as \<noteq> [] \<Longrightarrow> \<exists>c. h (last as) = Some c \<and> li_next c = r"
  by (induction as arbitrary: p) auto

lemma set_rest_Some:
  "mem_cells m a = Some c \<Longrightarrow> set_rest m a q =
     Some (m\<lparr>mem_cells := (mem_cells m)(a \<mapsto> c\<lparr>li_next := q\<rparr>)\<rparr>)"
  by (simp add: set_rest_def mem_set_def)

lemma relink_set_rest:
  "mem_cells m a = Some c \<Longrightarrow> a \<in> S \<Longrightarrow>
   relink S m (m\<lparr>mem_cells := (mem_cells m)(a \<mapsto> c\<lparr>li_next := q\<rparr>)\<rparr>)"
  by (auto simp: relink_def)

lemma list_access [store_simps]:
  "mem_cells m a = Some c \<Longrightarrow> globus_list_first m (Some a) = Some (li_datum c)"
  "mem_cells m a = Some c \<Longrightarrow> globus_list_rest m (Some a) = Some (li_next c)"
  "mem_cells m a = Some c \<Longrightarrow> globus_list_rest_ref m (Some a) = Some a"
  "globus_list_empty (Some a) = False"
  "globus_list_empty None = True"
  by (simp_all add: globus_list_first_def globus_list_rest_def globus_list_rest_ref_def
      globus_list_empty_def)

section \<open>Traversals\<close>

lemma list_size_loop_eq: "list_at m p as \<Longrightarrow> list_size_loop m p n = Some (n + length as)"
proof (induction as arbitrary: p n)
  case Nil
  then show ?case by (simp add: list_size_loop.simps store_simps)
next
  case (Cons a as)
  then show ?case by (auto simp: list_size_loop.simps [of m "Some a"] store_simps)
qed

lemma globus_list_size_eq: "list_at m p as \<Longrightarrow> globus_list_size m p = Some (length as)"
  by (simp add: globus_list_size_def list_size_loop_eq)

text \<open>The first node whose datum satisfies a predicate, NULL when there is none.\<close>

abbreviation first_node :: "('v vptr \<Rightarrow> bool) \<Rightarrow> 'v lheap \<Rightarrow> addr list \<Rightarrow> addr option" where
  "first_node P h as \<equiv> find (\<lambda>a. P (node_datum h a)) as"

lemma list_search_loop_eq:
  "list_at m p as \<Longrightarrow>
   list_search_loop m p d = Some (first_node (\<lambda>x. x = d) (mem_cells m) as)"
proof (induction as arbitrary: p)
  case Nil
  then show ?case by (simp add: list_search_loop.simps store_simps)
next
  case (Cons a as)
  then show ?case
    by (auto simp: list_search_loop.simps [of m "Some a"] store_simps node_datum_def)
qed

lemma globus_list_search_eq:
  "list_at m p as \<Longrightarrow>
   globus_list_search m p d = Some (first_node (\<lambda>x. x = d) (mem_cells m) as)"
  using list_search_loop_eq [of m p as d]
  by (cases p) (auto simp: globus_list_search_def store_simps list_search_loop.simps [of m None])

lemma globus_list_search_pred_eq:
  "list_at m p as \<Longrightarrow> globus_list_search_pred m p P = Some (first_node P (mem_cells m) as)"
proof (induction as arbitrary: p)
  case Nil
  then show ?case by (simp add: globus_list_search_pred.simps store_simps)
next
  case (Cons a as)
  then show ?case
    by (auto simp: globus_list_search_pred.simps [of m "Some a"] store_simps node_datum_def)
qed


text \<open>
  The scan for the minimum keeps the current minimum whenever the relation holds between it
  and the next datum. \<open>min_scan\<close> is that scan on the sequence of nodes.
\<close>

fun min_scan :: "('v vptr \<Rightarrow> 'v vptr \<Rightarrow> bool) \<Rightarrow> 'v lheap \<Rightarrow> addr \<Rightarrow> addr list \<Rightarrow> addr" where
  "min_scan R h c [] = c"
| "min_scan R h c (a # as) =
     min_scan R h (if R (node_datum h c) (node_datum h a) then c else a) as"

lemma min_with_register_eq:
  "list_at m p as \<Longrightarrow> mem_cells m c \<noteq> None \<Longrightarrow>
   s_globus_list_min_with_register m (Some c) p R = Some (Some (min_scan R (mem_cells m) c as))"
proof (induction as arbitrary: p c)
  case Nil
  then show ?case by (simp add: s_globus_list_min_with_register.simps store_simps)
next
  case (Cons a as)
  then show ?case
    by (auto simp: s_globus_list_min_with_register.simps [of m _ "Some a"] store_simps
        node_datum_def)
qed

lemma min_scan_least:
  assumes "\<And>x y. R x y \<Longrightarrow> (f x :: 'k::linorder) \<le> f y" and "\<And>x y. \<not> R x y \<Longrightarrow> f y \<le> f x"
  shows "min_scan R h c as \<in> insert c (set as) \<and>
    (\<forall>b \<in> insert c (set as). f (node_datum h (min_scan R h c as)) \<le> f (node_datum h b))"
proof (induction as arbitrary: c)
  case (Cons a as)
  let ?c = "if R (node_datum h c) (node_datum h a) then c else a"
  have "f (node_datum h ?c) \<le> f (node_datum h c)" "f (node_datum h ?c) \<le> f (node_datum h a)"
    using assms by auto
  moreover have "f (node_datum h (min_scan R h ?c as)) \<le> f (node_datum h ?c)"
    using Cons.IH [of ?c] by simp
  ultimately have "f (node_datum h (min_scan R h ?c as)) \<le> f (node_datum h c)"
    and "f (node_datum h (min_scan R h ?c as)) \<le> f (node_datum h a)"
    by (meson order_trans)+
  with Cons.IH [of ?c] show ?case by auto
qed simp

lemma globus_list_min_eq:
  "list_at m p (a # as) \<Longrightarrow>
   globus_list_min m p R = Some (Some (min_scan R (mem_cells m) a as))"
  by (auto simp: globus_list_min_def store_simps min_with_register_eq)

section \<open>Merge sort by relinking\<close>

lemma halves_walk_eq:
  "list_at m p as \<Longrightarrow> n < length as \<Longrightarrow> halves_walk m p n = Some (Some (as ! n))"
proof (induction n arbitrary: p as)
  case 0
  then show ?case by (cases as) auto
next
  case (Suc n)
  then obtain a as' where as: "as = a # as'" by (cases as) auto
  with Suc show ?case by (auto simp: store_simps)
qed

lemma halves_destructive_eq:
  assumes "list_at m p as" and "2 \<le> length as"
  defines "k \<equiv> length as div 2"
  shows "\<exists>r m'. globus_list_halves_destructive m p = Some (p, r, m') \<and>
    list_at m' p (take k as) \<and> list_at m' r (drop k as) \<and> relink (set (take k as)) m m'"
proof -
  have k: "0 < k" "k < length as" "k - 1 < length as"
    using assms(2) by (auto simp: k_def)
  have d: "distinct as" using assms(1) by (rule seg_distinct)
  obtain r where r: "seg (mem_cells m) p (take k as) r" "seg (mem_cells m) r (drop k as) None"
    using assms(1) by (metis append_take_drop_id seg_append)
  have ne: "take k as \<noteq> []" using k by auto
  have last: "last (take k as) = as ! (k - 1)"
    using k ne by (simp add: last_conv_nth)
  obtain c where c: "mem_cells m (as ! (k - 1)) = Some c" "li_next c = r"
    using seg_last_next [OF r(1) ne] last by auto
  let ?m = "m\<lparr>mem_cells := (mem_cells m)(as ! (k - 1) \<mapsto> c\<lparr>li_next := None\<rparr>)\<rparr>"
  have "globus_list_halves_destructive m p = Some (p, r, ?m)"
    using assms(1) k c
    by (simp add: globus_list_halves_destructive_def globus_list_size_eq halves_walk_eq
        store_simps set_rest_Some k_def [symmetric])
  moreover have "list_at ?m p (take k as)"
    using seg_last_upd [OF r(1) ne] d c last by simp
  moreover have "as ! (k - 1) \<notin> set (drop k as)"
    using d k by (auto simp: in_set_conv_nth nth_eq_iff_index_eq)
  then have "list_at ?m r (drop k as)" using r(2) by simp
  moreover have "as ! (k - 1) \<in> set (take k as)"
    using ne last last_in_set by metis
  then have "relink (set (take k as)) m ?m"
    using c by (intro relink_set_rest)
  ultimately show ?thesis by blast
qed



text \<open>One link step: the result continues at \<open>p\<close>.\<close>

lemma merge_link_eq:
  assumes "list_at m res rs" and "rt = (if rs = [] then None else Some (last rs))"
  shows "\<exists>res' m'. merge_link m res rt p = Some (res', m') \<and>
    seg (mem_cells m') res' rs p \<and> relink (set rs) m m'"
proof (cases "rs = []")
  case True
  with assms show ?thesis by (auto simp: merge_link_def)
next
  case False
  then obtain c where c: "mem_cells m (last rs) = Some c"
    using assms(1) seg_last_next by metis
  have "seg ((mem_cells m)(last rs \<mapsto> c\<lparr>li_next := p\<rparr>)) res rs p"
    using assms(1) False c by (intro seg_last_upd) (auto dest: seg_distinct)
  with False assms(2) c show ?thesis
    by (auto simp: merge_link_def set_rest_Some intro!: relink_set_rest)
qed

lemma merge_link_chain:
  assumes "list_at m res rs" and "list_at m p cs" and "distinct (rs @ cs)"
    and "rt = (if rs = [] then None else Some (last rs))"
  shows "\<exists>res' m'. merge_link m res rt p = Some (res', m') \<and>
    list_at m' res' (rs @ cs) \<and> relink (set rs) m m'"
proof -
  obtain res' m' where l: "merge_link m res rt p = Some (res', m')"
    "seg (mem_cells m') res' rs p" "relink (set rs) m m'"
    using merge_link_eq [OF assms(1,4)] by blast
  then have "list_at m' p cs"
    using assms(2,3) by (subst seg_relink) auto
  with l show ?thesis by (auto simp: seg_append)
qed

text \<open>Moving the first node \<open>a\<close> of a chain to the end of the result, as both branches do.\<close>

lemma merge_move:
  assumes "list_at m res rs" and "list_at m (Some a) (a # as)" and "distinct (rs @ a # as)"
    and "rt = (if rs = [] then None else Some (last rs))"
  obtains res' m1 p' m2 where "merge_link m res rt (Some a) = Some (res', m1)"
    and "globus_list_rest_ref m1 (Some a) = Some a" and "globus_list_rest m1 (Some a) = Some p'"
    and "set_rest m1 a None = Some m2"
    and "list_at m2 res' (rs @ [a])" and "list_at m2 p' as" and "relink (set (rs @ [a])) m m2"
proof -
  obtain res' m1 where l: "merge_link m res rt (Some a) = Some (res', m1)"
    "seg (mem_cells m1) res' rs (Some a)" "relink (set rs) m m1"
    using merge_link_eq [OF assms(1,4)] by blast
  have "list_at m1 (Some a) (a # as)"
    using assms(2,3) l(3) by (subst seg_relink) auto
  then obtain c where c: "mem_cells m1 a = Some c" "list_at m1 (li_next c) as" by auto
  let ?m2 = "m1\<lparr>mem_cells := (mem_cells m1)(a \<mapsto> c\<lparr>li_next := None\<rparr>)\<rparr>"
  have "list_at ?m2 res' (rs @ [a])"
    using l(2) assms(3) by (auto simp: seg_append)
  moreover have "list_at ?m2 (li_next c) as"
    using c(2) assms(3) by auto
  moreover have "relink (set rs \<union> {a}) m ?m2"
    by (rule relink_trans [OF l(3)]) (use c in \<open>auto intro: relink_set_rest\<close>)
  ultimately show thesis
    using l(1) c by (intro that) (auto simp: store_simps set_rest_Some)
qed

abbreviation by_datum ::
  "('v vptr \<Rightarrow> 'v vptr \<Rightarrow> bool) \<Rightarrow> 'v lmem \<Rightarrow> addr \<Rightarrow> addr \<Rightarrow> bool" where
  "by_datum R m \<equiv> \<lambda>a b. R (node_datum (mem_cells m) a) (node_datum (mem_cells m) b)"

text \<open>One iteration of the loop, for each branch.\<close>

lemma sort_merge_left:
  assumes "list_at m (Some a) (a # as)" and "list_at m (Some b) (b # bs)" and "list_at m res rs"
    and "distinct (rs @ (a # as) @ b # bs)" and "rt = (if rs = [] then None else Some (last rs))"
    and "by_datum R m a b"
  obtains res' m2 p' where
    "sort_merge_loop R m (Some a) (Some b) res rt = sort_merge_loop R m2 p' (Some b) res' (Some a)"
    and "list_at m2 res' (rs @ [a])" and "list_at m2 p' as" and "list_at m2 (Some b) (b # bs)"
    and "relink (set (rs @ [a])) m m2"
proof -
  obtain res' m1 p' m2 where mv: "merge_link m res rt (Some a) = Some (res', m1)"
    "globus_list_rest_ref m1 (Some a) = Some a" "globus_list_rest m1 (Some a) = Some p'"
    "set_rest m1 a None = Some m2" "list_at m2 res' (rs @ [a])" "list_at m2 p' as"
    and rl: "relink (set (rs @ [a])) m m2"
    by (rule merge_move [OF assms(3) assms(1) _ assms(5)]) (use assms(4) in auto)
  have "list_at m2 (Some b) (b # bs)"
    using assms(2,4) rl by (subst seg_relink) auto
  moreover have "sort_merge_loop R m (Some a) (Some b) res rt
      = sort_merge_loop R m2 p' (Some b) res' (Some a)"
    using assms(1,2,6) mv
    by (auto simp: sort_merge_loop.simps [of R m] store_simps node_datum_def)
  ultimately show thesis
    using mv(5,6) rl by (intro that)
qed

lemma sort_merge_right:
  assumes "list_at m (Some a) (a # as)" and "list_at m (Some b) (b # bs)" and "list_at m res rs"
    and "distinct (rs @ (a # as) @ b # bs)" and "rt = (if rs = [] then None else Some (last rs))"
    and "\<not> by_datum R m a b"
  obtains res' m2 p' where
    "sort_merge_loop R m (Some a) (Some b) res rt = sort_merge_loop R m2 (Some a) p' res' (Some b)"
    and "list_at m2 res' (rs @ [b])" and "list_at m2 p' bs" and "list_at m2 (Some a) (a # as)"
    and "relink (set (rs @ [b])) m m2"
proof -
  obtain res' m1 p' m2 where mv: "merge_link m res rt (Some b) = Some (res', m1)"
    "globus_list_rest_ref m1 (Some b) = Some b" "globus_list_rest m1 (Some b) = Some p'"
    "set_rest m1 b None = Some m2" "list_at m2 res' (rs @ [b])" "list_at m2 p' bs"
    and rl: "relink (set (rs @ [b])) m m2"
    by (rule merge_move [OF assms(3) assms(2) _ assms(5)]) (use assms(4) in auto)
  have "list_at m2 (Some a) (a # as)"
    using assms(1,4) rl by (subst seg_relink) auto
  moreover have "sort_merge_loop R m (Some a) (Some b) res rt
      = sort_merge_loop R m2 (Some a) p' res' (Some b)"
    using assms(1,2,6) mv
    by (auto simp: sort_merge_loop.simps [of R m] store_simps node_datum_def)
  ultimately show thesis
    using mv(5,6) rl by (intro that)
qed

lemma sort_merge_loop_done:
  assumes "list_at m l as" and "list_at m r bs" and "as = [] \<or> bs = []"
  shows "\<exists>q. sort_merge_loop R m l r res rt = merge_link m res rt q \<and> list_at m q (as @ bs)"
  using assms by (cases l; cases r) (auto simp: sort_merge_loop.simps store_simps)

lemma sort_merge_loop_correct:
  assumes "list_at m l as" and "list_at m r bs" and "list_at m res rs"
    and "distinct (rs @ as @ bs)" and "rt = (if rs = [] then None else Some (last rs))"
  shows "\<exists>p m'. sort_merge_loop R m l r res rt = Some (p, m') \<and>
    list_at m' p (rs @ merge_by (by_datum R m) as bs) \<and> relink (set (rs @ as @ bs)) m m'"
  using assms
proof (induction "length as + length bs" arbitrary: m l r res rs rt as bs rule: less_induct)
  case less
  show ?case
  proof (cases "as = [] \<or> bs = []")
    case True
    obtain q where q: "sort_merge_loop R m l r res rt = merge_link m res rt q"
      "list_at m q (as @ bs)"
      using sort_merge_loop_done [OF less.prems(1,2) True] by blast
    have "merge_by (by_datum R m) as bs = as @ bs" using True by auto
    with q merge_link_chain [OF less.prems(3) q(2) less.prems(4,5)] show ?thesis
      by (auto intro: relink_mono)
  next
    case False
    then obtain a as' b bs' where ab: "as = a # as'" "bs = b # bs'" "l = Some a" "r = Some b"
      using less.prems(1,2) by (cases as; cases bs) auto
    note prems = less.prems [unfolded ab]
    show ?thesis
    proof (cases "by_datum R m a b")
      case True
      then obtain res' m2 p' where st:
        "sort_merge_loop R m l r res rt = sort_merge_loop R m2 p' r res' (Some a)"
        "list_at m2 res' (rs @ [a])" "list_at m2 p' as'" "list_at m2 r bs"
        "relink (set (rs @ [a])) m m2"
        using sort_merge_left [OF prems] ab by metis
      then obtain p m' where "sort_merge_loop R m l r res rt = Some (p, m')"
        "list_at m' p ((rs @ [a]) @ merge_by (by_datum R m2) as' bs)"
        and rl: "relink (set ((rs @ [a]) @ as' @ bs)) m2 m'"
        using less.hyps [of as' bs m2 p' r res' "rs @ [a]" "Some a"] prems(4) ab by auto
      then show ?thesis
        using relink_trans [OF st(5) rl] True ab relink_datum [OF st(5)]
        by (auto elim!: relink_mono)
    next
      case False
      then obtain res' m2 p' where st:
        "sort_merge_loop R m l r res rt = sort_merge_loop R m2 l p' res' (Some b)"
        "list_at m2 res' (rs @ [b])" "list_at m2 p' bs'" "list_at m2 l as"
        "relink (set (rs @ [b])) m m2"
        using sort_merge_right [OF prems] ab by metis
      then obtain p m' where "sort_merge_loop R m l r res rt = Some (p, m')"
        "list_at m' p ((rs @ [b]) @ merge_by (by_datum R m2) as bs')"
        and rl: "relink (set ((rs @ [b]) @ as @ bs')) m2 m'"
        using less.hyps [of as bs' m2 l p' res' "rs @ [b]" "Some b"] prems(4) ab by auto
      then show ?thesis
        using relink_trans [OF st(5) rl] False ab relink_datum [OF st(5)]
        by (auto elim!: relink_mono)
    qed
  qed
qed

lemma sort_destructive_short:
  "list_at m p as \<Longrightarrow> length as < 2 \<Longrightarrow> globus_list_sort_destructive R m p = Some (p, m)"
  by (subst globus_list_sort_destructive.simps)
     (cases as; auto simp: store_simps)

lemma sort_destructive_correct:
  assumes "list_at m p as"
  shows "\<exists>p' m'. globus_list_sort_destructive R m p = Some (p', m') \<and>
    list_at m' p' (msort_by (by_datum R m) as) \<and> relink (set as) m m'"
  using assms
proof (induction "length as" arbitrary: m p as rule: less_induct)
  case less
  show ?case
  proof (cases "length as < 2")
    case True
    with less.prems show ?thesis by (simp add: sort_destructive_short)
  next
    case False
    define k where "k = length as div 2"
    let ?l = "take k as" and ?r = "drop k as"
    have k: "length ?l < length as" "length ?r < length as" "?l @ ?r = as" "distinct (?l @ ?r)"
      using False seg_distinct [OF less.prems] by (auto simp: k_def)
    then have disj: "set ?l \<inter> set ?r = {}" by (metis distinct_append)
    obtain q m1 where h: "globus_list_halves_destructive m p = Some (p, q, m1)"
      "list_at m1 p ?l" "list_at m1 q ?r" "relink (set ?l) m m1"
      using halves_destructive_eq [OF less.prems] False by (auto simp: k_def)
    obtain p2 m2 where s2: "globus_list_sort_destructive R m1 p = Some (p2, m2)"
      "list_at m2 p2 (msort_by (by_datum R m1) ?l)" "relink (set ?l) m1 m2"
      using less.hyps [OF k(1) h(2)] by blast
    have r2: "list_at m2 q ?r" using h(3) s2(3) disj by (subst seg_relink) auto
    obtain p3 m3 where s3: "globus_list_sort_destructive R m2 q = Some (p3, m3)"
      "list_at m3 p3 (msort_by (by_datum R m2) ?r)" "relink (set ?r) m2 m3"
      using less.hyps [OF k(2) r2] by blast
    have l3: "list_at m3 p2 (msort_by (by_datum R m1) ?l)"
      using s2(2) s3(3) disj by (subst seg_relink) auto
    note rl = relink_datum [OF h(4)] relink_datum [OF s2(3)] relink_datum [OF s3(3)]
    have u: "set ?l \<union> set ?r = set as" using k(3) by (metis set_append)
    let ?L = "msort_by (by_datum R m) ?l" and ?R = "msort_by (by_datum R m) ?r"
    obtain p4 m4 where s4: "sort_merge_loop R m3 p2 p3 None None = Some (p4, m4)"
      "list_at m4 p4 (merge_by (by_datum R m) ?L ?R)" "relink (set as) m3 m4"
      using sort_merge_loop_correct [OF l3 s3(2), of None "[]" None R] disj k(4) rl u
      by auto
    obtain a c where c: "p = Some a" "globus_list_rest m p = Some (Some c)"
      using less.prems False by (cases as; cases "tl as") (auto simp: store_simps)
    have "globus_list_sort_destructive R m p = Some (p4, m4)"
      by (subst globus_list_sort_destructive.simps)
        (use c h(1) s2(1) s3(1) s4(1) in
          \<open>simp add: store_simps globus_list_sort_merge_destructive_def\<close>)
    moreover have "msort_by (by_datum R m) as = merge_by (by_datum R m) ?L ?R"
      using False by (simp add: msort_by.simps [of _ as] k_def)
    moreover have "relink (set as) m m4"
      using relink_trans [OF relink_trans [OF h(4) s2(3)] relink_trans [OF s3(3) s4(3)]]
      by (rule relink_mono) (auto dest: in_set_takeD in_set_dropD)
    ultimately show ?thesis using s4(2) by auto
  qed
qed


section \<open>Construction, copying and removal\<close>

lemma globus_list_insert_eq:
  assumes "mem_ok m" and "list_at m p as" and "0 < mem_room m"
  shows "\<exists>a m'. globus_list_insert active m p d = Some (Some a, m') \<and>
    list_at m' (Some a) (a # as) \<and> list_data m' (a # as) = d # list_data m as \<and>
    mem_ok m' \<and> mem_cells m a = None \<and> mem_room m' = mem_room m - 1 \<and>
    (\<forall>b. b \<noteq> a \<longrightarrow> mem_cells m' b = mem_cells m b)"
proof -
  let ?a = "mem_brk m"
  have f: "mem_cells m ?a = None" "?a \<notin> set as"
    using assms(1,2) by (auto dest: seg_live)
  with f assms show ?thesis
    by (auto simp: globus_list_insert_def mem_alloc_Some node_datum_def
        intro!: mem_alloc_ok [OF assms(1), of _ ?a] simp: mem_alloc_def)
qed

text \<open>The copy consists of fresh nodes and leaves every old node as it was.\<close>

definition copied :: "'v lmem \<Rightarrow> addr list \<Rightarrow> 'v lmem \<Rightarrow> addr list \<Rightarrow> bool" where
  "copied m as m' as' \<longleftrightarrow>
     mem_ok m' \<and> list_data m' as' = list_data m as \<and>
     (\<forall>a\<in>set as'. mem_cells m a = None) \<and>
     (\<forall>a. a \<notin> set as' \<longrightarrow> mem_cells m' a = mem_cells m a) \<and>
     mem_room m' = mem_room m - length as"

lemma copy_correct:
  assumes "mem_ok m" and "list_at m p as" and "length as \<le> mem_room m"
  shows "\<exists>p' m' as'. globus_list_copy active m p = Some (p', m') \<and>
    list_at m' p' as' \<and> copied m as m' as'"
  using assms
proof (induction as arbitrary: m p)
  case Nil
  then show ?case
    by (intro exI [of _ None] exI [of _ m] exI [of _ "[]"])
       (simp add: globus_list_copy.simps copied_def)
next
  case (Cons x as)
  obtain c where c: "p = Some x" "mem_cells m x = Some c" "list_at m (li_next c) as"
    using Cons.prems(2) by auto
  let ?a = "mem_brk m"
  let ?n = "\<lparr>li_datum = li_datum c, li_next = None, li_malloced = \<not> active\<rparr>"
  obtain m1 where m1: "mem_alloc m ?n = Some (?a, m1)"
    "mem_cells m1 = (mem_cells m)(?a \<mapsto> ?n)" "mem_room m1 = mem_room m - 1"
    using Cons.prems(3) by (simp add: mem_alloc_Some)
  have ok1: "mem_ok m1" using Cons.prems(1) m1(1) by (rule mem_alloc_ok)
  have fresh: "mem_cells m ?a = None" "?a \<notin> set (x # as)"
    using Cons.prems(1,2) by (auto dest: seg_live)
  have "list_at m1 (li_next c) as" and "length as \<le> mem_room m1"
    using c(3) fresh m1(2,3) Cons.prems(3) by simp_all
  then obtain p2 m2 bs where ih: "globus_list_copy active m1 (li_next c) = Some (p2, m2)"
    "list_at m2 p2 bs" "copied m1 as m2 bs"
    using Cons.IH [OF ok1] by blast
  have "?a \<notin> set bs"
    using ih(3) m1(2) unfolding copied_def by (metis fun_upd_same option.distinct(1))
  with ih(3) m1(2) have a2: "?a \<notin> set bs" "mem_cells m2 ?a = Some ?n"
    by (simp_all add: copied_def)
  let ?m3 = "m2\<lparr>mem_cells := (mem_cells m2)(?a \<mapsto> ?n\<lparr>li_next := p2\<rparr>)\<rparr>"
  have "globus_list_copy active m p = Some (Some ?a, ?m3)"
    by (subst globus_list_copy.simps) (use c m1(1) ih(1) a2(2) in \<open>simp add: set_rest_Some\<close>)
  moreover have "list_at ?m3 (Some ?a) (?a # bs)" using ih(2) a2(1) by simp
  moreover have "copied m (x # as) ?m3 (?a # bs)"
  proof -
    have "mem_ok ?m3"
      using ih(3) a2(2) by (auto simp: copied_def mem_ok_def)
    moreover have "node_datum (mem_cells m) x = li_datum c"
      using c(2) by (simp add: node_datum_def)
    ultimately show ?thesis
      using ih(3) a2(1) fresh m1(2,3) by (auto simp: copied_def split: if_splits)
  qed
  ultimately show ?case by blast
qed

lemma copied_frame: "copied m as m' as' \<Longrightarrow> mem_cells m a \<noteq> None \<Longrightarrow> mem_cells m' a = mem_cells m a"
  by (metis copied_def)

lemma copied_old:
  "copied m as m' as' \<Longrightarrow> seg (mem_cells m) p bs q \<Longrightarrow>
   seg (mem_cells m') p bs q \<and> list_data m' bs = list_data m bs"
proof -
  assume c: "copied m as m' as'" and s: "seg (mem_cells m) p bs q"
  then have "mem_cells m' b = mem_cells m b" if "b \<in> set bs" for b
    using that by (metis copied_def seg_live)
  then show ?thesis using s seg_cong [of bs "mem_cells m'" "mem_cells m"]
    by (auto simp: node_datum_def)
qed

lemma concat_last_eq: "list_at m p as \<Longrightarrow> as \<noteq> [] \<Longrightarrow> concat_last m p = Some (last as)"
proof (induction as arbitrary: p)
  case (Cons a as)
  then show ?case
    by (subst concat_last.simps) (cases as; auto)
qed simp

lemma list_remove_loop_eq:
  assumes "list_at m (Some i) (i # js)" and "e \<in> set js"
  shows "\<exists>m'. list_remove_loop m (Some i) (li_next (the (mem_cells m i))) e d = Some (d, m') \<and>
    list_at m' (Some i) (i # remove1 e js) \<and> mem_cells m' e = None \<and>
    mem_room m' = Suc (mem_room m) \<and> mem_brk m' = mem_brk m \<and>
    (\<forall>a. a \<noteq> e \<longrightarrow> map_option li_datum (mem_cells m' a) = map_option li_datum (mem_cells m a)) \<and>
    (\<forall>a. a \<notin> set (i # js) \<longrightarrow> mem_cells m' a = mem_cells m a)"
  using assms
proof (induction js arbitrary: i)
  case (Cons j js)
  obtain ci cj where ij: "mem_cells m i = Some ci" "li_next ci = Some j"
    "mem_cells m j = Some cj" "list_at m (li_next cj) js"
    using Cons.prems(1) by auto
  have d: "distinct (i # j # js)" using Cons.prems(1) by (rule seg_distinct)
  show ?case
  proof (cases "e = j")
    case True
    let ?m1 = "m\<lparr>mem_cells := (mem_cells m)(i \<mapsto> ci\<lparr>li_next := li_next cj\<rparr>)\<rparr>"
    have "list_remove_loop m (Some i) (Some j) e d
        = Some (d, ?m1\<lparr>mem_cells := (mem_cells ?m1)(j := None), mem_room := Suc (mem_room m)\<rparr>)"
      by (subst list_remove_loop.simps)
        (use True ij d in \<open>simp add: store_simps set_rest_Some mem_free_def\<close>)
    with True ij d show ?thesis by auto
  next
    case False
    have "list_at m (Some j) (j # js)" and "e \<in> set js" using ij Cons.prems(2) False by auto
    then obtain m' where m': "list_remove_loop m (Some j) (li_next (the (mem_cells m j))) e d = Some (d, m')"
      "list_at m' (Some j) (j # remove1 e js)" "mem_cells m' e = None"
      "mem_room m' = Suc (mem_room m)" "mem_brk m' = mem_brk m"
      "\<forall>a. a \<noteq> e \<longrightarrow> map_option li_datum (mem_cells m' a) = map_option li_datum (mem_cells m a)"
      "\<forall>a. a \<notin> set (j # js) \<longrightarrow> mem_cells m' a = mem_cells m a"
      using Cons.IH by blast
    have "list_remove_loop m (Some i) (Some j) e d = Some (d, m')"
      by (subst list_remove_loop.simps) (use False ij m'(1) in \<open>simp add: store_simps\<close>)
    moreover have "mem_cells m' i = mem_cells m i" using m'(7) d by auto
    ultimately show ?thesis using m' ij False d by auto
  qed
qed simp

text \<open>What is left in the store when the node \<open>e\<close> of the chain \<open>as\<close> has been released.\<close>

definition released :: "'v lmem \<Rightarrow> addr list \<Rightarrow> addr \<Rightarrow> 'v lmem \<Rightarrow> bool" where
  "released m as e m' \<longleftrightarrow>
     mem_cells m' e = None \<and> mem_room m' = Suc (mem_room m) \<and> mem_brk m' = mem_brk m \<and>
     (\<forall>a. a \<noteq> e \<longrightarrow> node_datum (mem_cells m') a = node_datum (mem_cells m) a) \<and>
     (\<forall>a. a \<noteq> e \<longrightarrow> (mem_cells m' a = None) = (mem_cells m a = None)) \<and>
     (\<forall>a. a \<notin> set as \<longrightarrow> mem_cells m' a = mem_cells m a)"

lemma released_ok: "released m as e m' \<Longrightarrow> mem_ok m \<Longrightarrow> mem_ok m'"
  unfolding mem_ok_def released_def by metis

lemma globus_list_remove_eq:
  assumes "list_at m p as" and "e \<in> set as"
  shows "\<exists>p' m'. globus_list_remove m p e = Some (node_datum (mem_cells m) e, p', m') \<and>
    list_at m' p' (remove1 e as) \<and> released m as e m'"
proof -
  obtain i js where as: "as = i # js" "p = Some i" using assms by (cases as) auto
  obtain ci where ci: "mem_cells m i = Some ci" "list_at m (li_next ci) js"
    using assms(1) as by auto
  obtain ce where ce: "mem_cells m e = Some ce" using assms seg_live by fastforce
  have dist: "distinct (i # js)" using assms(1) as seg_distinct by blast
  show ?thesis
  proof (cases "e = i")
    case True
    with as ci ce dist show ?thesis
      by (auto simp: globus_list_remove_def store_simps mem_free_def node_datum_def released_def)
  next
    case False
    then have "list_at m (Some i) (i # js)" and "e \<in> set js" using assms as by auto
    then obtain m' where m': "list_remove_loop m (Some i) (li_next (the (mem_cells m i))) e
          (li_datum ce) = Some (li_datum ce, m')"
      "list_at m' (Some i) (i # remove1 e js)" "mem_cells m' e = None"
      "mem_room m' = Suc (mem_room m)" "mem_brk m' = mem_brk m"
      "\<forall>a. a \<noteq> e \<longrightarrow> map_option li_datum (mem_cells m' a) = map_option li_datum (mem_cells m a)"
      "\<forall>a. a \<notin> set (i # js) \<longrightarrow> mem_cells m' a = mem_cells m a"
      using list_remove_loop_eq [of m i js e "li_datum ce"] by blast
    have live: "(mem_cells m' a = None) = (mem_cells m a = None)" if "a \<noteq> e" for a
      using m'(6) that by (metis map_option_is_None)
    have "node_datum (mem_cells m') a = node_datum (mem_cells m) a" if "a \<noteq> e" for a
      by (rule node_datum_eqI) (use m'(6) that in simp)
    with m'(3,4,5,7) live as have "released m as e m'"
      by (simp add: released_def)
    moreover have "globus_list_remove m p e = Some (node_datum (mem_cells m) e, p, m')"
      using m'(1) as False ci ce
      by (simp add: globus_list_remove_def store_simps node_datum_def)
    ultimately show ?thesis using m'(2) as False by auto
  qed
qed


lemma sort_copy_correct:
  assumes "mem_ok m" and "list_at m p as" and "length as \<le> mem_room m"
  obtains p' m' bs where "globus_list_sort active R m p = Some (p', m')" and "list_at m' p' bs"
    and "list_data m' bs = msort_by R (list_data m as)"
    and "list_at m' p as" and "list_data m' as = list_data m as" and "mem_ok m'"
    and "set bs \<inter> set as = {}"
proof -
  obtain q m1 cs where cp: "globus_list_copy active m p = Some (q, m1)" "list_at m1 q cs"
    "copied m as m1 cs"
    using copy_correct [OF assms] by blast
  obtain p' m' where st: "globus_list_sort_destructive R m1 q = Some (p', m')"
    "list_at m' p' (msort_by (by_datum R m1) cs)" "relink (set cs) m1 m'"
    using sort_destructive_correct [OF cp(2)] by blast
  have old: "list_at m1 p as" "list_data m1 as = list_data m as"
    using copied_old [OF cp(3) assms(2)] by auto
  have disj: "set cs \<inter> set as = {}"
    using cp(3) assms(2) by (auto simp: copied_def dest: seg_live)
  have "list_data m' (msort_by (by_datum R m1) cs) = msort_by R (list_data m as)"
    using cp(3) relink_datum [OF st(3)] map_msort_by [of "node_datum (mem_cells m1)" R cs]
    by (simp add: copied_def)
  moreover have "list_at m' p as"
    using old(1) st(3) disj by (subst seg_relink) auto
  moreover have "list_data m' as = list_data m as"
    using old(2) relink_datum [OF st(3)] by simp
  moreover have "mem_ok m'" using relink_ok [OF st(3)] cp(3) by (simp add: copied_def)
  ultimately show thesis
    using cp(1) st(1,2) disj
    by (intro that [of p' m' "msort_by (by_datum R m1) cs"]) (auto simp: globus_list_sort_def)
qed

lemma concat_correct:
  assumes "mem_ok m" and "list_at m p as" and "list_at m q bs"
    and "length as + length bs \<le> mem_room m"
  obtains r m' cs where "globus_list_concat active m p q = Some (r, m')" and "list_at m' r cs"
    and "list_data m' cs = list_data m as @ list_data m bs"
    and "\<And>a. mem_cells m a \<noteq> None \<Longrightarrow> mem_cells m' a = mem_cells m a"
proof -
  obtain q1 m1 bs' where b: "globus_list_copy active m q = Some (q1, m1)" "list_at m1 q1 bs'"
    "copied m bs m1 bs'"
    using copy_correct [OF assms(1,3)] assms(4) by fastforce
  show thesis
  proof (cases "as = []")
    case True
    with assms(2) have "p = None" by simp
    show thesis
      by (rule that [of q1 m1 bs'])
         (use b True \<open>p = None\<close> copied_frame [OF b(3)] in
           \<open>simp_all add: globus_list_concat_def copied_def\<close>)
  next
    case False
    have pn: "p \<noteq> None" using assms(2) False by (cases as) auto
    have a1: "list_at m1 p as" "list_data m1 as = list_data m as"
      using copied_old [OF b(3) assms(2)] by auto
    have "mem_ok m1" "length as \<le> mem_room m1"
      using b(3) assms(4) by (auto simp: copied_def)
    from copy_correct [OF this(1) a1(1) this(2)]
    obtain p2 m2 as' where a: "globus_list_copy active m1 p = Some (p2, m2)" "list_at m2 p2 as'"
      "copied m1 as m2 as'" by blast
    have ne: "as' \<noteq> []" using a(3) False by (auto simp: copied_def dest: arg_cong [of _ _ length])
    obtain c where c: "mem_cells m2 (last as') = Some c" using seg_last_next [OF a(2) ne] by auto
    have b2: "list_at m2 q1 bs'" "list_data m2 bs' = list_data m bs"
      using copied_old [OF a(3) b(2)] b(3) unfolding copied_def by metis+
    have disj: "last as' \<notin> set bs'" using a(3) b(2) ne by (auto simp: copied_def dest: seg_live)
    have d: "distinct as'" using a(2) by (rule seg_distinct)
    let ?m3 = "m2\<lparr>mem_cells := (mem_cells m2)(last as' \<mapsto> c\<lparr>li_next := q1\<rparr>)\<rparr>"
    have rl: "relink {last as'} m2 ?m3" using c by (intro relink_set_rest) auto
    have "globus_list_concat active m p q = Some (p2, ?m3)"
      using b(1) a(1,2) ne c pn by (auto simp: globus_list_concat_def concat_last_eq set_rest_Some)
    moreover have "list_at ?m3 p2 (as' @ bs')"
      using seg_last_upd [OF a(2) ne d c] b2(1) disj by (auto simp: seg_append)
    moreover have "list_data ?m3 (as' @ bs') = list_data m as @ list_data m bs"
      using relink_datum [OF rl] a(3) a1(2) b2(2) by (simp add: copied_def)
    moreover have "mem_cells ?m3 x = mem_cells m x" if "mem_cells m x \<noteq> None" for x
    proof -
      have "mem_cells m2 x = mem_cells m x"
        using that copied_frame [OF b(3)] copied_frame [OF a(3)] by metis
      moreover have "x \<noteq> last as'"
        using that a(3) copied_frame [OF b(3) that] last_in_set [OF ne] by (auto simp: copied_def)
      ultimately show ?thesis by simp
    qed
    ultimately show thesis by (intro that)
  qed
qed

text \<open>Releasing a whole chain.\<close>

lemma destroy_all_loop_eq:
  assumes "list_at m p as" and "mem_ok m"
  shows "\<exists>m'. list_destroy_all_loop m p fr
      = Some (fr @ map the (filter (\<lambda>d. d \<noteq> None) (list_data m as)), m') \<and>
    (\<forall>a\<in>set as. mem_cells m' a = None) \<and> (\<forall>a. a \<notin> set as \<longrightarrow> mem_cells m' a = mem_cells m a) \<and>
    mem_room m' = mem_room m + length as \<and> mem_ok m'"
  using assms
proof (induction as arbitrary: m p fr)
  case Nil
  then show ?case by (subst list_destroy_all_loop.simps) (simp add: store_simps)
next
  case (Cons a as)
  obtain p1 m1 where r: "globus_list_remove m p a = Some (node_datum (mem_cells m) a, p1, m1)"
    "list_at m1 p1 as" "released m (a # as) a m1"
    using globus_list_remove_eq [OF Cons.prems(1), of a] by auto
  have ok: "mem_ok m1" using released_ok [OF r(3) Cons.prems(2)] .
  have "a \<notin> set as" using seg_distinct [OF Cons.prems(1)] by simp
  then have data: "list_data m1 as = list_data m as" using r(3) by (auto simp: released_def)
  let ?fr = "case node_datum (mem_cells m) a of None \<Rightarrow> fr | Some v \<Rightarrow> fr @ [v]"
  have "list_destroy_all_loop m p fr = list_destroy_all_loop m1 p1 ?fr"
    by (subst list_destroy_all_loop.simps)
      (use Cons.prems(1) r(1) in \<open>auto simp: store_simps split: option.splits\<close>)
  with Cons.IH [OF r(2) ok, of ?fr] data r(3) \<open>a \<notin> set as\<close> show ?case
    by (cases "node_datum (mem_cells m) a") (auto simp: released_def)
qed


lemma globus_list_free_eq:
  assumes "list_at m p as"
  shows "\<exists>m'. globus_list_free m p = Some m' \<and> (\<forall>a\<in>set as. mem_cells m' a = None) \<and>
    (\<forall>a. a \<notin> set as \<longrightarrow> mem_cells m' a = mem_cells m a) \<and> mem_brk m' = mem_brk m \<and>
    mem_room m' = mem_room m + length as"
  using assms
proof (induction as arbitrary: m p)
  case Nil
  then show ?case by (subst globus_list_free.simps) (simp add: store_simps)
next
  case (Cons a as)
  obtain p1 m1 where r: "globus_list_remove m p a = Some (node_datum (mem_cells m) a, p1, m1)"
    "list_at m1 p1 as" "released m (a # as) a m1"
    using globus_list_remove_eq [OF Cons.prems(1), of a] by auto
  have "globus_list_free m p = globus_list_free m1 p1"
    by (subst globus_list_free.simps) (use Cons.prems(1) r(1) in \<open>auto simp: store_simps\<close>)
  with Cons.IH [OF r(2)] r(3) seg_distinct [OF Cons.prems(1)] show ?case
    by (auto simp: released_def)
qed

text \<open>Splitting a string: joining fields with the delimiter and splitting gives them back, reversed.\<close>

fun join_fields :: "char \<Rightarrow> string list \<Rightarrow> string" where
  "join_fields d [] = []"
| "join_fields d [f] = f"
| "join_fields d (f # fs) = f @ d # join_fields d fs"

lemma from_string_loop_eq:
  assumes "mem_ok m" and "list_at m p as" and "length fs \<le> mem_room m"
    and "\<forall>f\<in>set fs. d \<notin> set f" and "fs \<noteq> [] \<longrightarrow> last fs \<noteq> []"
  shows "\<exists>p' m' as'. from_string_loop active m p (join_fields d fs) d None = Some (p', m') \<and>
    list_at m' p' as' \<and> list_data m' as' = map Some (rev fs) @ list_data m as \<and> mem_ok m'"
  using assms
proof (induction d fs arbitrary: m p as rule: join_fields.induct)
  case (1 d)
  then show ?case by (subst from_string_loop.simps) auto
next
  case (2 d f)
  then obtain a m' where "globus_list_insert active m p (Some f) = Some (Some a, m')"
    "list_at m' (Some a) (a # as)" "list_data m' (a # as) = Some f # list_data m as" "mem_ok m'"
    using globus_list_insert_eq [of m p as active "Some f"] by auto
  with 2 show ?case
    by (subst from_string_loop.simps) (auto intro!: exI [of _ "a # as"])
next
  case (3 d f g fs)
  then obtain a m1 where i: "globus_list_insert active m p (Some f) = Some (Some a, m1)"
    "list_at m1 (Some a) (a # as)" "list_data m1 (a # as) = Some f # list_data m as" "mem_ok m1"
    "mem_room m1 = mem_room m - 1"
    using globus_list_insert_eq [of m p as active "Some f"] by auto
  have f: "takeWhile (\<lambda>c. c \<noteq> d) (f @ d # x) = f" "dropWhile (\<lambda>c. c \<noteq> d) (f @ d # x) = d # x" for x
    using 3 by (auto simp: takeWhile_append dropWhile_append)
  have "length (g # fs) \<le> mem_room m1" "\<forall>f\<in>set (g # fs). d \<notin> set f"
    "g # fs \<noteq> [] \<longrightarrow> last (g # fs) \<noteq> []"
    using "3.prems"(3,4,5) i(5) by simp_all
  then obtain p' m' as' where "from_string_loop active m1 (Some a) (join_fields d (g # fs)) d None
      = Some (p', m')" "list_at m' p' as'"
    "list_data m' as' = map Some (rev (g # fs)) @ list_data m1 (a # as)" "mem_ok m'"
    using "3.IH" [OF i(4,2)] by blast
  with i f show ?case
    by (subst from_string_loop.simps) auto
qed


section \<open>Properties\<close>

text \<open>A store with the three-node list 30, 10, 20, for the witnesses.\<close>

definition example_lmem :: "nat lmem" where
  "example_lmem =
     \<lparr>mem_cells = [0 \<mapsto> \<lparr>li_datum = Some 30, li_next = Some 1, li_malloced = False\<rparr>,
                   1 \<mapsto> \<lparr>li_datum = Some 10, li_next = Some 2, li_malloced = False\<rparr>,
                   2 \<mapsto> \<lparr>li_datum = Some 20, li_next = None, li_malloced = False\<rparr>],
      mem_brk = 3, mem_room = 10\<rparr>"

lemma example_lmem_facts:
  "mem_ok example_lmem" "list_at example_lmem (Some 0) [0, 1, 2]"
  "list_data example_lmem [0, 1, 2] = [Some 30, Some 10, Some 20]" "mem_room example_lmem = 10"
  by (auto simp: example_lmem_def mem_ok_def node_datum_def)

text \<open>
  C35. \<open>globus_list_sort\<close> returns, on every well-formed list and with enough memory for the
  copy, a list that holds the same data (as a multiset) in ascending order of any key that the
  relation compares (the relation may be the strict or the non-strict comparison), and it
  leaves the list it was given untouched.
\<close>

theorem globus_list_sort_correct:
  fixes f :: "'v vptr \<Rightarrow> 'k::linorder"
  assumes "mem_ok m" and "list_at m head as" and "length as \<le> mem_room m"
    and "\<And>x y. R x y \<Longrightarrow> f x \<le> f y" and "\<And>x y. \<not> R x y \<Longrightarrow> f y \<le> f x"
  shows "\<exists>p m' bs. globus_list_sort active R m head = Some (p, m') \<and> list_at m' p bs \<and>
    mset (list_data m' bs) = mset (list_data m as) \<and> sorted (map f (list_data m' bs)) \<and>
    list_at m' head as \<and> list_data m' as = list_data m as"
proof -
  obtain p' m' bs where "globus_list_sort active R m head = Some (p', m')" "list_at m' p' bs"
    "list_data m' bs = msort_by R (list_data m as)"
    "list_at m' head as" "list_data m' as = list_data m as"
    by (rule sort_copy_correct [OF assms(1,2,3)])
  with sorted_msort_by [of R f "list_data m as", OF assms(4,5)] show ?thesis
    by (metis mset_msort_by)
qed

theorem globus_list_sort_witness:
  "\<exists>p m' bs. globus_list_sort True (\<lambda>x y. the x < (the y :: nat)) example_lmem (Some 0) = Some (p, m') \<and>
    list_at m' p bs \<and> mset (list_data m' bs) = {#Some 30, Some 10, Some 20#} \<and>
    sorted (map the (list_data m' bs)) \<and> list_at m' (Some 0) [0, 1, 2] \<and>
    list_data m' [0, 1, 2] = [Some 30, Some 10, Some 20]"
  using globus_list_sort_correct [of example_lmem "Some 0" "[0, 1, 2]" "\<lambda>x y. the x < (the y :: nat)"
      the True] example_lmem_facts
  by simp

text \<open>
  \<open>globus_list_remove\<close> on a node of the list returns that node's datum, unlinks exactly this
  node (the remaining nodes keep their order and their data), releases its memory, and writes
  to no cell outside the list.
\<close>

theorem globus_list_remove_correct:
  assumes "list_at m head as" and "entry \<in> set as"
  shows "\<exists>head' m'. globus_list_remove m head entry
      = Some (node_datum (mem_cells m) entry, head', m') \<and>
    list_at m' head' (remove1 entry as) \<and>
    list_data m' (remove1 entry as) = list_data m (remove1 entry as) \<and>
    mem_cells m' entry = None \<and> (\<forall>a. a \<notin> set as \<longrightarrow> mem_cells m' a = mem_cells m a)"
proof -
  obtain p' m' where r: "globus_list_remove m head entry
      = Some (node_datum (mem_cells m) entry, p', m')"
    "list_at m' p' (remove1 entry as)" "released m as entry m'"
    using globus_list_remove_eq [OF assms] by blast
  moreover have "entry \<notin> set (remove1 entry as)"
    using seg_distinct [OF assms(1)] by simp
  ultimately show ?thesis by (auto simp: released_def intro!: exI [of _ p'] exI [of _ m'])
qed

theorem globus_list_remove_witness:
  "\<exists>head' m'. globus_list_remove example_lmem (Some 0) 1 = Some (Some 10, head', m') \<and>
    list_at m' head' [0, 2] \<and> list_data m' [0, 2] = list_data example_lmem [0, 2] \<and>
    mem_cells m' 1 = None \<and> (\<forall>a. a \<notin> {0, 1, 2} \<longrightarrow> mem_cells m' a = mem_cells example_lmem a)"
  using globus_list_remove_correct [OF example_lmem_facts(2), of 1] example_lmem_facts(3)
  by simp

text \<open>
  \<open>globus_list_destroy_all\<close> hands every non-NULL datum of the list to \<open>data_free\<close>, once and
  in list order, and releases every node of the list and nothing else.
\<close>

theorem globus_list_destroy_all_correct:
  assumes "mem_ok m" and "list_at m head as"
  shows "\<exists>m'. globus_list_destroy_all m head
      = Some (map the (filter (\<lambda>d. d \<noteq> None) (list_data m as)), m') \<and>
    (\<forall>a\<in>set as. mem_cells m' a = None) \<and> (\<forall>a. a \<notin> set as \<longrightarrow> mem_cells m' a = mem_cells m a) \<and>
    mem_room m' = mem_room m + length as"
  using destroy_all_loop_eq [OF assms(2,1), of "[]"]
  by (auto simp: globus_list_destroy_all_def)

theorem globus_list_destroy_all_witness:
  "\<exists>m'. globus_list_destroy_all example_lmem (Some 0) = Some ([30, 10, 20], m') \<and>
    (\<forall>a\<in>{0, 1, 2}. mem_cells m' a = None) \<and>
    (\<forall>a. a \<notin> {0, 1, 2} \<longrightarrow> mem_cells m' a = mem_cells example_lmem a) \<and> mem_room m' = 13"
  using globus_list_destroy_all_correct [OF example_lmem_facts(1,2)] example_lmem_facts(3,4)
  by simp

end
