(* ===== verification/Globus_Fifo.thy ===== *)
theory Globus_Fifo
  imports Globus_List
begin

text \<open>
  The queue of \<open>common/source/library/globus_fifo.c\<close>: a record of a head and a tail pointer into
  a chain of list nodes, and a counter. \<open>fifo_inv\<close> relates the three; every operation keeps it.
  The locale \<open>fifo_queue\<close> states what a client of a queue relies on; its interpretation on the
  operations below gives that every sequence of operations behaves as a list of data.

  The argument \<open>None\<close> stands for a NULL \<open>fifo\<close>; where the code also tests \<open>*fifo\<close> it takes the
  same branch (\<open>globus_fifo_move\<close> tells the two apart). The result \<open>None\<close> stands for a fault. The
  allocation of the small \<open>globus_fifo_s\<close> record itself is taken to succeed.
\<close>

section \<open>State and operations\<close>

record globus_fifo_s =
  ff_head :: "addr option"
  ff_tail :: "addr option"
  ff_size :: "64 word"

definition fifo_cleared :: globus_fifo_s where
  "fifo_cleared = \<lparr>ff_head = None, ff_tail = None, ff_size = 0\<rparr>"

text \<open>\<open>globus_fifo_init\<close>: \<open>present\<close> is whether the argument is a non-NULL pointer.\<close>

definition globus_fifo_init :: "bool \<Rightarrow> int \<times> globus_fifo_s option" where
  "globus_fifo_init present = (if present then (0, Some fifo_cleared) else (-1, None))"

definition globus_fifo_destroy :: "'v lmem \<Rightarrow> globus_fifo_s option \<Rightarrow> 'v lmem option" where
  "globus_fifo_destroy m fifo =
     (case fifo of None \<Rightarrow> Some m | Some s \<Rightarrow> globus_list_free m (ff_head s))"

definition globus_fifo_destroy_all ::
  "'v lmem \<Rightarrow> globus_fifo_s option \<Rightarrow> ('v list \<times> 'v lmem) option" where
  "globus_fifo_destroy_all m fifo =
     (case fifo of None \<Rightarrow> Some ([], m) | Some s \<Rightarrow> globus_list_destroy_all m (ff_head s))"

definition globus_fifo_empty :: "globus_fifo_s option \<Rightarrow> bool option" where
  "globus_fifo_empty fifo = do { s \<leftarrow> fifo; Some (ff_head s = None) }"

text \<open>The counter is an \<open>unsigned long\<close>, returned as an \<open>int\<close>.\<close>

definition globus_fifo_size :: "globus_fifo_s option \<Rightarrow> int option" where
  "globus_fifo_size fifo = do { s \<leftarrow> fifo; Some (wrap_s 32 (uint (ff_size s))) }"

definition globus_fifo_enqueue ::
  "bool \<Rightarrow> 'v lmem \<Rightarrow> globus_fifo_s option \<Rightarrow> 'v vptr \<Rightarrow>
   (int \<times> 'v lmem \<times> globus_fifo_s option) option" where
  "globus_fifo_enqueue active m fifo datum =
     (case fifo of
        None \<Rightarrow> Some (-1, m, None)
      | Some s \<Rightarrow>
         (case ff_tail s of
            None \<Rightarrow> do {
              (p, m1) \<leftarrow> globus_list_insert active m None datum;
              Some (0, m1, Some (s\<lparr>ff_tail := p, ff_head := p, ff_size := ff_size s + 1\<rparr>)) }
          | Some t \<Rightarrow> do {
              a \<leftarrow> globus_list_rest_ref m (Some t);
              r \<leftarrow> globus_list_rest m (Some t);
              (p, m1) \<leftarrow> globus_list_insert active m r datum;
              m2 \<leftarrow> set_rest m1 a p;
              t' \<leftarrow> globus_list_rest m2 (Some t);
              Some (0, m2, Some (s\<lparr>ff_tail := t', ff_size := ff_size s + 1\<rparr>)) }))"

text \<open>The loop of \<open>globus_fifo_copy\<close> that moves the tail to the last node.\<close>

partial_function (option) fifo_copy_tail :: "'v lmem \<Rightarrow> addr option \<Rightarrow> addr option option" where
  "fifo_copy_tail m tail =
     do { r \<leftarrow> globus_list_rest m tail;
          if globus_list_empty r then Some tail else fifo_copy_tail m r }"

text \<open>\<open>alloc_ok\<close> is whether the allocation of the copy's handle succeeds.\<close>

definition globus_fifo_copy ::
  "bool \<Rightarrow> bool \<Rightarrow> 'v lmem \<Rightarrow> globus_fifo_s option \<Rightarrow> (globus_fifo_s option \<times> 'v lmem) option" where
  "globus_fifo_copy active alloc_ok m fifo =
     (case fifo of
        None \<Rightarrow> Some (None, m)
      | Some s \<Rightarrow>
         (if \<not> alloc_ok then Some (None, m)
          else do {
            (h, m1) \<leftarrow> globus_list_copy active m (ff_head s);
            t \<leftarrow> fifo_copy_tail m1 h;
            Some (Some \<lparr>ff_head = h, ff_tail = t, ff_size = ff_size s\<rparr>, m1) }))"

definition globus_fifo_peek :: "'v lmem \<Rightarrow> globus_fifo_s option \<Rightarrow> 'v vptr option" where
  "globus_fifo_peek m fifo = do { s \<leftarrow> fifo; globus_list_first m (ff_head s) }"

definition globus_fifo_tail_peek :: "'v lmem \<Rightarrow> globus_fifo_s option \<Rightarrow> 'v vptr option" where
  "globus_fifo_tail_peek m fifo = do { s \<leftarrow> fifo; globus_list_first m (ff_tail s) }"

definition globus_fifo_dequeue ::
  "'v lmem \<Rightarrow> globus_fifo_s option \<Rightarrow> ('v vptr \<times> 'v lmem \<times> globus_fifo_s option) option" where
  "globus_fifo_dequeue m fifo =
     do { s \<leftarrow> fifo;
          case ff_head s of
            None \<Rightarrow> Some (None, m, Some s)
          | Some a \<Rightarrow> do {
              (datum, h, m1) \<leftarrow> globus_list_remove m (ff_head s) a;
              let s1 = s\<lparr>ff_head := h\<rparr>;
                  s2 = (if globus_list_empty h then s1\<lparr>ff_tail := h\<rparr> else s1)
              in Some (datum, m1, Some (s2\<lparr>ff_size := ff_size s2 - 1\<rparr>)) } }"

partial_function (option) fifo_remove_search ::
  "'v lmem \<Rightarrow> addr option \<Rightarrow> addr option \<Rightarrow> 'v vptr \<Rightarrow> (addr option \<times> addr option) option" where
  "fifo_remove_search m iter_prev iter datum =
     (if globus_list_empty iter then Some (iter_prev, iter)
      else do { d \<leftarrow> globus_list_first m iter;
                if d \<noteq> datum
                then do { r \<leftarrow> globus_list_rest m iter; fifo_remove_search m iter r datum }
                else Some (iter_prev, iter) })"

definition globus_fifo_remove ::
  "'v lmem \<Rightarrow> globus_fifo_s option \<Rightarrow> 'v vptr \<Rightarrow>
   ('v vptr \<times> 'v lmem \<times> globus_fifo_s option) option" where
  "globus_fifo_remove m fifo datum =
     do { s \<leftarrow> fifo;
          if globus_list_empty (ff_head s) then Some (None, m, Some s)
          else do {
            (iter_prev, iter) \<leftarrow> fifo_remove_search m None (ff_head s) datum;
            case iter of
              None \<Rightarrow> Some (None, m, Some s)
            | Some a \<Rightarrow> do {
                let s1 = (if iter = ff_tail s then s\<lparr>ff_tail := iter_prev\<rparr> else s);
                (d, h, m1) \<leftarrow> globus_list_remove m (ff_head s1) a;
                Some (datum, m1, Some (s1\<lparr>ff_head := h, ff_size := ff_size s1 - 1\<rparr>)) } } }"

text \<open>
  \<open>globus_fifo_move\<close> initialises the destination, takes over the chain and clears the source.
  The outer option of \<open>src\<close> is the pointer \<open>fifo_src\<close>, the inner one \<open>*fifo_src\<close>. Result: the
  code, the destination (\<open>None\<close>: not written) and the source.
\<close>

definition globus_fifo_move ::
  "bool \<Rightarrow> globus_fifo_s option option \<Rightarrow> int \<times> globus_fifo_s option \<times> globus_fifo_s option option" where
  "globus_fifo_move dest_present src =
     (if \<not> dest_present then (-1, None, src)
      else case src of
        None \<Rightarrow> (-1, None, None)
      | Some None \<Rightarrow> (-1, Some fifo_cleared, src)
      | Some (Some s) \<Rightarrow>
          (0, Some (fifo_cleared\<lparr>ff_head := ff_head s, ff_tail := ff_tail s, ff_size := ff_size s\<rparr>),
           Some (Some (s\<lparr>ff_head := None, ff_tail := None, ff_size := 0\<rparr>))))"

definition globus_fifo_convert_to_list ::
  "globus_fifo_s option \<Rightarrow> (addr option \<times> globus_fifo_s option) option" where
  "globus_fifo_convert_to_list fifo =
     do { s \<leftarrow> fifo;
          Some (ff_head s, Some (s\<lparr>ff_head := None, ff_tail := None, ff_size := 0\<rparr>)) }"

section \<open>Invariant\<close>

definition fifo_inv :: "'v lmem \<Rightarrow> globus_fifo_s \<Rightarrow> addr list \<Rightarrow> bool" where
  "fifo_inv m s as \<longleftrightarrow>
     mem_ok m \<and> list_at m (ff_head s) as \<and>
     ff_tail s = (if as = [] then None else Some (last as)) \<and> ff_size s = of_nat (length as)"

lemma fifo_inv_cleared: "mem_ok m \<Longrightarrow> fifo_inv m fifo_cleared []"
  by (simp add: fifo_inv_def fifo_cleared_def)

lemma fifo_enqueue_eq:
  assumes "fifo_inv m s as" and "0 < mem_room m"
  shows "\<exists>a m' s'. globus_fifo_enqueue active m (Some s) d = Some (0, m', Some s') \<and>
    fifo_inv m' s' (as @ [a]) \<and> list_data m' (as @ [a]) = list_data m as @ [d] \<and>
    mem_room m' = mem_room m - 1"
proof (cases "as = []")
  case True
  with assms obtain a m' where
    "globus_list_insert active m None d = Some (Some a, m')" "list_at m' (Some a) [a]"
    "list_data m' [a] = [d]" "mem_ok m'" "mem_room m' = mem_room m - 1"
    using globus_list_insert_eq [of m None "[]" active d] by (auto simp: fifo_inv_def)
  with True assms show ?thesis
    by (intro exI [of _ a]) (auto simp: globus_fifo_enqueue_def fifo_inv_def)
next
  case False
  let ?t = "last as"
  have at: "list_at m (ff_head s) as" "mem_ok m" using assms(1) by (auto simp: fifo_inv_def)
  obtain c where c: "mem_cells m ?t = Some c" "li_next c = None"
    using seg_last_next [OF at(1) False] by auto
  obtain a m1 where i: "globus_list_insert active m None d = Some (Some a, m1)"
    "list_at m1 (Some a) [a]" "list_data m1 [a] = [d]" "mem_ok m1" "mem_cells m a = None"
    "mem_room m1 = mem_room m - 1" "\<forall>b. b \<noteq> a \<longrightarrow> mem_cells m1 b = mem_cells m b"
    using globus_list_insert_eq [OF at(2), of None "[]" active d] assms(2) by auto
  have a: "a \<notin> set as" "a \<noteq> ?t" using i(5) at(1) c by (auto dest: seg_live)
  then have s1: "list_at m1 (ff_head s) as" "mem_cells m1 ?t = Some c"
    using at(1) i(7) c(1) seg_cong [of as "mem_cells m1" "mem_cells m"] by metis+
  let ?m2 = "m1\<lparr>mem_cells := (mem_cells m1)(?t \<mapsto> c\<lparr>li_next := Some a\<rparr>)\<rparr>"
  have rl: "relink {?t} m1 ?m2" using s1(2) by (intro relink_set_rest) auto
  have "seg (mem_cells ?m2) (ff_head s) as (Some a)"
    using seg_last_upd [OF s1(1) False seg_distinct [OF s1(1)] s1(2)] by simp
  moreover have "list_at ?m2 (Some a) [a]" using i(2) a(2) by (subst seg_relink [OF rl]) auto
  ultimately have "list_at ?m2 (ff_head s) (as @ [a])" by (auto simp: seg_append)
  moreover have "list_data ?m2 (as @ [a]) = list_data m as @ [d]"
    using relink_datum [OF rl] i(3,7) a(1) by (auto simp: node_datum_def)
  moreover have "globus_fifo_enqueue active m (Some s) d
      = Some (0, ?m2, Some (s\<lparr>ff_tail := Some a, ff_size := ff_size s + 1\<rparr>))"
    using assms(1) False c i(1) s1(2)
    by (simp add: globus_fifo_enqueue_def fifo_inv_def store_simps set_rest_Some)
  ultimately show ?thesis
    using relink_ok [OF rl i(4)] i(6) assms(1)
    by (intro exI [of _ a]) (auto simp: fifo_inv_def)
qed

lemma fifo_dequeue_eq:
  assumes "fifo_inv m s (a # as)"
  shows "\<exists>m' s'. globus_fifo_dequeue m (Some s)
      = Some (node_datum (mem_cells m) a, m', Some s') \<and>
    fifo_inv m' s' as \<and> list_data m' as = list_data m as \<and> mem_room m' = Suc (mem_room m)"
proof -
  have at: "list_at m (ff_head s) (a # as)" using assms by (simp add: fifo_inv_def)
  obtain h m1 where r: "globus_list_remove m (ff_head s) a = Some (node_datum (mem_cells m) a, h, m1)"
    "list_at m1 h as" "released m (a # as) a m1"
    using globus_list_remove_eq [OF at, of a] by auto
  have "mem_ok m1" using released_ok [OF r(3)] assms by (simp add: fifo_inv_def)
  moreover have "list_data m1 as = list_data m as"
    using r(3) seg_distinct [OF at] by (auto simp: released_def)
  moreover have "(h = None) = (as = [])" using r(2) by (cases as) auto
  ultimately show ?thesis
    using r assms by (auto simp: globus_fifo_dequeue_def fifo_inv_def globus_list_empty_def
        released_def)
qed


lemma fifo_remove_search_eq:
  "list_at m p as \<Longrightarrow>
   fifo_remove_search m prev p d =
     (case find (\<lambda>a. node_datum (mem_cells m) a = d) as of
        None \<Rightarrow> Some ((if as = [] then prev else Some (last as)), None)
      | Some a \<Rightarrow> Some ((let xs = takeWhile (\<lambda>a. node_datum (mem_cells m) a \<noteq> d) as
                         in if xs = [] then prev else Some (last xs)), Some a))"
proof (induction as arbitrary: p prev)
  case Nil
  then show ?case by (subst fifo_remove_search.simps) (simp add: store_simps)
next
  case (Cons a as)
  obtain c where c: "p = Some a" "mem_cells m a = Some c" "list_at m (li_next c) as"
    using Cons.prems by auto
  show ?case
    by (subst fifo_remove_search.simps)
      (use c Cons.IH [OF c(3), of p] in
        \<open>auto simp: store_simps node_datum_def split: option.splits\<close>)
qed

lemma fifo_remove_eq:
  assumes "fifo_inv m s (xs @ a # ys)" and "node_datum (mem_cells m) a = d"
    and "\<forall>x\<in>set xs. node_datum (mem_cells m) x \<noteq> d"
  shows "\<exists>m' s'. globus_fifo_remove m (Some s) d = Some (d, m', Some s') \<and>
    fifo_inv m' s' (xs @ ys) \<and> list_data m' (xs @ ys) = list_data m (xs @ ys) \<and> mem_room m' = Suc (mem_room m)"
proof -
  let ?as = "xs @ a # ys"
  have at: "list_at m (ff_head s) ?as" using assms(1) by (simp add: fifo_inv_def)
  have dist: "distinct ?as" using at by (rule seg_distinct)
  have ne: "ff_head s \<noteq> None" using at by (cases ?as) auto
  have f: "find (\<lambda>a. node_datum (mem_cells m) a = d) ?as = Some a"
    "takeWhile (\<lambda>a. node_datum (mem_cells m) a \<noteq> d) ?as = xs"
    using assms(2,3) by (induction xs) auto
  have srch: "fifo_remove_search m None (ff_head s) d
      = Some (if xs = [] then None else Some (last xs), Some a)"
    using fifo_remove_search_eq [OF at, of None d] f by simp
  obtain h m1 where r: "globus_list_remove m (ff_head s) a = Some (d, h, m1)"
    "list_at m1 h (remove1 a ?as)" "released m ?as a m1"
    using globus_list_remove_eq [OF at, of a] assms(2) by auto
  have rm: "remove1 a ?as = xs @ ys" using dist by (auto simp: remove1_append)
  have "list_data m1 (xs @ ys) = list_data m (xs @ ys)"
    using r(3) dist by (auto simp: released_def)
  moreover have "mem_ok m1" using released_ok [OF r(3)] assms(1) by (simp add: fifo_inv_def)
  moreover have "(Some a = ff_tail s) = (ys = [])"
    using assms(1) dist by (auto simp: fifo_inv_def)
  ultimately show ?thesis
    using ne srch r rm assms(1)
    by (auto simp: globus_fifo_remove_def fifo_inv_def globus_list_empty_def released_def)
qed

lemma fifo_copy_tail_eq: "list_at m p as \<Longrightarrow> as \<noteq> [] \<Longrightarrow> fifo_copy_tail m p = Some (Some (last as))"
proof (induction as arbitrary: p)
  case (Cons a as)
  obtain c where c: "p = Some a" "mem_cells m a = Some c" "list_at m (li_next c) as"
    using Cons.prems(1) by auto
  show ?case
    by (subst fifo_copy_tail.simps)
      (use c Cons.IH [OF c(3)] in \<open>cases as; auto simp: store_simps\<close>)
qed simp

section \<open>The contract of a queue\<close>

datatype 'v fifo_op = Enqueue "'v vptr" | Dequeue

text \<open>Running a sequence of operations; the outputs of the dequeues are collected.\<close>

fun fifo_run ::
  "('s \<Rightarrow> 'v vptr \<Rightarrow> 's option) \<Rightarrow> ('s \<Rightarrow> ('v vptr \<times> 's) option) \<Rightarrow> 's \<Rightarrow> 'v fifo_op list \<Rightarrow>
   ('v vptr list \<times> 's) option" where
  "fifo_run enq deq s [] = Some ([], s)"
| "fifo_run enq deq s (Enqueue d # ops) = do { s' \<leftarrow> enq s d; fifo_run enq deq s' ops }"
| "fifo_run enq deq s (Dequeue # ops) =
     do { (d, s') \<leftarrow> deq s; (ds, s'') \<leftarrow> fifo_run enq deq s' ops; Some (d # ds, s'') }"

text \<open>The specification: a list of data; dequeuing from the empty queue returns NULL.\<close>

fun list_run :: "'v vptr list \<Rightarrow> 'v fifo_op list \<Rightarrow> 'v vptr list \<times> 'v vptr list" where
  "list_run q [] = ([], q)"
| "list_run q (Enqueue d # ops) = list_run (q @ [d]) ops"
| "list_run [] (Dequeue # ops) = (let (ds, q) = list_run [] ops in (None # ds, q))"
| "list_run (d # q) (Dequeue # ops) = (let (ds, q') = list_run q ops in (d # ds, q'))"

abbreviation enqueues :: "'v fifo_op list \<Rightarrow> nat" where
  "enqueues ops \<equiv> length (filter (\<lambda>x. x \<noteq> Dequeue) ops)"

locale fifo_queue =
  fixes enq :: "'s \<Rightarrow> 'v vptr \<Rightarrow> 's option"
    and deq :: "'s \<Rightarrow> ('v vptr \<times> 's) option"
    and room :: "'s \<Rightarrow> nat"
    and holds :: "'s \<Rightarrow> 'v vptr list \<Rightarrow> bool"
  assumes enq_holds: "holds s q \<Longrightarrow> 0 < room s \<Longrightarrow>
      \<exists>s'. enq s d = Some s' \<and> holds s' (q @ [d]) \<and> room s' = room s - 1"
    and deq_holds: "holds s (d # q) \<Longrightarrow>
      \<exists>s'. deq s = Some (d, s') \<and> holds s' q \<and> room s' = Suc (room s)"
    and deq_empty: "holds s [] \<Longrightarrow> deq s = Some (None, s)"
begin

lemma run_refines:
  assumes "holds s q" and "enqueues ops \<le> room s"
  shows "\<exists>s'. fifo_run enq deq s ops = Some (fst (list_run q ops), s') \<and>
    holds s' (snd (list_run q ops))"
  using assms
proof (induction q ops arbitrary: s rule: list_run.induct)
  case (2 q d ops)
  then have "0 < room s" by simp
  with enq_holds [OF "2.prems"(1), of d]
  obtain s' where "enq s d = Some s'" "holds s' (q @ [d])" "room s' = room s - 1"
    by blast
  with "2.IH" [of s'] "2.prems"(2) show ?case by auto
next
  case (3 ops)
  then show ?case by (fastforce simp: deq_empty split: prod.splits)
next
  case (4 d q ops)
  then obtain s' where "deq s = Some (d, s')" "holds s' q" "room s' = Suc (room s)"
    using deq_holds by blast
  with 4 show ?case by (fastforce split: prod.splits)
qed simp

lemma drain_order:
  assumes "holds s []" and "length ds \<le> room s"
  shows "\<exists>s'. fifo_run enq deq s (map Enqueue ds @ map (\<lambda>_. Dequeue) ds) = Some (ds, s') \<and>
    holds s' []"
proof -
  have a: "list_run q (map (\<lambda>_. Dequeue) q) = (q, [])" for q :: "'v vptr list"
    by (induction q) auto
  have b: "list_run q (map Enqueue ds @ ops) = list_run (q @ ds) ops"
    for q ds :: "'v vptr list" and ops
    by (induction ds arbitrary: q) auto
  have "enqueues (map Enqueue ds @ map (\<lambda>_. Dequeue) ds) \<le> room s"
    using assms(2) by (simp add: filter_map comp_def filter_False)
  from run_refines [OF assms(1) this] a b show ?thesis by simp
qed

end

text \<open>The C queue as such a machine: a store and a queue record.\<close>

definition fifo_enq :: "bool \<Rightarrow> 'v lmem \<times> globus_fifo_s \<Rightarrow> 'v vptr \<Rightarrow> ('v lmem \<times> globus_fifo_s) option" where
  "fifo_enq active = (\<lambda>(m, s) d.
     do { (rc, m', f) \<leftarrow> globus_fifo_enqueue active m (Some s) d;
          s' \<leftarrow> f; if rc = 0 then Some (m', s') else None })"

definition fifo_deq :: "'v lmem \<times> globus_fifo_s \<Rightarrow> ('v vptr \<times> 'v lmem \<times> globus_fifo_s) option" where
  "fifo_deq = (\<lambda>(m, s).
     do { (d, m', f) \<leftarrow> globus_fifo_dequeue m (Some s); s' \<leftarrow> f; Some (d, m', s') })"

definition fifo_holds :: "'v lmem \<times> globus_fifo_s \<Rightarrow> 'v vptr list \<Rightarrow> bool" where
  "fifo_holds = (\<lambda>(m, s) q. \<exists>as. fifo_inv m s as \<and> list_data m as = q)"

lemma fifo_deq_empty: "fifo_holds st [] \<Longrightarrow> fifo_deq st = Some (None, st)"
  by (cases st) (auto simp: fifo_holds_def fifo_deq_def globus_fifo_dequeue_def fifo_inv_def)

interpretation fifo: fifo_queue "fifo_enq active" fifo_deq "\<lambda>(m, s). mem_room m" fifo_holds
  for active
proof unfold_locales
  fix st :: "'a lmem \<times> globus_fifo_s" and q d
  assume "fifo_holds st q" and "0 < (case st of (m, s) \<Rightarrow> mem_room m)"
  then show "\<exists>s'. fifo_enq active st d = Some s' \<and> fifo_holds s' (q @ [d]) \<and>
      (case s' of (m, s) \<Rightarrow> mem_room m) = (case st of (m, s) \<Rightarrow> mem_room m) - 1"
    using fifo_enqueue_eq [where active = active and d = d]
    by (cases st) (fastforce simp: fifo_holds_def fifo_enq_def)
next
  fix st :: "'a lmem \<times> globus_fifo_s" and d q
  assume "fifo_holds st (d # q)"
  then obtain m s a as where "st = (m, s)" "fifo_inv m s (a # as)"
    "node_datum (mem_cells m) a = d" "list_data m as = q"
    by (cases st) (auto simp: fifo_holds_def map_eq_Cons_conv)
  then show "\<exists>s'. fifo_deq st = Some (d, s') \<and> fifo_holds s' q \<and>
      (case s' of (m, s) \<Rightarrow> mem_room m) = Suc (case st of (m, s) \<Rightarrow> mem_room m)"
    using fifo_dequeue_eq [of m s a as] by (fastforce simp: fifo_holds_def fifo_deq_def)
qed (rule fifo_deq_empty)


section \<open>Properties\<close>

definition example_fifo :: "nat lmem \<times> globus_fifo_s" where
  "example_fifo = (example_lmem, \<lparr>ff_head = Some 0, ff_tail = Some 2, ff_size = 3\<rparr>)"

lemma example_fifo_inv: "fifo_inv example_lmem (snd example_fifo) [0, 1, 2]"
  using example_lmem_facts by (simp add: fifo_inv_def example_fifo_def)

text \<open>
  C36. Every sequence of \<open>globus_fifo_enqueue\<close> and \<open>globus_fifo_dequeue\<close> calls, on any
  well-formed queue with memory for the insertions, runs without a fault and returns exactly
  what a list of data would return (first in, first out; NULL from an empty queue), and ends in
  a well-formed queue holding exactly what that list holds.
\<close>

theorem globus_fifo_refines_list:
  assumes "fifo_inv m s as" and "enqueues ops \<le> mem_room m"
  shows "\<exists>m' s' as'. fifo_run (fifo_enq active) fifo_deq (m, s) ops
      = Some (fst (list_run (list_data m as) ops), m', s') \<and>
    fifo_inv m' s' as' \<and> list_data m' as' = snd (list_run (list_data m as) ops)"
proof -
  have "fifo_holds (m, s) (list_data m as)" using assms(1) by (auto simp: fifo_holds_def)
  then obtain st where "fifo_run (fifo_enq active) fifo_deq (m, s) ops
      = Some (fst (list_run (list_data m as) ops), st)"
    "fifo_holds st (snd (list_run (list_data m as) ops))"
    using fifo.run_refines [of "(m, s)" "list_data m as" ops active] assms(2) by auto
  then show ?thesis by (cases st) (auto simp: fifo_holds_def)
qed

theorem globus_fifo_refines_list_witness:
  "\<exists>m' s' as'. fifo_run (fifo_enq True) fifo_deq example_fifo [Dequeue, Enqueue (Some 7), Dequeue]
      = Some ([Some 30, Some 10], m', s') \<and>
    fifo_inv m' s' as' \<and> list_data m' as' = [Some 20, Some 7]"
  using globus_fifo_refines_list [OF example_fifo_inv, of "[Dequeue, Enqueue (Some 7), Dequeue]" True]
    example_lmem_facts
  by (simp add: example_fifo_def)

text \<open>
  \<open>globus_fifo_remove\<close> removes the first element equal to the given datum, wherever it
  stands; in particular the tail pointer never dangles when the last element is removed, and
  the queue stays well formed.
\<close>

theorem globus_fifo_remove_correct:
  assumes "fifo_inv m s (xs @ a # ys)" and "node_datum (mem_cells m) a = d"
    and "\<forall>x\<in>set xs. node_datum (mem_cells m) x \<noteq> d"
  shows "\<exists>m' s'. globus_fifo_remove m (Some s) d = Some (d, m', Some s') \<and>
    fifo_inv m' s' (xs @ ys) \<and> list_data m' (xs @ ys) = list_data m (xs @ ys)"
  using fifo_remove_eq [OF assms] by blast

theorem globus_fifo_remove_witness:
  "\<exists>m' s'. globus_fifo_remove example_lmem (Some (snd example_fifo)) (Some 20)
      = Some (Some 20, m', Some s') \<and>
    fifo_inv m' s' [0, 1] \<and> list_data m' [0, 1] = [Some 30, Some 10]"
  using globus_fifo_remove_correct [of example_lmem "snd example_fifo" "[0, 1]" 2 "[]" "Some 20"]
    example_fifo_inv example_lmem_facts(3)
  by simp

text \<open>
  \<open>globus_fifo_copy\<close> of an empty queue fails the assertion of \<open>globus_list_rest\<close> (it looks
  for the last node of a list that has none), whereas the copy of any other well-formed queue
  is a well-formed queue with the same data.
\<close>

theorem globus_fifo_copy_cases:
  assumes "fifo_inv m s as" and "length as \<le> mem_room m"
  shows "if as = [] then globus_fifo_copy active True m (Some s) = None
    else \<exists>m' s' as'. globus_fifo_copy active True m (Some s) = Some (Some s', m') \<and>
      fifo_inv m' s' as' \<and> list_data m' as' = list_data m as"
proof (cases "as = []")
  case True
  with assms have "ff_head s = None" by (simp add: fifo_inv_def)
  with True show ?thesis
    by (simp add: globus_fifo_copy_def globus_list_copy.simps fifo_copy_tail.simps
        globus_list_rest_def)
next
  case False
  have "list_at m (ff_head s) as" "mem_ok m" using assms(1) by (auto simp: fifo_inv_def)
  then obtain p m' as' where c: "globus_list_copy active m (ff_head s) = Some (p, m')"
    "list_at m' p as'" "copied m as m' as'"
    using copy_correct assms(2) by blast
  have len: "length as' = length as" using c(3) by (metis copied_def length_map)
  with False have "as' \<noteq> []" by auto
  with c len False assms(1) show ?thesis
    by (auto simp: globus_fifo_copy_def fifo_copy_tail_eq fifo_inv_def copied_def)
qed

theorem globus_fifo_copy_witness:
  "globus_fifo_copy True True example_lmem (Some fifo_cleared) = None \<and>
   (\<exists>m' s' as'. globus_fifo_copy True True example_lmem (Some (snd example_fifo)) = Some (Some s', m') \<and>
      fifo_inv m' s' as' \<and> list_data m' as' = [Some 30, Some 10, Some 20])"
  using globus_fifo_copy_cases [OF fifo_inv_cleared [OF example_lmem_facts(1)], of True]
    globus_fifo_copy_cases [OF example_fifo_inv, of True] example_lmem_facts(3,4)
  by simp

end
