(* ===== verification/Globus_Priority_Q.thy ===== *)
theory Globus_Priority_Q
  imports Globus_Prelude
begin

text \<open>
  The binary heap of \<open>common/source/library/globus_priority_q.c\<close>: an array indexed from 1, a
  next free slot and a capacity. The two percolation loops move entries into a hole; the
  operations are transcribed around them. The locale \<open>priority_cmp\<close> states what the queue needs
  of its comparison function; inside it every operation is shown to keep the heap order and to
  change the multiset of entries as documented. The comparison functions that the toolkit
  installs (timers, script scheduling, file blocks, client blocks) are modelled at the end and
  interpret the locale; two of them do not satisfy it.

  The array is a partial map: a slot that was never written is undefined, and reading it is a
  fault (\<open>None\<close>). Capacity and slots are natural numbers (the code's \<open>int\<close> and \<open>size_t\<close>, which
  memory bounds). The outcomes of \<open>realloc\<close> and of the node pool are arguments.
\<close>

section \<open>State\<close>

record ('p, 'd) pq_entry =
  pe_priority :: 'p
  pe_datum :: 'd

type_synonym ('p, 'd) pq_array = "nat \<rightharpoonup> ('p, 'd) pq_entry"

record ('p, 'd) globus_priority_q =
  pq_heap :: "('p, 'd) pq_array"
  pq_next_slot :: nat
  pq_max_len :: nat

type_synonym 'p pq_cmp = "'p \<Rightarrow> 'p \<Rightarrow> int"

definition GLOBUS_L_PRIORITY_Q_CHUNK_SIZE :: nat where
  "GLOBUS_L_PRIORITY_Q_CHUNK_SIZE = 100"

section \<open>Percolation\<close>

text \<open>\<open>globus_l_priority_q_percolate_up\<close>: the array after the moves, and the final hole.\<close>

fun globus_l_priority_q_percolate_up ::
  "'p pq_cmp \<Rightarrow> ('p, 'd) pq_array \<Rightarrow> nat \<Rightarrow> 'p \<Rightarrow> (('p, 'd) pq_array \<times> nat) option" where
  "globus_l_priority_q_percolate_up cmp heap hole priority =
     (if 1 < hole
      then do {
        e \<leftarrow> heap (hole div 2);
        if 0 < cmp (pe_priority e) priority
        then globus_l_priority_q_percolate_up cmp (heap(hole \<mapsto> e)) (hole div 2) priority
        else Some (heap, hole) }
      else Some (heap, hole))"

declare globus_l_priority_q_percolate_up.simps [simp del]

text \<open>The choice of the smaller child, then the loop of \<open>globus_l_priority_q_percolate_down\<close>.\<close>

definition pq_smaller_child ::
  "'p pq_cmp \<Rightarrow> ('p, 'd) pq_array \<Rightarrow> nat \<Rightarrow> nat \<Rightarrow> nat option" where
  "pq_smaller_child cmp heap last_slot child =
     (if child \<noteq> last_slot
      then do { a \<leftarrow> heap child; b \<leftarrow> heap (child + 1);
                Some (if 0 < cmp (pe_priority a) (pe_priority b) then child + 1 else child) }
      else Some child)"

partial_function (option) pq_down_loop ::
  "'p pq_cmp \<Rightarrow> nat \<Rightarrow> ('p, 'd) pq_array \<Rightarrow> nat \<Rightarrow> 'p \<Rightarrow> (('p, 'd) pq_array \<times> nat) option" where
  "pq_down_loop cmp last_slot heap hole priority =
     (if hole * 2 \<le> last_slot
      then do {
        child \<leftarrow> pq_smaller_child cmp heap last_slot (hole * 2);
        e \<leftarrow> heap child;
        if 0 < cmp priority (pe_priority e)
        then pq_down_loop cmp last_slot (heap(hole \<mapsto> e)) child priority
        else Some (heap, hole) }
      else Some (heap, hole))"

definition globus_l_priority_q_percolate_down ::
  "'p pq_cmp \<Rightarrow> nat \<Rightarrow> ('p, 'd) pq_array \<Rightarrow> nat \<Rightarrow> 'p \<Rightarrow> (('p, 'd) pq_array \<times> nat) option" where
  "globus_l_priority_q_percolate_down cmp next_slot heap hole priority =
     pq_down_loop cmp (next_slot - 1) heap hole priority"

section \<open>Operations\<close>

text \<open>
  The argument \<open>None\<close> is a NULL queue. \<open>globus_priority_q_init\<close>: \<open>present\<close> is a non-NULL argument,
  \<open>heap_ok\<close> and \<open>memory_ok\<close> are the outcomes of the two allocations.
\<close>

definition globus_priority_q_init ::
  "bool \<Rightarrow> bool \<Rightarrow> bool \<Rightarrow> int \<times> ('p, 'd) globus_priority_q option" where
  "globus_priority_q_init present heap_ok memory_ok =
     (if \<not> present then (GLOBUS_FAILURE, None)
      else if \<not> heap_ok then (GLOBUS_FAILURE, None)
      else if \<not> memory_ok then (GLOBUS_FAILURE, None)
      else (GLOBUS_SUCCESS,
        Some \<lparr>pq_heap = Map.empty, pq_next_slot = 1, pq_max_len = GLOBUS_L_PRIORITY_Q_CHUNK_SIZE\<rparr>))"

definition globus_priority_q_empty :: "('p, 'd) globus_priority_q option \<Rightarrow> bool" where
  "globus_priority_q_empty q = (case q of None \<Rightarrow> False | Some s \<Rightarrow> pq_next_slot s = 1)"

definition globus_priority_q_size :: "('p, 'd) globus_priority_q option \<Rightarrow> int" where
  "globus_priority_q_size q =
     (case q of None \<Rightarrow> GLOBUS_FAILURE | Some s \<Rightarrow> int (pq_next_slot s) - 1)"

definition globus_priority_q_enqueue ::
  "'p pq_cmp \<Rightarrow> bool \<Rightarrow> bool \<Rightarrow> ('p, 'd) globus_priority_q option \<Rightarrow> 'd \<Rightarrow> 'p \<Rightarrow>
   (int \<times> ('p, 'd) globus_priority_q option) option" where
  "globus_priority_q_enqueue cmp realloc_ok node_ok q datum priority =
     (case q of
        None \<Rightarrow> Some (GLOBUS_FAILURE, None)
      | Some s \<Rightarrow>
         (if pq_next_slot s = pq_max_len s \<and> \<not> realloc_ok then Some (GLOBUS_FAILURE, Some s)
          else
            let s1 = (if pq_next_slot s = pq_max_len s
                      then s\<lparr>pq_max_len := pq_max_len s + GLOBUS_L_PRIORITY_Q_CHUNK_SIZE\<rparr>
                      else s)
            in if \<not> node_ok then Some (GLOBUS_FAILURE, Some s1)
               else do {
                 (h, hole) \<leftarrow> globus_l_priority_q_percolate_up cmp (pq_heap s1)
                    (pq_next_slot s1) priority;
                 Some (GLOBUS_SUCCESS,
                   Some (s1\<lparr>pq_next_slot := pq_next_slot s1 + 1,
                            pq_heap := h(hole \<mapsto> \<lparr>pe_priority = priority, pe_datum = datum\<rparr>)\<rparr>)) }))"

text \<open>\<open>globus_priority_q_dequeue\<close>: the returned pointer is \<open>None\<close> for NULL.\<close>

definition globus_priority_q_dequeue ::
  "'p pq_cmp \<Rightarrow> ('p, 'd) globus_priority_q option \<Rightarrow>
   ('d option \<times> ('p, 'd) globus_priority_q option) option" where
  "globus_priority_q_dequeue cmp q =
     (case q of
        None \<Rightarrow> Some (None, None)
      | Some s \<Rightarrow>
         (if pq_next_slot s = 1 then Some (None, Some s)
          else do {
            top \<leftarrow> pq_heap s 1;
            let s1 = s\<lparr>pq_next_slot := pq_next_slot s - 1\<rparr>;
            if 1 < pq_next_slot s1
            then do {
              e \<leftarrow> pq_heap s1 (pq_next_slot s1);
              (h, hole) \<leftarrow> globus_l_priority_q_percolate_down cmp (pq_next_slot s1)
                 (pq_heap s1) 1 (pe_priority e);
              Some (Some (pe_datum top), Some (s1\<lparr>pq_heap := h(hole \<mapsto> e)\<rparr>)) }
            else Some (Some (pe_datum top), Some s1) }))"

definition globus_priority_q_first ::
  "('p, 'd) globus_priority_q option \<Rightarrow> 'd option option" where
  "globus_priority_q_first q =
     (case q of
        None \<Rightarrow> Some None
      | Some s \<Rightarrow> (if pq_next_slot s = 1 then Some None
                   else do { e \<leftarrow> pq_heap s 1; Some (Some (pe_datum e)) }))"

definition globus_priority_q_first_priority ::
  "('p, 'd) globus_priority_q option \<Rightarrow> 'p option option" where
  "globus_priority_q_first_priority q =
     (case q of
        None \<Rightarrow> Some None
      | Some s \<Rightarrow> (if pq_next_slot s = 1 then Some None
                   else do { e \<leftarrow> pq_heap s 1; Some (Some (pe_priority e)) }))"

text \<open>The search loop shared by \<open>remove\<close> and \<open>modify\<close>: \<open>None\<close> inside when nothing was found.\<close>

function pq_find ::
  "('p, 'd) pq_array \<Rightarrow> nat \<Rightarrow> nat \<Rightarrow> 'd \<Rightarrow> (nat \<times> ('p, 'd) pq_entry) option option" where
  "pq_find heap hole n datum =
     (if hole < n
      then do { e \<leftarrow> heap hole;
                if pe_datum e = datum then Some (Some (hole, e))
                else pq_find heap (hole + 1) n datum }
      else Some None)"
  by pat_completeness auto
termination
  by (relation "measure (\<lambda>(heap, hole, n, datum). n - hole)") auto

declare pq_find.simps [simp del]

definition globus_priority_q_remove ::
  "'p pq_cmp \<Rightarrow> ('p, 'd) globus_priority_q option \<Rightarrow> 'd \<Rightarrow>
   ('d option \<times> ('p, 'd) globus_priority_q option) option" where
  "globus_priority_q_remove cmp q datum =
     (case q of
        None \<Rightarrow> Some (None, None)
      | Some s \<Rightarrow> do {
          found \<leftarrow> pq_find (pq_heap s) 1 (pq_next_slot s) datum;
          case found of
            None \<Rightarrow> Some (None, Some s)
          | Some (hole, entry) \<Rightarrow>
              let s1 = s\<lparr>pq_next_slot := pq_next_slot s - 1\<rparr>
              in if pq_next_slot s1 \<noteq> hole
                 then do {
                   e \<leftarrow> pq_heap s1 (pq_next_slot s1);
                   (h, hole') \<leftarrow>
                     (if 0 < cmp (pe_priority e) (pe_priority entry)
                      then globus_l_priority_q_percolate_down cmp (pq_next_slot s1) (pq_heap s1)
                             hole (pe_priority e)
                      else globus_l_priority_q_percolate_up cmp (pq_heap s1) hole (pe_priority e));
                   Some (Some datum, Some (s1\<lparr>pq_heap := h(hole' \<mapsto> e)\<rparr>)) }
                 else Some (Some datum, Some s1) })"

text \<open>
  \<open>globus_priority_q_modify\<close>: the entry is changed in place (the array slot holds a pointer to
  it) before the percolations.
\<close>

definition globus_priority_q_modify ::
  "'p pq_cmp \<Rightarrow> ('p, 'd) globus_priority_q option \<Rightarrow> 'd \<Rightarrow> 'p \<Rightarrow>
   ('p option \<times> ('p, 'd) globus_priority_q option) option" where
  "globus_priority_q_modify cmp q datum new_priority =
     (case q of
        None \<Rightarrow> Some (None, None)
      | Some s \<Rightarrow> do {
          found \<leftarrow> pq_find (pq_heap s) 1 (pq_next_slot s) datum;
          case found of
            None \<Rightarrow> Some (None, Some s)
          | Some (hole, entry) \<Rightarrow>
              let e = entry\<lparr>pe_priority := new_priority\<rparr>
              in do {
                (h1, hole1) \<leftarrow> globus_l_priority_q_percolate_down cmp (pq_next_slot s)
                   ((pq_heap s)(hole \<mapsto> e)) hole new_priority;
                (h2, hole2) \<leftarrow> globus_l_priority_q_percolate_up cmp h1 hole1 new_priority;
                Some (Some (pe_priority entry), Some (s\<lparr>pq_heap := h2(hole2 \<mapsto> e)\<rparr>)) } })"

text \<open>\<open>globus_priority_q_destroy\<close>: the entries given back to the pool, last slot first.\<close>

definition globus_priority_q_destroy ::
  "('p, 'd) globus_priority_q option \<Rightarrow> int \<times> ('p, 'd) pq_entry option list" where
  "globus_priority_q_destroy q =
     (case q of
        None \<Rightarrow> (GLOBUS_FAILURE, [])
      | Some s \<Rightarrow> (GLOBUS_SUCCESS, map (pq_heap s) (rev [1..<pq_next_slot s])))"


section \<open>The comparison functions of the toolkit\<close>





text \<open>
  The script scheduler of the GRAM job manager. The function asserts that two queued requests
  never have the same level and sequence number; \<open>None\<close> is the failed assertion.
\<close>

record globus_gram_script_priority_t =
  priority_level :: nat
  sp_sequence :: "64 word"

definition globus_l_gram_script_priority_cmp ::
  "globus_gram_script_priority_t \<Rightarrow> globus_gram_script_priority_t \<Rightarrow> int option" where
  "globus_l_gram_script_priority_cmp p1 p2 =
     (if priority_level p1 > priority_level p2 then Some 1
      else if priority_level p1 < priority_level p2 then Some (-1)
      else if sp_sequence p1 > sp_sequence p2 then Some 2
      else if sp_sequence p1 < sp_sequence p2 then Some (-2)
      else None)"

text \<open>The file module of the GridFTP server orders blocks by offset; so does the FTP client.\<close>

definition globus_l_gfs_file_queue_compare :: "int pq_cmp" where
  "globus_l_gfs_file_queue_compare offset1 offset2 =
     (let rc = 0;
          rc = (if offset1 > offset2 then 1 else rc);
          rc = (if offset1 < offset2 then -1 else rc)
      in rc)"






text \<open>Taking every entry out of a queue, one \<open>globus_priority_q_dequeue\<close> after the other.\<close>

fun pq_drain ::
  "'p pq_cmp \<Rightarrow> nat \<Rightarrow> ('p, 'd) globus_priority_q option \<Rightarrow>
   ('d option list \<times> ('p, 'd) globus_priority_q option) option" where
  "pq_drain cmp 0 q = Some ([], q)"
| "pq_drain cmp (Suc n) q =
     do { (d, q1) \<leftarrow> globus_priority_q_dequeue cmp q;
          (ds, q2) \<leftarrow> pq_drain cmp n q1;
          Some (d # ds, q2) }"

section \<open>Heap order\<close>

text \<open>
  \<open>ord_full\<close>: every slot's priority is at least its parent's. \<open>ord_but\<close>: the same except between
  slot \<open>k\<close> and its parent. \<open>ord_but2\<close>: except between \<open>k\<close> and its parent and its children. In both
  the children of \<open>k\<close> are at least \<open>k\<close>'s parent, so that \<open>k\<close> may move either way.
\<close>

definition ord_full :: "'p pq_cmp \<Rightarrow> (nat \<Rightarrow> 'p) \<Rightarrow> nat \<Rightarrow> bool" where
  "ord_full cmp P n \<longleftrightarrow> (\<forall>i. 2 \<le> i \<and> i < n \<longrightarrow> cmp (P (i div 2)) (P i) \<le> 0)"

definition ord_around :: "'p pq_cmp \<Rightarrow> (nat \<Rightarrow> 'p) \<Rightarrow> nat \<Rightarrow> nat \<Rightarrow> bool" where
  "ord_around cmp P n k \<longleftrightarrow>
     (1 < k \<longrightarrow> (\<forall>i. i < n \<and> i div 2 = k \<longrightarrow> cmp (P (k div 2)) (P i) \<le> 0))"

definition ord_but :: "'p pq_cmp \<Rightarrow> (nat \<Rightarrow> 'p) \<Rightarrow> nat \<Rightarrow> nat \<Rightarrow> bool" where
  "ord_but cmp P n k \<longleftrightarrow>
     (\<forall>i. 2 \<le> i \<and> i < n \<and> i \<noteq> k \<longrightarrow> cmp (P (i div 2)) (P i) \<le> 0) \<and> ord_around cmp P n k"

definition ord_but2 :: "'p pq_cmp \<Rightarrow> (nat \<Rightarrow> 'p) \<Rightarrow> nat \<Rightarrow> nat \<Rightarrow> bool" where
  "ord_but2 cmp P n k \<longleftrightarrow>
     (\<forall>i. 2 \<le> i \<and> i < n \<and> i \<noteq> k \<and> i div 2 \<noteq> k \<longrightarrow> cmp (P (i div 2)) (P i) \<le> 0) \<and>
     ord_around cmp P n k"

text \<open>The priorities in an array, the entries in its used slots, and the queue's invariant.\<close>

definition prio_of :: "('p, 'd) pq_array \<Rightarrow> nat \<Rightarrow> 'p" where
  "prio_of g i = pe_priority (the (g i))"

definition pq_mset :: "('p, 'd) pq_array \<Rightarrow> nat \<Rightarrow> ('p, 'd) pq_entry multiset" where
  "pq_mset g n = image_mset (\<lambda>i. the (g i)) (mset_set {1..<n})"

definition pq_live :: "('p, 'd) pq_array \<Rightarrow> nat \<Rightarrow> bool" where
  "pq_live g n \<longleftrightarrow> (\<forall>i. 1 \<le> i \<and> i < n \<longrightarrow> g i \<noteq> None)"

definition pq_inv :: "'p pq_cmp \<Rightarrow> ('p, 'd) globus_priority_q \<Rightarrow> bool" where
  "pq_inv cmp s \<longleftrightarrow>
     1 \<le> pq_next_slot s \<and> pq_next_slot s \<le> pq_max_len s \<and>
     pq_live (pq_heap s) (pq_next_slot s) \<and>
     ord_full cmp (prio_of (pq_heap s)) (pq_next_slot s)"

abbreviation pq_entries :: "('p, 'd) globus_priority_q \<Rightarrow> ('p, 'd) pq_entry multiset" where
  "pq_entries s \<equiv> pq_mset (pq_heap s) (pq_next_slot s)"

text \<open>A queue of three file blocks, for the concrete instances below.\<close>

definition pq_sample :: "(int, nat) globus_priority_q" where
  "pq_sample = \<lparr>pq_heap = [1 \<mapsto> \<lparr>pe_priority = 2, pe_datum = 7\<rparr>,
      2 \<mapsto> \<lparr>pe_priority = 5, pe_datum = 3\<rparr>, 3 \<mapsto> \<lparr>pe_priority = 4, pe_datum = 8\<rparr>],
    pq_next_slot = 4, pq_max_len = 100\<rparr>"

lemma half_less: "1 < k \<Longrightarrow> k div 2 < (k::nat)" "1 < k \<Longrightarrow> 1 \<le> k div 2"
  "1 < k \<Longrightarrow> k div 2 \<noteq> (k::nat)"
  by auto

lemma prio_of_upd [simp]: "prio_of (g(k \<mapsto> e)) = (prio_of g)(k := pe_priority e)"
  by (auto simp: prio_of_def)

lemma pq_mset_cong:
  "(\<And>i. 1 \<le> i \<Longrightarrow> i < n \<Longrightarrow> g i = g' i) \<Longrightarrow> pq_mset g n = pq_mset g' n"
  unfolding pq_mset_def by (rule image_mset_cong) simp

lemma pq_mset_remove:
  "1 \<le> k \<Longrightarrow> k < n \<Longrightarrow>
   pq_mset g n = add_mset (the (g k)) (image_mset (\<lambda>i. the (g i)) (mset_set ({1..<n} - {k})))"
proof -
  assume "1 \<le> k" "k < n"
  then have "mset_set {1..<n} = add_mset k (mset_set ({1..<n} - {k}))"
    by (simp add: mset_set.remove)
  then show ?thesis by (simp add: pq_mset_def)
qed

lemma pq_mset_upd:
  "1 \<le> k \<Longrightarrow> k < n \<Longrightarrow> pq_mset (g(k \<mapsto> e)) n + {#the (g k)#} = add_mset e (pq_mset g n)"
proof -
  assume k: "1 \<le> k" "k < n"
  have "image_mset (\<lambda>i. the ((g(k \<mapsto> e)) i)) (mset_set ({1..<n} - {k}))
      = image_mset (\<lambda>i. the (g i)) (mset_set ({1..<n} - {k}))"
    by (rule image_mset_cong) auto
  with k show ?thesis by (simp add: pq_mset_remove [of k])
qed

lemma pq_mset_swap:
  assumes "1 \<le> i" "i < n" "1 \<le> j" "j < n" "i \<noteq> j"
  shows "pq_mset (g(i \<mapsto> a, j \<mapsto> b)) n = pq_mset (g(i \<mapsto> b, j \<mapsto> a)) n"
proof -
  have two: "add_mset (the (g i)) (add_mset (the (g j)) (pq_mset (g(i \<mapsto> x, j \<mapsto> y)) n))
      = add_mset x (add_mset y (pq_mset g n))" for x y
    using assms pq_mset_upd [of i n g x] pq_mset_upd [of j n "g(i \<mapsto> x)" y]
    by (simp add: add_mset_commute)
  have "add_mset (the (g i)) (add_mset (the (g j)) (pq_mset (g(i \<mapsto> a, j \<mapsto> b)) n))
      = add_mset (the (g i)) (add_mset (the (g j)) (pq_mset (g(i \<mapsto> b, j \<mapsto> a)) n))"
    unfolding two by (rule add_mset_commute)
  then show ?thesis by simp
qed

lemma pq_mset_Suc: "1 \<le> n \<Longrightarrow> pq_mset g (Suc n) = add_mset (the (g n)) (pq_mset g n)"
  by (simp add: pq_mset_def atLeastLessThanSuc)

lemma pq_live_move: "pq_live (g(k \<mapsto> e)) n \<Longrightarrow> pq_live (g(k \<mapsto> a, c \<mapsto> b)) n"
  unfolding pq_live_def fun_upd_apply by (metis option.distinct(1))

text \<open>The search finds the first slot that holds the datum, and always returns.\<close>

lemma pq_find_total:
  assumes "pq_live h n" and "1 \<le> k"
  shows "(\<exists>j x. k \<le> j \<and> j < n \<and> h j = Some x \<and> pe_datum x = d \<and>
            pq_find h k n d = Some (Some (j, x))) \<or>
         (\<forall>j. k \<le> j \<and> j < n \<longrightarrow> pe_datum (the (h j)) \<noteq> d) \<and> pq_find h k n d = Some None"
  using assms
proof (induction h k n d rule: pq_find.induct)
  case (1 h k n d)
  show ?case
  proof (cases "k < n")
    case False
    then show ?thesis by (auto simp: pq_find.simps [of _ k])
  next
    case True
    then obtain e where e: "h k = Some e" using "1.prems" by (auto simp: pq_live_def)
    show ?thesis
    proof (cases "pe_datum e = d")
      case True
      with e \<open>k < n\<close> show ?thesis by (auto simp: pq_find.simps [of _ k])
    next
      case False
      have step: "pq_find h k n d = pq_find h (k + 1) n d"
        using e \<open>k < n\<close> False by (simp add: pq_find.simps [of _ k])
      have below: "k \<le> j \<Longrightarrow> j = k \<or> k + 1 \<le> j" for j by auto
      from "1.IH" [OF True e False "1.prems"(1)] "1.prems"(2)
      consider (some) j x where "k + 1 \<le> j" "j < n" "h j = Some x" "pe_datum x = d"
          "pq_find h k n d = Some (Some (j, x))"
        | (none) "\<forall>j. k + 1 \<le> j \<and> j < n \<longrightarrow> pe_datum (the (h j)) \<noteq> d" "pq_find h k n d = Some None"
        unfolding step by auto
      then show ?thesis
      proof cases
        case some
        then show ?thesis by (intro disjI1 exI [of _ j] exI [of _ x]) simp
      next
        case none
        then show ?thesis using below e False by (metis option.sel)
      qed
    qed
  qed
qed

lemma pq_find_cases:
  assumes "pq_live h n"
  obtains (found) j x where "1 \<le> j" "j < n" "h j = Some x" "pe_datum x = d"
      "pq_find h 1 n d = Some (Some (j, x))" "x \<in># pq_mset h n"
    | (absent) "\<forall>x \<in># pq_mset h n. pe_datum x \<noteq> d" "pq_find h 1 n d = Some None"
  using pq_find_total [OF assms order_refl, of d] by (auto simp: pq_mset_def) force

section \<open>The contract of a comparison function\<close>

locale priority_cmp =
  fixes cmp :: "'p \<Rightarrow> 'p \<Rightarrow> int"
  assumes cmp_total: "0 < cmp a b \<Longrightarrow> cmp b a \<le> 0"
    and cmp_trans: "cmp a b \<le> 0 \<Longrightarrow> cmp b c \<le> 0 \<Longrightarrow> cmp a c \<le> 0"
begin

lemma ord_up_stop:
  assumes "ord_but cmp P n k" and "k \<le> 1 \<or> cmp (P (k div 2)) (P k) \<le> 0"
  shows "ord_full cmp P n"
  unfolding ord_full_def
proof (intro allI impI)
  fix i
  assume "2 \<le> i \<and> i < n"
  with assms show "cmp (P (i div 2)) (P i) \<le> 0"
    by (cases "i = k") (simp_all add: ord_but_def)
qed

lemma ord_up_step:
  assumes "ord_but cmp P n k" and "1 < k" and "k < n" and "0 < cmp (P (k div 2)) (P k)"
  shows "ord_but cmp (P(k := P (k div 2), k div 2 := P k)) n (k div 2)"
proof -
  let ?j = "k div 2" and ?Q = "P(k := P (k div 2), k div 2 := P k)"
  have edge: "cmp (P (i div 2)) (P i) \<le> 0" if "2 \<le> i" "i < n" "i \<noteq> k" for i
    using assms(1) that by (simp add: ord_but_def)
  have around: "cmp (P ?j) (P i) \<le> 0" if "i < n" "i div 2 = k" for i
    using assms(1,2) that by (simp add: ord_but_def ord_around_def)
  have kj: "cmp (P k) (P ?j) \<le> 0" using assms(4) by (rule cmp_total)
  have sib: "cmp (P k) (P i) \<le> 0 \<and> cmp (P ?j) (P i) \<le> 0" if "2 \<le> i" "i < n" "i \<noteq> k" "i div 2 = ?j" for i
    using edge [of i] kj cmp_trans that by auto
  have jk: "?j \<noteq> k" using assms(2) by (rule half_less(3))
  have "cmp (?Q (i div 2)) (?Q i) \<le> 0" if "2 \<le> i" "i < n" "i \<noteq> ?j" for i
  proof -
    consider "i = k" | "i \<noteq> k" "i div 2 = k" | "i \<noteq> k" "i div 2 = ?j" "?j \<noteq> k"
      | "i \<noteq> k" "i div 2 \<noteq> k" "i div 2 \<noteq> ?j"
      using jk by blast
    then show ?thesis
      by cases (use that jk jk [symmetric] kj around [of i] sib [of i] edge [of i] in simp_all)
  qed
  moreover have "ord_around cmp ?Q n ?j"
    unfolding ord_around_def
  proof (intro impI allI)
    fix i
    assume j: "1 < ?j" and i: "i < n \<and> i div 2 = ?j"
    have r: "cmp (P (?j div 2)) (P ?j) \<le> 0" using edge [of ?j] assms(2,3) j jk by simp
    note jj = half_less(1) [OF j] half_less(1) [OF assms(2)]
    have "2 \<le> i" using i j by (cases "i < 2") simp_all
    then have "cmp (P (?j div 2)) (P i) \<le> 0" if "i \<noteq> k"
      using sib [of i] i that cmp_trans [OF r] by simp
    moreover have "i \<noteq> ?j" using i jj(1) by (intro notI) simp
    moreover have "?j div 2 \<noteq> ?j" "?j div 2 \<noteq> k" using jj by (metis less_irrefl less_trans)+
    ultimately show "cmp (?Q (?j div 2)) (?Q i) \<le> 0" using r jk by simp
  qed
  ultimately show ?thesis by (simp add: ord_but_def)
qed

lemma ord_down_stop:
  assumes "ord_but2 cmp P n k" and "\<And>i. i < n \<Longrightarrow> i div 2 = k \<Longrightarrow> cmp (P k) (P i) \<le> 0"
  shows "ord_but cmp P n k"
proof -
  have "cmp (P (i div 2)) (P i) \<le> 0" if "2 \<le> i" "i < n" "i \<noteq> k" for i
    using assms that by (cases "i div 2 = k") (simp_all add: ord_but2_def)
  with assms(1) show ?thesis by (simp add: ord_but2_def ord_but_def)
qed

lemma ord_down_step:
  assumes "ord_but2 cmp P n k" and "1 \<le> k" and "c div 2 = k" and "c < n"
    and "\<And>i. i < n \<Longrightarrow> i div 2 = k \<Longrightarrow> cmp (P c) (P i) \<le> 0"
  shows "ord_but2 cmp (P(k := P c, c := P k)) n c"
proof -
  let ?Q = "P(k := P c, c := P k)"
  have ck: "c \<noteq> k" "k < c" using assms(2,3) by auto
  have edge: "cmp (P (i div 2)) (P i) \<le> 0" if "2 \<le> i" "i < n" "i \<noteq> k" "i div 2 \<noteq> k" for i
    using assms(1) that by (simp add: ord_but2_def)
  have around: "1 < k \<Longrightarrow> cmp (P (k div 2)) (P c) \<le> 0"
    using assms(1,3,4) by (simp add: ord_but2_def ord_around_def)
  have "cmp (?Q (i div 2)) (?Q i) \<le> 0" if "2 \<le> i" "i < n" "i \<noteq> c" "i div 2 \<noteq> c" for i
  proof (cases "i = k")
    case True
    moreover have "k div 2 \<noteq> k" "k div 2 \<noteq> c" using assms(2) ck by linarith+
    ultimately show ?thesis using that ck around by simp
  next
    case False
    with that ck edge [of i] assms(5) [of i] show ?thesis by simp
  qed
  moreover have "cmp (P c) (P i) \<le> 0" if "i < n" "i div 2 = c" for i
    using edge [of i] that ck by auto
  then have "ord_around cmp ?Q n c"
    using ck assms(3) by (auto simp: ord_around_def)
  ultimately show ?thesis by (simp add: ord_but2_def)
qed

lemma cmp_refl: "cmp a a \<le> 0"
  using cmp_total [of a a] by linarith

text \<open>
  The hole at \<open>k\<close> stands for the entry \<open>e\<close> being placed: the percolations keep the multiset of
  the array with \<open>e\<close> in the hole.
\<close>

lemma percolate_up_correct:
  assumes "pq_live (h(k \<mapsto> e)) n" and "1 \<le> k" and "k < n"
    and "ord_but cmp (prio_of (h(k \<mapsto> e))) n k"
  shows "\<exists>h' k'. globus_l_priority_q_percolate_up cmp h k (pe_priority e) = Some (h', k') \<and>
    1 \<le> k' \<and> k' \<le> k \<and> pq_live (h'(k' \<mapsto> e)) n \<and> ord_full cmp (prio_of (h'(k' \<mapsto> e))) n \<and>
    pq_mset (h'(k' \<mapsto> e)) n = pq_mset (h(k \<mapsto> e)) n"
  using assms
proof (induction k arbitrary: h rule: less_induct)
  case (less k)
  show ?case
  proof (cases "1 < k")
    case False
    have "ord_full cmp (prio_of (h(k \<mapsto> e))) n"
      by (rule ord_up_stop [OF less.prems(4)]) (use False in simp)
    with less.prems(1,2) show ?thesis using False
      by (intro exI [of _ h] exI [of _ k])
        (simp add: globus_l_priority_q_percolate_up.simps [of _ _ k] del: fun_upd_apply)
  next
    case k: True
    let ?j = "k div 2"
    note j = half_less [OF k]
    obtain a where a: "h ?j = Some a"
      using less.prems(1,3) j by (auto simp: pq_live_def dest!: spec [of _ ?j])
    show ?thesis
    proof (cases "0 < cmp (pe_priority a) (pe_priority e)")
      case False
      have "ord_full cmp (prio_of (h(k \<mapsto> e))) n"
        by (rule ord_up_stop [OF less.prems(4)]) (use False a j in \<open>simp add: prio_of_def\<close>)
      with less.prems(1,2) show ?thesis using k a False
        by (intro exI [of _ h] exI [of _ k])
          (simp add: globus_l_priority_q_percolate_up.simps [of _ _ k] del: fun_upd_apply)
    next
      case up: True
      let ?P = "prio_of (h(k \<mapsto> e))" and ?g = "h(k \<mapsto> a)"
      have P: "prio_of (?g(?j \<mapsto> e)) = ?P(k := ?P ?j, ?j := ?P k)"
        using a j by (simp add: prio_of_def fun_eq_iff)
      have ord: "ord_but cmp (prio_of (?g(?j \<mapsto> e))) n ?j"
        unfolding P by (rule ord_up_step [OF less.prems(4) k less.prems(3)])
          (use up a j in \<open>simp add: prio_of_def\<close>)
      have live: "pq_live (?g(?j \<mapsto> e)) n"
        using less.prems(1) by (rule pq_live_move)
      have jn: "?j < n" using j(1) less.prems(3) by (rule less_trans)
      have "pq_mset (h(k \<mapsto> a, ?j \<mapsto> e)) n = pq_mset (h(k \<mapsto> e, ?j \<mapsto> a)) n"
        using pq_mset_swap [of k n ?j h a e] less.prems j jn by simp
      moreover have "h(k \<mapsto> e, ?j \<mapsto> a) = h(k \<mapsto> e)"
        using a j by (intro fun_upd_idem) simp
      ultimately have same: "pq_mset (?g(?j \<mapsto> e)) n = pq_mset (h(k \<mapsto> e)) n" by simp
      have step: "globus_l_priority_q_percolate_up cmp h k (pe_priority e)
          = globus_l_priority_q_percolate_up cmp ?g ?j (pe_priority e)"
        using k a up by (simp add: globus_l_priority_q_percolate_up.simps [of _ _ k])
      show ?thesis
        using less.IH [OF j(1) live j(2) jn ord] j(1) unfolding step same
        by (meson le_trans less_imp_le)
    qed
  qed
qed

lemma smaller_child_correct:
  assumes "pq_live (h(k \<mapsto> e)) n" and "1 \<le> k" and "k * 2 < n"
  shows "\<exists>c a. pq_smaller_child cmp h (n - 1) (k * 2) = Some c \<and> c div 2 = k \<and> k < c \<and> c < n \<and>
    h c = Some a \<and>
    (\<forall>i. i < n \<longrightarrow> i div 2 = k \<longrightarrow> cmp (pe_priority a) (prio_of (h(k \<mapsto> e)) i) \<le> 0)"
proof -
  let ?c = "k * 2"
  obtain a where a: "h ?c = Some a"
    using assms by (auto simp: pq_live_def dest!: spec [of _ ?c])
  have kid: "i = ?c \<or> i = Suc ?c" if "i div 2 = k" for i using that by linarith
  show ?thesis
  proof (cases "?c = n - 1")
    case True
    have only: "i = ?c" if "i < n" "i div 2 = k" for i
      using kid [OF that(2)] that(1) True by linarith
    have "cmp (pe_priority a) (prio_of (h(k \<mapsto> e)) i) \<le> 0" if "i < n" "i div 2 = k" for i
      using that(2) a assms(2) cmp_refl only [OF that] by (auto simp: prio_of_def)
    moreover have "pq_smaller_child cmp h (n - 1) ?c = Some ?c"
      by (simp only: pq_smaller_child_def True) simp
    moreover have "?c div 2 = k" "k < ?c" using assms(2) by simp_all
    ultimately show ?thesis using a assms(3) by blast
  next
    case False
    then have n: "Suc ?c < n" using assms(3) by linarith
    obtain b where b: "h (Suc ?c) = Some b"
      using assms n by (auto simp: pq_live_def dest!: spec [of _ "Suc ?c"])
    show ?thesis
    proof (cases "0 < cmp (pe_priority a) (pe_priority b)")
      case True
      have "cmp (pe_priority b) (prio_of (h(k \<mapsto> e)) i) \<le> 0" if "i div 2 = k" for i
        using kid [OF that] a b assms(2) True cmp_total cmp_refl by (auto simp: prio_of_def)
      moreover have "pq_smaller_child cmp h (n - 1) ?c = Some (Suc ?c)"
        using True False a b by (simp add: pq_smaller_child_def)
      moreover have "Suc ?c div 2 = k" "k < Suc ?c" by simp_all
      ultimately show ?thesis using b n by blast
    next
      case le: False
      have "cmp (pe_priority a) (prio_of (h(k \<mapsto> e)) i) \<le> 0" if "i div 2 = k" for i
        using kid [OF that] a b assms(2) le cmp_refl by (auto simp: prio_of_def)
      moreover have "pq_smaller_child cmp h (n - 1) ?c = Some ?c"
        using le False a b by (simp add: pq_smaller_child_def)
      moreover have "?c div 2 = k" "k < ?c" using assms(2) by simp_all
      ultimately show ?thesis using a assms(3) by blast
    qed
  qed
qed

lemma percolate_down_loop_correct:
  assumes "pq_live (h(k \<mapsto> e)) n" and "1 \<le> k" and "k < n"
    and "ord_but2 cmp (prio_of (h(k \<mapsto> e))) n k"
  shows "\<exists>h' k'. pq_down_loop cmp (n - 1) h k (pe_priority e) = Some (h', k') \<and>
    1 \<le> k' \<and> k' < n \<and> pq_live (h'(k' \<mapsto> e)) n \<and> ord_but cmp (prio_of (h'(k' \<mapsto> e))) n k' \<and>
    pq_mset (h'(k' \<mapsto> e)) n = pq_mset (h(k \<mapsto> e)) n \<and>
    (k' = k \<and> h' = h \<or> k < k' \<and> cmp (prio_of h' (k' div 2)) (pe_priority e) \<le> 0)"
  using assms
proof (induction "n - k" arbitrary: h k rule: less_induct)
  case less
  show ?case
  proof (cases "k * 2 < n")
    case False
    have "ord_but cmp (prio_of (h(k \<mapsto> e))) n k"
      by (rule ord_down_stop [OF less.prems(4)]) (use False in linarith)
    moreover have "\<not> k * 2 \<le> n - 1" using False less.prems(3) by linarith
    ultimately show ?thesis using less.prems
      by (subst pq_down_loop.simps) simp
  next
    case kn: True
    obtain c a where c: "pq_smaller_child cmp h (n - 1) (k * 2) = Some c" "c div 2 = k" "k < c"
        "c < n" "h c = Some a"
      and least: "\<And>i. i < n \<Longrightarrow> i div 2 = k \<Longrightarrow> cmp (pe_priority a) (prio_of (h(k \<mapsto> e)) i) \<le> 0"
      using smaller_child_correct [OF less.prems(1,2) kn] by blast
    have ln: "k * 2 \<le> n - 1" using kn by simp
    show ?thesis
    proof (cases "0 < cmp (pe_priority e) (pe_priority a)")
      case False
      then have ea: "cmp (pe_priority e) (pe_priority a) \<le> 0" by simp
      have "ord_but cmp (prio_of (h(k \<mapsto> e))) n k"
        by (rule ord_down_stop [OF less.prems(4)])
          (use cmp_trans [OF ea] least in \<open>simp add: prio_of_def\<close>)
      with c ln False less.prems show ?thesis
        by (subst pq_down_loop.simps) simp
    next
      case down: True
      let ?P = "prio_of (h(k \<mapsto> e))" and ?g = "h(k \<mapsto> a)"
      have P: "prio_of (?g(c \<mapsto> e)) = ?P(k := ?P c, c := ?P k)"
        using c by (simp add: prio_of_def fun_eq_iff)
      have ord: "ord_but2 cmp (prio_of (?g(c \<mapsto> e))) n c"
        unfolding P by (rule ord_down_step [OF less.prems(4,2) c(2,4)])
          (use least c in \<open>simp add: prio_of_def\<close>)
      have live: "pq_live (?g(c \<mapsto> e)) n"
        using less.prems(1) by (rule pq_live_move)
      have "pq_mset (h(k \<mapsto> a, c \<mapsto> e)) n = pq_mset (h(k \<mapsto> e, c \<mapsto> a)) n"
        using pq_mset_swap [of k n c h a e] less.prems c by simp
      moreover have "h(k \<mapsto> e, c \<mapsto> a) = h(k \<mapsto> e)"
        using c by (intro fun_upd_idem) simp
      ultimately have same: "pq_mset (?g(c \<mapsto> e)) n = pq_mset (h(k \<mapsto> e)) n" by simp
      have ae: "cmp (pe_priority a) (pe_priority e) \<le> 0" using down by (rule cmp_total)
      have "n - c < n - k" "1 \<le> c" using c by auto
      from less.hyps [OF this(1) live this(2) c(4) ord] obtain h' k' where
        r: "pq_down_loop cmp (n - 1) ?g c (pe_priority e) = Some (h', k')" "1 \<le> k'" "k' < n"
          "pq_live (h'(k' \<mapsto> e)) n" "ord_but cmp (prio_of (h'(k' \<mapsto> e))) n k'"
          "pq_mset (h'(k' \<mapsto> e)) n = pq_mset (h(k \<mapsto> e)) n"
        and w: "k' = c \<and> h' = ?g \<or> c < k' \<and> cmp (prio_of h' (k' div 2)) (pe_priority e) \<le> 0"
        unfolding same by blast
      have "k < k' \<and> cmp (prio_of h' (k' div 2)) (pe_priority e) \<le> 0"
        using w c ae by auto
      with r c ln down show ?thesis
        by (subst pq_down_loop.simps) simp
    qed
  qed
qed

lemma percolate_down_correct:
  assumes "pq_live (h(k \<mapsto> e)) n" and "1 \<le> k" and "k < n"
    and "ord_but2 cmp (prio_of (h(k \<mapsto> e))) n k"
    and "1 < k \<Longrightarrow> cmp (prio_of h (k div 2)) (pe_priority e) \<le> 0"
  shows "\<exists>h' k'. globus_l_priority_q_percolate_down cmp n h k (pe_priority e) = Some (h', k') \<and>
    pq_live (h'(k' \<mapsto> e)) n \<and> ord_full cmp (prio_of (h'(k' \<mapsto> e))) n \<and>
    pq_mset (h'(k' \<mapsto> e)) n = pq_mset (h(k \<mapsto> e)) n"
proof -
  obtain h' k' where
    r: "pq_down_loop cmp (n - 1) h k (pe_priority e) = Some (h', k')" "1 \<le> k'" "k' < n"
      "pq_live (h'(k' \<mapsto> e)) n" "ord_but cmp (prio_of (h'(k' \<mapsto> e))) n k'"
      "pq_mset (h'(k' \<mapsto> e)) n = pq_mset (h(k \<mapsto> e)) n"
    and w: "k' = k \<and> h' = h \<or> k < k' \<and> cmp (prio_of h' (k' div 2)) (pe_priority e) \<le> 0"
    using percolate_down_loop_correct [OF assms(1-4)] by blast
  have "cmp (prio_of h' (k' div 2)) (pe_priority e) \<le> 0" if "1 < k'"
    using w assms(5) that by auto
  then have "ord_full cmp (prio_of (h'(k' \<mapsto> e))) n"
    using ord_up_stop [OF r(5)] r(2) half_less [of k'] by (cases "k' \<le> 1") auto
  with r show ?thesis by (auto simp: globus_l_priority_q_percolate_down_def)
qed

text \<open>Replacing the priority of one slot leaves the order intact away from it.\<close>

lemma ord_full_hole:
  assumes "ord_full cmp P n" and "m \<le> n" and "1 \<le> k"
  shows "ord_but2 cmp (P(k := x)) m k"
proof -
  have edge: "cmp (P (i div 2)) (P i) \<le> 0" if "2 \<le> i" "i < m" for i
    using assms(1,2) that by (simp add: ord_full_def)
  have "cmp ((P(k := x)) (i div 2)) ((P(k := x)) i) \<le> 0"
    if "2 \<le> i" "i < m" "i \<noteq> k" "i div 2 \<noteq> k" for i
    using edge [of i] that by simp
  moreover have "ord_around cmp (P(k := x)) m k"
    unfolding ord_around_def
  proof (intro impI allI)
    fix i
    assume k: "1 < k" and i: "i < m \<and> i div 2 = k"
    have "2 \<le> i" "i \<noteq> k" "k < m" using k i by linarith+
    then show "cmp ((P(k := x)) (k div 2)) ((P(k := x)) i) \<le> 0"
      using edge [of i] edge [of k] cmp_trans [of "P (k div 2)" "P k" "P i"] k i half_less(3) [OF k]
      by simp
  qed
  ultimately show ?thesis by (simp add: ord_but2_def)
qed

lemma ord_full_hole_up:
  assumes "ord_full cmp P n" and "m \<le> n" and "1 \<le> k" and "cmp x (P k) \<le> 0"
  shows "ord_but cmp (P(k := x)) m k"
proof (rule ord_down_stop [OF ord_full_hole [OF assms(1-3)]])
  fix i
  assume i: "i < m" "i div 2 = k"
  have "2 \<le> i" "i \<noteq> k" using i assms(3) by linarith+
  then have "cmp (P k) (P i) \<le> 0"
    using assms(1,2) i by (auto simp: ord_full_def)
  then show "cmp ((P(k := x)) k) ((P(k := x)) i) \<le> 0"
    using cmp_trans [OF assms(4)] \<open>i \<noteq> k\<close> by simp
qed

lemma ord_full_top:
  assumes "ord_full cmp P n" and "1 \<le> i" and "i < n"
  shows "cmp (P 1) (P i) \<le> 0"
  using assms(2,3)
proof (induction i rule: less_induct)
  case (less i)
  show ?case
  proof (cases "i = 1")
    case True
    then show ?thesis using cmp_refl by simp
  next
    case False
    then have i: "1 < i" using less.prems(1) by simp
    have "cmp (P 1) (P (i div 2)) \<le> 0"
      using less.IH [OF half_less(1,2) [OF i]] half_less(1) [OF i] less.prems(2) by simp
    moreover have "cmp (P (i div 2)) (P i) \<le> 0"
      using assms(1) i less.prems(2) by (simp add: ord_full_def)
    ultimately show ?thesis by (rule cmp_trans)
  qed
qed

lemma enqueue_correct:
  assumes "pq_inv cmp s"
  shows "\<exists>rc s'. globus_priority_q_enqueue cmp realloc_ok node_ok (Some s) d p = Some (rc, Some s') \<and>
    pq_inv cmp s' \<and>
    (if (pq_next_slot s = pq_max_len s \<and> \<not> realloc_ok) \<or> \<not> node_ok
     then rc = GLOBUS_FAILURE \<and> pq_entries s' = pq_entries s
     else rc = GLOBUS_SUCCESS \<and>
       pq_entries s' = add_mset \<lparr>pe_priority = p, pe_datum = d\<rparr> (pq_entries s))"
proof -
  let ?n = "pq_next_slot s" and ?h = "pq_heap s" and ?e = "\<lparr>pe_priority = p, pe_datum = d\<rparr>"
  have i: "1 \<le> ?n" "?n \<le> pq_max_len s" "pq_live ?h ?n" "ord_full cmp (prio_of ?h) ?n"
    using assms by (simp_all add: pq_inv_def)
  have live: "pq_live (?h(?n \<mapsto> ?e)) (Suc ?n)"
    using i(3) by (auto simp: pq_live_def less_Suc_eq)
  have "cmp ((prio_of (?h(?n \<mapsto> ?e))) (i div 2)) (prio_of (?h(?n \<mapsto> ?e)) i) \<le> 0"
    if "2 \<le> i" "i < Suc ?n" "i \<noteq> ?n" for i
  proof -
    have "i < ?n" "i div 2 \<noteq> ?n" using that by linarith+
    with i(4) that(1) show ?thesis by (simp add: ord_full_def)
  qed
  moreover have "\<not> (i < Suc ?n \<and> i div 2 = ?n)" for i using i(1) by linarith
  then have "ord_around cmp (prio_of (?h(?n \<mapsto> ?e))) (Suc ?n) ?n"
    unfolding ord_around_def by blast
  ultimately have "ord_but cmp (prio_of (?h(?n \<mapsto> ?e))) (Suc ?n) ?n"
    unfolding ord_but_def by blast
  from percolate_up_correct [OF live i(1) _ this] obtain h' k' where
    up: "globus_l_priority_q_percolate_up cmp ?h ?n p = Some (h', k')"
      "pq_live (h'(k' \<mapsto> ?e)) (Suc ?n)" "ord_full cmp (prio_of (h'(k' \<mapsto> ?e))) (Suc ?n)"
      "pq_mset (h'(k' \<mapsto> ?e)) (Suc ?n) = pq_mset (?h(?n \<mapsto> ?e)) (Suc ?n)"
    by auto
  have same: "pq_mset (?h(?n \<mapsto> ?e)) ?n = pq_mset ?h ?n"
    by (rule pq_mset_cong) simp
  have added: "pq_mset (h'(k' \<mapsto> ?e)) (Suc ?n) = add_mset ?e (pq_mset ?h ?n)"
    unfolding up(4) pq_mset_Suc [OF i(1), of "?h(?n \<mapsto> ?e)"] same by simp
  define s1 where "s1 = (if ?n = pq_max_len s
    then s\<lparr>pq_max_len := pq_max_len s + GLOBUS_L_PRIORITY_Q_CHUNK_SIZE\<rparr> else s)"
  have s1: "pq_next_slot s1 = ?n" "pq_heap s1 = ?h" "pq_max_len s \<le> pq_max_len s1"
    by (simp_all add: s1_def)
  have room: "?n < pq_max_len s1"
    using i(2) by (simp add: s1_def GLOBUS_L_PRIORITY_Q_CHUNK_SIZE_def)
  let ?s2 = "s1\<lparr>pq_next_slot := Suc ?n, pq_heap := h'(k' \<mapsto> ?e)\<rparr>"
  have run: "globus_priority_q_enqueue cmp realloc_ok node_ok (Some s) d p =
    (if ?n = pq_max_len s \<and> \<not> realloc_ok then Some (GLOBUS_FAILURE, Some s)
     else if \<not> node_ok then Some (GLOBUS_FAILURE, Some s1)
     else Some (GLOBUS_SUCCESS, Some ?s2))"
    using up(1) unfolding globus_priority_q_enqueue_def
    by (cases "?n = pq_max_len s") (simp_all add: Let_def s1_def)
  have "pq_inv cmp s1" using assms s1 room by (simp add: pq_inv_def)
  moreover have "pq_inv cmp ?s2" using up room by (simp add: pq_inv_def del: prio_of_upd)
  ultimately show ?thesis using assms added s1 unfolding run by simp
qed

lemma dequeue_correct:
  assumes "pq_inv cmp s" and "pq_next_slot s \<noteq> 1"
  shows "\<exists>e s'. globus_priority_q_dequeue cmp (Some s) = Some (Some (pe_datum e), Some s') \<and>
    pq_inv cmp s' \<and> pq_entries s = add_mset e (pq_entries s') \<and>
    (\<forall>x \<in># pq_entries s. cmp (pe_priority e) (pe_priority x) \<le> 0)"
proof -
  let ?n = "pq_next_slot s" and ?h = "pq_heap s"
  have i: "1 \<le> ?n" "?n \<le> pq_max_len s" "pq_live ?h ?n" "ord_full cmp (prio_of ?h) ?n"
    using assms by (simp_all add: pq_inv_def)
  define m where "m = ?n - 1"
  have m: "?n = Suc m" "1 \<le> m" using i(1) assms(2) by (auto simp: m_def)
  obtain t e where t: "?h 1 = Some t" and e: "?h m = Some e"
    using i(3) m by (fastforce simp: pq_live_def)
  have "cmp (prio_of ?h 1) (prio_of ?h i) \<le> 0" if "1 \<le> i" "i < ?n" for i
    using ord_full_top [OF i(4) that] .
  then have top: "\<forall>x \<in># pq_entries s. cmp (pe_priority t) (pe_priority x) \<le> 0"
    using t by (auto simp: pq_mset_def prio_of_def)
  have split: "pq_entries s = add_mset e (pq_mset ?h m)"
    using m e by (simp add: pq_mset_Suc)
  show ?thesis
  proof (cases "1 < m")
    case False
    then have "m = 1" using m by simp
    have "pq_inv cmp (s\<lparr>pq_next_slot := m\<rparr>)"
      using i m by (auto simp: pq_inv_def pq_live_def ord_full_def)
    then show ?thesis
      using top split t e m \<open>m = 1\<close> by (auto simp: globus_priority_q_dequeue_def Let_def)
  next
    case True
    have live: "pq_live (?h(1 \<mapsto> e)) m"
      using i(3) m by (simp add: pq_live_def)
    have ord: "ord_but2 cmp (prio_of (?h(1 \<mapsto> e))) m 1"
      using ord_full_hole [OF i(4), of m 1] m by simp
    obtain h' k' where
      down: "globus_l_priority_q_percolate_down cmp m ?h 1 (pe_priority e) = Some (h', k')"
        "pq_live (h'(k' \<mapsto> e)) m" "ord_full cmp (prio_of (h'(k' \<mapsto> e))) m"
        "pq_mset (h'(k' \<mapsto> e)) m = pq_mset (?h(1 \<mapsto> e)) m"
      using percolate_down_correct [OF live _ True ord] by auto
    have "pq_entries s = add_mset t (pq_mset (?h(1 \<mapsto> e)) m)"
      using pq_mset_upd [of 1 m ?h e] True t split by simp
    moreover have "pq_inv cmp (s\<lparr>pq_next_slot := m, pq_heap := h'(k' \<mapsto> e)\<rparr>)"
      using down i m by (simp add: pq_inv_def del: prio_of_upd)
    ultimately show ?thesis
      using top down t e m True
      by (intro exI [of _ t] exI [of _ "s\<lparr>pq_next_slot := m, pq_heap := h'(k' \<mapsto> e)\<rparr>"])
        (simp add: globus_priority_q_dequeue_def Let_def)
  qed
qed

lemma remove_found:
  assumes inv: "pq_inv cmp s" and k: "1 \<le> k" "k < pq_next_slot s"
    and x: "pq_heap s k = Some x"
    and find: "pq_find (pq_heap s) 1 (pq_next_slot s) d = Some (Some (k, x))"
  shows "\<exists>s'. globus_priority_q_remove cmp (Some s) d = Some (Some d, Some s') \<and>
    pq_inv cmp s' \<and> pq_entries s = add_mset x (pq_entries s')"
proof -
  let ?n = "pq_next_slot s" and ?h = "pq_heap s"
  have i: "1 \<le> ?n" "?n \<le> pq_max_len s" "pq_live ?h ?n" "ord_full cmp (prio_of ?h) ?n"
    using inv by (simp_all add: pq_inv_def)
  define m where "m = ?n - 1"
  have m: "?n = Suc m" "k \<le> m" using k by (auto simp: m_def)
  obtain e where e: "?h m = Some e"
    using i(3) m k by (fastforce simp: pq_live_def)
  have split: "pq_entries s = add_mset e (pq_mset ?h m)"
    using m k(1) e by (simp add: pq_mset_Suc)
  show ?thesis
  proof (cases "k = m")
    case True
    have "pq_inv cmp (s\<lparr>pq_next_slot := m\<rparr>)"
      using i m k by (auto simp: pq_inv_def pq_live_def ord_full_def)
    then show ?thesis
      using split x e m find True by (auto simp: globus_priority_q_remove_def Let_def)
  next
    case False
    then have km: "k < m" using m by simp
    have live: "pq_live (?h(k \<mapsto> e)) m" using i(3) m by (simp add: pq_live_def)
    have finish: ?thesis if r:
      "(if 0 < cmp (pe_priority e) (pe_priority x)
        then globus_l_priority_q_percolate_down cmp m ?h k (pe_priority e)
        else globus_l_priority_q_percolate_up cmp ?h k (pe_priority e)) = Some (h', k')"
      "pq_live (h'(k' \<mapsto> e)) m" "ord_full cmp (prio_of (h'(k' \<mapsto> e))) m"
      "pq_mset (h'(k' \<mapsto> e)) m = pq_mset (?h(k \<mapsto> e)) m" for h' k'
    proof -
      let ?s = "s\<lparr>pq_next_slot := m, pq_heap := h'(k' \<mapsto> e)\<rparr>"
      have "pq_entries s = add_mset x (pq_mset (?h(k \<mapsto> e)) m)"
        using pq_mset_upd [of k m ?h e] k(1) km x split by simp
      moreover have "pq_inv cmp ?s"
        using r i m km by (simp add: pq_inv_def del: prio_of_upd)
      moreover have "globus_priority_q_remove cmp (Some s) d = Some (Some d, Some ?s)"
        unfolding globus_priority_q_remove_def using find m False e r(1)
        by (cases "0 < cmp (pe_priority e) (pe_priority x)") (simp_all add: Let_def)
      ultimately show ?thesis using r(4) by auto
    qed
    have px: "prio_of ?h k = pe_priority x" using x by (simp add: prio_of_def)
    show ?thesis
    proof (cases "0 < cmp (pe_priority e) (pe_priority x)")
      case True
      have "cmp (prio_of ?h (k div 2)) (prio_of ?h k) \<le> 0" if "1 < k"
        using i(4) that k(2) by (simp add: ord_full_def)
      then have edge: "1 < k \<Longrightarrow> cmp (prio_of ?h (k div 2)) (pe_priority e) \<le> 0"
        using cmp_trans cmp_total [OF True] px by metis
      have "ord_but2 cmp (prio_of (?h(k \<mapsto> e))) m k"
        using ord_full_hole [OF i(4), of m k] m k by simp
      from percolate_down_correct [OF live k(1) km this edge] True finish show ?thesis by auto
    next
      case le: False
      have "ord_but cmp (prio_of (?h(k \<mapsto> e))) m k"
        using ord_full_hole_up [OF i(4), of m k "pe_priority e"] m k px le by simp
      from percolate_up_correct [OF live k(1) km this] le finish show ?thesis by auto
    qed
  qed
qed

lemma modify_found:
  assumes inv: "pq_inv cmp s" and k: "1 \<le> k" "k < pq_next_slot s"
    and x: "pq_heap s k = Some x"
    and find: "pq_find (pq_heap s) 1 (pq_next_slot s) d = Some (Some (k, x))"
  shows "\<exists>s'. globus_priority_q_modify cmp (Some s) d p = Some (Some (pe_priority x), Some s') \<and>
    pq_inv cmp s' \<and> add_mset x (pq_entries s') = add_mset (x\<lparr>pe_priority := p\<rparr>) (pq_entries s)"
proof -
  let ?n = "pq_next_slot s" and ?h = "pq_heap s" and ?e = "x\<lparr>pe_priority := p\<rparr>"
  have i: "1 \<le> ?n" "?n \<le> pq_max_len s" "pq_live ?h ?n" "ord_full cmp (prio_of ?h) ?n"
    using inv by (simp_all add: pq_inv_def)
  let ?g = "?h(k \<mapsto> ?e)"
  have live: "pq_live (?g(k \<mapsto> ?e)) ?n" using i(3) by (simp add: pq_live_def)
  have ord: "ord_but2 cmp (prio_of (?g(k \<mapsto> ?e))) ?n k"
    using ord_full_hole [OF i(4) order_refl k(1)] by simp
  obtain h1 k1 where
    down: "pq_down_loop cmp (?n - 1) ?g k (pe_priority ?e) = Some (h1, k1)" "1 \<le> k1" "k1 < ?n"
      "pq_live (h1(k1 \<mapsto> ?e)) ?n" "ord_but cmp (prio_of (h1(k1 \<mapsto> ?e))) ?n k1"
      "pq_mset (h1(k1 \<mapsto> ?e)) ?n = pq_mset (?g(k \<mapsto> ?e)) ?n"
    using percolate_down_loop_correct [OF live k ord] by blast
  obtain h2 k2 where
    up: "globus_l_priority_q_percolate_up cmp h1 k1 (pe_priority ?e) = Some (h2, k2)"
      "pq_live (h2(k2 \<mapsto> ?e)) ?n" "ord_full cmp (prio_of (h2(k2 \<mapsto> ?e))) ?n"
      "pq_mset (h2(k2 \<mapsto> ?e)) ?n = pq_mset (h1(k1 \<mapsto> ?e)) ?n"
    using percolate_up_correct [OF down(4,2,3,5)] by blast
  let ?s = "s\<lparr>pq_heap := h2(k2 \<mapsto> ?e)\<rparr>"
  have "add_mset x (pq_mset (h2(k2 \<mapsto> ?e)) ?n) = add_mset ?e (pq_mset ?h ?n)"
    using pq_mset_upd [of k ?n ?h ?e] k x up(4) down(6) by simp
  moreover have "pq_inv cmp ?s"
    using up i by (simp add: pq_inv_def del: prio_of_upd)
  moreover have "globus_priority_q_modify cmp (Some s) d p = Some (Some (pe_priority x), Some ?s)"
    using find down(1) up(1)
    by (simp add: globus_priority_q_modify_def globus_l_priority_q_percolate_down_def Let_def)
  ultimately show ?thesis by auto
qed

end

section \<open>The toolkit's comparison functions satisfy the contract\<close>



interpretation file_blocks: priority_cmp globus_l_gfs_file_queue_compare
  by unfold_locales (auto simp: globus_l_gfs_file_queue_compare_def split: if_splits)


interpretation scripts: priority_cmp "\<lambda>a b. case globus_l_gram_script_priority_cmp a b of Some i \<Rightarrow> i | None \<Rightarrow> 0"
  by unfold_locales (auto simp: globus_l_gram_script_priority_cmp_def split: if_splits)

lemma size_pq_mset [simp]: "size (pq_mset g n) = n - 1"
  by (simp add: pq_mset_def)

context priority_cmp
begin

lemma drain_sorted:
  assumes "pq_inv cmp s" and "n = size (pq_entries s)"
  shows "\<exists>es q. pq_drain cmp n (Some s) = Some (map (Some \<circ> pe_datum) es, Some q) \<and>
    pq_entries q = {#} \<and> mset es = pq_entries s \<and>
    sorted_wrt (\<lambda>a b. cmp (pe_priority a) (pe_priority b) \<le> 0) es"
  using assms
proof (induction n arbitrary: s)
  case 0
  then have "pq_entries s = {#}" by (metis size_eq_0_iff_empty)
  then show ?case by (auto intro!: exI [of _ "[]"])
next
  case (Suc n)
  then have "pq_next_slot s \<noteq> 1" by auto
  from dequeue_correct [OF Suc.prems(1) this] obtain e s' where
    d: "globus_priority_q_dequeue cmp (Some s) = Some (Some (pe_datum e), Some s')"
      "pq_inv cmp s'" "pq_entries s = add_mset e (pq_entries s')"
      "\<forall>x \<in># pq_entries s. cmp (pe_priority e) (pe_priority x) \<le> 0" by blast
  have "n = size (pq_entries s')" using Suc.prems(2) d(3) by (metis size_add_mset nat.inject)
  from Suc.IH [OF d(2) this] obtain es q where
    r: "pq_drain cmp n (Some s') = Some (map (Some \<circ> pe_datum) es, Some q)"
      "pq_entries q = {#}" "mset es = pq_entries s'"
      "sorted_wrt (\<lambda>a b. cmp (pe_priority a) (pe_priority b) \<le> 0) es" by blast
  have "\<forall>x \<in> set es. cmp (pe_priority e) (pe_priority x) \<le> 0"
    using d(3,4) r(3) by (metis insert_iff set_mset_add_mset_insert set_mset_mset)
  with d r show ?case by (intro exI [of _ "e # es"] exI [of _ q]) simp
qed

end

lemma pq_inv_live: "pq_inv cmp s \<Longrightarrow> pq_live (pq_heap s) (pq_next_slot s)"
  by (simp add: pq_inv_def)

lemma slot_below_4: "(1::nat) \<le> i \<and> i < 4 \<longleftrightarrow> i = 1 \<or> i = 2 \<or> i = 3"
  by arith

lemma pq_sample_inv: "pq_inv globus_l_gfs_file_queue_compare pq_sample"
proof -
  have "2 \<le> i \<and> i < 4 \<longleftrightarrow> i = 2 \<or> i = 3" for i :: nat by arith
  then have "ord_full globus_l_gfs_file_queue_compare (prio_of (pq_heap pq_sample)) 4"
    by (auto simp: pq_sample_def ord_full_def prio_of_def globus_l_gfs_file_queue_compare_def)
  moreover have "pq_live (pq_heap pq_sample) 4"
    unfolding pq_live_def slot_below_4 by (auto simp: pq_sample_def)
  ultimately show ?thesis by (simp add: pq_inv_def pq_sample_def)
qed

lemma pq_sample_entries: "pq_entries pq_sample =
  {#\<lparr>pe_priority = 2, pe_datum = 7\<rparr>, \<lparr>pe_priority = 5, pe_datum = 3\<rparr>,
    \<lparr>pe_priority = 4, pe_datum = 8\<rparr>#}"
proof -
  have "{1..<4::nat} = {1, 2, 3}" by auto
  then show ?thesis by (simp add: pq_sample_def pq_mset_def)
qed

section \<open>Properties\<close>

text \<open>
  \<open>globus_priority_q_enqueue\<close> on a well-formed queue, for every comparison that satisfies the
  contract: the heap order is kept; when the array cannot grow or no node is available it returns
  the failure code and the entries are unchanged; otherwise it succeeds and exactly the new entry
  is added.
\<close>

theorem globus_priority_q_enqueue_correct:
  assumes "priority_cmp cmp" and "pq_inv cmp s"
  shows "\<exists>rc s'. globus_priority_q_enqueue cmp realloc_ok node_ok (Some s) d p = Some (rc, Some s') \<and>
    pq_inv cmp s' \<and>
    (if (pq_next_slot s = pq_max_len s \<and> \<not> realloc_ok) \<or> \<not> node_ok
     then rc = GLOBUS_FAILURE \<and> pq_entries s' = pq_entries s
     else rc = GLOBUS_SUCCESS \<and>
       pq_entries s' = add_mset \<lparr>pe_priority = p, pe_datum = d\<rparr> (pq_entries s))"
  by (rule priority_cmp.enqueue_correct [OF assms])

theorem globus_priority_q_enqueue_witness:
  "pq_inv globus_l_gfs_file_queue_compare (pq_sample :: (int, nat) globus_priority_q) \<and>
   (\<exists>rc s'. globus_priority_q_enqueue globus_l_gfs_file_queue_compare True True
      (Some pq_sample) 9 1 = Some (rc, Some s') \<and> rc = GLOBUS_SUCCESS \<and>
      pq_entries s' = add_mset \<lparr>pe_priority = 1, pe_datum = 9\<rparr> (pq_entries pq_sample))"
  using globus_priority_q_enqueue_correct
    [OF file_blocks.priority_cmp_axioms pq_sample_inv, of True True 9 1] pq_sample_inv
  by auto

text \<open>
  C33. \<open>globus_priority_q_dequeue\<close> on a well-formed queue that is not empty returns the datum of an
  entry whose priority is least among all entries, removes exactly that entry, and keeps the heap
  order.
\<close>

theorem globus_priority_q_dequeue_least:
  assumes "priority_cmp cmp" and "pq_inv cmp s" and "\<not> globus_priority_q_empty (Some s)"
  shows "\<exists>e s'. globus_priority_q_dequeue cmp (Some s) = Some (Some (pe_datum e), Some s') \<and>
    pq_inv cmp s' \<and> pq_entries s = add_mset e (pq_entries s') \<and>
    (\<forall>x \<in># pq_entries s. cmp (pe_priority e) (pe_priority x) \<le> 0)"
  using priority_cmp.dequeue_correct [OF assms(1,2)] assms(3)
  by (simp add: globus_priority_q_empty_def)

theorem globus_priority_q_dequeue_witness:
  "\<exists>e s'. globus_priority_q_dequeue globus_l_gfs_file_queue_compare (Some pq_sample)
     = Some (Some (pe_datum e), Some s') \<and> pq_entries pq_sample = add_mset e (pq_entries s')"
  using globus_priority_q_dequeue_least
    [OF file_blocks.priority_cmp_axioms pq_sample_inv]
  by (auto simp: globus_priority_q_empty_def pq_sample_def)

text \<open>
  \<open>globus_priority_q_remove\<close> on a well-formed queue always returns and keeps the heap order:
  NULL and an unchanged queue when no entry has the datum, otherwise the datum, with exactly one
  entry of that datum removed.
\<close>

theorem globus_priority_q_remove_correct:
  assumes "priority_cmp cmp" and "pq_inv cmp s"
  shows "if \<exists>x \<in># pq_entries s. pe_datum x = d
    then \<exists>x s'. globus_priority_q_remove cmp (Some s) d = Some (Some d, Some s') \<and> pq_inv cmp s' \<and>
      pe_datum x = d \<and> pq_entries s = add_mset x (pq_entries s')
    else globus_priority_q_remove cmp (Some s) d = Some (None, Some s)"
proof (cases rule: pq_find_cases [OF pq_inv_live [OF assms(2)], of d])
  case (1 j x)
  then show ?thesis
    using priority_cmp.remove_found [OF assms 1(1-3,5)] by auto
next
  case 2
  then show ?thesis by (auto simp: globus_priority_q_remove_def)
qed

theorem globus_priority_q_remove_witness:
  "\<exists>x s'. globus_priority_q_remove globus_l_gfs_file_queue_compare (Some pq_sample) 3
     = Some (Some 3, Some s') \<and> pq_entries pq_sample = add_mset x (pq_entries s')"
  using globus_priority_q_remove_correct
    [OF file_blocks.priority_cmp_axioms pq_sample_inv, of 3]
  by (auto simp: pq_sample_entries)

text \<open>
  \<open>globus_priority_q_modify\<close> on a well-formed queue always returns and keeps the heap order:
  NULL and an unchanged queue when no entry has the datum, otherwise the old priority of one entry
  of that datum, which now has the new priority while all other entries are as before.
\<close>

theorem globus_priority_q_modify_correct:
  assumes "priority_cmp cmp" and "pq_inv cmp s"
  shows "if \<exists>x \<in># pq_entries s. pe_datum x = d
    then \<exists>x s'. globus_priority_q_modify cmp (Some s) d p = Some (Some (pe_priority x), Some s') \<and>
      pq_inv cmp s' \<and> pe_datum x = d \<and> x \<in># pq_entries s \<and>
      add_mset x (pq_entries s') = add_mset (x\<lparr>pe_priority := p\<rparr>) (pq_entries s)
    else globus_priority_q_modify cmp (Some s) d p = Some (None, Some s)"
proof (cases rule: pq_find_cases [OF pq_inv_live [OF assms(2)], of d])
  case (1 j x)
  then show ?thesis
    using priority_cmp.modify_found [OF assms 1(1-3,5), of p] by auto
next
  case 2
  then show ?thesis by (auto simp: globus_priority_q_modify_def)
qed

theorem globus_priority_q_modify_witness:
  "\<exists>x s'. globus_priority_q_modify globus_l_gfs_file_queue_compare (Some pq_sample) 3 0
     = Some (Some (pe_priority x), Some s') \<and>
     add_mset x (pq_entries s') = add_mset (x\<lparr>pe_priority := 0\<rparr>) (pq_entries pq_sample)"
  using globus_priority_q_modify_correct
    [OF file_blocks.priority_cmp_axioms pq_sample_inv, of 3 0]
  by (auto simp: pq_sample_entries)

text \<open>
  Taking all entries out of a well-formed queue with \<open>globus_priority_q_dequeue\<close> returns every
  datum exactly once, in the order of the priorities, and leaves the queue empty.
\<close>

theorem globus_priority_q_drain_sorted:
  assumes "priority_cmp cmp" and "pq_inv cmp s" and "globus_priority_q_size (Some s) = int n"
  shows "\<exists>es q. pq_drain cmp n (Some s) = Some (map (Some \<circ> pe_datum) es, Some q) \<and>
    pq_entries q = {#} \<and> mset es = pq_entries s \<and>
    sorted_wrt (\<lambda>a b. cmp (pe_priority a) (pe_priority b) \<le> 0) es"
  by (rule priority_cmp.drain_sorted [OF assms(1,2)])
    (use assms(2,3) in \<open>simp add: globus_priority_q_size_def pq_inv_def\<close>)

theorem globus_priority_q_drain_witness:
  "\<exists>es q. pq_drain globus_l_gfs_file_queue_compare 3 (Some pq_sample)
      = Some (map (Some \<circ> pe_datum) es, Some q) \<and>
    pq_entries q = {#} \<and> mset es = pq_entries pq_sample \<and>
    sorted_wrt (\<lambda>a b. globus_l_gfs_file_queue_compare (pe_priority a) (pe_priority b) \<le> 0) es"
  using globus_priority_q_drain_sorted
    [OF file_blocks.priority_cmp_axioms pq_sample_inv, of 3]
  by (simp add: globus_priority_q_size_def pq_sample_def)


end
