(* ===== verification/Globus_Handle_Table.thy ===== *)
theory Globus_Handle_Table
  imports Globus_Prelude
begin

text \<open>
  The table of reference-counted handles of \<open>common/source/library/globus_handle_table.c\<close>: an array
  of entry pointers indexed by handle, and a stack of inactive entries whose slots are reused. An
  entry is owned by its slot or by the inactive list, so entries are kept by value. Reference
  counts are 32-bit words. A slot that was never written is undefined, and reading it is a fault
  (\<open>None\<close>), as is a dereference of a NULL table.

  The abstract view is a map from handles to counts and values; the locale \<open>refcounted\<close> states how
  increments and decrements act on it and derives the life cycle of a handle.
\<close>

section \<open>State\<close>

definition GLOBUS_NULL_HANDLE :: int where
  "GLOBUS_NULL_HANDLE = 0"

definition GLOBUS_L_HANDLE_TABLE_BLOCK_SIZE :: int where
  "GLOBUS_L_HANDLE_TABLE_BLOCK_SIZE = 100"

record 'v handle_entry =
  he_index :: int
  he_ref :: "32 word"
  he_value :: "'v vptr"

record 'v handle_table =
  ht_table :: "int \<rightharpoonup> 'v handle_entry option"
  ht_next_slot :: int
  ht_table_size :: int
  ht_inactive :: "'v handle_entry list"
  ht_destructor :: bool

section \<open>Operations\<close>

text \<open>
  A table argument \<open>None\<close> is a NULL pointer or a pointer to a destroyed (NULL) table, which the
  functions treat alike. \<open>globus_handle_table_init\<close>: \<open>present\<close> is a non-NULL argument, \<open>alloc_table\<close>
  and \<open>alloc_slots\<close> are the outcomes of the two allocations. The test after the first allocation
  looks at the argument instead of the result, so a failed allocation is dereferenced; when the
  second one fails the caller's own variable is passed to \<open>free\<close>.
\<close>

definition globus_handle_table_init ::
  "bool \<Rightarrow> bool \<Rightarrow> bool \<Rightarrow> bool \<Rightarrow> (int \<times> 'v handle_table option) option" where
  "globus_handle_table_init present alloc_table alloc_slots destructor =
     (if \<not> present then Some (GLOBUS_FAILURE, None)
      else if \<not> alloc_table then None
      else if \<not> alloc_slots then None
      else Some (GLOBUS_SUCCESS, Some
        \<lparr>ht_table = Map.empty, ht_next_slot = GLOBUS_NULL_HANDLE + 1,
         ht_table_size = GLOBUS_L_HANDLE_TABLE_BLOCK_SIZE, ht_inactive = [],
         ht_destructor = destructor\<rparr>))"

text \<open>
  The walk of \<open>globus_handle_table_destroy\<close> from the last slot down: the values handed to the
  destructor, in order.
\<close>

function handle_destroy_loop ::
  "bool \<Rightarrow> (int \<rightharpoonup> 'v handle_entry option) \<Rightarrow> int \<Rightarrow> 'v vptr list option" where
  "handle_destroy_loop destructor table i =
     (if i - 1 > GLOBUS_NULL_HANDLE
      then do {
        slot \<leftarrow> table (i - 1);
        rest \<leftarrow> handle_destroy_loop destructor table (i - 1);
        Some (case slot of
                Some e \<Rightarrow> if destructor then he_value e # rest else rest
              | None \<Rightarrow> rest) }
      else Some [])"
  by pat_completeness auto
termination
  by (relation "measure (\<lambda>(_, _, i). nat i)") (auto simp: GLOBUS_NULL_HANDLE_def)

declare handle_destroy_loop.simps [simp del]

definition globus_handle_table_destroy ::
  "'v handle_table option \<Rightarrow> (int \<times> 'v vptr list \<times> 'v handle_table option) option" where
  "globus_handle_table_destroy handle_table =
     (case handle_table of
        None \<Rightarrow> Some (GLOBUS_FAILURE, [], None)
      | Some t \<Rightarrow> do {
          calls \<leftarrow> handle_destroy_loop (ht_destructor t) (ht_table t) (ht_next_slot t);
          Some (GLOBUS_SUCCESS, calls, None) })"

definition globus_handle_table_insert ::
  "bool \<Rightarrow> bool \<Rightarrow> 'v handle_table option \<Rightarrow> 'v vptr \<Rightarrow> 32 word \<Rightarrow> int \<times> 'v handle_table option" where
  "globus_handle_table_insert realloc_ok malloc_ok handle_table value initial_refs =
     (case handle_table of
        None \<Rightarrow> (GLOBUS_NULL_HANDLE, None)
      | Some t \<Rightarrow>
         (case ht_inactive t of
            entry # pnext \<Rightarrow>
              (he_index entry, Some (t\<lparr>ht_inactive := pnext,
                 ht_table := (ht_table t)(he_index entry \<mapsto>
                   Some (entry\<lparr>he_value := value, he_ref := initial_refs\<rparr>))\<rparr>))
          | [] \<Rightarrow>
             (if ht_next_slot t = ht_table_size t \<and> \<not> realloc_ok
              then (GLOBUS_NULL_HANDLE, Some t)
              else let t1 = (if ht_next_slot t = ht_table_size t
                             then t\<lparr>ht_table_size := ht_table_size t + GLOBUS_L_HANDLE_TABLE_BLOCK_SIZE\<rparr>
                             else t)
                   in if \<not> malloc_ok then (GLOBUS_NULL_HANDLE, Some t1)
                      else let index = ht_next_slot t1
                           in (index, Some (t1\<lparr>ht_next_slot := index + 1,
                                ht_table := (ht_table t1)(index \<mapsto>
                                  Some \<lparr>he_index = index, he_ref = initial_refs,
                                        he_value = value\<rparr>)\<rparr>)))))"

text \<open>The bounds check and the read of the slot, which four operations share.\<close>

definition handle_slot :: "'v handle_table \<Rightarrow> int \<Rightarrow> 'v handle_entry option option" where
  "handle_slot t handle =
     (if handle > GLOBUS_NULL_HANDLE \<and> handle < ht_next_slot t then ht_table t handle
      else Some None)"

definition globus_handle_table_increment_reference_by ::
  "'v handle_table option \<Rightarrow> int \<Rightarrow> 32 word \<Rightarrow> (bool \<times> 'v handle_table option) option" where
  "globus_handle_table_increment_reference_by handle_table handle inc =
     (case handle_table of
        None \<Rightarrow> Some (False, None)
      | Some t \<Rightarrow> do {
          entry \<leftarrow> handle_slot t handle;
          Some (case entry of
                  Some e \<Rightarrow> (True, Some (t\<lparr>ht_table :=
                     (ht_table t)(handle \<mapsto> Some (e\<lparr>he_ref := he_ref e + inc\<rparr>))\<rparr>))
                | None \<Rightarrow> (False, Some t)) })"

definition globus_handle_table_increment_reference ::
  "'v handle_table option \<Rightarrow> int \<Rightarrow> (bool \<times> 'v handle_table option) option" where
  "globus_handle_table_increment_reference handle_table handle =
     globus_handle_table_increment_reference_by handle_table handle 1"

text \<open>\<open>globus_handle_table_decrement_reference\<close>: the second component lists the destructor calls.\<close>

definition globus_handle_table_decrement_reference ::
  "'v handle_table option \<Rightarrow> int \<Rightarrow> (bool \<times> 'v vptr list \<times> 'v handle_table option) option" where
  "globus_handle_table_decrement_reference handle_table handle =
     (case handle_table of
        None \<Rightarrow> Some (False, [], None)
      | Some t \<Rightarrow> do {
          entry \<leftarrow> handle_slot t handle;
          Some (case entry of
                  Some e \<Rightarrow>
                    (let e1 = e\<lparr>he_ref := he_ref e - 1\<rparr>
                     in if he_ref e1 = 0
                        then (False, if ht_destructor t then [he_value e1] else [],
                              Some (t\<lparr>ht_table := (ht_table t)(handle \<mapsto> None),
                                      ht_inactive := e1 # ht_inactive t\<rparr>))
                        else (True, [], Some (t\<lparr>ht_table := (ht_table t)(handle \<mapsto> Some e1)\<rparr>)))
                | None \<Rightarrow> (False, [], Some t)) })"

definition globus_handle_table_lookup ::
  "'v handle_table option \<Rightarrow> int \<Rightarrow> 'v vptr option" where
  "globus_handle_table_lookup handle_table handle =
     (case handle_table of
        None \<Rightarrow> Some None
      | Some t \<Rightarrow> do {
          entry \<leftarrow> handle_slot t handle;
          Some (case entry of Some e \<Rightarrow> he_value e | None \<Rightarrow> None) })"

text \<open>Giving back \<open>k\<close> references in a row: the results, the destructor calls and the table.\<close>

fun decrement_times ::
  "nat \<Rightarrow> 'v handle_table option \<Rightarrow> int \<Rightarrow>
   (bool list \<times> 'v vptr list \<times> 'v handle_table option) option" where
  "decrement_times 0 t h = Some ([], [], t)"
| "decrement_times (Suc k) t h =
     do { (b, c, t1) \<leftarrow> globus_handle_table_decrement_reference t h;
          (bs, cs, t2) \<leftarrow> decrement_times k t1 h;
          Some (b # bs, c @ cs, t2) }"

section \<open>Invariant and abstract view\<close>

text \<open>
  Every slot below the next one was written; an active slot holds an entry with its own index; a
  NULL slot's entry is on the inactive list, exactly once.
\<close>

definition handle_inv :: "'v handle_table \<Rightarrow> bool" where
  "handle_inv t \<longleftrightarrow>
     0 < ht_next_slot t \<and> ht_next_slot t \<le> ht_table_size t \<and>
     (\<forall>h. 0 < h \<and> h < ht_next_slot t \<longrightarrow>
        (\<exists>e. ht_table t h = Some (Some e) \<and> he_index e = h) \<or>
        (ht_table t h = Some None \<and> h \<in> he_index ` set (ht_inactive t))) \<and>
     distinct (map he_index (ht_inactive t)) \<and>
     (\<forall>e \<in> set (ht_inactive t). 0 < he_index e \<and> he_index e < ht_next_slot t \<and>
        ht_table t (he_index e) = Some None)"

definition handle_map :: "'v handle_table \<Rightarrow> int \<Rightarrow> (32 word \<times> 'v vptr) option" where
  "handle_map t h =
     (case handle_slot t h of
        Some (Some e) \<Rightarrow> Some (he_ref e, he_value e)
      | _ \<Rightarrow> None)"

lemma handle_slot_cases:
  assumes "handle_inv t"
  obtains (active) e where "handle_slot t h = Some (Some e)" "he_index e = h" "0 < h"
      "h < ht_next_slot t" "handle_map t h = Some (he_ref e, he_value e)" "ht_table t h = Some (Some e)"
    | (absent) "handle_slot t h = Some None" "handle_map t h = None"
proof (cases "0 < h \<and> h < ht_next_slot t")
  case True
  then have s: "handle_slot t h = ht_table t h" by (simp add: handle_slot_def GLOBUS_NULL_HANDLE_def)
  from True assms consider e where "ht_table t h = Some (Some e)" "he_index e = h"
    | "ht_table t h = Some None" unfolding handle_inv_def by blast
  then show ?thesis using that s True by cases (simp_all add: handle_map_def)
next
  case False
  then have "handle_slot t h = Some None" by (auto simp: handle_slot_def GLOBUS_NULL_HANDLE_def)
  then show ?thesis using that(2) by (simp add: handle_map_def)
qed

lemma handle_inv_init:
  "globus_handle_table_init True True True d = Some (rc, Some t) \<Longrightarrow> handle_inv t \<and> handle_map t = Map.empty"
  by (auto simp: globus_handle_table_init_def handle_inv_def handle_map_def handle_slot_def
      GLOBUS_NULL_HANDLE_def GLOBUS_L_HANDLE_TABLE_BLOCK_SIZE_def)

text \<open>Changing one active or NULL slot changes the map at that handle only.\<close>

lemma handle_map_upd:
  assumes "0 < h" and "h < ht_next_slot t"
  shows "handle_map (t\<lparr>ht_table := (ht_table t)(h \<mapsto> s), ht_inactive := l\<rparr>) =
    (handle_map t)(h := map_option (\<lambda>e. (he_ref e, he_value e)) s)"
  using assms by (auto simp: handle_map_def handle_slot_def GLOBUS_NULL_HANDLE_def fun_eq_iff
      split: option.splits)

lemma handle_inv_upd:
  assumes "handle_inv t" and "0 < h" and "h < ht_next_slot t"
    and "ht_table t h = Some (Some e0)" and "he_index e = h"
  shows "handle_inv (t\<lparr>ht_table := (ht_table t)(h \<mapsto> Some e)\<rparr>)"
proof -
  have "he_index x \<noteq> h" if "x \<in> set (ht_inactive t)" for x
    using assms(1,4) that by (auto simp: handle_inv_def)
  with assms show ?thesis by (auto simp: handle_inv_def)
qed

lemma insert_handle_correct:
  assumes "handle_inv t"
    and "globus_handle_table_insert realloc_ok malloc_ok (Some t) v n = (h, t')"
  shows "\<exists>u. t' = Some u \<and> handle_inv u \<and> ht_destructor u = ht_destructor t \<and>
    (if h = GLOBUS_NULL_HANDLE
     then ht_inactive t = [] \<and> \<not> (realloc_ok \<and> malloc_ok) \<and> handle_map u = handle_map t
     else handle_map t h = None \<and> handle_map u = (handle_map t)(h \<mapsto> (n, v)))"
proof (cases "ht_inactive t")
  case (Cons entry pnext)
  let ?i = "he_index entry"
  have i: "0 < ?i" "?i < ht_next_slot t" "ht_table t ?i = Some None" "?i \<notin> he_index ` set pnext"
    "distinct (map he_index pnext)"
    using assms(1) Cons by (auto simp: handle_inv_def)
  define u where "u = t\<lparr>ht_table := (ht_table t)(?i \<mapsto>
     Some (entry\<lparr>he_value := v, he_ref := n\<rparr>)), ht_inactive := pnext\<rparr>"
  have r: "h = ?i" "t' = Some u"
    using assms(2) Cons by (auto simp: globus_handle_table_insert_def u_def)
  have "handle_inv u"
    using assms(1) Cons i unfolding handle_inv_def u_def by (auto simp: image_iff)
  moreover have "handle_map u = (handle_map t)(?i \<mapsto> (n, v))"
    using i by (simp add: u_def handle_map_upd)
  moreover have "handle_map t ?i = None"
    using i by (simp add: handle_map_def handle_slot_def)
  ultimately show ?thesis using r i(1) by (simp add: GLOBUS_NULL_HANDLE_def) (simp add: u_def)
next
  case Nil
  define t1 where "t1 = (if ht_next_slot t = ht_table_size t
    then t\<lparr>ht_table_size := ht_table_size t + GLOBUS_L_HANDLE_TABLE_BLOCK_SIZE\<rparr> else t)"
  let ?i = "ht_next_slot t"
  let ?u = "t1\<lparr>ht_next_slot := ?i + 1, ht_table := (ht_table t)(?i \<mapsto>
    Some \<lparr>he_index = ?i, he_ref = n, he_value = v\<rparr>)\<rparr>"
  have run: "(h, t') = (if ?i = ht_table_size t \<and> \<not> realloc_ok then (GLOBUS_NULL_HANDLE, Some t)
      else if \<not> malloc_ok then (GLOBUS_NULL_HANDLE, Some t1) else (?i, Some ?u))"
    using assms(2) Nil unfolding globus_handle_table_insert_def t1_def
    by (cases "ht_next_slot t = ht_table_size t") (auto simp: Let_def split: if_splits)
  have same: "handle_map t1 = handle_map t"
    by (simp add: t1_def handle_map_def handle_slot_def fun_eq_iff)
  have t1: "handle_inv t1"
    using assms(1) by (auto simp: t1_def handle_inv_def GLOBUS_L_HANDLE_TABLE_BLOCK_SIZE_def)
  have room: "?i < ht_table_size t1"
    using assms(1) by (auto simp: t1_def handle_inv_def GLOBUS_L_HANDLE_TABLE_BLOCK_SIZE_def)
  have d1: "ht_destructor t1 = ht_destructor t" by (simp add: t1_def)
  have inact: "ht_inactive t1 = []" "ht_next_slot t1 = ?i" "ht_table t1 = ht_table t"
    using Nil by (simp_all add: t1_def)
  have "handle_inv ?u"
    using t1 room inact by (auto simp: handle_inv_def)
  moreover have "handle_map ?u = (handle_map t)(?i \<mapsto> (n, v))" "handle_map t ?i = None" "0 < ?i"
    using assms(1) by (auto simp: handle_map_def handle_slot_def fun_eq_iff handle_inv_def
        GLOBUS_NULL_HANDLE_def)
  ultimately show ?thesis
    using run assms(1) t1 same Nil d1 by (auto simp: GLOBUS_NULL_HANDLE_def split: if_splits)
qed

lemma increment_correct:
  assumes "handle_inv t"
  shows "\<exists>u. globus_handle_table_increment_reference_by (Some t) h inc
      = Some (handle_map t h \<noteq> None, Some u) \<and> handle_inv u \<and>
    handle_map u = (case handle_map t h of None \<Rightarrow> handle_map t
                    | Some (n, v) \<Rightarrow> (handle_map t)(h \<mapsto> (n + inc, v)))"
proof (cases rule: handle_slot_cases [OF assms, of h])
  case (1 e)
  let ?e = "e\<lparr>he_ref := he_ref e + inc\<rparr>"
  have "handle_inv (t\<lparr>ht_table := (ht_table t)(h \<mapsto> Some ?e)\<rparr>)"
    by (rule handle_inv_upd [OF assms 1(3,4,6)]) (simp add: 1)
  moreover have "handle_map (t\<lparr>ht_table := (ht_table t)(h \<mapsto> Some ?e)\<rparr>)
      = (handle_map t)(h \<mapsto> (he_ref e + inc, he_value e))"
    using handle_map_upd [OF 1(3,4), where s = "Some ?e" and l = "ht_inactive t"] by simp
  ultimately show ?thesis
    using 1 by (simp add: globus_handle_table_increment_reference_by_def)
next
  case 2
  then show ?thesis using assms by (simp add: globus_handle_table_increment_reference_by_def)
qed

lemma decrement_correct:
  assumes "handle_inv t"
  shows "\<exists>u. handle_inv u \<and> ht_destructor u = ht_destructor t \<and>
    (case handle_map t h of
       None \<Rightarrow> globus_handle_table_decrement_reference (Some t) h = Some (False, [], Some u) \<and>
         handle_map u = handle_map t
     | Some (n, v) \<Rightarrow>
         (if n = 1
          then globus_handle_table_decrement_reference (Some t) h
              = Some (False, if ht_destructor t then [v] else [], Some u) \<and>
            handle_map u = (handle_map t)(h := None)
          else globus_handle_table_decrement_reference (Some t) h = Some (True, [], Some u) \<and>
            handle_map u = (handle_map t)(h \<mapsto> (n - 1, v))))"
proof (cases rule: handle_slot_cases [OF assms, of h])
  case (1 e)
  let ?e = "e\<lparr>he_ref := he_ref e - 1\<rparr>"
  let ?keep = "t\<lparr>ht_table := (ht_table t)(h \<mapsto> Some ?e)\<rparr>"
  let ?drop = "t\<lparr>ht_table := (ht_table t)(h \<mapsto> None), ht_inactive := ?e # ht_inactive t\<rparr>"
  have "handle_inv ?keep"
    by (rule handle_inv_upd [OF assms 1(3,4,6)]) (simp add: 1)
  moreover have "handle_map ?keep = (handle_map t)(h \<mapsto> (he_ref e - 1, he_value e))"
    using handle_map_upd [OF 1(3,4), where s = "Some ?e" and l = "ht_inactive t"] by simp
  moreover have "h \<notin> he_index ` set (ht_inactive t)"
    using assms 1(6) by (auto simp: handle_inv_def)
  then have "handle_inv ?drop"
    using assms 1 by (auto simp: handle_inv_def)
  moreover have "handle_map ?drop = (handle_map t)(h := None)"
    using handle_map_upd [OF 1(3,4), where s = None] by simp
  moreover have "he_ref e - 1 = 0 \<longleftrightarrow> he_ref e = 1" by simp
  ultimately show ?thesis
    using 1 by (cases "he_ref e = 1")
      (simp_all add: globus_handle_table_decrement_reference_def Let_def)
next
  case 2
  then show ?thesis using assms
    by (intro exI [of _ t]) (simp add: globus_handle_table_decrement_reference_def)
qed

lemma lookup_handle_correct:
  assumes "handle_inv t"
  shows "globus_handle_table_lookup (Some t) h
    = Some (case handle_map t h of None \<Rightarrow> None | Some (n, v) \<Rightarrow> v)"
  by (cases rule: handle_slot_cases [OF assms, of h]) (simp_all add: globus_handle_table_lookup_def)

lemma destroy_loop_correct:
  assumes "handle_inv t" and "i \<le> ht_next_slot t"
  shows "handle_destroy_loop d (ht_table t) i =
    Some (if d then concat (map (\<lambda>h. case handle_map t h of None \<Rightarrow> [] | Some (n, v) \<Rightarrow> [v])
                          (rev [1..i - 1])) else [])"
  using assms(2)
proof (induction "nat i" arbitrary: i rule: less_induct)
  case less
  show ?case
  proof (cases "i - 1 > 0")
    case False
    then show ?thesis by (simp add: handle_destroy_loop.simps [of _ _ i] GLOBUS_NULL_HANDLE_def)
  next
    case True
    have seq: "[1..i - 1] = [1..(i - 1) - 1] @ [i - 1]" using True by (simp add: upto_rec2)
    have slot: "handle_slot t (i - 1) = ht_table t (i - 1)"
      using True less.prems by (simp add: handle_slot_def GLOBUS_NULL_HANDLE_def)
    have "nat (i - 1) < nat i" "i - 1 \<le> ht_next_slot t" using True less.prems by auto
    note ih = less.hyps [OF this]
    show ?thesis
      by (cases rule: handle_slot_cases [OF assms(1), of "i - 1"])
        (use True slot ih in \<open>simp_all add: handle_destroy_loop.simps [of _ _ i] seq
           GLOBUS_NULL_HANDLE_def\<close>)
  qed
qed

section \<open>Reference counting as an interface\<close>

text \<open>
  What a client of a reference-counted table relies on: a decrement of a count above one keeps the
  handle and lowers the count, a decrement of the last reference releases the handle and runs the
  destructor once, and other handles are not affected. From it follows the life of a handle under
  any number of decrements.
\<close>

locale refcounted =
  fixes inv :: "'t \<Rightarrow> bool"
    and view :: "'t \<Rightarrow> int \<Rightarrow> (32 word \<times> 'v) option"
    and dec :: "'t \<Rightarrow> int \<Rightarrow> (bool \<times> 'v list \<times> 't) option"
    and destructs :: "'t \<Rightarrow> bool"
  assumes dec_step: "inv t \<Longrightarrow> view t h = Some (n, v) \<Longrightarrow> n \<noteq> 1 \<Longrightarrow>
      \<exists>u. dec t h = Some (True, [], u) \<and> inv u \<and> destructs u = destructs t \<and>
        view u = (view t)(h \<mapsto> (n - 1, v))"
    and dec_last: "inv t \<Longrightarrow> view t h = Some (1, v) \<Longrightarrow>
      \<exists>u. dec t h = Some (False, if destructs t then [v] else [], u) \<and> inv u \<and>
        destructs u = destructs t \<and> view u = (view t)(h := None)"
begin

fun decs :: "nat \<Rightarrow> 't \<Rightarrow> int \<Rightarrow> (bool list \<times> 'v list \<times> 't) option" where
  "decs 0 t h = Some ([], [], t)"
| "decs (Suc k) t h =
     do { (b, c, t1) \<leftarrow> dec t h; (bs, cs, t2) \<leftarrow> decs k t1 h; Some (b # bs, c @ cs, t2) }"

lemma decs_last:
  assumes "inv t" and "view t h = Some (of_nat (Suc k), v)" and "Suc k < 2 ^ 32"
  shows "\<exists>u. decs (Suc k) t h =
      Some (replicate k True @ [False], if destructs t then [v] else [], u) \<and>
    inv u \<and> view u = (view t)(h := None)"
  using assms
proof (induction k arbitrary: t)
  case 0
  from dec_last [of t h v] 0 show ?case by (auto simp: fun_upd_def)
next
  case (Suc k)
  have "unat (of_nat (Suc (Suc k)) :: 32 word) = Suc (Suc k)"
    using Suc.prems(3) by (simp only: unat_of_nat) simp
  then have "of_nat (Suc (Suc k)) \<noteq> (1 :: 32 word)" by (metis Suc_inject nat.distinct(1) One_nat_def unat_1)
  from dec_step [OF Suc.prems(1,2) this] obtain u where
    u: "dec t h = Some (True, [], u)" "inv u" "destructs u = destructs t"
      "view u = (view t)(h \<mapsto> (of_nat (Suc (Suc k)) - 1, v))" by blast
  then have "view u h = Some (of_nat (Suc k), v)" by simp
  moreover have "Suc k < 2 ^ 32" using Suc.prems(3) by simp
  ultimately obtain w where
    w: "decs (Suc k) u h = Some (replicate k True @ [False], if destructs u then [v] else [], w)"
      "inv w" "view w = (view u)(h := None)" using Suc.IH [OF u(2)] by blast
  have "decs (Suc (Suc k)) t h
      = Some (True # replicate k True @ [False], if destructs u then [v] else [], w)"
    unfolding decs.simps(2) [of "Suc k"] u(1) using w(1) by (simp del: decs.simps)
  with w(2,3) u(3,4) show ?case by (simp add: fun_eq_iff del: decs.simps)
qed

end

interpretation handles: refcounted handle_inv handle_map
  "\<lambda>t h. do { (b, c, q) \<leftarrow> globus_handle_table_decrement_reference (Some t) h; u \<leftarrow> q; Some (b, c, u) }"
  ht_destructor
proof
  fix t :: "'a handle_table" and h n v
  assume a: "handle_inv t" "handle_map t h = Some (n, v)" "n \<noteq> 1"
  with decrement_correct [OF a(1), of h]
  show "\<exists>u. do { (b, c, q) \<leftarrow> globus_handle_table_decrement_reference (Some t) h; u \<leftarrow> q; Some (b, c, u) }
      = Some (True, [], u) \<and> handle_inv u \<and> ht_destructor u = ht_destructor t \<and>
    handle_map u = (handle_map t)(h \<mapsto> (n - 1, v))" by auto
next
  fix t :: "'a handle_table" and h v
  assume a: "handle_inv t" "handle_map t h = Some (1, v)"
  with decrement_correct [OF a(1), of h]
  show "\<exists>u. do { (b, c, q) \<leftarrow> globus_handle_table_decrement_reference (Some t) h; u \<leftarrow> q; Some (b, c, u) }
      = Some (False, if ht_destructor t then [v] else [], u) \<and> handle_inv u \<and>
    ht_destructor u = ht_destructor t \<and> handle_map u = (handle_map t)(h := None)" by auto
qed

lemma decrement_some:
  "globus_handle_table_decrement_reference (Some t) h = Some (b, c, q) \<Longrightarrow> \<exists>u. q = Some u"
  by (auto simp: globus_handle_table_decrement_reference_def Let_def split: option.splits if_splits
      bind_splits)

lemma decrement_times_decs:
  "decrement_times k (Some t) h = map_option (\<lambda>(bs, cs, u). (bs, cs, Some u)) (handles.decs k t h)"
proof (induction k arbitrary: t)
  case 0
  then show ?case by simp
next
  case (Suc k)
  show ?case
  proof (cases "globus_handle_table_decrement_reference (Some t) h")
    case None
    then show ?thesis by simp
  next
    case (Some r)
    then obtain b c u where r: "globus_handle_table_decrement_reference (Some t) h = Some (b, c, Some u)"
      using decrement_some by (cases r) blast
    then show ?thesis using Suc [of u] by (cases "handles.decs k u h") (auto split: prod.splits)
  qed
qed

section \<open>Properties\<close>

text \<open>A table with one active handle and one inactive slot.\<close>

definition handle_sample :: "nat handle_table" where
  "handle_sample = \<lparr>ht_table = [1 \<mapsto> None, 2 \<mapsto> Some \<lparr>he_index = 2, he_ref = 3, he_value = Some 5\<rparr>],
     ht_next_slot = 3, ht_table_size = 100,
     ht_inactive = [\<lparr>he_index = 1, he_ref = 0, he_value = Some 4\<rparr>], ht_destructor = True\<rparr>"

lemma handle_sample_inv: "handle_inv handle_sample"
proof -
  have "0 < h \<and> h < 3 \<longleftrightarrow> h = 1 \<or> h = 2" for h :: int by arith
  then show ?thesis by (auto simp: handle_inv_def handle_sample_def)
qed

text \<open>
  \<open>globus_handle_table_insert\<close> on a well-formed table keeps it well-formed. It returns the NULL
  handle only when no slot can be reused and an allocation fails, and then no handle changes;
  otherwise it returns a handle that was not in use and binds it to the value and the initial
  count, leaving every other handle alone.
\<close>

theorem globus_handle_table_insert_fresh:
  assumes "handle_inv t"
    and "globus_handle_table_insert realloc_ok malloc_ok (Some t) v n = (h, t')"
  shows "\<exists>u. t' = Some u \<and> handle_inv u \<and>
    (if h = GLOBUS_NULL_HANDLE
     then ht_inactive t = [] \<and> \<not> (realloc_ok \<and> malloc_ok) \<and> handle_map u = handle_map t
     else handle_map t h = None \<and> handle_map u = (handle_map t)(h \<mapsto> (n, v)))"
  using insert_handle_correct [OF assms] by blast

theorem globus_handle_table_insert_witness:
  "\<exists>h u. globus_handle_table_insert True True (Some handle_sample) (Some 9) 1 = (h, Some u) \<and>
     handle_inv u"
  using globus_handle_table_insert_fresh [OF handle_sample_inv, of True True "Some 9" 1]
  by (metis surj_pair)

text \<open>
  C37. The life of a handle: inserted with \<open>n\<close> references, it is found by
  \<open>globus_handle_table_lookup\<close>; giving back its references reports that it is still referenced
  until the last one, which releases it, runs the destructor on its value exactly once when one is
  installed, and leaves the lookup of every other handle as it was before the insertion.
\<close>

theorem globus_handle_table_lifecycle:
  assumes "handle_inv t" and "0 < n" and "n < 2 ^ 32"
    and "globus_handle_table_insert True True (Some t) v (of_nat n) = (h, t')"
  shows "globus_handle_table_lookup t' h = Some v \<and>
    (\<exists>u. decrement_times n t' h =
        Some (replicate (n - 1) True @ [False], if ht_destructor t then [v] else [], Some u) \<and>
      globus_handle_table_lookup (Some u) h = Some None \<and>
      (\<forall>k. k \<noteq> h \<longrightarrow> globus_handle_table_lookup (Some u) k = globus_handle_table_lookup (Some t) k))"
proof -
  obtain s where s: "t' = Some s" "handle_inv s" "ht_destructor s = ht_destructor t"
      "h \<noteq> GLOBUS_NULL_HANDLE" "handle_map s = (handle_map t)(h \<mapsto> (of_nat n, v))"
    using insert_handle_correct [OF assms(1,4)] by (auto split: if_splits)
  obtain k where k: "n = Suc k" using assms(2) by (cases n) auto
  have "handle_map s h = Some (of_nat (Suc k), v)" using s(5) k by simp
  from handles.decs_last [OF s(2) this] assms(3) k obtain u where
    u: "handles.decs (Suc k) s h =
        Some (replicate k True @ [False], if ht_destructor s then [v] else [], u)"
      "handle_inv u" "handle_map u = (handle_map s)(h := None)" by auto
  show ?thesis
    using s u k assms(1) decrement_times_decs [of n s h]
    by (auto simp: lookup_handle_correct simp del: decrement_times.simps)
qed

theorem globus_handle_table_lifecycle_witness:
  "\<exists>h t' u. globus_handle_table_insert True True (Some handle_sample) (Some 9) (of_nat 3) = (h, t') \<and>
     decrement_times 3 t' h = Some ([True, True, False], [Some 9], Some u)"
proof -
  obtain h t' where i: "globus_handle_table_insert True True (Some handle_sample) (Some 9) (of_nat 3)
      = (h, t')" by (metis surj_pair)
  have "(0::nat) < 3" "(3::nat) < 2 ^ 32" "ht_destructor handle_sample"
    by (simp_all add: handle_sample_def)
  moreover have "replicate (3 - 1) True @ [False] = [True, True, False]"
    by (simp add: numeral_2_eq_2)
  ultimately have "\<exists>u. decrement_times 3 t' h = Some ([True, True, False], [Some 9], Some u)"
    using globus_handle_table_lifecycle [OF handle_sample_inv _ _ i] by auto
  with i show ?thesis by blast
qed

text \<open>
  \<open>globus_handle_table_destroy\<close> of a well-formed table with a destructor calls it on the value
  of every active handle exactly once, from the highest handle down, and invalidates the table.
\<close>

theorem globus_handle_table_destroy_complete:
  assumes "handle_inv t"
  shows "globus_handle_table_destroy (Some t) = Some (GLOBUS_SUCCESS,
    if ht_destructor t
    then concat (map (\<lambda>h. case handle_map t h of None \<Rightarrow> [] | Some (n, v) \<Rightarrow> [v])
                  (rev [1..ht_next_slot t - 1]))
    else [], None)"
  using destroy_loop_correct [OF assms order_refl]
  by (simp add: globus_handle_table_destroy_def)

theorem globus_handle_table_destroy_witness:
  "globus_handle_table_destroy (Some handle_sample) = Some (GLOBUS_SUCCESS, [Some 5], None)"
proof -
  have "handle_map handle_sample 1 = None" "handle_map handle_sample 2 = Some (3, Some 5)"
    by (simp_all add: handle_map_def handle_slot_def handle_sample_def GLOBUS_NULL_HANDLE_def)
  moreover have "[1..ht_next_slot handle_sample - 1] = [1, 2]"
    by (simp add: handle_sample_def upto.simps)
  moreover have "ht_destructor handle_sample" by (simp add: handle_sample_def)
  ultimately show ?thesis
    using globus_handle_table_destroy_complete [OF handle_sample_inv] by simp
qed

end
