(* ===== verification/Globus_Memory.thy ===== *)
theory Globus_Memory
  imports Globus_Prelude
begin

text \<open>
  The node pools of \<open>common/source/library/globus_memory.c\<close>: blocks obtained from \<open>malloc\<close> are cut
  into nodes of one size, and the free nodes form a chain whose links are stored in the nodes
  themselves. Addresses are byte addresses; the links in free nodes are a partial map on addresses.
  The block that \<open>malloc\<close> returns is an argument of the operations (\<open>None\<close> for NULL), with the
  documented guarantee that it overlaps no live block as a hypothesis where it is needed. A \<open>None\<close>
  result is a NULL dereference. The mutex of the pool makes each operation atomic, which is how the
  operations are modelled.

  The step relation \<open>pool_reach\<close> describes the pools that any sequence of pops and of pushes of
  held nodes can reach.
\<close>

section \<open>State\<close>

record memory_s =
  mp_total_size :: nat
  mp_node_size :: nat
  mp_nodes_used :: int
  mp_node_count :: nat
  mp_node_count_per_malloc :: nat
  mp_destroyed :: bool
  mp_first :: "addr option"
  mp_free_ptrs :: "addr option list"
  mp_free_ptrs_size :: nat
  mp_next :: "addr \<rightharpoonup> addr option"

definition I_ALIGN_SIZE :: nat where
  "I_ALIGN_SIZE = 8"

definition DEFAULT_FREE_PTRS_SIZE :: nat where
  "DEFAULT_FREE_PTRS_SIZE = 16"

section \<open>Operations\<close>

text \<open>The loop of \<open>globus_l_memory_create_list\<close> that threads a block, and its last store.\<close>

fun thread_nodes :: "nat \<Rightarrow> nat \<Rightarrow> addr \<Rightarrow> (addr \<rightharpoonup> addr option) \<Rightarrow> (addr \<rightharpoonup> addr option)" where
  "thread_nodes node_size 0 buf next = next(buf \<mapsto> None)"
| "thread_nodes node_size (Suc n) buf next =
     thread_nodes node_size n (buf + node_size) (next(buf \<mapsto> Some (buf + node_size)))"

text \<open>
  \<open>block\<close> is the result of the allocation, \<open>realloc_ok\<close> the outcome of growing the array of block
  pointers; the array's fill level is the code's \<open>free_ptrs_offset + 1\<close>.
\<close>

definition globus_l_memory_create_list ::
  "addr option \<Rightarrow> bool \<Rightarrow> memory_s \<Rightarrow> (bool \<times> memory_s) option" where
  "globus_l_memory_create_list block realloc_ok m =
     (let m1 = m\<lparr>mp_first := block\<rparr>;
          full = (length (mp_free_ptrs m1) = mp_free_ptrs_size m1);
          m2 = (if full
                then m1\<lparr>mp_free_ptrs_size := mp_free_ptrs_size m1 + DEFAULT_FREE_PTRS_SIZE\<rparr>
                else m1)
      in if full \<and> \<not> realloc_ok then None
         else let m3 = m2\<lparr>mp_free_ptrs := mp_free_ptrs m2 @ [block]\<rparr>
              in case block of
                   None \<Rightarrow> Some (False, m3)
                 | Some buf \<Rightarrow> Some (True, m3\<lparr>mp_next :=
                     thread_nodes (mp_node_size m3) (mp_node_count_per_malloc m3 - 1) buf
                       (mp_next m3)\<rparr>))"

definition globus_memory_init ::
  "addr option \<Rightarrow> nat \<Rightarrow> nat \<Rightarrow> (bool \<times> memory_s) option" where
  "globus_memory_init block node_size node_count =
     (let pad = (I_ALIGN_SIZE - node_size mod I_ALIGN_SIZE) mod I_ALIGN_SIZE
      in globus_l_memory_create_list block True
           \<lparr>mp_total_size = node_count * (node_size + pad), mp_node_size = node_size + pad,
            mp_nodes_used = 0, mp_node_count = node_count,
            mp_node_count_per_malloc = node_count, mp_destroyed = False, mp_first = None,
            mp_free_ptrs = [], mp_free_ptrs_size = DEFAULT_FREE_PTRS_SIZE, mp_next = Map.empty\<rparr>)"

text \<open>
  \<open>globus_memory_pop_node\<close>: the result of growing the pool is not looked at, so a failed
  allocation is dereferenced.
\<close>

definition globus_memory_pop_node ::
  "addr option \<Rightarrow> bool \<Rightarrow> memory_s \<Rightarrow> (addr option \<times> memory_s) option" where
  "globus_memory_pop_node block realloc_ok m =
     (if mp_destroyed m then Some (None, m)
      else do {
        m1 \<leftarrow> (case mp_first m of
                 None \<Rightarrow> do {
                   (_, m') \<leftarrow> globus_l_memory_create_list block realloc_ok
                      (m\<lparr>mp_node_count := mp_node_count m + mp_node_count_per_malloc m\<rparr>);
                   Some m' }
               | Some _ \<Rightarrow> Some m);
        tmp_byte \<leftarrow> mp_first m1;
        next \<leftarrow> mp_next m1 tmp_byte;
        Some (Some tmp_byte, m1\<lparr>mp_first := next, mp_nodes_used := mp_nodes_used m1 + 1\<rparr>) })"

definition globus_memory_push_node :: "memory_s \<Rightarrow> addr \<Rightarrow> bool \<times> memory_s" where
  "globus_memory_push_node m buffer =
     (if mp_destroyed m then (False, m)
      else (True, m\<lparr>mp_next := (mp_next m)(buffer \<mapsto> mp_first m), mp_first := Some buffer,
                    mp_nodes_used := mp_nodes_used m - 1\<rparr>))"

text \<open>\<open>globus_memory_destroy\<close>: the blocks given back, in order; the pool pointer becomes NULL.\<close>

definition globus_memory_destroy :: "memory_s \<Rightarrow> bool \<times> addr option list \<times> memory_s option" where
  "globus_memory_destroy m = (True, mp_free_ptrs m, None)"

section \<open>Invariant\<close>

text \<open>The free chain, the blocks of a pool and the nodes they are cut into.\<close>

fun free_chain :: "(addr \<rightharpoonup> addr option) \<Rightarrow> addr option \<Rightarrow> addr list \<Rightarrow> bool" where
  "free_chain next p [] \<longleftrightarrow> p = None"
| "free_chain next p (a # as) \<longleftrightarrow> p = Some a \<and> (\<exists>q. next a = Some q \<and> free_chain next q as)"

definition nodes_of :: "nat \<Rightarrow> nat \<Rightarrow> addr \<Rightarrow> addr list" where
  "nodes_of node_size n b = map (\<lambda>i. b + i * node_size) [0..<n]"

definition blocks :: "memory_s \<Rightarrow> addr set" where
  "blocks m = {b. Some b \<in> set (mp_free_ptrs m)}"

definition pool_nodes :: "memory_s \<Rightarrow> addr set" where
  "pool_nodes m = (\<Union>b \<in> blocks m. set (nodes_of (mp_node_size m) (mp_node_count_per_malloc m) b))"

text \<open>The extents of two blocks of the pool's size do not overlap.\<close>

definition blocks_apart :: "memory_s \<Rightarrow> addr \<Rightarrow> addr \<Rightarrow> bool" where
  "blocks_apart m b c \<longleftrightarrow>
     b + mp_node_count_per_malloc m * mp_node_size m \<le> c \<or>
     c + mp_node_count_per_malloc m * mp_node_size m \<le> b"

definition pool_inv :: "memory_s \<Rightarrow> addr list \<Rightarrow> addr set \<Rightarrow> bool" where
  "pool_inv m free used \<longleftrightarrow>
     \<not> mp_destroyed m \<and> 0 < mp_node_size m \<and> 0 < mp_node_count_per_malloc m \<and>
     free_chain (mp_next m) (mp_first m) free \<and> distinct free \<and>
     set free \<inter> used = {} \<and> set free \<union> used = pool_nodes m \<and> finite used \<and>
     mp_nodes_used m = int (card used) \<and>
     (\<forall>b \<in> blocks m. \<forall>c \<in> blocks m. b \<noteq> c \<longrightarrow> blocks_apart m b c)"

text \<open>What \<open>malloc\<close> guarantees of a new block: it overlaps no block of the pool.\<close>

definition fresh_block :: "memory_s \<Rightarrow> addr \<Rightarrow> bool" where
  "fresh_block m b \<longleftrightarrow> (\<forall>c \<in> blocks m. blocks_apart m b c)"

lemma free_chain_cong:
  "(\<And>a. a \<in> set as \<Longrightarrow> n a = n' a) \<Longrightarrow> free_chain n p as = free_chain n' p as"
  by (induction as arbitrary: p) auto

lemma thread_nodes_other:
  "0 < sz \<Longrightarrow> a < buf \<Longrightarrow> thread_nodes sz n buf nx a = nx a"
  by (induction n arbitrary: buf nx) auto

lemma nodes_of_Suc: "nodes_of sz (Suc n) b = b # nodes_of sz n (b + sz)"
  unfolding nodes_of_def by (subst upt_conv_Cons) (simp_all add: map_Suc_upt [symmetric] del: map_Suc_upt upt_Suc)

lemma thread_nodes_chain:
  "0 < sz \<Longrightarrow> free_chain (thread_nodes sz n buf nx) (Some buf) (nodes_of sz (Suc n) buf)"
proof (induction n arbitrary: buf nx)
  case 0
  then show ?case by (simp add: nodes_of_def)
next
  case (Suc n)
  have "thread_nodes sz (Suc n) buf nx buf = Some (Some (buf + sz))"
    using Suc.prems by (simp add: thread_nodes_other)
  with Suc show ?case by (simp add: nodes_of_Suc [of _ "Suc n"])
qed

lemma distinct_nodes_of: "0 < sz \<Longrightarrow> distinct (nodes_of sz n b)"
  by (auto simp: nodes_of_def distinct_map inj_on_def)

lemma nodes_within: "a \<in> set (nodes_of sz n b) \<Longrightarrow> b \<le> a \<and> a + sz \<le> b + n * sz"
proof -
  assume "a \<in> set (nodes_of sz n b)"
  then obtain i where i: "i < n" "a = b + i * sz" by (auto simp: nodes_of_def)
  then have "(i + 1) * sz \<le> n * sz" by (intro mult_le_mono1) simp
  with i show ?thesis by simp
qed


lemma create_list_correct:
  assumes inv: "pool_inv m [] used" and fresh: "fresh_block m b"
  shows "\<exists>m'. globus_l_memory_create_list (Some b) True m = Some (True, m') \<and>
    pool_inv m' (nodes_of (mp_node_size m) (mp_node_count_per_malloc m) b) used \<and>
    mp_node_size m' = mp_node_size m"
proof -
  let ?sz = "mp_node_size m" and ?n = "mp_node_count_per_malloc m"
  let ?new = "nodes_of ?sz ?n b"
  have i: "\<not> mp_destroyed m" "0 < ?sz" "0 < ?n" "used = pool_nodes m" "finite used"
      "mp_nodes_used m = int (card used)"
      "\<forall>b \<in> blocks m. \<forall>c \<in> blocks m. b \<noteq> c \<longrightarrow> blocks_apart m b c"
    using inv unfolding pool_inv_def by auto
  define m' where "m' = m\<lparr>mp_first := Some b, mp_free_ptrs := mp_free_ptrs m @ [Some b],
    mp_free_ptrs_size := (if length (mp_free_ptrs m) = mp_free_ptrs_size m
      then mp_free_ptrs_size m + DEFAULT_FREE_PTRS_SIZE else mp_free_ptrs_size m),
    mp_next := thread_nodes ?sz (?n - 1) b (mp_next m)\<rparr>"
  have run: "globus_l_memory_create_list (Some b) True m = Some (True, m')"
    by (simp add: globus_l_memory_create_list_def m'_def Let_def)
  have bl: "blocks m' = insert b (blocks m)" by (auto simp: blocks_def m'_def)
  have same: "mp_node_size m' = ?sz" "mp_node_count_per_malloc m' = ?n"
    "blocks_apart m' = blocks_apart m" by (simp_all add: m'_def blocks_apart_def fun_eq_iff)
  have nodes: "pool_nodes m' = pool_nodes m \<union> set ?new"
    using bl same by (auto simp: pool_nodes_def)
  have "set ?new \<inter> used = {}"
  proof -
    have False if "a \<in> set ?new" "c \<in> blocks m" "a \<in> set (nodes_of ?sz ?n c)" for a c
      using nodes_within [OF that(1)] nodes_within [OF that(3)] fresh that(2) i(2)
      by (auto simp: fresh_block_def blocks_apart_def)
    then show ?thesis using i(4) by (auto simp: pool_nodes_def)
  qed
  moreover have "free_chain (mp_next m') (mp_first m') ?new"
    using thread_nodes_chain [OF i(2), of "?n - 1" b "mp_next m"] i(3) by (simp add: m'_def)
  moreover have "\<forall>x \<in> blocks m'. \<forall>c \<in> blocks m'. x \<noteq> c \<longrightarrow> blocks_apart m' x c"
    using i(7) fresh bl same by (auto simp: fresh_block_def blocks_apart_def)
  ultimately have "pool_inv m' ?new used"
    using i nodes same distinct_nodes_of [OF i(2)] by (auto simp: pool_inv_def m'_def)
  with run same show ?thesis by blast
qed

lemma pool_inv_count: "pool_inv (m\<lparr>mp_node_count := k\<rparr>) free used = pool_inv m free used"
  by (simp add: pool_inv_def pool_nodes_def blocks_def blocks_apart_def)

lemma pop_front:
  assumes "pool_inv m (a # free) used"
  shows "\<exists>m'. globus_memory_pop_node block realloc_ok m = Some (Some a, m') \<and>
    pool_inv m' free (insert a used) \<and> a \<notin> used \<and> mp_node_size m' = mp_node_size m"
proof -
  obtain q where q: "mp_first m = Some a" "mp_next m a = Some q" "free_chain (mp_next m) q free"
    using assms by (auto simp: pool_inv_def)
  let ?m = "m\<lparr>mp_first := q, mp_nodes_used := mp_nodes_used m + 1\<rparr>"
  have "pool_nodes ?m = pool_nodes m" "blocks ?m = blocks m" "blocks_apart ?m = blocks_apart m"
    by (simp_all add: pool_nodes_def blocks_def blocks_apart_def fun_eq_iff)
  moreover have "a \<notin> used" using assms by (auto simp: pool_inv_def)
  ultimately have "pool_inv ?m free (insert a used)" using assms q by (auto simp: pool_inv_def)
  with q assms \<open>a \<notin> used\<close> show ?thesis
    by (auto simp: globus_memory_pop_node_def pool_inv_def)
qed

lemma pop_correct:
  assumes inv: "pool_inv m free used" and grow: "free = [] \<Longrightarrow> fresh_block m b"
  shows "\<exists>a m' free'. globus_memory_pop_node (Some b) True m = Some (Some a, m') \<and>
    pool_inv m' free' (insert a used) \<and> a \<notin> used \<and> mp_node_size m' = mp_node_size m"
proof (cases free)
  case (Cons a as)
  with pop_front [of m a as used "Some b" True] inv show ?thesis by blast
next
  case Nil
  let ?m = "m\<lparr>mp_node_count := mp_node_count m + mp_node_count_per_malloc m\<rparr>"
  have "pool_inv ?m [] used" "fresh_block ?m b"
    using inv grow Nil
    by (simp_all add: pool_inv_count fresh_block_def blocks_def blocks_apart_def)
  from create_list_correct [OF this] obtain m1 where
    m1: "globus_l_memory_create_list (Some b) True ?m = Some (True, m1)"
      "pool_inv m1 (nodes_of (mp_node_size m) (mp_node_count_per_malloc m) b) used"
      "mp_node_size m1 = mp_node_size m" by auto
  have n: "0 < mp_node_count_per_malloc m" "\<not> mp_destroyed m" "mp_first m = None"
    using inv Nil by (simp_all add: pool_inv_def)
  then obtain k where k: "mp_node_count_per_malloc m = Suc k" by (cases "mp_node_count_per_malloc m") auto
  have inv1: "pool_inv m1 (b # nodes_of (mp_node_size m) k (b + mp_node_size m)) used"
    using m1(2) by (simp add: k nodes_of_Suc)
  then have "mp_first m1 = Some b" "\<not> mp_destroyed m1" by (simp_all add: pool_inv_def)
  then have "globus_memory_pop_node (Some b) True m = globus_memory_pop_node (Some b) True m1"
    using n m1(1) by (simp add: globus_memory_pop_node_def)
  with pop_front [OF inv1, of "Some b" True] m1(3) show ?thesis by auto
qed

lemma push_correct:
  assumes inv: "pool_inv m free used" and a: "a \<in> used"
  shows "\<exists>m'. globus_memory_push_node m a = (True, m') \<and> pool_inv m' (a # free) (used - {a}) \<and>
    mp_node_size m' = mp_node_size m"
proof -
  let ?m = "m\<lparr>mp_next := (mp_next m)(a \<mapsto> mp_first m), mp_first := Some a,
    mp_nodes_used := mp_nodes_used m - 1\<rparr>"
  have "a \<notin> set free" using assms by (auto simp: pool_inv_def)
  then have "free_chain ((mp_next m)(a \<mapsto> mp_first m)) (mp_first m) free
      = free_chain (mp_next m) (mp_first m) free"
    by (intro free_chain_cong) auto
  then have "free_chain ((mp_next m)(a \<mapsto> mp_first m)) (mp_first m) free"
    using inv by (simp add: pool_inv_def)
  moreover have "pool_nodes ?m = pool_nodes m" "blocks ?m = blocks m" "blocks_apart ?m = blocks_apart m"
    by (simp_all add: pool_nodes_def blocks_def blocks_apart_def fun_eq_iff)
  moreover have "int (card (used - {a})) = int (card used) - 1"
  proof -
    have "finite used" using inv by (simp add: pool_inv_def)
    then have "0 < card used" using a by (auto simp: card_gt_0_iff)
    with \<open>finite used\<close> a show ?thesis by (simp add: card_Diff_singleton)
  qed
  ultimately have "pool_inv ?m (a # free) (used - {a})"
    using inv a \<open>a \<notin> set free\<close> by (auto simp: pool_inv_def)
  with inv show ?thesis by (auto simp: globus_memory_push_node_def pool_inv_def)
qed

section \<open>Reachable pools\<close>

text \<open>
  A pool after its initialization and any sequence of pops (with a block at hand that overlaps no
  other, should the pool have to grow) and pushes of held nodes, with the list of held nodes.
\<close>

inductive pool_reach :: "nat \<Rightarrow> memory_s \<Rightarrow> addr list \<Rightarrow> bool" for node_size :: nat where
  init: "globus_memory_init (Some b) node_size n = Some (True, m) \<Longrightarrow> 0 < n \<Longrightarrow>
     pool_reach node_size m []"
| pop: "pool_reach node_size m held \<Longrightarrow> (mp_first m = None \<Longrightarrow> fresh_block m b) \<Longrightarrow>
     globus_memory_pop_node (Some b) True m = Some (Some a, m') \<Longrightarrow>
     pool_reach node_size m' (a # held)"
| push: "pool_reach node_size m held \<Longrightarrow> a \<in> set held \<Longrightarrow>
     globus_memory_push_node m a = (True, m') \<Longrightarrow>
     pool_reach node_size m' (remove1 a held)"

lemma pad_aligns:
  "8 dvd node_size + (I_ALIGN_SIZE - node_size mod I_ALIGN_SIZE) mod I_ALIGN_SIZE"
proof (cases "node_size mod 8 = 0")
  case True
  then show ?thesis by (simp add: I_ALIGN_SIZE_def dvd_eq_mod_eq_0)
next
  case False
  then have "(8 - node_size mod 8) mod 8 = 8 - node_size mod 8" by simp
  moreover have "node_size + (8 - node_size mod 8) = (node_size - node_size mod 8) + 8"
    by (simp add: add_diff_assoc2 mod_less_eq_dividend)
  moreover have "8 dvd (node_size - node_size mod 8) + 8"
    by (rule dvd_add [OF dvd_minus_mod dvd_refl])
  ultimately show ?thesis by (simp add: I_ALIGN_SIZE_def)
qed

lemma init_correct:
  assumes "globus_memory_init (Some b) node_size n = Some (True, m)" and "0 < n" and "0 < node_size"
  shows "\<exists>free. pool_inv m free {}" and "8 dvd mp_node_size m" and "node_size \<le> mp_node_size m"
    and "length (mp_free_ptrs m) = 1"
proof -
  let ?pad = "(I_ALIGN_SIZE - node_size mod I_ALIGN_SIZE) mod I_ALIGN_SIZE"
  let ?m0 = "\<lparr>mp_total_size = n * (node_size + ?pad), mp_node_size = node_size + ?pad,
    mp_nodes_used = 0, mp_node_count = n, mp_node_count_per_malloc = n, mp_destroyed = False,
    mp_first = None, mp_free_ptrs = [], mp_free_ptrs_size = DEFAULT_FREE_PTRS_SIZE,
    mp_next = Map.empty\<rparr>"
  have run: "globus_l_memory_create_list (Some b) True ?m0 = Some (True, m)"
    using assms(1) by (simp add: globus_memory_init_def Let_def)
  have "pool_inv ?m0 [] {}" "fresh_block ?m0 b"
    using assms(2,3) by (simp_all add: pool_inv_def pool_nodes_def blocks_def fresh_block_def)
  from create_list_correct [OF this] run show "\<exists>free. pool_inv m free {}" by auto
  have m: "mp_node_size m = node_size + ?pad" "length (mp_free_ptrs m) = 1"
    using run by (auto simp: globus_l_memory_create_list_def Let_def split: if_splits)
  then show "8 dvd mp_node_size m" "node_size \<le> mp_node_size m" "length (mp_free_ptrs m) = 1"
    using pad_aligns by simp_all
qed

lemma pool_reach_inv:
  assumes "pool_reach node_size m held" and "0 < node_size"
  shows "distinct held \<and> (\<exists>free. pool_inv m free (set held)) \<and> 8 dvd mp_node_size m \<and>
    node_size \<le> mp_node_size m"
  using assms
proof (induction rule: pool_reach.induct)
  case (init b n m)
  then show ?case using init_correct by auto
next
  case (pop m held b a m')
  then obtain free where inv: "pool_inv m free (set held)" by blast
  have "fresh_block m b" if "free = []" using that inv pop.hyps(2) by (simp add: pool_inv_def)
  from pop_correct [OF inv this] pop show ?case by auto
next
  case (push m held a m')
  then obtain free where inv: "pool_inv m free (set held)" and d: "distinct held" by blast
  from push_correct [OF inv push.hyps(2)] push d show ?case
    by (auto simp: set_remove1_eq distinct_remove1)
qed

section \<open>Properties\<close>



text \<open>
  A pop on a reachable pool with a block at hand always returns a node, one the client does
  not hold yet; without a block it dereferences NULL exactly when the free chain is empty.
\<close>

theorem globus_memory_pop_progress:
  assumes "pool_reach node_size m held" and "0 < node_size"
  shows "(mp_first m \<noteq> None \<or> fresh_block m b \<longrightarrow>
      (\<exists>a m'. globus_memory_pop_node (Some b) True m = Some (Some a, m') \<and> a \<notin> set held)) \<and>
    (globus_memory_pop_node None True m = None \<longleftrightarrow> mp_first m = None)"
proof -
  from pool_reach_inv [OF assms] obtain free where inv: "pool_inv m free (set held)" by blast
  have "\<exists>a m'. globus_memory_pop_node (Some b) True m = Some (Some a, m') \<and> a \<notin> set held"
    if "mp_first m \<noteq> None \<or> fresh_block m b"
  proof -
    have "free = [] \<Longrightarrow> fresh_block m b" using that inv by (auto simp: pool_inv_def)
    from pop_correct [OF inv this] show ?thesis by blast
  qed
  moreover have "globus_memory_pop_node None True m = None \<longleftrightarrow> mp_first m = None"
  proof (cases free)
    case Nil
    then have "mp_first m = None" "\<not> mp_destroyed m" using inv by (simp_all add: pool_inv_def)
    then show ?thesis
      by (simp add: globus_memory_pop_node_def globus_l_memory_create_list_def Let_def)
  next
    case (Cons a as)
    then have "mp_first m \<noteq> None" using inv by (auto simp: pool_inv_def)
    then show ?thesis using pop_front [of m a as "set held" None True] inv Cons by auto
  qed
  ultimately show ?thesis by blast
qed

theorem globus_memory_pop_witness:
  "\<exists>m. pool_reach 12 m [] \<and> (globus_memory_pop_node None True m = None \<longleftrightarrow> mp_first m = None)"
proof -
  obtain m where m: "globus_memory_init (Some 1000) 12 2 = Some (True, m)"
    by (auto simp: globus_memory_init_def globus_l_memory_create_list_def Let_def
        DEFAULT_FREE_PTRS_SIZE_def)
  then have "pool_reach 12 m []" by (rule pool_reach.init) simp
  then show ?thesis using globus_memory_pop_progress [of 12 m "[]"] by auto
qed

end
