(* ===== verification/Globus_Hashtable.thy ===== *)
theory Globus_Hashtable
  imports Globus_Prelude
begin

text \<open>
  The chained hash table of \<open>common/source/library/globus_hashtable.c\<close>. All entries are on one
  doubly linked chain; a bucket is a pair of pointers to the first and last entry of its run within
  the chain. Entries live in a store of cells (the table's memory pool), so insertion and removal
  are modelled pointer write by pointer write. The table's hash and key-equality functions are
  fields of its record; the locale \<open>hash_contract\<close> states what the table needs of them, and the
  functions the toolkit provides for strings, pointers and integers are modelled and checked
  against it. A \<open>None\<close> result is a failed assertion or an invalid memory access.
\<close>

section \<open>State\<close>

record ('k, 'd) hentry =
  hb_key :: 'k
  hb_datum :: 'd
  hb_prev :: "addr option"
  hb_next :: "addr option"

record hbucket =
  hk_first :: "addr option"
  hk_last :: "addr option"

record ('k, 'd) hashtable =
  hx_size :: int
  hx_load :: int
  hx_buckets :: "int \<rightharpoonup> hbucket"
  hx_first :: "addr option"
  hx_last :: "addr option"
  hx_current :: "addr option"
  hx_hash_func :: "'k \<Rightarrow> int \<Rightarrow> int"
  hx_keyeq_func :: "'k \<Rightarrow> 'k \<Rightarrow> bool"
  hx_memory :: "('k, 'd) hentry mem"

text \<open>A write to a field of a cell.\<close>

definition mem_upd :: "'c mem \<Rightarrow> addr \<Rightarrow> ('c \<Rightarrow> 'c) \<Rightarrow> 'c mem option" where
  "mem_upd m a f = do { c \<leftarrow> mem_get m (Some a); mem_set m a (f c) }"

abbreviation set_prev where "set_prev p \<equiv> hb_prev_update (\<lambda>_. p)"
abbreviation set_next where "set_next p \<equiv> hb_next_update (\<lambda>_. p)"

section \<open>Operations\<close>

text \<open>
  \<open>globus_hashtable_init\<close>: \<open>params_ok\<close> stands for the NULL tests of the pointer arguments, \<open>room\<close> for
  the capacity of the entry pool, \<open>alloc_ok\<close> for the outcome of the allocations. Every failure ends
  in an assertion.
\<close>

definition globus_hashtable_init ::
  "bool \<Rightarrow> bool \<Rightarrow> nat \<Rightarrow> int \<Rightarrow> ('k \<Rightarrow> int \<Rightarrow> int) \<Rightarrow> ('k \<Rightarrow> 'k \<Rightarrow> bool) \<Rightarrow>
   (int \<times> ('k, 'd) hashtable) option" where
  "globus_hashtable_init params_ok alloc_ok room limit hash_func keyeq_func =
     (if \<not> params_ok \<or> limit \<le> 0 \<or> \<not> alloc_ok then None
      else Some (GLOBUS_SUCCESS,
        \<lparr>hx_size = limit, hx_load = 0,
         hx_buckets = (\<lambda>i. if 0 \<le> i \<and> i < limit then Some \<lparr>hk_first = None, hk_last = None\<rparr> else None),
         hx_first = None, hx_last = None, hx_current = None, hx_hash_func = hash_func,
         hx_keyeq_func = keyeq_func, hx_memory = mem_empty room\<rparr>))"

text \<open>The do-while loop of \<open>globus_l_hashtable_search_bucket\<close>, then the function.\<close>

partial_function (option) search_bucket_loop ::
  "('k, 'd) hentry mem \<Rightarrow> ('k \<Rightarrow> 'k \<Rightarrow> bool) \<Rightarrow> 'k \<Rightarrow> addr option \<Rightarrow> addr option \<Rightarrow> addr option option" where
  "search_bucket_loop m keyeq_func key i stop =
     do {
       e \<leftarrow> mem_get m i;
       if keyeq_func (hb_key e) key then Some i
       else if hb_next e \<noteq> stop then search_bucket_loop m keyeq_func key (hb_next e) stop
       else Some None }"

definition globus_l_hashtable_search_bucket ::
  "('k, 'd) hentry mem \<Rightarrow> hbucket \<Rightarrow> ('k \<Rightarrow> 'k \<Rightarrow> bool) \<Rightarrow> 'k \<Rightarrow> addr option option" where
  "globus_l_hashtable_search_bucket m bucket keyeq_func key =
     (if hk_first bucket \<noteq> None
      then do {
        l \<leftarrow> mem_get m (hk_last bucket);
        search_bucket_loop m keyeq_func key (hk_first bucket) (hb_next l) }
      else Some None)"

text \<open>The macro \<open>GlobusLInsertNodeBefore\<close>.\<close>

definition GlobusLInsertNodeBefore ::
  "('k, 'd) hentry mem \<Rightarrow> addr \<Rightarrow> addr \<Rightarrow> ('k, 'd) hentry mem option" where
  "GlobusLInsertNodeBefore m node before =
     do {
       b \<leftarrow> mem_get m (Some before);
       m1 \<leftarrow> mem_upd m node (set_prev (hb_prev b));
       m2 \<leftarrow> (case hb_prev b of
                None \<Rightarrow> Some m1
              | Some p \<Rightarrow> mem_upd m1 p (set_next (Some node)));
       m3 \<leftarrow> mem_upd m2 node (set_next (Some before));
       mem_upd m3 before (set_prev (Some node)) }"

definition globus_hashtable_insert ::
  "('k, 'd) hashtable \<Rightarrow> 'k \<Rightarrow> 'd option \<Rightarrow> (int \<times> ('k, 'd) hashtable) option" where
  "globus_hashtable_insert t key datum =
     (case datum of
        None \<Rightarrow> None
      | Some d \<Rightarrow>
          let i = hx_hash_func t key (hx_size t)
          in do {
            bucket \<leftarrow> hx_buckets t i;
            found \<leftarrow> globus_l_hashtable_search_bucket (hx_memory t) bucket (hx_keyeq_func t) key;
            if found \<noteq> None then Some (GLOBUS_FAILURE, t)
            else case mem_alloc (hx_memory t)
                   \<lparr>hb_key = key, hb_datum = d, hb_prev = None, hb_next = None\<rparr> of
              None \<Rightarrow> Some (GLOBUS_FAILURE, t)
            | Some (entry, m) \<Rightarrow>
                do {
                  (t1, bucket1) \<leftarrow>
                    (case hk_first bucket of
                       Some bfirst \<Rightarrow> do {
                         m1 \<leftarrow> GlobusLInsertNodeBefore m entry bfirst;
                         Some (t\<lparr>hx_memory := m1,
                                 hx_first := (if hk_first bucket = hx_first t then Some entry
                                              else hx_first t)\<rparr>, bucket) }
                     | None \<Rightarrow> do {
                         t2 \<leftarrow> (case hx_first t of
                                  Some first \<Rightarrow> do {
                                    m1 \<leftarrow> GlobusLInsertNodeBefore m entry first;
                                    Some (t\<lparr>hx_memory := m1\<rparr>) }
                                | None \<Rightarrow> Some (t\<lparr>hx_memory := m, hx_last := Some entry\<rparr>));
                         Some (t2\<lparr>hx_first := Some entry\<rparr>, bucket\<lparr>hk_last := Some entry\<rparr>) });
                  Some (GLOBUS_SUCCESS,
                    t1\<lparr>hx_buckets := (hx_buckets t1)(i \<mapsto> bucket1\<lparr>hk_first := Some entry\<rparr>),
                       hx_load := hx_load t1 + 1\<rparr>) } })"

definition globus_hashtable_update ::
  "('k, 'd) hashtable \<Rightarrow> 'k \<Rightarrow> 'd option \<Rightarrow> ('d option \<times> ('k, 'd) hashtable) option" where
  "globus_hashtable_update t key datum =
     (case datum of
        None \<Rightarrow> None
      | Some d \<Rightarrow> do {
          bucket \<leftarrow> hx_buckets t (hx_hash_func t key (hx_size t));
          found \<leftarrow> globus_l_hashtable_search_bucket (hx_memory t) bucket (hx_keyeq_func t) key;
          case found of
            None \<Rightarrow> Some (None, t)
          | Some entry \<Rightarrow> do {
              e \<leftarrow> mem_get (hx_memory t) (Some entry);
              m1 \<leftarrow> mem_upd (hx_memory t) entry (hb_datum_update (\<lambda>_. d));
              m2 \<leftarrow> mem_upd m1 entry (hb_key_update (\<lambda>_. key));
              Some (Some (hb_datum e), t\<lparr>hx_memory := m2\<rparr>) } })"

definition globus_hashtable_lookup ::
  "('k, 'd) hashtable \<Rightarrow> 'k \<Rightarrow> 'd option option" where
  "globus_hashtable_lookup t key =
     do {
       bucket \<leftarrow> hx_buckets t (hx_hash_func t key (hx_size t));
       found \<leftarrow> globus_l_hashtable_search_bucket (hx_memory t) bucket (hx_keyeq_func t) key;
       case found of
         None \<Rightarrow> Some None
       | Some entry \<Rightarrow> do { e \<leftarrow> mem_get (hx_memory t) (Some entry); Some (Some (hb_datum e)) } }"

text \<open>Taking an entry out of the chain: the links of its neighbours.\<close>

definition unlink_entry ::
  "('k, 'd) hentry mem \<Rightarrow> ('k, 'd) hentry \<Rightarrow> ('k, 'd) hentry mem option" where
  "unlink_entry m e =
     do {
       m1 \<leftarrow> (case hb_prev e of
                Some p \<Rightarrow> mem_upd m p (set_next (hb_next e))
              | None \<Rightarrow> Some m);
       (case hb_next e of
          Some n \<Rightarrow> mem_upd m1 n (set_prev (hb_prev e))
        | None \<Rightarrow> Some m1) }"

text \<open>
  \<open>globus_hashtable_remove\<close>: the bucket's end pointers, then the links of the neighbours (or the
  table's end pointers), then the cursor, then the release of the entry.
\<close>

definition globus_hashtable_remove ::
  "('k, 'd) hashtable \<Rightarrow> 'k \<Rightarrow> ('d option \<times> ('k, 'd) hashtable) option" where
  "globus_hashtable_remove t key =
     (let i = hx_hash_func t key (hx_size t)
      in do {
        bucket \<leftarrow> hx_buckets t i;
        found \<leftarrow> globus_l_hashtable_search_bucket (hx_memory t) bucket (hx_keyeq_func t) key;
        case found of
          None \<Rightarrow> Some (None, t)
        | Some entry \<Rightarrow> do {
            e \<leftarrow> mem_get (hx_memory t) (Some entry);
            let bucket1 =
              (if Some entry = hk_first bucket
               then (if Some entry = hk_last bucket then \<lparr>hk_first = None, hk_last = None\<rparr>
                     else bucket\<lparr>hk_first := hb_next e\<rparr>)
               else if Some entry = hk_last bucket then bucket\<lparr>hk_last := hb_prev e\<rparr>
               else bucket);
            m2 \<leftarrow> unlink_entry (hx_memory t) e;
            m3 \<leftarrow> mem_free m2 entry;
            Some (Some (hb_datum e),
              t\<lparr>hx_buckets := (hx_buckets t)(i \<mapsto> bucket1),
                hx_first := (if hb_prev e = None then hb_next e else hx_first t),
                hx_last := (if hb_next e = None then hb_prev e else hx_last t),
                hx_current := (if Some entry = hx_current t then hb_next e else hx_current t),
                hx_memory := m3, hx_load := hx_load t - 1\<rparr>) } })"

text \<open>
  \<open>globus_hashtable_to_list\<close>: the data in the order of the resulting list, which is built by
  insertion at its head.
\<close>

partial_function (option) to_list_loop ::
  "('k, 'd) hentry mem \<Rightarrow> addr option \<Rightarrow> 'd list \<Rightarrow> 'd list option" where
  "to_list_loop m entry list =
     (if entry = None then Some list
      else do { e \<leftarrow> mem_get m entry; to_list_loop m (hb_next e) (hb_datum e # list) })"

definition globus_hashtable_to_list :: "('k, 'd) hashtable \<Rightarrow> (int \<times> 'd list) option" where
  "globus_hashtable_to_list t =
     do { l \<leftarrow> to_list_loop (hx_memory t) (hx_first t) []; Some (GLOBUS_SUCCESS, l) }"

definition globus_hashtable_empty :: "('k, 'd) hashtable option \<Rightarrow> bool" where
  "globus_hashtable_empty table = (case table of None \<Rightarrow> True | Some t \<Rightarrow> hx_first t = None)"

definition globus_hashtable_size :: "('k, 'd) hashtable \<Rightarrow> int" where
  "globus_hashtable_size t = hx_load t"

text \<open>The cursor: the datum at the new position, \<open>None\<close> (NULL) past either end.\<close>

definition cursor_datum :: "('k, 'd) hashtable \<Rightarrow> 'd option option" where
  "cursor_datum t =
     (if hx_current t = None then Some None
      else do { e \<leftarrow> mem_get (hx_memory t) (hx_current t); Some (Some (hb_datum e)) })"

definition globus_hashtable_first ::
  "('k, 'd) hashtable \<Rightarrow> ('d option \<times> ('k, 'd) hashtable) option" where
  "globus_hashtable_first t =
     (let t1 = t\<lparr>hx_current := hx_first t\<rparr> in do { d \<leftarrow> cursor_datum t1; Some (d, t1) })"

definition globus_hashtable_next ::
  "('k, 'd) hashtable \<Rightarrow> ('d option \<times> ('k, 'd) hashtable) option" where
  "globus_hashtable_next t =
     do {
       t1 \<leftarrow> (if hx_current t \<noteq> None
               then do { e \<leftarrow> mem_get (hx_memory t) (hx_current t); Some (t\<lparr>hx_current := hb_next e\<rparr>) }
               else Some t);
       d \<leftarrow> cursor_datum t1;
       Some (d, t1) }"

definition globus_hashtable_last ::
  "('k, 'd) hashtable \<Rightarrow> ('d option \<times> ('k, 'd) hashtable) option" where
  "globus_hashtable_last t =
     (let t1 = t\<lparr>hx_current := hx_last t\<rparr> in do { d \<leftarrow> cursor_datum t1; Some (d, t1) })"

definition globus_hashtable_prev ::
  "('k, 'd) hashtable \<Rightarrow> ('d option \<times> ('k, 'd) hashtable) option" where
  "globus_hashtable_prev t =
     do {
       t1 \<leftarrow> (if hx_current t \<noteq> None
               then do { e \<leftarrow> mem_get (hx_memory t) (hx_current t); Some (t\<lparr>hx_current := hb_prev e\<rparr>) }
               else Some t);
       d \<leftarrow> cursor_datum t1;
       Some (d, t1) }"

text \<open>\<open>globus_hashtable_destroy\<close> and \<open>globus_hashtable_destroy_all\<close> (the calls to \<open>element_free\<close>).\<close>

partial_function (option) hash_destroy_loop ::
  "('k, 'd) hentry mem \<Rightarrow> addr option \<Rightarrow> ('k, 'd) hentry mem option" where
  "hash_destroy_loop m entry =
     (case entry of
        None \<Rightarrow> Some m
      | Some a \<Rightarrow> do { e \<leftarrow> mem_get m entry; m1 \<leftarrow> mem_free m a; hash_destroy_loop m1 (hb_next e) })"

definition globus_hashtable_destroy ::
  "('k, 'd) hashtable \<Rightarrow> (int \<times> ('k, 'd) hentry mem) option" where
  "globus_hashtable_destroy t =
     do { m \<leftarrow> hash_destroy_loop (hx_memory t) (hx_first t); Some (GLOBUS_SUCCESS, m) }"

partial_function (option) destroy_all_loop ::
  "('k, 'd) hentry mem \<Rightarrow> addr option \<Rightarrow> 'd list \<Rightarrow> 'd list option" where
  "destroy_all_loop m entry freed =
     (if entry = None then Some freed
      else do { e \<leftarrow> mem_get m entry; destroy_all_loop m (hb_next e) (freed @ [hb_datum e]) })"

definition globus_hashtable_destroy_all ::
  "('k, 'd) hashtable \<Rightarrow> ('d list \<times> ('k, 'd) hentry mem) option" where
  "globus_hashtable_destroy_all t =
     do {
       freed \<leftarrow> destroy_all_loop (hx_memory t) (hx_first t) [];
       (_, m) \<leftarrow> globus_hashtable_destroy t;
       Some (freed, m) }"

section \<open>Hash and equality functions of the toolkit\<close>

text \<open>
  Strings are lists of non-zero characters (bytes); \<open>char\<close> is signed, so a byte above 127 is added
  as a negative number, and \<open>unsigned long\<close> has 64 bits. \<open>limit\<close> is a positive \<open>int\<close>.
\<close>

fun string_hash_loop :: "64 word \<Rightarrow> 8 word list \<Rightarrow> 64 word" where
  "string_hash_loop h [] = h"
| "string_hash_loop h (c # key) = string_hash_loop (131 * h + scast c) key"

definition globus_hashtable_string_hash :: "8 word list \<Rightarrow> int \<Rightarrow> int" where
  "globus_hashtable_string_hash string limit =
     uint (string_hash_loop 0 string mod word_of_int limit)"

definition globus_hashtable_string_keyeq :: "8 word list option \<Rightarrow> 8 word list option \<Rightarrow> bool" where
  "globus_hashtable_string_keyeq string1 string2 = (string1 = string2)"

definition globus_hashtable_voidp_hash :: "64 word \<Rightarrow> int \<Rightarrow> int" where
  "globus_hashtable_voidp_hash voidp limit =
     uint (Bit_Operations.xor (push_bit 32 voidp) (drop_bit 32 voidp) mod word_of_int limit)"

definition globus_hashtable_voidp_keyeq :: "64 word \<Rightarrow> 64 word \<Rightarrow> bool" where
  "globus_hashtable_voidp_keyeq voidp1 voidp2 = (voidp1 = voidp2)"

text \<open>\<open>globus_hashtable_int_hash\<close> takes a signed remainder.\<close>

definition globus_hashtable_int_hash :: "64 word \<Rightarrow> int \<Rightarrow> int" where
  "globus_hashtable_int_hash integer limit = c_mod (sint integer) limit"

definition globus_hashtable_int_keyeq :: "64 word \<Rightarrow> 64 word \<Rightarrow> bool" where
  "globus_hashtable_int_keyeq integer1 integer2 = (integer1 = integer2)"

definition globus_hashtable_ulong_hash :: "64 word \<Rightarrow> int \<Rightarrow> int" where
  "globus_hashtable_ulong_hash integer limit = uint (integer mod word_of_int limit)"

definition globus_hashtable_ulong_keyeq :: "64 word \<Rightarrow> 64 word \<Rightarrow> bool" where
  "globus_hashtable_ulong_keyeq integer1 integer2 = (integer1 = integer2)"

section \<open>Doubly linked chains\<close>

text \<open>The first address of a run that continues at \<open>n\<close>, and the last of one that follows \<open>p\<close>.\<close>

definition start_of :: "addr list \<Rightarrow> addr option \<Rightarrow> addr option" where
  "start_of xs n = (if xs = [] then n else Some (hd xs))"

definition end_of :: "addr option \<Rightarrow> addr list \<Rightarrow> addr option" where
  "end_of p xs = (if xs = [] then p else Some (last xs))"

type_synonym ('k, 'd) hheap = "addr \<rightharpoonup> ('k, 'd) hentry"

fun dll :: "('k, 'd) hheap \<Rightarrow> addr option \<Rightarrow> addr list \<Rightarrow> addr option \<Rightarrow> bool" where
  "dll h p [] n \<longleftrightarrow> True"
| "dll h p (x # xs) n \<longleftrightarrow>
     (\<exists>e. h x = Some e \<and> hb_prev e = p \<and> hb_next e = start_of xs n) \<and> dll h (Some x) xs n"

definition key_at :: "('k, 'd) hheap \<Rightarrow> addr \<Rightarrow> 'k" where
  "key_at h x = hb_key (the (h x))"

definition datum_at :: "('k, 'd) hheap \<Rightarrow> addr \<Rightarrow> 'd" where
  "datum_at h x = hb_datum (the (h x))"

lemma start_of_simps [simp]:
  "start_of [] n = n" "start_of (x # xs) n = Some x" "start_of (xs @ ys) n = start_of xs (start_of ys n)"
  by (simp_all add: start_of_def)

lemma end_of_simps [simp]:
  "end_of p [] = p" "end_of p (x # xs) = end_of (Some x) xs" "end_of p (xs @ ys) = end_of (end_of p xs) ys"
  by (simp_all add: end_of_def)

lemma end_of_in: "end_of None xs = Some p \<Longrightarrow> p \<in> set xs"
  by (auto simp: end_of_def split: if_splits)

lemma start_of_in: "start_of xs None = Some p \<Longrightarrow> p \<in> set xs"
  by (auto simp: start_of_def split: if_splits)

lemma first_inserted:
  "distinct (A @ x # B) \<Longrightarrow>
   (if Some x = start_of (A @ x # B) None then Some v else start_of (A @ x # B) None)
     = start_of (A @ v # x # B) None"
  by (cases A) auto

lemma first_removed:
  "(if end_of None A = None then start_of B None else start_of (A @ x # B) None)
     = start_of (A @ B) None"
  by (cases A) (simp_all add: end_of_def)

lemma last_removed:
  "(if start_of B None = None then end_of None A else end_of None (A @ x # B))
     = end_of None (A @ B)"
  by (cases B) (simp_all add: end_of_def)

lemma dll_append [simp]:
  "dll h p (xs @ ys) n \<longleftrightarrow> dll h p xs (start_of ys n) \<and> dll h (end_of p xs) ys n"
  by (induction xs arbitrary: p) auto

lemma dll_cong: "(\<And>x. x \<in> set xs \<Longrightarrow> h x = h' x) \<Longrightarrow> dll h p xs n = dll h' p xs n"
  by (induction xs arbitrary: p) auto

lemma dll_upd_other [simp]: "x \<notin> set xs \<Longrightarrow> dll (h(x := e)) p xs n = dll h p xs n"
  by (rule dll_cong) auto

lemma dll_alive: "dll h p xs n \<Longrightarrow> x \<in> set xs \<Longrightarrow> \<exists>e. h x = Some e"
  by (induction xs arbitrary: p) auto

lemma mem_upd_Some [simp]:
  "mem_cells m a = Some c \<Longrightarrow> mem_upd m a f = Some (m\<lparr>mem_cells := (mem_cells m)(a \<mapsto> f c)\<rparr>)"
  by (simp add: mem_upd_def mem_set_def)

lemma dll_relabel:
  "dll h p xs n \<Longrightarrow> h x = Some e \<Longrightarrow> hb_prev e' = hb_prev e \<Longrightarrow> hb_next e' = hb_next e \<Longrightarrow>
   dll (h(x \<mapsto> e')) p xs n"
  by (induction xs arbitrary: p) auto

text \<open>Redirecting the link that leaves a chain at its end, or the one that leaves it at its start.\<close>

lemma dll_set_next:
  assumes "dll h p (xs @ [z]) n" and "z \<notin> set xs" and "h z = Some e"
  shows "dll (h(z \<mapsto> set_next m e)) p (xs @ [z]) m"
  using assms by auto

lemma dll_set_prev:
  assumes "dll h p (x # xs) n" and "x \<notin> set xs" and "h x = Some e"
  shows "dll (h(x \<mapsto> set_prev q e)) q (x # xs) n"
  using assms by auto

text \<open>Two heaps with the same keys and data in every cell.\<close>

definition same_kv :: "('k, 'd) hheap \<Rightarrow> ('k, 'd) hheap \<Rightarrow> bool" where
  "same_kv h h' \<longleftrightarrow> dom h = dom h' \<and> (\<forall>x. key_at h x = key_at h' x \<and> datum_at h x = datum_at h' x)"

lemma same_kv_refl [simp]: "same_kv h h"
  by (simp add: same_kv_def)

lemma insert_before_correct:
  assumes chain: "dll (mem_cells m) None (xs @ x # ys) None" and dist: "distinct (xs @ x # ys)"
    and v: "mem_cells m v = Some e" "v \<notin> set (xs @ x # ys)"
  shows "\<exists>h'. GlobusLInsertNodeBefore m v x = Some (m\<lparr>mem_cells := h'\<rparr>) \<and>
    dll h' None (xs @ v # x # ys) None \<and> same_kv (mem_cells m) h'"
proof -
  let ?h = "mem_cells m"
  obtain b where b: "?h x = Some b" "hb_prev b = end_of None xs" "hb_next b = start_of ys None"
    using chain by auto
  have vx: "v \<noteq> x" using v by auto
  show ?thesis
  proof (cases xs rule: rev_cases)
    case Nil
    let ?g = "?h(v \<mapsto> set_next (Some x) (set_prev None e), x \<mapsto> set_prev (Some v) b)"
    have "GlobusLInsertNodeBefore m v x = Some (m\<lparr>mem_cells := ?g\<rparr>)"
      using b v vx Nil by (simp add: GlobusLInsertNodeBefore_def)
    moreover have "dll ?g None (v # x # ys) None"
      using chain dist v b vx Nil by auto
    moreover have "same_kv ?h ?g"
      using b v vx by (auto simp: same_kv_def key_at_def datum_at_def)
    ultimately show ?thesis using Nil by auto
  next
    case (snoc zs z)
    obtain ze where z: "?h z = Some ze" using chain snoc by (auto simp: dll_alive)
    have ne: "z \<noteq> v" "z \<noteq> x" "z \<notin> set zs" using snoc dist v by auto
    let ?g = "?h(v \<mapsto> set_next (Some x) (set_prev (Some z) e), z \<mapsto> set_next (Some v) ze,
      x \<mapsto> set_prev (Some v) b)"
    have "GlobusLInsertNodeBefore m v x = Some (m\<lparr>mem_cells := ?g\<rparr>)"
      using b v vx z ne snoc by (simp add: GlobusLInsertNodeBefore_def fun_upd_twist)
    moreover have "dll ?g None (xs @ v # x # ys) None"
      using chain dist v b vx ne z snoc by auto
    moreover have "same_kv ?h ?g"
      using b v vx z ne by (auto simp: same_kv_def key_at_def datum_at_def)
    ultimately show ?thesis by auto
  qed
qed

lemma search_loop_correct:
  assumes "dll (mem_cells m) p (x # xs) n" and "n \<notin> Some ` set xs" and "distinct (x # xs)"
  shows "search_bucket_loop m keyeq k (Some x) n
    = Some (find (\<lambda>y. keyeq (key_at (mem_cells m) y) k) (x # xs))"
  using assms
proof (induction xs arbitrary: x p)
  case Nil
  then show ?case by (subst search_bucket_loop.simps) (auto simp: key_at_def)
next
  case (Cons y ys)
  have "search_bucket_loop m keyeq k (Some y) n
      = Some (find (\<lambda>y. keyeq (key_at (mem_cells m) y) k) (y # ys))"
    by (rule Cons.IH [of "Some x"]) (use Cons.prems in auto)
  then show ?case
    using Cons.prems by (subst search_bucket_loop.simps) (auto simp: key_at_def)
qed

lemma unlink_correct:
  assumes chain: "dll (mem_cells m) None (xs @ x # ys) None" and dist: "distinct (xs @ x # ys)"
    and x: "mem_cells m x = Some e"
  shows "\<exists>h'. unlink_entry m e = Some (m\<lparr>mem_cells := h'\<rparr>) \<and>
    dll h' None (xs @ ys) None \<and> same_kv (mem_cells m) h'"
proof -
  let ?h = "mem_cells m"
  have e: "hb_prev e = end_of None xs" "hb_next e = start_of ys None"
    using chain x by auto
  define h1 where "h1 = (case end_of None xs of Some p \<Rightarrow> ?h(p \<mapsto> set_next (start_of ys None) (the (?h p)))
    | None \<Rightarrow> ?h)"
  have step1: "(case hb_prev e of Some p \<Rightarrow> mem_upd m p (set_next (hb_next e)) | None \<Rightarrow> Some m)
      = Some (m\<lparr>mem_cells := h1\<rparr>) \<and> dll h1 None xs (start_of ys None) \<and>
      dll h1 (Some x) ys None \<and> same_kv ?h h1"
  proof (cases xs rule: rev_cases)
    case Nil
    with e chain show ?thesis by (simp add: h1_def)
  next
    case (snoc zs z)
    then obtain ze where z: "?h z = Some ze" "z \<notin> set zs" "z \<notin> set ys"
      using chain dist by auto
    moreover have "dll h1 None (zs @ [z]) (start_of ys None)"
      using chain snoc z by (simp add: h1_def)
    ultimately show ?thesis
      using e chain snoc by (auto simp: h1_def same_kv_def key_at_def datum_at_def)
  qed
  show ?thesis
  proof (cases ys)
    case Nil
    with e step1 show ?thesis by (auto simp: unlink_entry_def)
  next
    case (Cons y zs)
    then obtain ye where y: "h1 y = Some ye" "y \<notin> set xs" "y \<notin> set zs"
      using step1 dist by auto
    let ?g = "h1(y \<mapsto> set_prev (end_of None xs) ye)"
    have "unlink_entry m e = Some (m\<lparr>mem_cells := ?g\<rparr>)"
      using e step1 Cons y by (simp add: unlink_entry_def)
    moreover have "dll ?g None (xs @ ys) None"
      using step1 y Cons by auto
    moreover have "same_kv ?h ?g"
      using step1 y by (auto simp: same_kv_def key_at_def datum_at_def)
    ultimately show ?thesis by blast
  qed
qed

section \<open>Searching by a property that at most one element has\<close>

lemma find_insert:
  "(P v \<Longrightarrow> \<forall>x \<in> set (xs @ ys). \<not> P x) \<Longrightarrow>
   find P (xs @ v # ys) = (if P v then Some v else find P (xs @ ys))"
  by (induction xs) auto

lemma find_in_set: "find P xs = Some x \<Longrightarrow> x \<in> set xs \<and> P x"
  by (induction xs) (auto split: if_splits)

lemma find_runs:
  "(\<And>j ys x. (j, ys) \<in> set gs \<Longrightarrow> x \<in> set ys \<Longrightarrow> P x \<Longrightarrow> j = i) \<Longrightarrow> distinct (map fst gs) \<Longrightarrow>
   find P (concat (map snd gs)) = (case map_of gs i of None \<Rightarrow> None | Some ys \<Rightarrow> find P ys)"
proof (induction gs)
  case Nil
  then show ?case by simp
next
  case (Cons g gs)
  obtain j ys where g: "g = (j, ys)" by fastforce
  have ih: "find P (concat (map snd gs)) = (case map_of gs i of None \<Rightarrow> None | Some ys \<Rightarrow> find P ys)"
    by (rule Cons.IH) (use Cons.prems in auto)
  show ?case
  proof (cases "j = i")
    case True
    then have "\<not> P x" if "x \<in> set (concat (map snd gs))" for x
      using Cons.prems g that by force
    then have "find P (ys @ concat (map snd gs)) = find P ys"
      by (induction ys) (auto simp: find_None_iff)
    with g True show ?thesis by simp
  next
    case False
    then have "\<forall>x \<in> set ys. \<not> P x" using Cons.prems(1) [of j ys] g by auto
    then have "find P (ys @ concat (map snd gs)) = find P (concat (map snd gs))"
      by (induction ys) auto
    with g False ih show ?thesis by simp
  qed
qed

section \<open>Invariant\<close>

text \<open>
  The runs of a table: for every bucket that is not empty its number and the addresses of its
  entries, in chain order.
\<close>

type_synonym runs = "(int \<times> addr list) list"

abbreviation chain_of :: "runs \<Rightarrow> addr list" where
  "chain_of gs \<equiv> concat (map snd gs)"

definition bucket_of :: "runs \<Rightarrow> int \<Rightarrow> hbucket" where
  "bucket_of gs i =
     (case map_of gs i of
        None \<Rightarrow> \<lparr>hk_first = None, hk_last = None\<rparr>
      | Some ys \<Rightarrow> \<lparr>hk_first = Some (hd ys), hk_last = Some (last ys)\<rparr>)"

definition runs_ok :: "('k \<Rightarrow> int \<Rightarrow> int) \<Rightarrow> int \<Rightarrow> ('k, 'd) hheap \<Rightarrow> runs \<Rightarrow> bool" where
  "runs_ok hash n h gs \<longleftrightarrow>
     distinct (map fst gs) \<and> distinct (chain_of gs) \<and> dll h None (chain_of gs) None \<and>
     (\<forall>(i, ys) \<in> set gs. ys \<noteq> [] \<and> (\<forall>x \<in> set ys. hash (key_at h x) n = i))"

definition keys_apart :: "('k \<Rightarrow> 'k \<Rightarrow> bool) \<Rightarrow> ('k, 'd) hheap \<Rightarrow> addr list \<Rightarrow> bool" where
  "keys_apart keyeq h xs \<longleftrightarrow>
     (\<forall>x \<in> set xs. \<forall>y \<in> set xs. x \<noteq> y \<longrightarrow> \<not> keyeq (key_at h x) (key_at h y))"

definition hash_inv :: "('k, 'd) hashtable \<Rightarrow> runs \<Rightarrow> bool" where
  "hash_inv t gs \<longleftrightarrow>
     0 < hx_size t \<and> hx_size t < 2 ^ 31 \<and> mem_ok (hx_memory t) \<and>
     runs_ok (hx_hash_func t) (hx_size t) (mem_cells (hx_memory t)) gs \<and>
     keys_apart (hx_keyeq_func t) (mem_cells (hx_memory t)) (chain_of gs) \<and>
     hx_buckets t = (\<lambda>i. if 0 \<le> i \<and> i < hx_size t then Some (bucket_of gs i) else None) \<and>
     hx_first t = start_of (chain_of gs) None \<and> hx_last t = end_of None (chain_of gs) \<and>
     hx_load t = int (length (chain_of gs)) \<and>
     (\<forall>c. hx_current t = Some c \<longrightarrow> c \<in> set (chain_of gs))"

text \<open>The finite map that a table denotes.\<close>

definition entry_for :: "('k, 'd) hashtable \<Rightarrow> runs \<Rightarrow> 'k \<Rightarrow> addr option" where
  "entry_for t gs k =
     find (\<lambda>x. hx_keyeq_func t (key_at (mem_cells (hx_memory t)) x) k) (chain_of gs)"

definition contents :: "('k, 'd) hashtable \<Rightarrow> runs \<Rightarrow> 'k \<Rightarrow> 'd option" where
  "contents t gs k = map_option (datum_at (mem_cells (hx_memory t))) (entry_for t gs k)"

section \<open>The contract of hash and equality functions\<close>

locale hash_contract =
  fixes hash :: "'k \<Rightarrow> int \<Rightarrow> int" and keyeq :: "'k \<Rightarrow> 'k \<Rightarrow> bool"
  assumes hash_range: "0 < n \<Longrightarrow> n < 2 ^ 31 \<Longrightarrow> 0 \<le> hash k n \<and> hash k n < n"
    and hash_cong: "keyeq a b \<Longrightarrow> hash a n = hash b n"
    and keyeq_refl: "keyeq a a"
    and keyeq_sym: "keyeq a b \<Longrightarrow> keyeq b a"
    and keyeq_trans: "keyeq a b \<Longrightarrow> keyeq b c \<Longrightarrow> keyeq a c"
begin

definition table_inv :: "('k, 'd) hashtable \<Rightarrow> runs \<Rightarrow> bool" where
  "table_inv t gs \<longleftrightarrow> hash_inv t gs \<and> hx_hash_func t = hash \<and> hx_keyeq_func t = keyeq"

lemma run_split:
  assumes "runs_ok hash n h gs" and "map_of gs i = Some ys"
  shows "\<exists>g1 g2. gs = g1 @ (i, ys) # g2 \<and> i \<notin> fst ` set g1 \<and> i \<notin> fst ` set g2"
proof -
  have "(i, ys) \<in> set gs" using assms(2) by (rule map_of_SomeD)
  then obtain g1 g2 where g: "gs = g1 @ (i, ys) # g2" by (auto simp: in_set_conv_decomp)
  with assms(1) show ?thesis by (auto simp: runs_ok_def)
qed

lemma search_correct:
  assumes "table_inv t gs"
  shows "\<exists>b. hx_buckets t (hash k (hx_size t)) = Some b \<and> b = bucket_of gs (hash k (hx_size t)) \<and>
    globus_l_hashtable_search_bucket (hx_memory t) b keyeq k = Some (entry_for t gs k)"
proof -
  let ?i = "hash k (hx_size t)" and ?h = "mem_cells (hx_memory t)"
  let ?P = "\<lambda>x. keyeq (key_at ?h x) k"
  have inv: "hash_inv t gs" "hx_hash_func t = hash" "hx_keyeq_func t = keyeq"
    using assms by (simp_all add: table_inv_def)
  have ok: "runs_ok hash (hx_size t) ?h gs" using inv by (simp add: hash_inv_def)
  have b: "hx_buckets t ?i = Some (bucket_of gs ?i)"
    using inv hash_range by (auto simp: hash_inv_def)
  have "j = ?i" if "(j, ys) \<in> set gs" "x \<in> set ys" "?P x" for j ys x
    using ok that hash_cong by (fastforce simp: runs_ok_def)
  then have find: "entry_for t gs k =
      (case map_of gs ?i of None \<Rightarrow> None | Some ys \<Rightarrow> find ?P ys)"
    unfolding entry_for_def inv(3) by (rule find_runs) (use ok in \<open>simp_all add: runs_ok_def\<close>)
  show ?thesis
  proof (cases "map_of gs ?i")
    case None
    then show ?thesis using b find
      by (simp add: bucket_of_def globus_l_hashtable_search_bucket_def)
  next
    case (Some ys)
    obtain g1 g2 where g: "gs = g1 @ (?i, ys) # g2" using run_split [OF ok Some] by blast
    have "ys \<noteq> []" using ok g by (auto simp: runs_ok_def)
    then obtain x xs where xs: "ys = x # xs" by (cases ys) auto
    have dist: "distinct (chain_of g1 @ ys @ chain_of g2)" using ok g by (simp add: runs_ok_def)
    have d: "dll ?h (end_of None (chain_of g1)) ys (start_of (chain_of g2) None)"
      using ok g by (simp add: runs_ok_def)
    then obtain l where l: "?h (last ys) = Some l" "hb_next l = start_of (chain_of g2) None"
      using \<open>ys \<noteq> []\<close> by (cases ys rule: rev_cases) auto
    have "start_of (chain_of g2) None \<notin> Some ` set xs"
      using dist xs by (auto dest!: start_of_in)
    with search_loop_correct [OF d [unfolded xs]] dist xs l b Some find show ?thesis
      by (simp add: bucket_of_def globus_l_hashtable_search_bucket_def)
  qed
qed

lemma lookup_correct:
  assumes "table_inv t gs"
  shows "globus_hashtable_lookup t k = Some (contents t gs k)"
proof -
  have "\<exists>e. mem_cells (hx_memory t) x = Some e" if "entry_for t gs k = Some x" for x
  proof -
    have "x \<in> set (chain_of gs)" using that find_in_set unfolding entry_for_def by fastforce
    then show ?thesis
      using assms dll_alive [of "mem_cells (hx_memory t)" None "chain_of gs" None x]
      by (simp add: table_inv_def hash_inv_def runs_ok_def)
  qed
  with search_correct [OF assms, of k] assms show ?thesis
    by (cases "entry_for t gs k")
      (auto simp: globus_hashtable_lookup_def table_inv_def contents_def datum_at_def)
qed

end

section \<open>Buckets of changed runs\<close>

lemma bucket_of_run:
  assumes "i \<notin> fst ` set g1" and "i \<notin> fst ` set g2"
  shows "bucket_of (g1 @ (i, ys) # g2)
    = (bucket_of (g1 @ g2))(i := \<lparr>hk_first = Some (hd ys), hk_last = Some (last ys)\<rparr>)"
proof -
  have "map_of g1 i = None" using assms(1) by (simp add: map_of_eq_None_iff)
  then show ?thesis by (auto simp: bucket_of_def fun_eq_iff map_add_def split: option.splits)
qed

lemma bucket_of_absent:
  "i \<notin> fst ` set gs \<Longrightarrow> bucket_of gs i = \<lparr>hk_first = None, hk_last = None\<rparr>"
proof -
  assume "i \<notin> fst ` set gs"
  then have "map_of gs i = None" by (simp add: map_of_eq_None_iff)
  then show ?thesis by (simp add: bucket_of_def)
qed

lemma buckets_upd:
  fixes n :: int
  assumes "0 \<le> i" and "i < n"
  shows "(\<lambda>j. if 0 \<le> j \<and> j < n then Some (f j) else None)(i \<mapsto> b)
    = (\<lambda>j. if 0 \<le> j \<and> j < n then Some ((f(i := b)) j) else None)"
  using assms by (auto simp: fun_eq_iff)

lemma same_kv_at:
  "same_kv h h' \<Longrightarrow> key_at h' x = key_at h x" "same_kv h h' \<Longrightarrow> datum_at h' x = datum_at h x"
  by (simp_all add: same_kv_def)

lemma mem_ok_dom: "mem_ok m \<Longrightarrow> dom h = dom (mem_cells m) \<Longrightarrow> mem_ok (m\<lparr>mem_cells := h\<rparr>)"
proof -
  assume a: "mem_ok m" "dom h = dom (mem_cells m)"
  have "h x \<noteq> None \<Longrightarrow> x < mem_brk m" for x using a by (metis domD domIff mem_ok_def)
  then show ?thesis by (simp add: mem_ok_def)
qed

section \<open>Insertion\<close>

context hash_contract
begin

lemma entry_alive:
  assumes "table_inv t gs" and "entry_for t gs k = Some x"
  shows "x \<in> set (chain_of gs) \<and> keyeq (key_at (mem_cells (hx_memory t)) x) k \<and>
    (\<exists>e. mem_cells (hx_memory t) x = Some e)"
proof -
  have x: "x \<in> set (chain_of gs) \<and> keyeq (key_at (mem_cells (hx_memory t)) x) k"
    using find_in_set assms unfolding entry_for_def table_inv_def by fastforce
  then show ?thesis
    using assms(1) dll_alive [of "mem_cells (hx_memory t)" None "chain_of gs" None x]
    by (simp add: table_inv_def hash_inv_def runs_ok_def)
qed

lemma chain_live:
  assumes "table_inv t gs" and "x \<in> set (chain_of gs)"
  shows "x \<noteq> mem_brk (hx_memory t)"
proof -
  have "\<exists>e. mem_cells (hx_memory t) x = Some e"
    using assms dll_alive [of "mem_cells (hx_memory t)" None "chain_of gs" None x]
    by (simp add: table_inv_def hash_inv_def runs_ok_def)
  then show ?thesis using assms(1) by (auto simp: table_inv_def hash_inv_def mem_ok_def)
qed

text \<open>
  A table whose chain grew by one fresh entry with an absent key: the invariant and the contents
  follow from the runs and the end pointers.
\<close>

lemma table_grown:
  assumes inv: "table_inv t gs" and absent: "entry_for t gs k = None"
    and chain: "chain_of gs = A @ B" "chain_of gs' = A @ v # B" and v: "v \<notin> set (chain_of gs)"
    and kv: "same_kv ((mem_cells (hx_memory t))(v \<mapsto> e)) (mem_cells (hx_memory t'))"
      "hb_key e = k" "hb_datum e = d"
    and ok: "runs_ok hash (hx_size t) (mem_cells (hx_memory t')) gs'" "mem_ok (hx_memory t')"
    and t': "hx_size t' = hx_size t" "hx_hash_func t' = hash" "hx_keyeq_func t' = keyeq"
      "hx_current t' = hx_current t" "hx_load t' = hx_load t + 1"
      "hx_first t' = start_of (chain_of gs') None" "hx_last t' = end_of None (chain_of gs')"
      "hx_buckets t' = (\<lambda>i. if 0 \<le> i \<and> i < hx_size t then Some (bucket_of gs' i) else None)"
  shows "table_inv t' gs' \<and>
    contents t' gs' = (\<lambda>j. if keyeq k j then Some d else contents t gs j)"
proof -
  let ?h = "mem_cells (hx_memory t)" and ?g = "mem_cells (hx_memory t')"
  have old: "key_at ?g x = key_at ?h x" "datum_at ?g x = datum_at ?h x" if "x \<noteq> v" for x
    using that same_kv_at [OF kv(1)] by (simp_all add: key_at_def datum_at_def)
  have new: "key_at ?g v = k" "datum_at ?g v = d"
    using same_kv_at [OF kv(1)] kv(2,3) by (simp_all add: key_at_def datum_at_def)
  have t: "hx_keyeq_func t = keyeq" "keys_apart keyeq ?h (chain_of gs)" "0 < hx_size t"
    "hx_size t < 2 ^ 31" "hx_load t = int (length (chain_of gs))"
    "\<forall>c. hx_current t = Some c \<longrightarrow> c \<in> set (chain_of gs)"
    using inv by (auto simp: table_inv_def hash_inv_def)
  have no: "\<not> keyeq (key_at ?h x) k" if "x \<in> set (chain_of gs)" for x
    using absent that t(1) by (auto simp: entry_for_def find_None_iff)
  have vAB: "v \<notin> set A" "v \<notin> set B" using v unfolding chain(1) by simp_all
  have mem: "x \<in> set (chain_of gs) \<longleftrightarrow> x \<in> set A \<or> x \<in> set B" for x using chain(1) by simp
  have "keys_apart keyeq ?g (chain_of gs')"
    unfolding keys_apart_def
  proof (intro ballI impI)
    fix x y
    assume xy: "x \<in> set (chain_of gs')" "y \<in> set (chain_of gs')" "x \<noteq> y"
    have x: "x = v \<or> x \<in> set (chain_of gs)" "y = v \<or> y \<in> set (chain_of gs)"
      using xy chain mem by auto
    show "\<not> keyeq (key_at ?g x) (key_at ?g y)"
    proof (cases "x = v \<or> y = v")
      case True
      then show ?thesis using x xy(3) no new old keyeq_sym by metis
    next
      case False
      then have "\<not> keyeq (key_at ?h x) (key_at ?h y)"
        using x xy(3) t(2) unfolding keys_apart_def by blast
      then show ?thesis using False old by simp
    qed
  qed
  then have "table_inv t' gs'"
    using ok t t' chain mem by (auto simp: table_inv_def hash_inv_def)
  moreover have "contents t' gs' j = (if keyeq k j then Some d else contents t gs j)" for j
  proof -
    let ?P = "\<lambda>x. keyeq (key_at ?g x) j"
    have lone: "\<forall>x \<in> set (A @ B). \<not> ?P x" if "?P v"
    proof
      fix x
      assume "x \<in> set (A @ B)"
      then have x: "x \<in> set (chain_of gs)" "x \<noteq> v" using mem v by auto
      show "\<not> ?P x"
      proof
        assume "?P x"
        then have "keyeq (key_at ?h x) k"
          using that new(1) old(1) [OF x(2)] keyeq_sym keyeq_trans by metis
        with no [OF x(1)] show False ..
      qed
    qed
    have same: "find ?P (A @ B) = entry_for t gs j"
      unfolding entry_for_def t(1) chain(1) 
    proof (rule find_cong [OF refl])
      fix x
      assume "x \<in> set (A @ B)"
      then have "x \<noteq> v" using vAB by auto
      then show "?P x = keyeq (key_at ?h x) j" using old by simp
    qed
    have "entry_for t' gs' j = (if ?P v then Some v else entry_for t gs j)"
      unfolding entry_for_def [of t'] t'(3) chain(2)
      by (subst find_insert [of ?P v A B]) (use lone same in simp_all)
    moreover have "datum_at ?g x = datum_at ?h x" if "entry_for t gs j = Some x" for x
      using entry_alive [OF inv that] v old by metis
    ultimately show ?thesis using new by (cases "entry_for t gs j") (auto simp: contents_def)
  qed
  ultimately show ?thesis by blast
qed

lemma runs_grown:
  assumes ok: "runs_ok hash n h gs" and v: "v \<notin> set (chain_of gs)"
    and kv: "same_kv (h(v \<mapsto> e)) h'" "hash (hb_key e) n = i"
    and link: "dll h' None (chain_of gs') None" "distinct (map fst gs')"
      "chain_of gs' = A @ v # B" "chain_of gs = A @ B"
    and sub: "\<And>j ys. (j, ys) \<in> set gs' \<Longrightarrow>
       (j, ys) \<in> set gs \<or> j = i \<and> (ys = [v] \<or> (\<exists>zs. ys = v # zs \<and> (i, zs) \<in> set gs))"
  shows "runs_ok hash n h' gs'"
proof -
  have old: "hash (key_at h' x) n = j" if "(j, ys) \<in> set gs" "x \<in> set ys" for j ys x
  proof -
    have "x \<noteq> v" using that v by auto
    then have "key_at h' x = key_at h x" using same_kv_at(1) [OF kv(1), of x] by (simp add: key_at_def)
    then show ?thesis using ok that by (auto simp: runs_ok_def)
  qed
  have new: "hash (key_at h' v) n = i"
    using same_kv_at(1) [OF kv(1), of v] kv(2) by (simp add: key_at_def)
  have "ys \<noteq> [] \<and> (\<forall>x \<in> set ys. hash (key_at h' x) n = j)" if m: "(j, ys) \<in> set gs'" for j ys
    using sub [OF m] old new ok by (auto simp: runs_ok_def)
  moreover have "distinct (chain_of gs')" using ok link(3,4) v by (simp add: runs_ok_def)
  ultimately show ?thesis using link(1,2) by (auto simp: runs_ok_def)
qed

text \<open>The last part of a successful insertion, common to its three cases.\<close>

lemma insert_linked:
  assumes inv: "table_inv t gs" and absent: "entry_for t gs k = None" 
    and v: "v = mem_brk (hx_memory t)"
    and cells: "mem_cells m = (mem_cells (hx_memory t))(v \<mapsto>
      \<lparr>hb_key = k, hb_datum = d, hb_prev = None, hb_next = None\<rparr>)" and mok: "mem_ok m"
    and ch: "chain_of gs = A @ B" "chain_of gs' = A @ v # B" "distinct (map fst gs')"
    and link: "same_kv (mem_cells m) h'" "dll h' None (A @ v # B) None"
    and sub: "\<And>j ys. (j, ys) \<in> set gs' \<Longrightarrow> (j, ys) \<in> set gs \<or>
       j = hash k (hx_size t) \<and> (ys = [v] \<or> (\<exists>zs. ys = v # zs \<and> (hash k (hx_size t), zs) \<in> set gs))"
    and bk: "bk = (\<lambda>i. if 0 \<le> i \<and> i < hx_size t then Some (bucket_of gs' i) else None)"
    and t': "t' = t\<lparr>hx_memory := m\<lparr>mem_cells := h'\<rparr>, hx_first := start_of (A @ v # B) None,
      hx_last := end_of None (A @ v # B), hx_buckets := bk, hx_load := hx_load t + 1\<rparr>"
  shows "table_inv t' gs' \<and> contents t' gs' = (\<lambda>j. if keyeq k j then Some d else contents t gs j)"
proof -
  have vnew: "v \<notin> set (chain_of gs)" using chain_live [OF inv] unfolding v by blast
  let ?e = "\<lparr>hb_key = k, hb_datum = d, hb_prev = None, hb_next = None\<rparr>"
  have t: "runs_ok hash (hx_size t) (mem_cells (hx_memory t)) gs" "hx_hash_func t = hash"
    "hx_keyeq_func t = keyeq"
    using inv by (auto simp: table_inv_def hash_inv_def)
  have "runs_ok hash (hx_size t) h' gs'"
    by (rule runs_grown [OF t(1) vnew, where e = ?e and i = "hash k (hx_size t)", OF _ _ _ ch(3,2,1) sub])
      (use link ch in \<open>simp_all add: cells del: dll_append\<close>)
  moreover have "mem_ok (m\<lparr>mem_cells := h'\<rparr>)"
    using mem_ok_dom [OF mok, of h'] link(1) by (simp add: same_kv_def)
  ultimately show ?thesis
    by (intro table_grown [OF inv absent ch(1,2) vnew, where e = ?e])
      (use link(1) t ch(2) in \<open>simp_all add: t' bk cells\<close>)
qed

lemma insert_correct:
  assumes inv: "table_inv t gs"
  shows "\<exists>rc t' gs'. globus_hashtable_insert t k (Some d) = Some (rc, t') \<and> table_inv t' gs' \<and>
    (if contents t gs k \<noteq> None \<or> mem_room (hx_memory t) = 0
     then rc = GLOBUS_FAILURE \<and> t' = t
     else rc = GLOBUS_SUCCESS \<and>
       contents t' gs' = (\<lambda>j. if keyeq k j then Some d else contents t gs j))"
proof -
  let ?i = "hash k (hx_size t)" and ?h = "mem_cells (hx_memory t)" and ?v = "mem_brk (hx_memory t)"
  let ?e = "\<lparr>hb_key = k, hb_datum = d, hb_prev = None, hb_next = None\<rparr>"
  let ?m = "(hx_memory t)\<lparr>mem_cells := ?h(?v \<mapsto> ?e), mem_brk := Suc ?v, mem_room := mem_room (hx_memory t) - 1\<rparr>"
  have t: "hx_hash_func t = hash" "hx_keyeq_func t = keyeq" "runs_ok hash (hx_size t) ?h gs"
      "mem_ok (hx_memory t)" "0 < hx_size t" "hx_size t < 2 ^ 31"
      "hx_buckets t = (\<lambda>i. if 0 \<le> i \<and> i < hx_size t then Some (bucket_of gs i) else None)"
      "hx_first t = start_of (chain_of gs) None" "hx_last t = end_of None (chain_of gs)"
    using inv by (auto simp: table_inv_def hash_inv_def)
  have i: "0 \<le> ?i" "?i < hx_size t" using hash_range t(5,6) by auto
  obtain b where s: "hx_buckets t ?i = Some b" "b = bucket_of gs ?i"
    "globus_l_hashtable_search_bucket (hx_memory t) b keyeq k = Some (entry_for t gs k)"
    using search_correct [OF inv, of k] by blast
  show ?thesis
  proof (cases "contents t gs k \<noteq> None \<or> mem_room (hx_memory t) = 0")
    case True
    then have "globus_hashtable_insert t k (Some d) = Some (GLOBUS_FAILURE, t)"
      using s t(1,2) by (auto simp: globus_hashtable_insert_def Let_def contents_def mem_alloc_def)
    with True inv show ?thesis by auto
  next
    case False
    then have absent: "entry_for t gs k = None" and room: "0 < mem_room (hx_memory t)"
      by (auto simp: contents_def)
    have alloc: "mem_alloc (hx_memory t) ?e = Some (?v, ?m)" using room by (rule mem_alloc_Some)
    have vnew: "?v \<notin> set (chain_of gs)" using chain_live [OF inv] by blast
    have mok: "mem_ok ?m" using mem_alloc_ok [OF t(4) alloc] .
    have base: "dll (?h(?v \<mapsto> ?e)) None (chain_of gs) None"
      using t(3) vnew by (simp add: runs_ok_def del: dll_append)
    have cells: "mem_cells ?m = ?h(?v \<mapsto> ?e)" by simp
    have vcell: "mem_cells ?m ?v = Some ?e" by simp
    have apart: "distinct (map fst gs)" "distinct (chain_of gs)" using t(3) by (auto simp: runs_ok_def)
    show ?thesis
    proof (cases "map_of gs ?i")
      case None
      then have ni: "?i \<notin> fst ` set gs" by (simp add: map_of_eq_None_iff)
      have b: "b = \<lparr>hk_first = None, hk_last = None\<rparr>" using s(2) bucket_of_absent [OF ni] by simp
      let ?gs = "(?i, [?v]) # gs"
      have bk: "(hx_buckets t)(?i \<mapsto> \<lparr>hk_first = Some ?v, hk_last = Some ?v\<rparr>)
          = (\<lambda>i. if 0 \<le> i \<and> i < hx_size t then Some (bucket_of ?gs i) else None)"
        unfolding t(7) buckets_upd [OF i] using bucket_of_run [of ?i "[]" gs "[?v]"] ni
        by (simp add: fun_eq_iff)
      show ?thesis
      proof (cases "chain_of gs")
        case Nil
        have f0: "hx_first t = None" unfolding t(8) Nil by simp
        let ?t = "t\<lparr>hx_memory := ?m, hx_first := Some ?v, hx_last := Some ?v,
          hx_buckets := (hx_buckets t)(?i \<mapsto> \<lparr>hk_first = Some ?v, hk_last = Some ?v\<rparr>),
          hx_load := hx_load t + 1\<rparr>"
        have "globus_hashtable_insert t k (Some d) = Some (GLOBUS_SUCCESS, ?t)"
          using f0 b s(1,3) t(1,2) absent alloc by (simp add: globus_hashtable_insert_def Let_def)
        moreover have "table_inv ?t ?gs \<and>
            contents ?t ?gs = (\<lambda>j. if keyeq k j then Some d else contents t gs j)"
          by (rule insert_linked [OF inv absent refl cells mok, where A = "[]" and B = "[]" and h' = "mem_cells ?m", OF _ _ _ _ _ _ bk])
            (use Nil ni apart in auto)
        ultimately show ?thesis using False by auto
      next
        case (Cons x xs)
        then obtain h' where h': "GlobusLInsertNodeBefore ?m ?v x = Some (?m\<lparr>mem_cells := h'\<rparr>)"
          "dll h' None ([] @ ?v # x # xs) None" "same_kv (mem_cells ?m) h'"
          using insert_before_correct [of ?m "[]" x xs ?v ?e] base apart(2) vnew vcell by auto
        let ?t = "t\<lparr>hx_memory := ?m\<lparr>mem_cells := h'\<rparr>, hx_first := Some ?v,
          hx_buckets := (hx_buckets t)(?i \<mapsto> \<lparr>hk_first = Some ?v, hk_last = Some ?v\<rparr>),
          hx_load := hx_load t + 1\<rparr>"
        have "globus_hashtable_insert t k (Some d) = Some (GLOBUS_SUCCESS, ?t)"
          using Cons b t(8) s(1,3) t(1,2) absent alloc h'(1)
          by (simp add: globus_hashtable_insert_def Let_def)
        moreover have "table_inv ?t ?gs \<and>
            contents ?t ?gs = (\<lambda>j. if keyeq k j then Some d else contents t gs j)"
          by (rule insert_linked [OF inv absent refl cells mok, where A = "[]" and B = "x # xs" and h' = h', OF _ _ _ h'(3,2) _ bk])
            (use Cons ni apart t(9) in \<open>auto simp del: fun_upd_apply\<close>)
        ultimately show ?thesis using False by auto
      qed
    next
      case (Some ys)
      obtain g1 g2 where g: "gs = g1 @ (?i, ys) # g2" "?i \<notin> fst ` set g1" "?i \<notin> fst ` set g2"
        using run_split [OF t(3) Some] by blast
      have "ys \<noteq> []" using t(3) g(1) by (auto simp: runs_ok_def)
      then obtain x xs where ys: "ys = x # xs" by (cases ys) auto
      let ?A = "chain_of g1" and ?B = "xs @ chain_of g2" and ?gs = "g1 @ (?i, ?v # ys) # g2"
      have ch: "chain_of gs = ?A @ x # ?B" using g ys by simp
      have b: "b = \<lparr>hk_first = Some x, hk_last = Some (last ys)\<rparr>"
        using s(2) bucket_of_run [OF g(2,3), of ys] g(1) ys by simp
      obtain h' where h': "GlobusLInsertNodeBefore ?m ?v x = Some (?m\<lparr>mem_cells := h'\<rparr>)"
        "dll h' None (?A @ ?v # x # ?B) None" "same_kv (mem_cells ?m) h'"
        using insert_before_correct [of ?m ?A x ?B ?v ?e] base apart(2) vnew vcell
        unfolding ch by (auto simp del: dll_append)
      have bk: "(hx_buckets t)(?i \<mapsto> \<lparr>hk_first = Some ?v, hk_last = Some (last ys)\<rparr>)
          = (\<lambda>i. if 0 \<le> i \<and> i < hx_size t then Some (bucket_of ?gs i) else None)"
        unfolding t(7) buckets_upd [OF i]
        using bucket_of_run [OF g(2,3), of "?v # ys"] bucket_of_run [OF g(2,3), of ys] g(1) \<open>ys \<noteq> []\<close>
        by (simp add: fun_eq_iff)
      have first: "(if Some x = hx_first t then Some ?v else hx_first t) = start_of (?A @ ?v # x # ?B) None"
        unfolding t(8) ch by (rule first_inserted) (use apart(2) ch in simp)
      have fst: "distinct (map fst ?gs)" using apart(1) g(1) by simp
      let ?t = "t\<lparr>hx_memory := ?m\<lparr>mem_cells := h'\<rparr>,
        hx_first := start_of (?A @ ?v # x # ?B) None,
        hx_buckets := (hx_buckets t)(?i \<mapsto> \<lparr>hk_first = Some ?v, hk_last = Some (last ys)\<rparr>),
        hx_load := hx_load t + 1\<rparr>"
      have "globus_hashtable_insert t k (Some d) = Some (GLOBUS_SUCCESS, ?t)"
        unfolding first [symmetric] using b s(1,3) t(1,2) absent alloc h'(1)
        by (simp add: globus_hashtable_insert_def Let_def)
      moreover have "table_inv ?t ?gs \<and>
          contents ?t ?gs = (\<lambda>j. if keyeq k j then Some d else contents t gs j)"
        by (rule insert_linked [OF inv absent refl cells mok ch, where h' = h', OF _ fst h'(3,2) _ bk])
          (use ys g(1) ch t(9) in \<open>auto simp del: fun_upd_apply\<close>)
      ultimately show ?thesis using False by auto
    qed
  qed
qed

end

section \<open>Removal\<close>

context hash_contract
begin

lemma table_shrunk:
  assumes inv: "table_inv t gs" and found: "entry_for t gs k = Some v"
    and chain: "chain_of gs = A @ v # B" "chain_of gs' = A @ B"
    and kv: "same_kv (mem_cells (hx_memory t)) h'" "mem_cells (hx_memory t') = h'(v := None)"
    and link: "dll h' None (A @ B) None" "distinct (map fst gs')"
    and sub: "\<And>j ys. (j, ys) \<in> set gs' \<Longrightarrow> ys \<noteq> [] \<and> (\<exists>zs. (j, zs) \<in> set gs \<and> set ys \<subseteq> set zs)"
    and ok: "mem_ok (hx_memory t')"
    and t': "hx_size t' = hx_size t" "hx_hash_func t' = hash" "hx_keyeq_func t' = keyeq"
      "\<forall>c. hx_current t' = Some c \<longrightarrow> c \<in> set (chain_of gs')" "hx_load t' = hx_load t - 1"
      "hx_first t' = start_of (chain_of gs') None" "hx_last t' = end_of None (chain_of gs')"
      "hx_buckets t' = (\<lambda>i. if 0 \<le> i \<and> i < hx_size t then Some (bucket_of gs' i) else None)"
  shows "table_inv t' gs' \<and>
    contents t' gs' = (\<lambda>j. if keyeq k j then None else contents t gs j)"
proof -
  let ?h = "mem_cells (hx_memory t)" and ?g = "mem_cells (hx_memory t')"
  have t: "hx_keyeq_func t = keyeq" "keys_apart keyeq ?h (chain_of gs)" "0 < hx_size t"
    "hx_size t < 2 ^ 31" "hx_load t = int (length (chain_of gs))"
    "runs_ok hash (hx_size t) ?h gs"
    using inv by (auto simp: table_inv_def hash_inv_def)
  have dist: "distinct (A @ v # B)" using t(6) chain(1) by (simp add: runs_ok_def)
  have old: "key_at ?g x = key_at ?h x" "datum_at ?g x = datum_at ?h x" if "x \<noteq> v" for x
    using that same_kv_at [OF kv(1), of x] by (simp_all add: kv(2) key_at_def datum_at_def)
  have sub2: "set (chain_of gs') \<subseteq> set (chain_of gs)" "v \<notin> set (chain_of gs')"
    unfolding chain using dist by auto
  have kva: "keyeq (key_at ?h v) k" using entry_alive [OF inv found] by blast
  have apart: "\<not> keyeq (key_at ?h x) (key_at ?h y)"
    if "x \<in> set (chain_of gs)" "y \<in> set (chain_of gs)" "x \<noteq> y" for x y
    using t(2) that unfolding keys_apart_def by blast
  have "\<not> keyeq (key_at ?g x) (key_at ?g y)"
    if "x \<in> set (chain_of gs')" "y \<in> set (chain_of gs')" "x \<noteq> y" for x y
    using apart [of x y] sub2 that old by (metis subsetD)
  then have ka: "keys_apart keyeq ?g (chain_of gs')" unfolding keys_apart_def by blast
  have "hash (key_at ?g x) (hx_size t) = j" if m: "(j, ys) \<in> set gs'" "x \<in> set ys" for j ys x
  proof -
    obtain zs where z: "(j, zs) \<in> set gs" "x \<in> set zs" using sub [OF m(1)] m(2) by blast
    have "x \<noteq> v" using m sub2(2) by auto
    moreover have "hash (key_at ?h x) (hx_size t) = j" using t(6) z unfolding runs_ok_def by blast
    ultimately show ?thesis using old by simp
  qed
  moreover have "dll ?g None (chain_of gs') None"
    unfolding kv(2) using link(1) sub2(2) chain(2) by (simp del: dll_append)
  moreover have "distinct (chain_of gs')" using dist chain(2) by simp
  ultimately have "runs_ok hash (hx_size t) ?g gs'"
    using link(2) sub unfolding runs_ok_def by blast
  moreover have "hx_load t' = int (length (chain_of gs'))"
    using t'(5) t(5) unfolding chain by simp
  ultimately have "table_inv t' gs'"
    using ok t t' ka unfolding table_inv_def hash_inv_def by simp
  moreover have "contents t' gs' j = (if keyeq k j then None else contents t gs j)" for j
  proof -
    let ?P = "\<lambda>x. keyeq (key_at ?h x) j"
    have lone: "\<forall>x \<in> set (A @ B). \<not> ?P x" if p: "?P v"
    proof
      fix x
      assume x: "x \<in> set (A @ B)"
      then have "x \<in> set (chain_of gs)" "v \<in> set (chain_of gs)" "x \<noteq> v"
        unfolding chain using dist by auto
      from apart [OF this] p show "\<not> ?P x" using keyeq_sym keyeq_trans by blast
    qed
    have pv: "?P v \<longleftrightarrow> keyeq k j" using kva keyeq_sym keyeq_trans by blast
    have "entry_for t gs j = (if ?P v then Some v else find ?P (A @ B))"
      unfolding entry_for_def t(1) chain(1) by (rule find_insert) (rule lone)
    moreover have "entry_for t' gs' j = find ?P (A @ B)"
      unfolding entry_for_def t'(3) chain(2)
    proof (rule find_cong [OF refl])
      fix x
      assume "x \<in> set (A @ B)"
      then have "x \<noteq> v" using dist by auto
      then show "keyeq (key_at ?g x) j = ?P x" using old by simp
    qed
    moreover have "find ?P (A @ B) = None" if "?P v" using lone [OF that] by (auto simp: find_None_iff)
    moreover have "datum_at ?g x = datum_at ?h x" if "find ?P (A @ B) = Some x" for x
      using find_in_set [OF that] dist old(2) [of x] by auto
    ultimately show ?thesis using pv
      by (cases "find ?P (A @ B)") (auto simp: contents_def)
  qed
  ultimately show ?thesis by blast
qed

text \<open>The run and the position of an entry that was found, and the bucket after its removal.\<close>

lemma run_position:
  assumes inv: "table_inv t gs" and found: "entry_for t gs k = Some x"
  shows "\<exists>g1 ys zs g2. gs = g1 @ (hash k (hx_size t), ys @ x # zs) # g2 \<and>
    hash k (hx_size t) \<notin> fst ` set g1 \<and> hash k (hx_size t) \<notin> fst ` set g2"
proof -
  let ?h = "mem_cells (hx_memory t)"
  have x: "x \<in> set (chain_of gs)" "keyeq (key_at ?h x) k" using entry_alive [OF inv found] by auto
  have ok: "runs_ok hash (hx_size t) ?h gs" using inv by (auto simp: table_inv_def hash_inv_def)
  obtain j ws where w: "(j, ws) \<in> set gs" "x \<in> set ws" using x(1) by auto
  have "hash (key_at ?h x) (hx_size t) = j" using ok w unfolding runs_ok_def by blast
  then have "j = hash k (hx_size t)" using hash_cong [OF x(2)] by simp
  moreover obtain ys zs where "ws = ys @ x # zs" using w(2) by (auto simp: in_set_conv_decomp)
  moreover have "map_of gs j = Some ws" using w(1) ok by (simp add: runs_ok_def)
  ultimately show ?thesis using run_split [OF ok] by metis
qed

definition shrunk_runs :: "runs \<Rightarrow> int \<Rightarrow> addr list \<Rightarrow> addr list \<Rightarrow> runs \<Rightarrow> runs" where
  "shrunk_runs g1 i ys zs g2 = (if ys @ zs = [] then g1 @ g2 else g1 @ (i, ys @ zs) # g2)"

lemma shrunk_bucket:
  assumes "distinct (ys @ x # zs)" and "i \<notin> fst ` set g1" and "i \<notin> fst ` set g2"
    and "b = bucket_of (g1 @ (i, ys @ x # zs) # g2) i"
  shows "(if Some x = hk_first b
      then (if Some x = hk_last b then \<lparr>hk_first = None, hk_last = None\<rparr>
            else b\<lparr>hk_first := start_of (zs @ C) None\<rparr>)
      else if Some x = hk_last b then b\<lparr>hk_last := end_of None (A @ ys)\<rparr> else b)
    = bucket_of (shrunk_runs g1 i ys zs g2) i"
proof -
  have b: "b = \<lparr>hk_first = Some (hd (ys @ x # zs)), hk_last = Some (last (ys @ x # zs))\<rparr>"
    using assms(4) bucket_of_run [OF assms(2,3)] by simp
  have none: "bucket_of (g1 @ g2) i = \<lparr>hk_first = None, hk_last = None\<rparr>"
    by (rule bucket_of_absent) (use assms(2,3) in auto)
  have hd: "hd (ys @ x # zs) = x \<longleftrightarrow> ys = []" using assms(1) by (cases ys) auto
  have last: "last (ys @ x # zs) = x \<longleftrightarrow> zs = []"
    using assms(1) by (cases zs rule: rev_cases) auto
  show ?thesis
    using b none hd last bucket_of_run [OF assms(2,3), of "ys @ zs"]
    by (cases ys; cases zs rule: rev_cases)
      (auto simp: shrunk_runs_def start_of_def end_of_def hd_append)
qed

lemma shrunk_other:
  assumes "i \<notin> fst ` set g1" and "i \<notin> fst ` set g2"
  shows "bucket_of (shrunk_runs g1 i ys zs g2)
    = (bucket_of (g1 @ (i, ws) # g2))(i := bucket_of (shrunk_runs g1 i ys zs g2) i)"
  using bucket_of_run [OF assms, of ws] bucket_of_run [OF assms, of "ys @ zs"]
  by (auto simp: shrunk_runs_def fun_eq_iff)

lemma remove_correct:
  assumes inv: "table_inv t gs"
  shows "\<exists>t' gs'. globus_hashtable_remove t k = Some (contents t gs k, t') \<and> table_inv t' gs' \<and>
    contents t' gs' = (\<lambda>j. if keyeq k j then None else contents t gs j) \<and>
    hx_load t' = hx_load t - (if contents t gs k = None then 0 else 1)"
proof -
  let ?i = "hash k (hx_size t)" and ?h = "mem_cells (hx_memory t)"
  have t: "hx_hash_func t = hash" "hx_keyeq_func t = keyeq" "runs_ok hash (hx_size t) ?h gs"
      "mem_ok (hx_memory t)" "0 < hx_size t" "hx_size t < 2 ^ 31"
      "hx_buckets t = (\<lambda>i. if 0 \<le> i \<and> i < hx_size t then Some (bucket_of gs i) else None)"
      "hx_first t = start_of (chain_of gs) None" "hx_last t = end_of None (chain_of gs)"
      "\<forall>c. hx_current t = Some c \<longrightarrow> c \<in> set (chain_of gs)"
    using inv by (auto simp: table_inv_def hash_inv_def)
  have i: "0 \<le> ?i" "?i < hx_size t" using hash_range t(5,6) by auto
  obtain b where s: "hx_buckets t ?i = Some b" "b = bucket_of gs ?i"
    "globus_l_hashtable_search_bucket (hx_memory t) b keyeq k = Some (entry_for t gs k)"
    using search_correct [OF inv, of k] by blast
  show ?thesis
  proof (cases "entry_for t gs k")
    case None
    have "contents t gs j = None" if "keyeq k j" for j
    proof (rule ccontr)
      assume "contents t gs j \<noteq> None"
      then obtain x where x: "entry_for t gs j = Some x" by (auto simp: contents_def)
      have "x \<in> set (chain_of gs)" "keyeq (key_at ?h x) k"
        using entry_alive [OF inv x] keyeq_trans keyeq_sym that by blast+
      with None t(2) show False by (auto simp: entry_for_def find_None_iff)
    qed
    then have "contents t gs = (\<lambda>j. if keyeq k j then None else contents t gs j)" by auto
    with None s t(1,2) inv show ?thesis
      by (intro exI [of _ t] exI [of _ gs]) (simp add: globus_hashtable_remove_def Let_def contents_def)
  next
    case (Some x)
    obtain g1 ys zs g2 where g: "gs = g1 @ (?i, ys @ x # zs) # g2" "?i \<notin> fst ` set g1"
      "?i \<notin> fst ` set g2" using run_position [OF inv Some] by blast
    let ?A = "chain_of g1 @ ys" and ?B = "zs @ chain_of g2" and ?gs = "shrunk_runs g1 ?i ys zs g2"
    have ch: "chain_of gs = ?A @ x # ?B" "chain_of ?gs = ?A @ ?B"
      using g by (auto simp: shrunk_runs_def)
    have dist: "distinct (?A @ x # ?B)" and d: "dll ?h None (?A @ x # ?B) None"
      using t(3) unfolding runs_ok_def ch(1) by blast+
    obtain e where e: "?h x = Some e" "hb_prev e = end_of None ?A" "hb_next e = start_of ?B None"
      using d by auto
    obtain h' where u: "unlink_entry (hx_memory t) e = Some ((hx_memory t)\<lparr>mem_cells := h'\<rparr>)"
      "dll h' None (?A @ ?B) None" "same_kv ?h h'"
      using unlink_correct [OF d dist e(1)] by blast
    let ?b = "bucket_of ?gs ?i"
    let ?t = "t\<lparr>hx_buckets := (hx_buckets t)(?i \<mapsto> ?b),
      hx_first := (if hb_prev e = None then hb_next e else hx_first t),
      hx_last := (if hb_next e = None then hb_prev e else hx_last t),
      hx_current := (if Some x = hx_current t then hb_next e else hx_current t),
      hx_memory := (hx_memory t)\<lparr>mem_cells := h'(x := None), mem_room := Suc (mem_room (hx_memory t))\<rparr>,
      hx_load := hx_load t - 1\<rparr>"
    have bucket: "(if Some x = hk_first b
        then (if Some x = hk_last b then \<lparr>hk_first = None, hk_last = None\<rparr>
              else b\<lparr>hk_first := hb_next e\<rparr>)
        else if Some x = hk_last b then b\<lparr>hk_last := hb_prev e\<rparr> else b) = ?b"
      unfolding e by (rule shrunk_bucket) (use dist g s(2) in auto)
    have live: "h' x \<noteq> None" using u(3) e(1) by (auto simp: same_kv_def)
    have run: "globus_hashtable_remove t k = Some (Some (hb_datum e), ?t)"
      using s(1,3) t(1,2) Some e(1) u(1) bucket live
      by (simp add: globus_hashtable_remove_def Let_def mem_free_def)
    have first: "hx_first ?t = start_of (chain_of ?gs) None"
      unfolding ch first_removed [of ?A ?B x, symmetric] by (simp add: e(2,3) t(8) ch del: end_of_simps start_of_simps)
    have last: "hx_last ?t = end_of None (chain_of ?gs)"
      unfolding ch last_removed [of ?B ?A x, symmetric] by (simp add: e(2,3) t(9) ch del: end_of_simps start_of_simps)
    have cur: "\<forall>c. hx_current ?t = Some c \<longrightarrow> c \<in> set (chain_of ?gs)"
      using t(10) e(3) start_of_in [of ?B] unfolding ch by auto
    have bk: "hx_buckets ?t = (\<lambda>i. if 0 \<le> i \<and> i < hx_size t then Some (bucket_of ?gs i) else None)"
    proof -
      have e: "bucket_of ?gs = (bucket_of gs)(?i := ?b)"
        by (rule shrunk_other [OF g(2,3), of ys zs "ys @ x # zs", folded g(1)])
      have "hx_buckets ?t = (\<lambda>j. if 0 \<le> j \<and> j < hx_size t then Some (((bucket_of gs)(?i := ?b)) j) else None)"
        using buckets_upd [OF i] by (simp add: t(7) del: fun_upd_apply)
      then show ?thesis by (subst (asm) e [symmetric])
    qed
    have mok: "mem_ok (hx_memory ?t)"
      using mem_ok_dom [OF t(4), of h'] u(3) by (auto simp: same_kv_def mem_ok_def)
    have sub: "ws \<noteq> [] \<and> (\<exists>vs. (j, vs) \<in> set gs \<and> set ws \<subseteq> set vs)" if "(j, ws) \<in> set ?gs" for j ws
      using that g(1) t(3) by (fastforce simp: shrunk_runs_def runs_ok_def split: if_splits)
    have fst: "distinct (map fst ?gs)"
      using t(3) g(1) by (auto simp: shrunk_runs_def runs_ok_def)
    have "table_inv ?t ?gs \<and> contents ?t ?gs = (\<lambda>j. if keyeq k j then None else contents t gs j)"
      by (rule table_shrunk [OF inv Some ch u(3) _ u(2) fst sub mok _ _ _ cur _ first last bk])
        (simp_all add: t(1,2))
    moreover have "contents t gs k = Some (hb_datum e)" using Some e(1) by (simp add: contents_def datum_at_def)
    ultimately show ?thesis using run by auto
  qed
qed

lemma update_correct:
  assumes inv: "table_inv t gs"
  shows "\<exists>t'. globus_hashtable_update t k (Some d) = Some (contents t gs k, t') \<and> table_inv t' gs \<and>
    contents t' gs = (\<lambda>j. if keyeq k j \<and> contents t gs k \<noteq> None then Some d else contents t gs j)"
proof -
  let ?h = "mem_cells (hx_memory t)"
  have t: "hx_hash_func t = hash" "hx_keyeq_func t = keyeq" "runs_ok hash (hx_size t) ?h gs"
      "mem_ok (hx_memory t)" "keys_apart keyeq ?h (chain_of gs)" "hash_inv t gs"
    using inv by (auto simp: table_inv_def hash_inv_def)
  obtain b where s: "hx_buckets t (hash k (hx_size t)) = Some b"
    "globus_l_hashtable_search_bucket (hx_memory t) b keyeq k = Some (entry_for t gs k)"
    using search_correct [OF inv, of k] by blast
  show ?thesis
  proof (cases "entry_for t gs k")
    case None
    then have "globus_hashtable_update t k (Some d) = Some (None, t)" "contents t gs k = None"
      using s t(1,2) by (simp_all add: globus_hashtable_update_def contents_def)
    with inv show ?thesis by auto
  next
    case (Some x)
    obtain e where e: "?h x = Some e" "keyeq (hb_key e) k" "x \<in> set (chain_of gs)"
      using entry_alive [OF inv Some] by (auto simp: key_at_def)
    let ?g = "?h(x \<mapsto> e\<lparr>hb_datum := d, hb_key := k\<rparr>)"
    let ?t = "t\<lparr>hx_memory := (hx_memory t)\<lparr>mem_cells := ?g\<rparr>\<rparr>"
    have run: "globus_hashtable_update t k (Some d) = Some (Some (hb_datum e), ?t)"
      using s t(1,2) Some e(1) by (simp add: globus_hashtable_update_def)
    have other: "key_at ?g y = (if y = x then k else key_at ?h y)"
      "datum_at ?g y = (if y = x then d else datum_at ?h y)" for y
      by (simp_all add: key_at_def datum_at_def)
    have kx: "key_at ?h x = hb_key e" using e(1) by (simp add: key_at_def)
    have ek: "keyeq k j \<longleftrightarrow> keyeq (hb_key e) j" for j using e(2) keyeq_sym keyeq_trans by blast
    have eq: "keyeq (key_at ?g y) j \<longleftrightarrow> keyeq (key_at ?h y) j" for y j
      by (cases "y = x") (simp_all add: other(1) kx ek)
    have imp: "keyeq (key_at ?g a) (key_at ?g b) \<Longrightarrow> keyeq (key_at ?h a) (key_at ?h b)" for a b
      using eq keyeq_sym by blast
    have "hash (key_at ?g y) n = hash (key_at ?h y) n" for y n
      using other(1) [of y] kx hash_cong [OF e(2)] by simp
    moreover have "dll ?g None (chain_of gs) None"
      by (rule dll_relabel [where e = e]) (use t(3) e(1) in \<open>simp_all add: runs_ok_def\<close>)
    ultimately have "runs_ok hash (hx_size t) ?g gs" using t(3) by (simp add: runs_ok_def)
    moreover have "keys_apart keyeq ?g (chain_of gs)"
      using t(5) imp unfolding keys_apart_def by blast
    moreover have "mem_ok (hx_memory ?t)" using t(4) e(1) by (auto simp: mem_ok_def)
    ultimately have "table_inv ?t gs" using t(1,2,6) by (simp add: table_inv_def hash_inv_def)
    moreover have ent: "entry_for ?t gs j = entry_for t gs j" for j
      unfolding entry_for_def using t(2) eq by simp
    moreover have "contents ?t gs j = (if keyeq k j then Some d else contents t gs j)" for j
    proof (cases "entry_for t gs j")
      case None
      have "\<not> keyeq k j"
        using None e(3) kx e(2) t(2) keyeq_trans by (fastforce simp: entry_for_def find_None_iff)
      with None ent show ?thesis by (simp add: contents_def)
    next
      case (Some y)
      have y: "keyeq (key_at ?h y) j" "y \<in> set (chain_of gs)" using entry_alive [OF inv Some] by auto
      have "keyeq (key_at ?h y) (key_at ?h x)" if kj: "keyeq k j"
      proof -
        have "keyeq (key_at ?h x) j" using kj ek kx by simp
        then show ?thesis by (rule keyeq_trans [OF y(1) keyeq_sym])
      qed
      then have "y = x" if "keyeq k j" using that y(2) e(3) t(5) unfolding keys_apart_def by blast
      moreover have "keyeq k j" if "y = x" using that y(1) kx ek by simp
      ultimately have "y = x \<longleftrightarrow> keyeq k j" by blast
      with Some ent other(2) show ?thesis by (simp add: contents_def)
    qed
    moreover have "contents t gs k = Some (hb_datum e)" using Some e(1) by (simp add: contents_def datum_at_def)
    ultimately show ?thesis using run by (intro exI [of _ ?t]) auto
  qed
qed

end

section \<open>Traversal\<close>

lemma to_list_loop_correct:
  assumes "dll (mem_cells m) p xs None"
  shows "to_list_loop m (start_of xs None) acc = Some (rev (map (datum_at (mem_cells m)) xs) @ acc)"
  using assms
proof (induction xs arbitrary: p acc)
  case Nil
  then show ?case by (simp add: to_list_loop.simps)
next
  case (Cons x xs)
  then show ?case by (subst to_list_loop.simps) (auto simp: datum_at_def)
qed

lemma destroy_all_loop_correct:
  assumes "dll (mem_cells m) p xs None"
  shows "destroy_all_loop m (start_of xs None) acc = Some (acc @ map (datum_at (mem_cells m)) xs)"
  using assms
proof (induction xs arbitrary: p acc)
  case Nil
  then show ?case by (simp add: destroy_all_loop.simps)
next
  case (Cons x xs)
  then show ?case by (subst destroy_all_loop.simps) (auto simp: datum_at_def)
qed

lemma hash_destroy_loop_correct:
  assumes "dll (mem_cells m) p xs None" and "distinct xs"
  shows "\<exists>m'. hash_destroy_loop m (start_of xs None) = Some m' \<and>
    mem_cells m' = (\<lambda>a. if a \<in> set xs then None else mem_cells m a)"
  using assms
proof (induction xs arbitrary: m p)
  case Nil
  then show ?case by (simp add: hash_destroy_loop.simps)
next
  case (Cons x xs)
  obtain e where e: "mem_cells m x = Some e" "hb_next e = start_of xs None" using Cons.prems(1) by auto
  let ?m = "m\<lparr>mem_cells := (mem_cells m)(x := None), mem_room := Suc (mem_room m)\<rparr>"
  have "dll (mem_cells ?m) (Some x) xs None" using Cons.prems by auto
  from Cons.IH [OF this] Cons.prems(2) obtain m' where
    m': "hash_destroy_loop ?m (start_of xs None) = Some m'"
      "mem_cells m' = (\<lambda>a. if a \<in> set xs then None else mem_cells ?m a)" by auto
  have "hash_destroy_loop m (Some x) = Some m'"
    by (subst hash_destroy_loop.simps) (use e m'(1) in \<open>simp add: mem_free_def\<close>)
  with m'(2) show ?case by (intro exI [of _ m']) auto
qed

text \<open>Moving the cursor \<open>n\<close> times with \<open>globus_hashtable_next\<close>.\<close>

fun next_times :: "nat \<Rightarrow> ('k, 'd) hashtable \<Rightarrow> 'd option list option" where
  "next_times 0 t = Some []"
| "next_times (Suc n) t =
     do { (d, t1) \<leftarrow> globus_hashtable_next t; ds \<leftarrow> next_times n t1; Some (d # ds) }"

lemma next_times_correct:
  assumes "dll (mem_cells (hx_memory t)) p (x # xs) None" and "hx_current t = Some x"
  shows "next_times (Suc (length xs)) t
    = Some (map (Some \<circ> datum_at (mem_cells (hx_memory t))) xs @ [None])"
  using assms
proof (induction xs arbitrary: t x p)
  case Nil
  then show ?case by (auto simp: globus_hashtable_next_def cursor_datum_def)
next
  case (Cons y ys)
  let ?t = "t\<lparr>hx_current := Some y\<rparr>"
  have "globus_hashtable_next t = Some (Some (datum_at (mem_cells (hx_memory t)) y), ?t)"
    using Cons.prems by (auto simp: globus_hashtable_next_def cursor_datum_def datum_at_def)
  moreover have "next_times (Suc (length ys)) ?t
      = Some (map (Some \<circ> datum_at (mem_cells (hx_memory ?t))) ys @ [None])"
    by (rule Cons.IH) (use Cons.prems in auto)
  ultimately show ?case by (simp del: next_times.simps add: next_times.simps(2) [of "Suc (length ys)"])
qed

section \<open>The provided hash functions satisfy the contract\<close>

lemma word_mod_range:
  fixes w :: "64 word"
  assumes "0 < n" and "n < 2 ^ 31"
  shows "0 \<le> uint (w mod word_of_int n) \<and> uint (w mod word_of_int n) < n"
proof -
  have "uint (word_of_int n :: 64 word) = n"
    using assms by (simp add: uint_word_of_int take_bit_int_eq_self_iff)
  then have "uint (w mod word_of_int n) = uint w mod n" by (simp add: uint_mod)
  then show ?thesis using assms(1) by simp
qed

interpretation string_table: hash_contract globus_hashtable_string_hash
  "\<lambda>a b. globus_hashtable_string_keyeq (Some a) (Some b)"
  by unfold_locales
    (simp_all add: globus_hashtable_string_hash_def globus_hashtable_string_keyeq_def word_mod_range
      del: uint_mod)

interpretation voidp_table: hash_contract globus_hashtable_voidp_hash globus_hashtable_voidp_keyeq
  by unfold_locales
    (simp_all add: globus_hashtable_voidp_hash_def globus_hashtable_voidp_keyeq_def word_mod_range)

interpretation ulong_table: hash_contract globus_hashtable_ulong_hash globus_hashtable_ulong_keyeq
  by unfold_locales
    (simp_all add: globus_hashtable_ulong_hash_def globus_hashtable_ulong_keyeq_def word_mod_range)

section \<open>The table seen through its lookup function\<close>

context hash_contract
begin

lemma insert_lookup:
  assumes "table_inv t gs"
  shows "\<exists>rc t' gs'. globus_hashtable_insert t k (Some d) = Some (rc, t') \<and> table_inv t' gs' \<and>
    (if globus_hashtable_lookup t k \<noteq> Some None \<or> mem_room (hx_memory t) = 0
     then rc = GLOBUS_FAILURE \<and> t' = t
     else rc = GLOBUS_SUCCESS \<and>
       (\<forall>j. globus_hashtable_lookup t' j =
          (if keyeq k j then Some (Some d) else globus_hashtable_lookup t j)))"
proof -
  obtain rc t' gs' where r: "globus_hashtable_insert t k (Some d) = Some (rc, t')" "table_inv t' gs'"
    "if contents t gs k \<noteq> None \<or> mem_room (hx_memory t) = 0 then rc = GLOBUS_FAILURE \<and> t' = t
     else rc = GLOBUS_SUCCESS \<and> contents t' gs' = (\<lambda>j. if keyeq k j then Some d else contents t gs j)"
    using insert_correct [OF assms] by blast
  have "globus_hashtable_lookup t' j = (if keyeq k j then Some (Some d) else globus_hashtable_lookup t j)"
    if "contents t' gs' = (\<lambda>j. if keyeq k j then Some d else contents t gs j)" for j
    using lookup_correct [OF r(2), of j] lookup_correct [OF assms, of j] that by simp
  with r lookup_correct [OF assms, of k] show ?thesis
    by (intro exI [of _ rc] exI [of _ t'] exI [of _ gs']) (auto split: if_splits)
qed

lemma remove_lookup:
  assumes "table_inv t gs"
  shows "\<exists>t' gs'. globus_hashtable_remove t k = Some (the (globus_hashtable_lookup t k), t') \<and>
    table_inv t' gs' \<and>
    (\<forall>j. globus_hashtable_lookup t' j = (if keyeq k j then Some None else globus_hashtable_lookup t j)) \<and>
    globus_hashtable_size t' = globus_hashtable_size t - (if globus_hashtable_lookup t k = Some None then 0 else 1)"
proof -
  obtain t' gs' where r: "globus_hashtable_remove t k = Some (contents t gs k, t')" "table_inv t' gs'"
    "contents t' gs' = (\<lambda>j. if keyeq k j then None else contents t gs j)"
    "hx_load t' = hx_load t - (if contents t gs k = None then 0 else 1)"
    using remove_correct [OF assms, of k] by blast
  have "globus_hashtable_lookup t' j = (if keyeq k j then Some None else globus_hashtable_lookup t j)" for j
    using lookup_correct [OF r(2), of j] lookup_correct [OF assms, of j] r(3) by simp
  with r lookup_correct [OF assms, of k] show ?thesis
    by (intro exI [of _ t'] exI [of _ gs']) (auto simp: globus_hashtable_size_def)
qed

lemma update_lookup:
  assumes "table_inv t gs"
  shows "\<exists>t'. globus_hashtable_update t k (Some d) = Some (the (globus_hashtable_lookup t k), t') \<and>
    table_inv t' gs \<and>
    (\<forall>j. globus_hashtable_lookup t' j =
       (if keyeq k j \<and> globus_hashtable_lookup t k \<noteq> Some None then Some (Some d)
        else globus_hashtable_lookup t j))"
proof -
  obtain t' where r: "globus_hashtable_update t k (Some d) = Some (contents t gs k, t')" "table_inv t' gs"
    "contents t' gs = (\<lambda>j. if keyeq k j \<and> contents t gs k \<noteq> None then Some d else contents t gs j)"
    using update_correct [OF assms, of k d] by blast
  have "globus_hashtable_lookup t' j = Some (contents t' gs j)"
    "globus_hashtable_lookup t j = Some (contents t gs j)" for j
    using lookup_correct [OF r(2)] lookup_correct [OF assms] by simp_all
  with r show ?thesis by (intro exI [of _ t']) auto
qed

lemma traversal_correct:
  assumes inv: "table_inv t gs"
  shows "\<exists>kvs t1. globus_hashtable_first t = Some (if kvs = [] then None else Some (snd (hd kvs)), t1) \<and>
    (kvs \<noteq> [] \<longrightarrow> next_times (length kvs) t1 = Some (map (Some \<circ> snd) (tl kvs) @ [None])) \<and>
    globus_hashtable_to_list t = Some (GLOBUS_SUCCESS, rev (map snd kvs)) \<and>
    globus_hashtable_size t = int (length kvs) \<and>
    (\<forall>(k, d) \<in> set kvs. globus_hashtable_lookup t k = Some (Some d)) \<and>
    (\<forall>k d. globus_hashtable_lookup t k = Some (Some d) \<longrightarrow> (\<exists>k'. keyeq k' k \<and> (k', d) \<in> set kvs)) \<and>
    (\<forall>i < length kvs. \<forall>j < length kvs. i \<noteq> j \<longrightarrow> \<not> keyeq (fst (kvs ! i)) (fst (kvs ! j)))"
proof -
  let ?h = "mem_cells (hx_memory t)" and ?xs = "chain_of gs"
  have t: "dll ?h None ?xs None" "hx_first t = start_of ?xs None" "hx_load t = int (length ?xs)"
      "keys_apart keyeq ?h ?xs" "distinct ?xs" "hx_keyeq_func t = keyeq"
    using inv by (auto simp: table_inv_def hash_inv_def runs_ok_def)
  define kvs where "kvs = map (\<lambda>x. (key_at ?h x, datum_at ?h x)) ?xs"
  let ?t = "t\<lparr>hx_current := hx_first t\<rparr>"
  have snd: "map snd kvs = map (datum_at ?h) ?xs" by (simp add: kvs_def)
  have lookup: "globus_hashtable_lookup t k = Some (contents t gs k)" for k
    by (rule lookup_correct [OF inv])
  have ent: "entry_for t gs (key_at ?h x) = Some x" if x: "x \<in> set ?xs" for x
  proof (cases "entry_for t gs (key_at ?h x)")
    case None
    then show ?thesis using x keyeq_refl t(6) by (auto simp: entry_for_def find_None_iff)
  next
    case (Some y)
    then have "y \<in> set ?xs" "keyeq (key_at ?h y) (key_at ?h x)" using entry_alive [OF inv] by auto
    with t(4) x have "y = x" unfolding keys_apart_def by blast
    with Some show ?thesis by simp
  qed
  have "\<forall>(k, d) \<in> set kvs. globus_hashtable_lookup t k = Some (Some d)"
    using lookup ent by (auto simp: kvs_def contents_def)
  moreover have "\<exists>k'. keyeq k' k \<and> (k', d) \<in> set kvs"
    if l: "globus_hashtable_lookup t k = Some (Some d)" for k d
  proof -
    obtain x where x: "entry_for t gs k = Some x" "datum_at ?h x = d"
      using l unfolding lookup contents_def by (cases "entry_for t gs k") auto
    then have "x \<in> set ?xs" "keyeq (key_at ?h x) k" using entry_alive [OF inv] by auto
    then have "(key_at ?h x, d) \<in> set kvs" unfolding kvs_def using x(2) by force
    with \<open>keyeq (key_at ?h x) k\<close> show ?thesis by blast
  qed
  moreover have "\<not> keyeq (fst (kvs ! i)) (fst (kvs ! j))"
    if "i < length kvs" "j < length kvs" "i \<noteq> j" for i j
  proof -
    have ij: "i < length ?xs" "j < length ?xs" using that(1,2) by (simp_all add: kvs_def)
    then have "?xs ! i \<noteq> ?xs ! j" using t(5) that(3) nth_eq_iff_index_eq by blast
    then have "\<not> keyeq (key_at ?h (?xs ! i)) (key_at ?h (?xs ! j))"
      using t(4) nth_mem [OF ij(1)] nth_mem [OF ij(2)] unfolding keys_apart_def by blast
    with ij show ?thesis by (simp add: kvs_def)
  qed
  moreover have "globus_hashtable_to_list t = Some (GLOBUS_SUCCESS, rev (map snd kvs))"
    unfolding snd using to_list_loop_correct [OF t(1), of "[]"] t(2)
    by (simp add: globus_hashtable_to_list_def)
  moreover have "globus_hashtable_size t = int (length kvs)"
    using t(3) by (simp add: globus_hashtable_size_def kvs_def)
  moreover have "globus_hashtable_first t = Some (if kvs = [] then None else Some (snd (hd kvs)), ?t) \<and>
    (kvs \<noteq> [] \<longrightarrow> next_times (length kvs) ?t = Some (map (Some \<circ> snd) (tl kvs) @ [None]))"
  proof (cases ?xs)
    case Nil
    have "kvs = []" "hx_first t = None" unfolding kvs_def t(2) Nil by simp_all
    then show ?thesis by (simp add: globus_hashtable_first_def cursor_datum_def)
  next
    case (Cons x xs)
    then have k: "kvs = (key_at ?h x, datum_at ?h x) # map (\<lambda>x. (key_at ?h x, datum_at ?h x)) xs"
      and f: "hx_first t = Some x" unfolding kvs_def t(2) by simp_all
    have d: "dll ?h None (x # xs) None" using t(1) Cons by simp
    then have "dll (mem_cells (hx_memory ?t)) None (x # xs) None" by simp
    from next_times_correct [OF this] f k have
      "next_times (length kvs) ?t = Some (map (Some \<circ> snd) (tl kvs) @ [None])" by (simp add: comp_def)
    moreover obtain e where "?h x = Some e" using d by auto
    ultimately show ?thesis using k f
      by (simp add: globus_hashtable_first_def cursor_datum_def datum_at_def)
  qed
  ultimately show ?thesis by blast
qed

lemma destroy_all_correct:
  assumes inv: "table_inv t gs"
  shows "\<exists>m l. globus_hashtable_destroy_all t = Some (l, m) \<and>
    globus_hashtable_to_list t = Some (GLOBUS_SUCCESS, rev l) \<and>
    (\<forall>x \<in> set (chain_of gs). mem_cells m x = None)"
proof -
  let ?h = "mem_cells (hx_memory t)" and ?xs = "chain_of gs"
  have t: "dll ?h None ?xs None" "hx_first t = start_of ?xs None" "distinct ?xs"
    using inv by (auto simp: table_inv_def hash_inv_def runs_ok_def)
  obtain m where m: "hash_destroy_loop (hx_memory t) (start_of ?xs None) = Some m"
    "mem_cells m = (\<lambda>a. if a \<in> set ?xs then None else ?h a)"
    using hash_destroy_loop_correct [OF t(1,3)] by blast
  have "\<forall>x \<in> set ?xs. mem_cells m x = None" unfolding m(2) by simp
  then show ?thesis
    using to_list_loop_correct [OF t(1), of "[]"] destroy_all_loop_correct [OF t(1), of "[]"] m(1) t(2)
    by (simp add: globus_hashtable_destroy_all_def globus_hashtable_destroy_def
        globus_hashtable_to_list_def)
qed

end

section \<open>Properties\<close>

text \<open>A table of unsigned numbers with three buckets, for the concrete instances below.\<close>

definition ulong_sample :: "(64 word, nat) hashtable" where
  "ulong_sample = snd (the (globus_hashtable_init True True 10 3 globus_hashtable_ulong_hash
     globus_hashtable_ulong_keyeq))"

lemma ulong_sample_inv: "ulong_table.table_inv ulong_sample []"
  by (auto simp: ulong_table.table_inv_def hash_inv_def ulong_sample_def globus_hashtable_init_def
      runs_ok_def keys_apart_def bucket_of_def)

lemma ulong_sample_contract:
  "hash_contract (hx_hash_func ulong_sample) (hx_keyeq_func ulong_sample)"
  using ulong_sample_inv ulong_table.hash_contract_axioms by (simp add: ulong_table.table_inv_def)

lemma ulong_sample_hash_inv: "hash_inv ulong_sample []"
  using ulong_sample_inv by (simp add: ulong_table.table_inv_def)

lemma table_inv_self:
  assumes "hash_contract (hx_hash_func t) (hx_keyeq_func t)"
  shows "hash_contract.table_inv (hx_hash_func t) (hx_keyeq_func t) t gs \<longleftrightarrow> hash_inv t gs"
  by (simp add: hash_contract.table_inv_def [OF assms])



text \<open>
  \<open>globus_hashtable_remove\<close> on a well-formed table always returns what the lookup of the key
  gave; afterwards the table is well-formed, equal keys are absent, all other keys are as before,
  and the size is smaller by one exactly when the key was present.
\<close>

theorem globus_hashtable_remove_lookup:
  assumes "hash_contract (hx_hash_func t) (hx_keyeq_func t)" and "hash_inv t gs"
  shows "\<exists>t' gs'. globus_hashtable_remove t k = Some (the (globus_hashtable_lookup t k), t') \<and>
    hash_inv t' gs' \<and>
    (\<forall>j. globus_hashtable_lookup t' j =
       (if hx_keyeq_func t k j then Some None else globus_hashtable_lookup t j)) \<and>
    globus_hashtable_size t' =
      globus_hashtable_size t - (if globus_hashtable_lookup t k = Some None then 0 else 1)"
  using hash_contract.remove_lookup [OF assms(1), of t gs k] assms
  unfolding hash_contract.table_inv_def [OF assms(1)] by blast

theorem globus_hashtable_remove_witness:
  "\<exists>t' gs'. globus_hashtable_remove ulong_sample 7 = Some (None, t') \<and> hash_inv t' gs'"
  using globus_hashtable_remove_lookup [OF ulong_sample_contract ulong_sample_hash_inv, of 7]
    ulong_table.lookup_correct [OF ulong_sample_inv, of 7]
  by (auto simp: contents_def entry_for_def)

text \<open>
  \<open>globus_hashtable_update\<close> on a well-formed table returns the old datum and replaces it for
  every equal key when the key is present, and returns NULL and changes no lookup when it is absent.
\<close>

theorem globus_hashtable_update_lookup:
  assumes "hash_contract (hx_hash_func t) (hx_keyeq_func t)" and "hash_inv t gs"
  shows "\<exists>t'. globus_hashtable_update t k (Some d) = Some (the (globus_hashtable_lookup t k), t') \<and>
    hash_inv t' gs \<and>
    (\<forall>j. globus_hashtable_lookup t' j =
       (if hx_keyeq_func t k j \<and> globus_hashtable_lookup t k \<noteq> Some None then Some (Some d)
        else globus_hashtable_lookup t j))"
  using hash_contract.update_lookup [OF assms(1), of t gs k d] assms
  unfolding hash_contract.table_inv_def [OF assms(1)] by blast

theorem globus_hashtable_update_witness:
  "\<exists>t'. globus_hashtable_update ulong_sample 7 (Some 5) = Some (None, t') \<and> hash_inv t' []"
  using globus_hashtable_update_lookup [OF ulong_sample_contract ulong_sample_hash_inv, of 7 5]
    ulong_table.lookup_correct [OF ulong_sample_inv, of 7]
  by (auto simp: contents_def entry_for_def)

text \<open>
  Traversal: \<open>globus_hashtable_first\<close> and repeated \<open>globus_hashtable_next\<close> deliver the data of
  all entries, one for every key class of the table and nothing else, and then NULL;
  \<open>globus_hashtable_to_list\<close> returns the same data in reverse order, and the size is their number.
\<close>

theorem globus_hashtable_traversal_complete:
  assumes "hash_contract (hx_hash_func t) (hx_keyeq_func t)" and "hash_inv t gs"
  shows "\<exists>kvs t1. globus_hashtable_first t = Some (if kvs = [] then None else Some (snd (hd kvs)), t1) \<and>
    (kvs \<noteq> [] \<longrightarrow> next_times (length kvs) t1 = Some (map (Some \<circ> snd) (tl kvs) @ [None])) \<and>
    globus_hashtable_to_list t = Some (GLOBUS_SUCCESS, rev (map snd kvs)) \<and>
    globus_hashtable_size t = int (length kvs) \<and>
    (\<forall>(k, d) \<in> set kvs. globus_hashtable_lookup t k = Some (Some d)) \<and>
    (\<forall>k d. globus_hashtable_lookup t k = Some (Some d) \<longrightarrow>
       (\<exists>k'. hx_keyeq_func t k' k \<and> (k', d) \<in> set kvs)) \<and>
    (\<forall>i < length kvs. \<forall>j < length kvs. i \<noteq> j \<longrightarrow> \<not> hx_keyeq_func t (fst (kvs ! i)) (fst (kvs ! j)))"
  by (rule hash_contract.traversal_correct [OF assms(1)]) (use assms(2) table_inv_self [OF assms(1)] in blast)

theorem globus_hashtable_traversal_witness:
  "\<exists>kvs :: (64 word \<times> nat) list. globus_hashtable_to_list ulong_sample = Some (GLOBUS_SUCCESS, rev (map snd kvs)) \<and>
     globus_hashtable_size ulong_sample = int (length kvs)"
  using globus_hashtable_traversal_complete [OF ulong_sample_contract ulong_sample_hash_inv] by blast

text \<open>
  \<open>globus_hashtable_destroy_all\<close> on a well-formed table terminates, hands every datum to the
  destructor exactly once in the order of the chain, and gives every entry back to the pool.
\<close>

theorem globus_hashtable_destroy_all_complete:
  assumes "hash_contract (hx_hash_func t) (hx_keyeq_func t)" and "hash_inv t gs"
  shows "\<exists>m l. globus_hashtable_destroy_all t = Some (l, m) \<and>
    globus_hashtable_to_list t = Some (GLOBUS_SUCCESS, rev l) \<and>
    (\<forall>x \<in> set (chain_of gs). mem_cells m x = None)"
  by (rule hash_contract.destroy_all_correct [OF assms(1)]) (use assms(2) table_inv_self [OF assms(1)] in blast)

theorem globus_hashtable_destroy_all_witness:
  "\<exists>m l. globus_hashtable_destroy_all ulong_sample = Some (l, m) \<and>
    globus_hashtable_to_list ulong_sample = Some (GLOBUS_SUCCESS, rev l)"
  using globus_hashtable_destroy_all_complete [OF ulong_sample_contract ulong_sample_hash_inv] by blast

text \<open>
  The hash functions for strings, pointers and unsigned numbers always give a bucket number of
  the table, for every size an \<open>int\<close> can hold; the one for signed numbers does so exactly when the
  number is not negative or is a multiple of the size, and gives a negative index otherwise.
\<close>

theorem globus_hashtable_hash_in_range:
  assumes "0 < n" and "n < 2 ^ 31"
  shows "globus_hashtable_string_hash s n \<in> {0..<n} \<and> globus_hashtable_voidp_hash p n \<in> {0..<n} \<and>
    globus_hashtable_ulong_hash w n \<in> {0..<n} \<and>
    (globus_hashtable_int_hash w n \<in> {0..<n} \<longleftrightarrow> 0 \<le> sint w \<or> n dvd sint w)"
proof -
  have "c_mod x n \<in> {0..<n} \<longleftrightarrow> 0 \<le> x \<or> n dvd x" for x
  proof (cases "0 \<le> x")
    case True
    then show ?thesis using assms(1) by (simp add: c_mod_nonneg)
  next
    case False
    then have "c_mod x n = - ((- x) mod n)"
      using assms(1) by (simp add: c_mod_def c_div_def minus_mult_div_eq_mod [symmetric])
    moreover have "0 \<le> (- x) mod n" "(- x) mod n < n" using assms(1) by simp_all
    moreover have "(- x) mod n = 0 \<longleftrightarrow> n dvd x" by (metis dvd_eq_mod_eq_0 dvd_minus_iff)
    ultimately show ?thesis using False assms(1) by (auto simp: le_less)
  qed
  with string_table.hash_range [OF assms, of s] voidp_table.hash_range [OF assms, of p]
    ulong_table.hash_range [OF assms, of w] show ?thesis
    by (simp add: globus_hashtable_int_hash_def)
qed

theorem globus_hashtable_hash_witness:
  "globus_hashtable_ulong_hash 17 16 \<in> {0..<16} \<and> globus_hashtable_int_hash (- 1) 16 \<notin> {0..<16}"
  using globus_hashtable_hash_in_range [of 16 "[]" 0 17] globus_hashtable_hash_in_range [of 16 "[]" 0 "- 1"]
  by simp

end
