(* ===== verification/Globus_Hashtable_Copy.thy ===== *)
theory Globus_Hashtable_Copy
  imports Globus_Hashtable
begin

text \<open>
  Copying a hash table (\<open>globus_hashtable_copy\<close>). The loop goes through the buckets in the order of
  their numbers and appends a copy of every entry to the chain of the new table, so the copy has the
  same contents on a chain in another order. Shown: the copy is a well-formed table with the copied
  contents, or the pool of the new table is too small and the copy fails.
\<close>

section \<open>The operation\<close>

text \<open>
  The local variables of the loop: the pool of the new table, \<open>list\<close> (\<open>None\<close> is the address of
  \<open>dummy_entry\<close>, which lives on the stack) and \<open>dummy_entry.next\<close>. The link \<open>prev\<close> of the first entry,
  which points to \<open>dummy_entry\<close> during the loop, is read by nobody before it is cleared.
\<close>

record ('k, 'd) copying =
  cp_memory :: "('k, 'd) hentry mem"
  cp_list :: "addr option"
  cp_dummy_next :: "addr option"

type_synonym ('k, 'd) hash_copy_func = "'k \<Rightarrow> 'd \<Rightarrow> 'k \<times> 'd"

text \<open>\<open>list->next = p\<close> and the read of \<open>list->next\<close>.\<close>

definition set_list_next :: "('k, 'd) copying \<Rightarrow> addr \<Rightarrow> ('k, 'd) copying option" where
  "set_list_next c p =
     (case cp_list c of
        None \<Rightarrow> Some (c\<lparr>cp_dummy_next := Some p\<rparr>)
      | Some l \<Rightarrow> do { m \<leftarrow> mem_upd (cp_memory c) l (set_next (Some p)); Some (c\<lparr>cp_memory := m\<rparr>) })"

definition list_next :: "('k, 'd) copying \<Rightarrow> addr option \<Rightarrow> addr option option" where
  "list_next c l =
     (case l of
        None \<Rightarrow> Some (cp_dummy_next c)
      | Some a \<Rightarrow> do { e \<leftarrow> mem_get (cp_memory c) (Some a); Some (hb_next e) })"

text \<open>One turn of the inner loop: \<open>Inl\<close> is the jump to \<open>error_alloc\<close>.\<close>

definition copy_entry ::
  "('k, 'd) hash_copy_func option \<Rightarrow> ('k, 'd) hentry \<Rightarrow> ('k, 'd) copying \<Rightarrow>
   (unit + addr \<times> ('k, 'd) copying) option" where
  "copy_entry copy_func src c =
     (let (k, d) = (case copy_func of Some f \<Rightarrow> f (hb_key src) (hb_datum src)
                    | None \<Rightarrow> (hb_key src, hb_datum src))
      in case mem_alloc (cp_memory c)
                \<lparr>hb_key = k, hb_datum = d, hb_prev = cp_list c, hb_next = None\<rparr> of
           None \<Rightarrow> Some (Inl ())
         | Some (dest_entry, m) \<Rightarrow> do {
             c1 \<leftarrow> set_list_next (c\<lparr>cp_memory := m\<rparr>) dest_entry;
             Some (Inr (dest_entry, c1\<lparr>cp_list := Some dest_entry\<rparr>)) })"

partial_function (option) copy_run_loop ::
  "('k, 'd) hash_copy_func option \<Rightarrow> ('k, 'd) hentry mem \<Rightarrow> addr option \<Rightarrow> addr option \<Rightarrow>
   ('k, 'd) copying \<Rightarrow> (unit + addr \<times> ('k, 'd) copying) option" where
  "copy_run_loop copy_func m bucket_last src_entry c =
     do {
       e \<leftarrow> mem_get m src_entry;
       r \<leftarrow> copy_entry copy_func e c;
       case r of
         Inl u \<Rightarrow> Some (Inl u)
       | Inr (dest_entry, c1) \<Rightarrow>
           (case hb_next e of
              None \<Rightarrow> Some (Inr (dest_entry, c1))
            | Some n \<Rightarrow> do {
                e1 \<leftarrow> mem_get m (Some n);
                if hb_prev e1 \<noteq> bucket_last then copy_run_loop copy_func m bucket_last (Some n) c1
                else Some (Inr (dest_entry, c1)) }) }"

text \<open>The outer loop, over the numbers of the buckets that are left.\<close>

fun copy_buckets_loop ::
  "('k, 'd) hash_copy_func option \<Rightarrow> ('k, 'd) hashtable \<Rightarrow> int list \<Rightarrow> ('k, 'd) copying \<Rightarrow>
   ('k, 'd) hashtable \<Rightarrow> (unit + ('k, 'd) copying \<times> ('k, 'd) hashtable) option" where
  "copy_buckets_loop copy_func src [] c dest = Some (Inr (c, dest))"
| "copy_buckets_loop copy_func src (i # is) c dest =
     do {
       b \<leftarrow> hx_buckets src i;
       if hk_first b = None then copy_buckets_loop copy_func src is c dest
       else do {
         r \<leftarrow> copy_run_loop copy_func (hx_memory src) (hk_last b) (hk_first b) c;
         case r of
           Inl u \<Rightarrow> Some (Inl u)
         | Inr (dest_entry, c1) \<Rightarrow> do {
             bucket_first \<leftarrow> list_next c1 (cp_list c);
             copy_buckets_loop copy_func src is c1
               (dest\<lparr>hx_buckets := (hx_buckets dest)
                       (i \<mapsto> \<lparr>hk_first = bucket_first, hk_last = Some dest_entry\<rparr>),
                     hx_last := Some dest_entry\<rparr>) } } }"

text \<open>
  \<open>globus_hashtable_copy\<close>: \<open>params_ok\<close> stands for the NULL tests, \<open>alloc_ok\<close> and \<open>room\<close> are those of the
  initialisation of the new table. On failure the new table has been destroyed and its pointer is NULL.
\<close>

definition globus_hashtable_copy ::
  "bool \<Rightarrow> bool \<Rightarrow> nat \<Rightarrow> ('k, 'd) hashtable \<Rightarrow> ('k, 'd) hash_copy_func option \<Rightarrow>
   (int \<times> ('k, 'd) hashtable option) option" where
  "globus_hashtable_copy params_ok alloc_ok room src copy_func =
     (if \<not> params_ok then Some (GLOBUS_FAILURE, None)
      else do {
        (rc, dest) \<leftarrow> globus_hashtable_init True alloc_ok room (hx_size src) (hx_hash_func src) (hx_keyeq_func src);
        r \<leftarrow> copy_buckets_loop copy_func src [0..hx_size src - 1]
               \<lparr>cp_memory = hx_memory dest, cp_list = None, cp_dummy_next = None\<rparr>
               (dest\<lparr>hx_load := hx_load src\<rparr>);
        case r of
          Inl _ \<Rightarrow> Some (GLOBUS_FAILURE, None)
        | Inr (c, dest1) \<Rightarrow>
            (case cp_dummy_next c of
               None \<Rightarrow> Some (GLOBUS_SUCCESS, Some (dest1\<lparr>hx_memory := cp_memory c\<rparr>))
             | Some f \<Rightarrow> do {
                 m \<leftarrow> mem_upd (cp_memory c) f (set_prev None);
                 Some (GLOBUS_SUCCESS, Some (dest1\<lparr>hx_memory := m, hx_first := Some f\<rparr>)) }) })"

section \<open>What the loops build\<close>

text \<open>
  The pool of the new table after copies of the pairs \<open>ps\<close>: the entries have the addresses below
  \<open>length ps\<close>, each linked to its neighbours.
\<close>

definition copied_entry :: "('k \<times> 'd) list \<Rightarrow> nat \<Rightarrow> ('k, 'd) hentry" where
  "copied_entry ps a =
     \<lparr>hb_key = fst (ps ! a), hb_datum = snd (ps ! a), hb_prev = (if a = 0 then None else Some (a - 1)),
      hb_next = (if Suc a < length ps then Some (Suc a) else None)\<rparr>"

definition pool_copied :: "nat \<Rightarrow> ('k \<times> 'd) list \<Rightarrow> ('k, 'd) copying" where
  "pool_copied room ps =
     \<lparr>cp_memory = \<lparr>mem_cells = (\<lambda>a. if a < length ps then Some (copied_entry ps a) else None),
                   mem_brk = length ps, mem_room = room - length ps\<rparr>,
      cp_list = (if ps = [] then None else Some (length ps - 1)),
      cp_dummy_next = (if ps = [] then None else Some 0)\<rparr>"

text \<open>The pair that is stored for a source entry.\<close>

definition copy_pair :: "('k, 'd) hash_copy_func option \<Rightarrow> ('k, 'd) hentry \<Rightarrow> 'k \<times> 'd" where
  "copy_pair copy_func e =
     (case copy_func of Some f \<Rightarrow> f (hb_key e) (hb_datum e) | None \<Rightarrow> (hb_key e, hb_datum e))"

abbreviation pairs_at :: "('k, 'd) hash_copy_func option \<Rightarrow> ('k, 'd) hheap \<Rightarrow> addr list \<Rightarrow> ('k \<times> 'd) list" where
  "pairs_at copy_func h xs \<equiv> map (\<lambda>x. copy_pair copy_func (the (h x))) xs"

lemma copied_cells_snoc:
  assumes "ps \<noteq> []"
  shows "(\<lambda>a. if a < length ps then Some (copied_entry ps a) else None)
      (length ps \<mapsto> \<lparr>hb_key = fst p, hb_datum = snd p, hb_prev = Some (length ps - 1), hb_next = None\<rparr>,
       length ps - 1 \<mapsto> set_next (Some (length ps)) (copied_entry ps (length ps - 1)))
    = (\<lambda>a. if a < length (ps @ [p]) then Some (copied_entry (ps @ [p]) a) else None)"
proof
  fix a
  have n: "length ps \<noteq> 0" "length ps - 1 \<noteq> length ps" using assms by (cases ps; simp)+
  then consider "a < length ps - 1" | "a = length ps - 1" | "a = length ps" | "a > length ps" by linarith
  then show "((\<lambda>a. if a < length ps then Some (copied_entry ps a) else None)
      (length ps \<mapsto> \<lparr>hb_key = fst p, hb_datum = snd p, hb_prev = Some (length ps - 1), hb_next = None\<rparr>,
       length ps - 1 \<mapsto> set_next (Some (length ps)) (copied_entry ps (length ps - 1)))) a
    = (if a < length (ps @ [p]) then Some (copied_entry (ps @ [p]) a) else None)"
    using n by cases (auto simp: copied_entry_def nth_append)
qed

lemma copy_entry_step:
  assumes "length ps \<le> room"
  shows "copy_entry f e (pool_copied room ps) =
     Some (if length ps < room then Inr (length ps, pool_copied room (ps @ [copy_pair f e])) else Inl ())"
proof (cases "length ps < room")
  case False
  then show ?thesis
    by (auto simp: copy_entry_def pool_copied_def mem_alloc_def split: prod.splits)
next
  case True
  obtain k d where kd: "copy_pair f e = (k, d)" by fastforce
  show ?thesis
  proof (cases "ps = []")
    case True': True
    with True kd show ?thesis
      by (auto simp: copy_entry_def pool_copied_def mem_alloc_def copy_pair_def set_list_next_def copied_entry_def
          fun_eq_iff)
  next
    case False
    let ?l = "length ps - 1"
    have l: "?l < length ps" "?l \<noteq> length ps" using False by (cases ps; simp)+
    let ?m = "\<lparr>mem_cells = (\<lambda>a. if a < length ps then Some (copied_entry ps a) else None)
        (length ps \<mapsto> \<lparr>hb_key = k, hb_datum = d, hb_prev = Some ?l, hb_next = None\<rparr>),
      mem_brk = Suc (length ps), mem_room = room - Suc (length ps)\<rparr>"
    have "mem_upd ?m ?l (set_next (Some (length ps))) = Some (cp_memory (pool_copied room (ps @ [(k, d)])))"
      using l copied_cells_snoc [OF False, of "(k, d)"] by (simp add: pool_copied_def)
    then show ?thesis using True kd False
      by (simp add: copy_entry_def pool_copied_def mem_alloc_def copy_pair_def set_list_next_def)
  qed
qed

lemma copy_run_correct:
  assumes "dll (mem_cells m) p (xs @ [z]) n" and "distinct (xs @ [z])" and "p \<noteq> Some z"
    and "n = None \<or> (\<exists>a e. n = Some a \<and> mem_cells m a = Some e \<and> hb_prev e = Some z)"
    and "length ps \<le> room"
  shows "copy_run_loop f m (Some z) (start_of (xs @ [z]) None) (pool_copied room ps) =
    Some (if length ps + length xs < room
          then Inr (length ps + length xs, pool_copied room (ps @ pairs_at f (mem_cells m) (xs @ [z])))
          else Inl ())"
  using assms
proof (induction xs arbitrary: p ps)
  case Nil
  then obtain e where e: "mem_cells m z = Some e" "hb_next e = n" by auto
  then show ?case
    using Nil.prems(4,5) by (subst copy_run_loop.simps) (auto simp: copy_entry_step)
next
  case (Cons x xs)
  obtain e where e: "mem_cells m x = Some e" "hb_next e = start_of (xs @ [z]) n"
    using Cons.prems(1) by auto
  obtain y ys where ys: "xs @ [z] = y # ys" by (cases xs) auto
  have d: "dll (mem_cells m) (Some x) (y # ys) n" using Cons.prems(1) by (simp add: ys [symmetric])
  then obtain e1 where e1: "mem_cells m y = Some e1" "hb_prev e1 = Some x" by auto
  have xz: "x \<noteq> z" using Cons.prems(2) by auto
  show ?case
  proof (cases "length ps < room")
    case True
    have ih: "copy_run_loop f m (Some z) (Some y) (pool_copied room (ps @ [copy_pair f e])) =
      Some (if length (ps @ [copy_pair f e]) + length xs < room
          then Inr (length (ps @ [copy_pair f e]) + length xs,
            pool_copied room ((ps @ [copy_pair f e]) @ pairs_at f (mem_cells m) (xs @ [z])))
          else Inl ())"
      using Cons.IH [of "Some x" "ps @ [copy_pair f e]"] Cons.prems True xz ys d
      by simp
    show ?thesis
      by (subst copy_run_loop.simps) (use e e1 ys xz True ih Cons.prems(5) in \<open>auto simp: copy_entry_step\<close>)
  next
    case False
    then show ?thesis
      by (subst copy_run_loop.simps) (use e Cons.prems(5) in \<open>auto simp: copy_entry_step\<close>)
  qed
qed

text \<open>The runs of a table in the order of the buckets, and the runs of its copy.\<close>

definition runs_in :: "runs \<Rightarrow> int list \<Rightarrow> runs" where
  "runs_in gs is = concat (map (\<lambda>i. case map_of gs i of None \<Rightarrow> [] | Some ys \<Rightarrow> [(i, ys)]) is)"

fun placed :: "nat \<Rightarrow> runs \<Rightarrow> runs" where
  "placed n [] = []"
| "placed n ((i, ys) # gs) = (i, [n..<n + length ys]) # placed (n + length ys) gs"

lemma runs_in_simps [simp]:
  "runs_in gs [] = []"
  "runs_in gs (i # is) = (case map_of gs i of None \<Rightarrow> [] | Some ys \<Rightarrow> [(i, ys)]) @ runs_in gs is"
  by (simp_all add: runs_in_def)

lemma placed_chain: "chain_of (placed n gs) = [n..<n + length (chain_of gs)]"
proof (induction n gs rule: placed.induct)
  case (2 n i ys gs)
  then show ?case
    using upt_add_eq_append [of n "n + length ys" "length (chain_of gs)"] by (simp add: add.assoc)
qed simp

lemma placed_fst [simp]: "map fst (placed n gs) = map fst gs"
  by (induction n gs rule: placed.induct) auto

lemma placed_run:
  "(i, bs) \<in> set (placed k gs) \<Longrightarrow>
   \<exists>n ys. (i, ys) \<in> set gs \<and> bs = [k + n..<k + n + length ys] \<and>
     take (length ys) (drop n (chain_of gs)) = ys \<and> n + length ys \<le> length (chain_of gs)"
proof (induction k gs rule: placed.induct)
  case (2 k j zs gs)
  show ?case
  proof (cases "(i, bs) = (j, [k..<k + length zs])")
    case True
    then show ?thesis by (intro exI [of _ 0] exI [of _ zs]) auto
  next
    case False
    then obtain n ys where "(i, ys) \<in> set gs" "bs = [k + length zs + n..<k + length zs + n + length ys]"
        "take (length ys) (drop n (chain_of gs)) = ys" "n + length ys \<le> length (chain_of gs)"
      using 2 by auto
    then show ?thesis by (intro exI [of _ "length zs + n"] exI [of _ ys]) (auto simp: add.assoc)
  qed
qed simp

lemma runs_in_fst: "set (map fst (runs_in gs is)) \<subseteq> set is"
  by (induction "is") (auto split: option.splits)

lemma runs_in_distinct: "distinct is \<Longrightarrow> distinct (map fst (runs_in gs is))"
proof (induction "is")
  case (Cons i "is")
  then show ?case using runs_in_fst [of gs "is"] by (auto split: option.splits)
qed simp

definition placed_buckets :: "(int \<rightharpoonup> hbucket) \<Rightarrow> runs \<Rightarrow> int \<rightharpoonup> hbucket" where
  "placed_buckets b gs =
     (\<lambda>i. case map_of gs i of
        None \<Rightarrow> b i | Some ys \<Rightarrow> Some \<lparr>hk_first = Some (hd ys), hk_last = Some (last ys)\<rparr>)"

context hash_contract
begin

lemma run_of_bucket:
  assumes inv: "table_inv t gs" and "map_of gs i = Some ys"
  shows "\<exists>p n xs z. ys = xs @ [z] \<and> dll (mem_cells (hx_memory t)) p ys n \<and> distinct ys \<and> p \<noteq> Some z \<and>
    (n = None \<or> (\<exists>a e. n = Some a \<and> mem_cells (hx_memory t) a = Some e \<and> hb_prev e = Some z))"
proof -
  have ok: "runs_ok hash (hx_size t) (mem_cells (hx_memory t)) gs"
    using inv by (auto simp: table_inv_def hash_inv_def)
  obtain g1 g2 where g: "gs = g1 @ (i, ys) # g2" using run_split [OF ok assms(2)] by blast
  have "ys \<noteq> []" using ok g by (auto simp: runs_ok_def)
  then obtain xs z where ys: "ys = xs @ [z]" by (cases ys rule: rev_cases) auto
  have d: "dll (mem_cells (hx_memory t)) (end_of None (chain_of g1)) ys (start_of (chain_of g2) None)"
    "dll (mem_cells (hx_memory t)) (Some z) (chain_of g2) None"
    "distinct (chain_of g1 @ ys @ chain_of g2)"
    using ok g ys by (simp_all add: runs_ok_def)
  have "end_of None (chain_of g1) \<noteq> Some z" using d(3) ys end_of_in by fastforce
  moreover have "start_of (chain_of g2) None = None \<or> (\<exists>a e. start_of (chain_of g2) None = Some a \<and>
      mem_cells (hx_memory t) a = Some e \<and> hb_prev e = Some z)"
    using d(2) by (cases "chain_of g2") (auto simp del: concat_eq_Nil_conv Nil_eq_concat_conv)
  ultimately show ?thesis using d ys by auto
qed

lemma copy_buckets_correct:
  assumes inv: "table_inv t gs" and "set is \<subseteq> {0..<hx_size t}" and "distinct is" and "length ps \<le> room"
  defines "sgs \<equiv> runs_in gs is"
  shows "copy_buckets_loop f t is (pool_copied room ps) dest =
    Some (if length ps + length (chain_of sgs) \<le> room
          then Inr (pool_copied room (ps @ pairs_at f (mem_cells (hx_memory t)) (chain_of sgs)),
            dest\<lparr>hx_buckets := placed_buckets (hx_buckets dest) (placed (length ps) sgs),
                 hx_last := (if chain_of sgs = [] then hx_last dest
                             else Some (length ps + length (chain_of sgs) - 1))\<rparr>)
          else Inl ())"
  using assms(2-4) unfolding sgs_def
proof (induction "is" arbitrary: ps dest)
  case Nil
  then show ?case by (simp add: placed_buckets_def)
next
  case (Cons i "is")
  let ?h = "mem_cells (hx_memory t)"
  have b: "hx_buckets t i = Some (bucket_of gs i)"
    using inv Cons.prems by (auto simp: table_inv_def hash_inv_def)
  have ni: "map_of (placed k (runs_in gs is)) i = None" for k
  proof -
    have "fst ` set (placed k (runs_in gs is)) = set (map fst (runs_in gs is))"
      by (simp only: set_map [symmetric] placed_fst)
    then show ?thesis using Cons.prems(2) runs_in_fst [of gs "is"] by (auto simp: map_of_eq_None_iff)
  qed
  show ?case
  proof (cases "map_of gs i")
    case None
    then show ?thesis using Cons b by (simp add: bucket_of_def)
  next
    case (Some ys)
    obtain p n xs z where r: "ys = xs @ [z]" "dll ?h p (xs @ [z]) n" "distinct (xs @ [z])" "p \<noteq> Some z"
        "n = None \<or> (\<exists>a e. n = Some a \<and> ?h a = Some e \<and> hb_prev e = Some z)"
      using run_of_bucket [OF inv Some] by auto
    have run: "copy_run_loop f (hx_memory t) (Some z) (Some (hd ys)) (pool_copied room ps) =
      Some (if length ps + length xs < room
          then Inr (length ps + length xs, pool_copied room (ps @ pairs_at f ?h ys)) else Inl ())"
      using copy_run_correct [OF r(2-5) Cons.prems(3)] r(1) by (cases xs) simp_all
    have bk: "bucket_of gs i = \<lparr>hk_first = Some (hd ys), hk_last = Some z\<rparr>"
      using Some r(1) by (simp add: bucket_of_def)
    show ?thesis
    proof (cases "length ps + length xs < room")
      case False
      then show ?thesis using b bk run Some r(1) by simp
    next
      case True
      let ?c = "pool_copied room (ps @ pairs_at f ?h ys)"
      have first: "list_next ?c (cp_list (pool_copied room ps)) = Some (Some (length ps))"
        using r(1) by (cases "ps = []") (auto simp: list_next_def pool_copied_def copied_entry_def)
      have dest: "placed_buckets ((hx_buckets dest)
            (i \<mapsto> \<lparr>hk_first = Some (length ps), hk_last = Some (length ps + length xs)\<rparr>))
            (placed (length ps + length ys) (runs_in gs is))
          = placed_buckets (hx_buckets dest) (placed (length ps) ((i, ys) # runs_in gs is))"
        using ni r(1) by (auto simp: placed_buckets_def fun_eq_iff upt_conv_Cons hd_append split: option.splits)
      show ?thesis
        using b bk run True first dest Some r(1)
          Cons.IH [of "ps @ pairs_at f ?h ys" "dest\<lparr>hx_buckets := (hx_buckets dest)
            (i \<mapsto> \<lparr>hk_first = Some (length ps), hk_last = Some (length ps + length xs)\<rparr>),
            hx_last := Some (length ps + length xs)\<rparr>"] Cons.prems
        by (simp add: add.assoc)
    qed
  qed
qed

text \<open>The copy has the same runs in another order; its first entry has no predecessor already.\<close>

lemma runs_in_all:
  assumes "table_inv t gs"
  shows "set (runs_in gs [0..hx_size t - 1]) = set gs"
proof -
  have gs: "distinct (map fst gs)" "\<forall>(i, ys) \<in> set gs. 0 \<le> i \<and> i < hx_size t"
    using assms hash_range by (fastforce simp: table_inv_def hash_inv_def runs_ok_def neq_Nil_conv)+
  have "set (runs_in gs is) = {(i, ys) \<in> set gs. i \<in> set is}" for "is"
    by (induction "is") (use gs(1) in \<open>auto split: option.splits simp: map_of_eq_None_iff
        intro: map_of_SomeD dest: map_of_is_SomeI\<close>)
  with gs(2) show ?thesis by auto
qed

end

lemma find_lone:
  assumes "set xs = set ys" and "\<And>x y. x \<in> set xs \<Longrightarrow> y \<in> set xs \<Longrightarrow> P x \<Longrightarrow> P y \<Longrightarrow> x = y"
  shows "find P xs = find P ys"
proof (cases "find P ys")
  case None
  then have "find P xs = None" using assms(1) by (auto simp: find_None_iff)
  with None show ?thesis by simp
next
  case (Some y)
  then have y: "y \<in> set xs" "P y" using find_in_set assms(1) by fastforce+
  then obtain x where x: "find P xs = Some x" by (cases "find P xs") (auto simp: find_None_iff)
  with y assms(2) find_in_set [OF x] Some show ?thesis by auto
qed

lemma find_map: "find P (map f xs) = map_option f (find (\<lambda>x. P (f x)) xs)"
  by (induction xs) auto

lemma find_upt: "map_option ((!) xs) (find (\<lambda>a. P (xs ! a)) [0..<length xs]) = find P xs"
  using find_map [of P "(!) xs" "[0..<length xs]"] by (simp add: map_nth)

lemma dll_copied:
  "n \<le> length ps \<Longrightarrow> dll (mem_cells (cp_memory (pool_copied room ps))) None [0..<n]
     (if n < length ps then Some n else None)"
  by (induction n) (auto simp: pool_copied_def copied_entry_def end_of_def)

context hash_contract
begin

text \<open>The source in bucket order, and the table on the copied entries.\<close>

lemma runs_in_chain:
  assumes inv: "table_inv t gs"
  defines "xs \<equiv> chain_of (runs_in gs [0..hx_size t - 1])"
  shows "set xs = set (chain_of gs)" and "distinct xs" and "length xs = length (chain_of gs)"
proof -
  let ?sgs = "runs_in gs [0..hx_size t - 1]"
  have gs: "distinct (map fst gs)" "distinct (chain_of gs)"
    using inv by (auto simp: table_inv_def hash_inv_def runs_ok_def)
  have "distinct (map fst ?sgs)" by (rule runs_in_distinct) simp
  then have "mset ?sgs = mset gs"
    using runs_in_all [OF inv] gs(1) by (simp add: set_eq_iff_mset_eq_distinct distinct_map)
  then have m: "mset xs = mset (chain_of gs)"
    unfolding xs_def mset_concat sum_mset_sum_list [symmetric] mset_map by simp
  show "set xs = set (chain_of gs)" using m by (rule mset_eq_setD)
  show "distinct xs" using mset_eq_imp_distinct_iff [OF m] gs(2) by simp
  show "length xs = length (chain_of gs)" using m by (rule mset_eq_length)
qed

lemma copied_table:
  assumes inv: "table_inv t gs" and f: "\<forall>g k d. f = Some g \<longrightarrow> keyeq (fst (g k d)) k"
  defines "h \<equiv> mem_cells (hx_memory t)" and "sgs \<equiv> runs_in gs [0..hx_size t - 1]"
  defines "ps \<equiv> pairs_at f h (chain_of sgs)"
  assumes t': "hx_memory t' = cp_memory (pool_copied room ps)" "hx_size t' = hx_size t" "hx_load t' = hx_load t"
    "hx_hash_func t' = hash" "hx_keyeq_func t' = keyeq" "hx_current t' = None"
    "hx_first t' = (if ps = [] then None else Some 0)"
    "hx_last t' = (if ps = [] then None else Some (length ps - 1))"
    "hx_buckets t' = (\<lambda>i. if 0 \<le> i \<and> i < hx_size t then Some (bucket_of (placed 0 sgs) i) else None)"
  shows "table_inv t' (placed 0 sgs)"
    and "contents t' (placed 0 sgs) k = map_option (\<lambda>x. snd (copy_pair f (the (h x)))) (entry_for t gs k)"
proof -
  let ?h' = "mem_cells (hx_memory t')" and ?xs = "chain_of sgs"
  have t: "hx_keyeq_func t = keyeq" "0 < hx_size t" "hx_size t < 2 ^ 31"
    "hx_load t = int (length (chain_of gs))" "runs_ok hash (hx_size t) h gs" "keys_apart keyeq h (chain_of gs)"
    using inv by (auto simp: table_inv_def hash_inv_def h_def)
  note xs = runs_in_chain [OF inv, folded sgs_def]
  have len: "length ps = length ?xs" by (simp add: ps_def)
  have chain: "chain_of (placed 0 sgs) = [0..<length ps]" using placed_chain [of 0 sgs] len by simp
  have at: "?h' a = Some (copied_entry ps a)" if "a < length ps" for a
    using that by (simp add: t'(1) pool_copied_def)
  have key: "keyeq (key_at ?h' a) (key_at h (?xs ! a))" "keyeq (key_at h (?xs ! a)) (key_at ?h' a)"
    if "a < length ps" for a
  proof -
    show "keyeq (key_at ?h' a) (key_at h (?xs ! a))"
      using that len f keyeq_refl
      by (auto simp: at key_at_def copied_entry_def ps_def copy_pair_def split: option.splits)
    then show "keyeq (key_at h (?xs ! a)) (key_at ?h' a)" by (rule keyeq_sym)
  qed
  have inside: "?xs ! a \<in> set (chain_of gs)" if "a < length ps" for a
    using nth_mem [of a ?xs] that unfolding len xs(1) .
  have apart: "keys_apart keyeq ?h' [0..<length ps]"
    unfolding keys_apart_def
  proof (intro ballI impI)
    fix a b
    assume ab: "a \<in> set [0..<length ps]" "b \<in> set [0..<length ps]" "a \<noteq> b"
    then have "?xs ! a \<noteq> ?xs ! b" using xs(2) len by (simp add: nth_eq_iff_index_eq)
    moreover have "?xs ! a \<in> set (chain_of gs)" "?xs ! b \<in> set (chain_of gs)"
      by (rule inside; use ab in simp)+
    ultimately have "\<not> keyeq (key_at h (?xs ! a)) (key_at h (?xs ! b))"
      using t(6) [unfolded keys_apart_def, THEN bspec, THEN bspec] by blast
    then show "\<not> keyeq (key_at ?h' a) (key_at ?h' b)"
      using keyeq_trans [OF keyeq_trans [OF key(2) [of a]] key(1) [of b]] ab by auto
  qed
  have runs: "runs_ok hash (hx_size t) ?h' (placed 0 sgs)"
  proof -
    have "distinct (map fst sgs)" unfolding sgs_def by (rule runs_in_distinct) simp
    moreover have "dll ?h' None [0..<length ps] None"
      using dll_copied [of "length ps" ps room] by (simp add: t'(1))
    moreover have "bs \<noteq> [] \<and> (\<forall>a \<in> set bs. hash (key_at ?h' a) (hx_size t) = i)"
      if run: "(i, bs) \<in> set (placed 0 sgs)" for i bs
    proof -
      obtain n ys where n: "(i, ys) \<in> set sgs" "bs = [n..<n + length ys]" "take (length ys) (drop n ?xs) = ys"
          "n + length ys \<le> length ?xs"
        using placed_run [OF run] by auto
      have "(i, ys) \<in> set gs" using n(1) runs_in_all [OF inv] by (simp add: sgs_def)
      then have ys: "ys \<noteq> []" "\<And>y. y \<in> set ys \<Longrightarrow> hash (key_at h y) (hx_size t) = i"
        using t(5) unfolding runs_ok_def by blast+
      have "hash (key_at ?h' a) (hx_size t) = i" if "a \<in> set bs" for a
      proof -
        have a: "n \<le> a" "a < n + length ys" using that n(2) by auto
        then have "ys ! (a - n) = ?xs ! a" using n(3,4) nth_take [of "a - n" "length ys" "drop n ?xs"] by simp
        moreover have "ys ! (a - n) \<in> set ys" using a by (intro nth_mem) simp
        ultimately have "hash (key_at h (?xs ! a)) (hx_size t) = i" using ys(2) by metis
        then show ?thesis using hash_cong [OF key(1) [of a]] a n(4) len by simp
      qed
      with ys(1) n(2) show ?thesis by simp
    qed
    ultimately show ?thesis unfolding runs_ok_def chain by auto
  qed
  have "mem_ok (hx_memory t')" by (auto simp: t'(1) mem_ok_def pool_copied_def)
  moreover have "hx_first t' = start_of [0..<length ps] None" "hx_last t' = end_of None [0..<length ps]"
    by (simp_all add: t'(7,8) start_of_def end_of_def)
  moreover have "hx_load t' = int (length [0..<length ps])" using t(4) t'(3) len xs(3) by simp
  ultimately show "table_inv t' (placed 0 sgs)"
    unfolding table_inv_def hash_inv_def chain using runs apart t(2,3) t'(2,4,5,6,9) by simp
  show "contents t' (placed 0 sgs) k = map_option (\<lambda>x. snd (copy_pair f (the (h x)))) (entry_for t gs k)"
  proof -
    let ?P = "\<lambda>x. keyeq (key_at h x) k"
    have "?P (?xs ! a) = keyeq (key_at ?h' a) k" if "a < length ps" for a
      using keyeq_trans [OF key(1) [OF that]] keyeq_trans [OF key(2) [OF that]] by blast
    then have f: "find (\<lambda>a. keyeq (key_at ?h' a) k) [0..<length ps] = find (\<lambda>a. ?P (?xs ! a)) [0..<length ?xs]"
      unfolding len [symmetric] by (intro find_cong) simp_all
    have "x = y" if "x \<in> set ?xs" "y \<in> set ?xs" "?P x" "?P y" for x y
      using t(6) [unfolded keys_apart_def, THEN bspec, THEN bspec] that(1,2)
        keyeq_trans [OF that(3) keyeq_sym [OF that(4)]] unfolding xs(1) by blast
    then have g: "find ?P ?xs = find ?P (chain_of gs)" by (rule find_lone [OF xs(1)])
    have d: "datum_at ?h' a = snd (copy_pair f (the (h (?xs ! a))))" if "a < length ps" for a
      using that len by (simp add: datum_at_def at copied_entry_def ps_def)
    show ?thesis
    proof (cases "find (\<lambda>a. ?P (?xs ! a)) [0..<length ?xs]")
      case None
      then have "find ?P ?xs = None" using find_upt [of ?xs ?P] by simp
      with None show ?thesis
        unfolding contents_def entry_for_def t'(5) chain f t(1) h_def [symmetric] g [symmetric] by simp
    next
      case (Some a)
      then have "find ?P ?xs = Some (?xs ! a)" "a < length ps"
        using find_upt [of ?xs ?P] find_in_set [OF Some] len by simp_all
      with Some show ?thesis
        unfolding contents_def entry_for_def t'(5) chain f t(1) h_def [symmetric] g [symmetric] by (simp add: d)
    qed
  qed
qed

lemma copy_from_loop:
  assumes "0 < hx_size t"
    and "copy_buckets_loop f t [0..hx_size t - 1] (pool_copied room [])
      \<lparr>hx_size = hx_size t, hx_load = hx_load t,
       hx_buckets = (\<lambda>i. if 0 \<le> i \<and> i < hx_size t then Some \<lparr>hk_first = None, hk_last = None\<rparr> else None),
       hx_first = None, hx_last = None, hx_current = None, hx_hash_func = hx_hash_func t,
       hx_keyeq_func = hx_keyeq_func t, hx_memory = mem_empty room\<rparr>
      = Some (if length ps \<le> room then Inr (pool_copied room ps, d) else Inl ())"
    and "hx_first d = None"
  shows "globus_hashtable_copy True True room t f = Some (if length ps \<le> room
    then (GLOBUS_SUCCESS, Some (d\<lparr>hx_memory := cp_memory (pool_copied room ps),
      hx_first := (if ps = [] then None else Some 0)\<rparr>))
    else (GLOBUS_FAILURE, None))"
proof -
  have c0: "\<lparr>cp_memory = mem_empty room, cp_list = None, cp_dummy_next = None\<rparr> = pool_copied room []"
    by (simp add: pool_copied_def mem_empty_def)
  have "mem_upd (cp_memory (pool_copied room ps)) 0 (set_prev None) = Some (cp_memory (pool_copied room ps))" if "ps \<noteq> []"
    using that by (auto simp: pool_copied_def copied_entry_def fun_eq_iff)
  moreover have "cp_dummy_next (pool_copied room ps) = (if ps = [] then None else Some 0)" by (simp add: pool_copied_def)
  moreover have "d\<lparr>hx_memory := m, hx_first := None\<rparr> = d\<lparr>hx_memory := m\<rparr>" for m using assms(3) by simp
  ultimately show ?thesis
    using assms(1,2) by (auto simp: globus_hashtable_copy_def globus_hashtable_init_def c0)
qed

lemma buckets_of_placed:
  assumes "\<forall>i \<in> fst ` set gs. 0 \<le> i \<and> i < n"
  shows "placed_buckets (\<lambda>i. if 0 \<le> i \<and> i < n then Some \<lparr>hk_first = None, hk_last = None\<rparr> else None) gs
    = (\<lambda>i. if 0 \<le> i \<and> i < n then Some (bucket_of gs i) else None)"
proof
  fix i
  have "0 \<le> i \<and> i < n" if "map_of gs i = Some ys" for ys
    using assms map_of_SomeD [OF that] by force
  then show "placed_buckets (\<lambda>i. if 0 \<le> i \<and> i < n then Some \<lparr>hk_first = None, hk_last = None\<rparr> else None) gs i
    = (if 0 \<le> i \<and> i < n then Some (bucket_of gs i) else None)"
    by (auto simp: placed_buckets_def bucket_of_def split: option.splits)
qed

lemma table_copy_correct:
  fixes room :: nat
  assumes inv: "table_inv t gs" and f: "\<forall>g k d. f = Some g \<longrightarrow> keyeq (fst (g k d)) k"
  shows "if hx_load t \<le> int room
     then \<exists>t' gs'. globus_hashtable_copy True True room t f = Some (GLOBUS_SUCCESS, Some t') \<and>
       table_inv t' gs' \<and> hx_size t' = hx_size t \<and> hx_load t' = hx_load t \<and>
       (\<forall>k. contents t' gs' k =
         map_option (\<lambda>x. snd (copy_pair f (the (mem_cells (hx_memory t) x)))) (entry_for t gs k))
     else globus_hashtable_copy True True room t f = Some (GLOBUS_FAILURE, None)"
proof -
  define sgs where "sgs = runs_in gs [0..hx_size t - 1]"
  define ps where "ps = pairs_at f (mem_cells (hx_memory t)) (chain_of sgs)"
  let ?b = "\<lambda>i. if 0 \<le> i \<and> i < hx_size t then Some \<lparr>hk_first = None, hk_last = None\<rparr> else None"
  let ?d = "\<lparr>hx_size = hx_size t, hx_load = hx_load t, hx_buckets = ?b, hx_first = None, hx_last = None,
    hx_current = None, hx_hash_func = hx_hash_func t, hx_keyeq_func = hx_keyeq_func t, hx_memory = mem_empty room\<rparr>"
  let ?d' = "?d\<lparr>hx_buckets := placed_buckets ?b (placed 0 sgs),
    hx_last := (if ps = [] then None else Some (length ps - 1))\<rparr>"
  have t: "hx_hash_func t = hash" "hx_keyeq_func t = keyeq" "0 < hx_size t"
      "hx_load t = int (length (chain_of gs))"
    using inv by (auto simp: table_inv_def hash_inv_def)
  have len: "length ps = length (chain_of gs)"
    using runs_in_chain(3) [OF inv] by (simp add: ps_def sgs_def)
  have range: "set [0..hx_size t - 1] \<subseteq> {0..<hx_size t}" "distinct [0..hx_size t - 1]" "length [] \<le> room" by auto
  have "copy_buckets_loop f t [0..hx_size t - 1] (pool_copied room []) ?d
      = Some (if length ps \<le> room then Inr (pool_copied room ps, ?d') else Inl ())"
    using copy_buckets_correct [OF inv range, of f ?d, folded sgs_def] by (simp add: ps_def)
  from copy_from_loop [OF t(3) this] have run: "globus_hashtable_copy True True room t f = Some (if length ps \<le> room
    then (GLOBUS_SUCCESS, Some (?d'\<lparr>hx_memory := cp_memory (pool_copied room ps),
      hx_first := (if ps = [] then None else Some 0)\<rparr>))
    else (GLOBUS_FAILURE, None))" by simp
  have "fst ` set (placed 0 sgs) = fst ` set sgs" using placed_fst [of 0 sgs] by (metis set_map)
  then have "\<forall>i \<in> fst ` set (placed 0 sgs). 0 \<le> i \<and> i < hx_size t"
    using runs_in_fst [of gs "[0..hx_size t - 1]"] by (auto simp: sgs_def)
  note bk = buckets_of_placed [OF this]
  show ?thesis
  proof (cases "length ps \<le> room")
    case False
    then show ?thesis using run len t(4) by simp
  next
    case True
    let ?t = "?d'\<lparr>hx_memory := cp_memory (pool_copied room ps), hx_first := (if ps = [] then None else Some 0)\<rparr>"
    have "table_inv ?t (placed 0 sgs)"
      unfolding sgs_def
      by (rule copied_table(1) [OF inv f, where room = room]; (unfold sgs_def [symmetric] ps_def [symmetric])?)
        (simp_all add: t bk)
    moreover have "contents ?t (placed 0 sgs) k =
        map_option (\<lambda>x. snd (copy_pair f (the (mem_cells (hx_memory t) x)))) (entry_for t gs k)" for k
      unfolding sgs_def
      by (rule copied_table(2) [OF inv f, where room = room]; (unfold sgs_def [symmetric] ps_def [symmetric])?)
        (simp_all add: t bk)
    ultimately show ?thesis using run True len t(4) by auto
  qed
qed

end

text \<open>
  Copying with the toolkit's keys. The copy of a well-formed table is a well-formed table of the same
  size in which every key has the copied datum; \<open>copy_func\<close> must keep the keys equal. It fails exactly
  when the pool of the new table has no room for the entries, and then leaves no table behind.
\<close>

theorem globus_hashtable_copy_contents:
  assumes "ulong_table.table_inv t gs" and "\<forall>k d. fst (g k d) = k"
  shows "if hx_load t \<le> int room
     then \<exists>t' gs'. globus_hashtable_copy True True room t (Some g) = Some (GLOBUS_SUCCESS, Some t') \<and>
       ulong_table.table_inv t' gs' \<and> hx_load t' = hx_load t \<and>
       (\<forall>k. contents t' gs' k = map_option (\<lambda>d. snd (g k d)) (contents t gs k))
     else globus_hashtable_copy True True room t (Some g) = Some (GLOBUS_FAILURE, None)"
proof -
  have keep: "\<forall>g' k d. Some g = Some g' \<longrightarrow> globus_hashtable_ulong_keyeq (fst (g' k d)) k"
    using assms(2) by (simp add: globus_hashtable_ulong_keyeq_def)
  have "snd (copy_pair (Some g) (the (mem_cells (hx_memory t) x))) = snd (g k (datum_at (mem_cells (hx_memory t)) x))"
    if "entry_for t gs k = Some x" for k x
    using ulong_table.entry_alive [OF assms(1) that]
    by (auto simp: copy_pair_def key_at_def datum_at_def globus_hashtable_ulong_keyeq_def)
  then have eq: "map_option (\<lambda>x. snd (copy_pair (Some g) (the (mem_cells (hx_memory t) x)))) (entry_for t gs k)
      = map_option (\<lambda>d. snd (g k d)) (contents t gs k)" for k
    by (cases "entry_for t gs k") (simp_all add: contents_def)
  show ?thesis using ulong_table.table_copy_correct [OF assms(1) keep, of room] unfolding eq
    by (auto split: if_splits)
qed

end
