(* ===== verification/Globus_Symboltable.thy ===== *)
theory Globus_Symboltable
  imports Globus_List Globus_Hashtable
begin

text \<open>
  The symbol table of \<open>common/source/library/globus_symboltable.c\<close>: a list of scopes, each of them a
  hash table on the heap. The list is the linked list of \<open>Globus_List\<close>, whose data are pointers to
  the tables; the tables are those of \<open>Globus_Hashtable\<close>, so every operation is composed of the
  operations of the two components. The abstract specification is a stack of finite maps. The theorem
  shows that any sequence of operations, memory permitting, does to the concrete table what the
  specification does to the stack; an inner binding hides an outer one until its scope is removed.
\<close>

section \<open>State and operations\<close>

record ('k, 'd) symboltable =
  sy_scopes :: "addr option"
  sy_hash_func :: "'k \<Rightarrow> int \<Rightarrow> int"
  sy_keyeq_func :: "'k \<Rightarrow> 'k \<Rightarrow> bool"
  sy_lists :: "addr lmem"
  sy_tables :: "('k, 'd) hashtable mem"

text \<open>The loop of \<open>globus_symboltable_lookup\<close>.\<close>

partial_function (option) symboltable_lookup_loop ::
  "addr lmem \<Rightarrow> ('k, 'd) hashtable mem \<Rightarrow> 'k \<Rightarrow> addr option \<Rightarrow> 'd option option" where
  "symboltable_lookup_loop lmem tables symbol scope_iter =
     (if globus_list_empty scope_iter then Some None
      else do {
        p \<leftarrow> globus_list_first lmem scope_iter;
        t \<leftarrow> mem_get tables p;
        datum \<leftarrow> globus_hashtable_lookup t symbol;
        if datum \<noteq> None then Some datum
        else do {
          rest \<leftarrow> globus_list_rest lmem scope_iter;
          symboltable_lookup_loop lmem tables symbol rest } })"

definition globus_symboltable_lookup :: "('k, 'd) symboltable \<Rightarrow> 'k \<Rightarrow> 'd option option" where
  "globus_symboltable_lookup s symbol =
     symboltable_lookup_loop (sy_lists s) (sy_tables s) symbol (sy_scopes s)"

definition globus_symboltable_insert ::
  "('k, 'd) symboltable \<Rightarrow> 'k \<Rightarrow> 'd option \<Rightarrow> (int \<times> ('k, 'd) symboltable) option" where
  "globus_symboltable_insert s symbol datum =
     (if globus_list_empty (sy_scopes s) then Some (1, s)
      else do {
        p \<leftarrow> globus_list_first (sy_lists s) (sy_scopes s);
        a \<leftarrow> p;
        t \<leftarrow> mem_get (sy_tables s) (Some a);
        (rc, t1) \<leftarrow> globus_hashtable_insert t symbol datum;
        m \<leftarrow> mem_set (sy_tables s) a t1;
        Some (rc, s\<lparr>sy_tables := m\<rparr>) })"

definition globus_symboltable_remove ::
  "('k, 'd) symboltable \<Rightarrow> 'k \<Rightarrow> ('d option \<times> ('k, 'd) symboltable) option" where
  "globus_symboltable_remove s symbol =
     (if globus_list_empty (sy_scopes s) then Some (None, s)
      else do {
        p \<leftarrow> globus_list_first (sy_lists s) (sy_scopes s);
        a \<leftarrow> p;
        t \<leftarrow> mem_get (sy_tables s) (Some a);
        (datum, t1) \<leftarrow> globus_hashtable_remove t symbol;
        m \<leftarrow> mem_set (sy_tables s) a t1;
        Some (datum, s\<lparr>sy_tables := m\<rparr>) })"

text \<open>
  \<open>globus_symboltable_create_scope\<close>: \<open>active\<close> and \<open>alloc_ok\<close> as for the list and the hash table, \<open>room\<close>
  the capacity of the new table's entry pool. A failure of any of the three steps is an assertion.
\<close>

definition globus_symboltable_create_scope ::
  "bool \<Rightarrow> bool \<Rightarrow> nat \<Rightarrow> ('k, 'd) symboltable \<Rightarrow> (int \<times> ('k, 'd) symboltable) option" where
  "globus_symboltable_create_scope active alloc_ok room s =
     do {
       (err, t) \<leftarrow> globus_hashtable_init True alloc_ok room 16 (sy_hash_func s) (sy_keyeq_func s);
       (new_scope, tables) \<leftarrow> mem_alloc (sy_tables s) t;
       if err \<noteq> 0 then None
       else do {
         (scopes, lmem) \<leftarrow> globus_list_insert active (sy_lists s) (sy_scopes s) (Some new_scope);
         Some (0, s\<lparr>sy_scopes := scopes, sy_lists := lmem, sy_tables := tables\<rparr>) } }"

text \<open>Taking the first scope off the list, destroying its table and freeing it.\<close>

definition drop_first_scope :: "('k, 'd) symboltable \<Rightarrow> ('k, 'd) symboltable option" where
  "drop_first_scope s =
     do {
       p \<leftarrow> globus_list_first (sy_lists s) (sy_scopes s);
       node \<leftarrow> sy_scopes s;
       (_, scopes, lmem) \<leftarrow> globus_list_remove (sy_lists s) (sy_scopes s) node;
       old_scope \<leftarrow> p;
       t \<leftarrow> mem_get (sy_tables s) (Some old_scope);
       (err, _) \<leftarrow> globus_hashtable_destroy t;
       if err \<noteq> 0 then None
       else do {
         tables \<leftarrow> mem_free (sy_tables s) old_scope;
         Some (s\<lparr>sy_scopes := scopes, sy_lists := lmem, sy_tables := tables\<rparr>) } }"

definition globus_symboltable_remove_scope ::
  "('k, 'd) symboltable \<Rightarrow> (int \<times> ('k, 'd) symboltable) option" where
  "globus_symboltable_remove_scope s =
     (if globus_list_empty (sy_scopes s) then Some (1, s)
      else do { s1 \<leftarrow> drop_first_scope s; Some (0, s1) })"

text \<open>\<open>globus_symboltable_init\<close> does not test the result of its allocation before writing through it.\<close>

definition globus_symboltable_init ::
  "bool \<Rightarrow> bool \<Rightarrow> addr lmem \<Rightarrow> ('k, 'd) hashtable mem \<Rightarrow> ('k \<Rightarrow> int \<Rightarrow> int) \<Rightarrow> ('k \<Rightarrow> 'k \<Rightarrow> bool) \<Rightarrow>
   (int \<times> ('k, 'd) symboltable option) option" where
  "globus_symboltable_init table_null alloc_ok lmem tables hash_func keyeq_func =
     (if table_null then Some (1, None)
      else if \<not> alloc_ok then None
      else Some (0, Some \<lparr>sy_scopes = None, sy_hash_func = hash_func, sy_keyeq_func = keyeq_func,
             sy_lists = lmem, sy_tables = tables\<rparr>))"

text \<open>\<open>globus_symboltable_destroy\<close>: what is left of the two heaps.\<close>

partial_function (option) symboltable_destroy_loop ::
  "('k, 'd) symboltable \<Rightarrow> ('k, 'd) symboltable option" where
  "symboltable_destroy_loop s =
     (if globus_list_empty (sy_scopes s) then Some s
      else do { s1 \<leftarrow> drop_first_scope s; symboltable_destroy_loop s1 })"

definition globus_symboltable_destroy ::
  "('k, 'd) symboltable \<Rightarrow> (int \<times> addr lmem \<times> ('k, 'd) hashtable mem) option" where
  "globus_symboltable_destroy s =
     do { s1 \<leftarrow> symboltable_destroy_loop s; Some (0, sy_lists s1, sy_tables s1) }"

declare symboltable_lookup_loop.simps [code] symboltable_destroy_loop.simps [code]

section \<open>Specification: a stack of maps\<close>

datatype ('k, 'd) sym_op = Create_scope | Remove_scope | Insert 'k 'd | Remove 'k | Lookup 'k

datatype 'd sym_result = Code int | Datum "'d option"

fun scope_lookup :: "('k \<Rightarrow> 'd option) list \<Rightarrow> 'k \<Rightarrow> 'd option" where
  "scope_lookup [] k = None"
| "scope_lookup (m # ms) k = (if m k \<noteq> None then m k else scope_lookup ms k)"

fun scope_apply ::
  "('k \<Rightarrow> 'k \<Rightarrow> bool) \<Rightarrow> ('k, 'd) sym_op \<Rightarrow> ('k \<Rightarrow> 'd option) list \<Rightarrow> 'd sym_result \<times> ('k \<Rightarrow> 'd option) list" where
  "scope_apply eq Create_scope ms = (Code 0, (\<lambda>_. None) # ms)"
| "scope_apply eq Remove_scope [] = (Code 1, [])"
| "scope_apply eq Remove_scope (m # ms) = (Code 0, ms)"
| "scope_apply eq (Insert k d) [] = (Code 1, [])"
| "scope_apply eq (Insert k d) (m # ms) =
     (if m k \<noteq> None then (Code GLOBUS_FAILURE, m # ms)
      else (Code GLOBUS_SUCCESS, (\<lambda>j. if eq k j then Some d else m j) # ms))"
| "scope_apply eq (Remove k) [] = (Datum None, [])"
| "scope_apply eq (Remove k) (m # ms) = (Datum (m k), (\<lambda>j. if eq k j then None else m j) # ms)"
| "scope_apply eq (Lookup k) ms = (Datum (scope_lookup ms k), ms)"

fun scope_run ::
  "('k \<Rightarrow> 'k \<Rightarrow> bool) \<Rightarrow> ('k, 'd) sym_op list \<Rightarrow> ('k \<Rightarrow> 'd option) list \<Rightarrow> 'd sym_result list \<times> ('k \<Rightarrow> 'd option) list" where
  "scope_run eq [] ms = ([], ms)"
| "scope_run eq (op # ops) ms =
     (case scope_apply eq op ms of (r, ms1) \<Rightarrow> case scope_run eq ops ms1 of (rs, ms2) \<Rightarrow> (r # rs, ms2))"

text \<open>The same operations on the concrete table; \<open>room\<close> is the capacity of a new table's pool.\<close>

fun sym_apply ::
  "nat \<Rightarrow> ('k, 'd) sym_op \<Rightarrow> ('k, 'd) symboltable \<Rightarrow> ('d sym_result \<times> ('k, 'd) symboltable) option" where
  "sym_apply room Create_scope s =
     do { (rc, s1) \<leftarrow> globus_symboltable_create_scope True True room s; Some (Code rc, s1) }"
| "sym_apply room Remove_scope s = do { (rc, s1) \<leftarrow> globus_symboltable_remove_scope s; Some (Code rc, s1) }"
| "sym_apply room (Insert k d) s =
     do { (rc, s1) \<leftarrow> globus_symboltable_insert s k (Some d); Some (Code rc, s1) }"
| "sym_apply room (Remove k) s = do { (d, s1) \<leftarrow> globus_symboltable_remove s k; Some (Datum d, s1) }"
| "sym_apply room (Lookup k) s = do { d \<leftarrow> globus_symboltable_lookup s k; Some (Datum d, s) }"

fun sym_run ::
  "nat \<Rightarrow> ('k, 'd) sym_op list \<Rightarrow> ('k, 'd) symboltable \<Rightarrow> ('d sym_result list \<times> ('k, 'd) symboltable) option" where
  "sym_run room [] s = Some ([], s)"
| "sym_run room (op # ops) s =
     do { (r, s1) \<leftarrow> sym_apply room op s; (rs, s2) \<leftarrow> sym_run room ops s1; Some (r # rs, s2) }"

section \<open>Abstraction\<close>

text \<open>A table that denotes a map and has room for \<open>n\<close> more entries.\<close>

definition denotes :: "('k \<Rightarrow> int \<Rightarrow> int) \<Rightarrow> ('k \<Rightarrow> 'k \<Rightarrow> bool) \<Rightarrow> nat \<Rightarrow> ('k, 'd) hashtable \<Rightarrow> ('k \<Rightarrow> 'd option) \<Rightarrow> bool" where
  "denotes hash eq n t m \<longleftrightarrow> (\<exists>gs. hash_inv t gs) \<and> hx_hash_func t = hash \<and> hx_keyeq_func t = eq \<and>
     n \<le> mem_room (hx_memory t) \<and> (\<forall>k. globus_hashtable_lookup t k = Some (m k))"

definition scope_at ::
  "('k, 'd) symboltable \<Rightarrow> nat \<Rightarrow> ('k, 'd) hashtable mem \<Rightarrow> addr \<Rightarrow> ('k \<Rightarrow> 'd option) \<Rightarrow> bool" where
  "scope_at s n tables a m \<longleftrightarrow>
     (\<exists>t. mem_cells tables a = Some t \<and> denotes (sy_hash_func s) (sy_keyeq_func s) n t m)"

text \<open>The nodes of the list of scopes, the tables their data point to, and the maps of the tables.\<close>

definition sym_inv :: "nat \<Rightarrow> ('k, 'd) symboltable \<Rightarrow> ('k \<Rightarrow> 'd option) list \<Rightarrow> bool" where
  "sym_inv n s ms \<longleftrightarrow>
     hash_contract (sy_hash_func s) (sy_keyeq_func s) \<and> mem_ok (sy_lists s) \<and> mem_ok (sy_tables s) \<and>
     n \<le> mem_room (sy_lists s) \<and> n \<le> mem_room (sy_tables s) \<and>
     (\<exists>nodes tabs. list_at (sy_lists s) (sy_scopes s) nodes \<and> list_data (sy_lists s) nodes = map Some tabs \<and>
        distinct tabs \<and> list_all2 (scope_at s n (sy_tables s)) tabs ms)"

lemma sym_invE:
  assumes "sym_inv n s ms"
  obtains nodes tabs where "list_at (sy_lists s) (sy_scopes s) nodes" "list_data (sy_lists s) nodes = map Some tabs"
    "distinct tabs" "list_all2 (scope_at s n (sy_tables s)) tabs ms"
    "hash_contract (sy_hash_func s) (sy_keyeq_func s)" "mem_ok (sy_lists s)" "mem_ok (sy_tables s)"
    "n \<le> mem_room (sy_lists s)" "n \<le> mem_room (sy_tables s)"
  using assms by (auto simp: sym_inv_def)

lemma sym_invI:
  assumes "hash_contract (sy_hash_func s) (sy_keyeq_func s)" "mem_ok (sy_lists s)" "mem_ok (sy_tables s)"
    "n \<le> mem_room (sy_lists s)" "n \<le> mem_room (sy_tables s)" "list_at (sy_lists s) (sy_scopes s) nodes"
    "list_data (sy_lists s) nodes = map Some tabs" "distinct tabs" "list_all2 (scope_at s n (sy_tables s)) tabs ms"
  shows "sym_inv n s ms"
  using assms unfolding sym_inv_def by blast

lemma denotes_mono: "denotes hash eq n t m \<Longrightarrow> k \<le> n \<Longrightarrow> denotes hash eq k t m"
  by (auto simp: denotes_def)

lemma scope_at_mono: "scope_at s n T a m \<Longrightarrow> k \<le> n \<Longrightarrow> scope_at s k T a m"
  by (auto simp: scope_at_def intro: denotes_mono)

lemma scopes_mono: "list_all2 (scope_at s n T) as ms \<Longrightarrow> k \<le> n \<Longrightarrow> list_all2 (scope_at s k T) as ms"
  by (erule list_all2_mono) (rule scope_at_mono)

text \<open>Scopes are not affected by changes of other cells.\<close>

lemma scopes_frame:
  assumes "list_all2 (scope_at s n T) as ms" and "\<And>a. a \<in> set as \<Longrightarrow> mem_cells T' a = mem_cells T a"
    and "sy_hash_func s' = sy_hash_func s" and "sy_keyeq_func s' = sy_keyeq_func s"
  shows "list_all2 (scope_at s' n T') as ms"
  using assms by (auto simp: list_all2_conv_all_nth scope_at_def)

lemma sym_inv_mono: "sym_inv n s ms \<Longrightarrow> k \<le> n \<Longrightarrow> sym_inv k s ms"
  unfolding sym_inv_def using scopes_mono by fastforce

section \<open>Lookup\<close>

lemma lookup_loop_correct:
  assumes "seg (mem_cells lmem) p nodes None" and "map (node_datum (mem_cells lmem)) nodes = map Some tabs"
    and "list_all2 (scope_at s n tables) tabs ms"
  shows "symboltable_lookup_loop lmem tables k p = Some (scope_lookup ms k)"
  using assms
proof (induction nodes arbitrary: p tabs ms)
  case Nil
  then show ?case by (subst symboltable_lookup_loop.simps) (auto simp: globus_list_empty_def)
next
  case (Cons a nodes)
  obtain c where c: "p = Some a" "mem_cells lmem a = Some c" "seg (mem_cells lmem) (li_next c) nodes None"
    using Cons.prems(1) by auto
  have "node_datum (mem_cells lmem) a = li_datum c" using c by (simp add: node_datum_def)
  then obtain b tabs' where tabs: "tabs = b # tabs'" "li_datum c = Some b"
      "map (node_datum (mem_cells lmem)) nodes = map Some tabs'"
    using Cons.prems(2) by (cases tabs) auto
  obtain m ms' where ms: "ms = m # ms'" "scope_at s n tables b m" "list_all2 (scope_at s n tables) tabs' ms'"
    using Cons.prems(3) tabs by (auto simp: list_all2_Cons1)
  obtain t where t: "mem_cells tables b = Some t" "globus_hashtable_lookup t k = Some (m k)"
    using ms(2) by (auto simp: scope_at_def denotes_def)
  have IH: "symboltable_lookup_loop lmem tables k (li_next c) = Some (scope_lookup ms' k)"
    using Cons.IH c(3) tabs(3) ms(3) by blast
  show ?case
    using c t tabs ms IH
    by (subst symboltable_lookup_loop.simps) (auto simp: store_simps)
qed

section \<open>Room of a hash table\<close>

lemma mem_upd_room: "mem_upd m a f = Some m' \<Longrightarrow> mem_room m' = mem_room m"
  by (auto simp: mem_upd_def mem_set_def bind_eq_Some_conv split: if_splits)

lemma insert_before_room: "GlobusLInsertNodeBefore m v x = Some m' \<Longrightarrow> mem_room m' = mem_room m"
  by (auto simp: GlobusLInsertNodeBefore_def bind_eq_Some_conv split: option.splits dest!: mem_upd_room)

lemma insert_room:
  assumes "globus_hashtable_insert t k d = Some (rc, t')"
  shows "mem_room (hx_memory t) \<le> Suc (mem_room (hx_memory t'))"
proof -
  note def = globus_hashtable_insert_def Let_def
  obtain v where d: "d = Some v" using assms by (cases d) (simp_all add: def)
  obtain b where b: "hx_buckets t (hx_hash_func t k (hx_size t)) = Some b"
    using assms by (cases "hx_buckets t (hx_hash_func t k (hx_size t))") (simp_all add: def d)
  obtain f where f: "globus_l_hashtable_search_bucket (hx_memory t) b (hx_keyeq_func t) k = Some f"
    using assms by (cases "globus_l_hashtable_search_bucket (hx_memory t) b (hx_keyeq_func t) k") (simp_all add: def d b)
  let ?cell = "\<lparr>hb_key = k, hb_datum = v, hb_prev = None, hb_next = None\<rparr>"
  show ?thesis
  proof (cases "f = None \<and> mem_room (hx_memory t) \<noteq> 0")
    case False
    then have "t' = t" using assms by (auto simp: def d b f mem_alloc_def split: if_splits)
    then show ?thesis by simp
  next
    case True
    then obtain entry m where al: "mem_alloc (hx_memory t) ?cell = Some (entry, m)"
      by (simp add: mem_alloc_def)
    then have room: "mem_room (hx_memory t) = Suc (mem_room m)"
      using True by (auto simp: mem_alloc_def)
    have "mem_room (hx_memory t') = mem_room m"
    proof (cases "hk_first b")
      case (Some x)
      then obtain m1 where m1: "GlobusLInsertNodeBefore m entry x = Some m1"
        using assms True by (cases "GlobusLInsertNodeBefore m entry x") (simp_all add: def d b f al)
      then have "hx_memory t' = m1" using assms True Some by (auto simp: def d b f al)
      then show ?thesis using insert_before_room [OF m1] by simp
    next
      case None
      show ?thesis
      proof (cases "hx_first t")
        case None
        then have "hx_memory t' = m" using assms True \<open>hk_first b = None\<close> by (auto simp: def d b f al)
        then show ?thesis by simp
      next
        case (Some x)
        then obtain m1 where m1: "GlobusLInsertNodeBefore m entry x = Some m1"
          using assms True None by (cases "GlobusLInsertNodeBefore m entry x") (simp_all add: def d b f al)
        then have "hx_memory t' = m1" using assms True None Some by (auto simp: def d b f al)
        then show ?thesis using insert_before_room [OF m1] by simp
      qed
    qed
    then show ?thesis using room by simp
  qed
qed

lemma unlink_room: "unlink_entry m e = Some m' \<Longrightarrow> mem_room m' = mem_room m"
  by (auto simp: unlink_entry_def bind_eq_Some_conv split: option.splits dest!: mem_upd_room)

lemma remove_room:
  assumes "globus_hashtable_remove t k = Some (d, t')"
  shows "mem_room (hx_memory t) \<le> mem_room (hx_memory t')"
proof -
  note def = globus_hashtable_remove_def Let_def
  obtain b where b: "hx_buckets t (hx_hash_func t k (hx_size t)) = Some b"
    using assms by (cases "hx_buckets t (hx_hash_func t k (hx_size t))") (simp_all add: def)
  obtain f where f: "globus_l_hashtable_search_bucket (hx_memory t) b (hx_keyeq_func t) k = Some f"
    using assms by (cases "globus_l_hashtable_search_bucket (hx_memory t) b (hx_keyeq_func t) k") (simp_all add: def b)
  show ?thesis
  proof (cases f)
    case None
    then show ?thesis using assms by (simp add: def b f)
  next
    case (Some entry)
    obtain e where e: "mem_cells (hx_memory t) entry = Some e"
      using assms Some by (cases "mem_cells (hx_memory t) entry") (simp_all add: def b f)
    obtain m where m: "unlink_entry (hx_memory t) e = Some m"
      using assms Some by (cases "unlink_entry (hx_memory t) e") (simp_all add: def b f e)
    obtain m1 where m1: "mem_free m entry = Some m1"
      using assms Some by (cases "mem_free m entry") (simp_all add: def b f e m)
    have "hx_memory t' = m1" using assms Some by (auto simp: def b f e m m1)
    moreover have "mem_room m1 = Suc (mem_room m)" using m1 by (auto simp: mem_free_def split: if_splits)
    ultimately show ?thesis using unlink_room [OF m] by simp
  qed
qed

section \<open>Each operation refines its specification\<close>

lemma lookup_refines:
  assumes "sym_inv n s ms"
  shows "globus_symboltable_lookup s k = Some (scope_lookup ms k)"
  using assms by (rule sym_invE) (auto simp: globus_symboltable_lookup_def intro: lookup_loop_correct)

text \<open>The first scope of a table that has one.\<close>

lemma first_scope:
  assumes "sym_inv n s (m # ms)"
  obtains node a c t where "sy_scopes s = Some node" "mem_cells (sy_lists s) node = Some c" "li_datum c = Some a"
    "mem_cells (sy_tables s) a = Some t" "denotes (sy_hash_func s) (sy_keyeq_func s) n t m"
  using assms
proof (rule sym_invE)
  fix nodes tabs
  assume l: "list_at (sy_lists s) (sy_scopes s) nodes" "list_data (sy_lists s) nodes = map Some tabs"
    and all: "list_all2 (scope_at s n (sy_tables s)) tabs (m # ms)"
  obtain a tabs' where t: "tabs = a # tabs'" "scope_at s n (sy_tables s) a m"
    using all by (auto simp: list_all2_Cons2)
  obtain node nodes' where "nodes = node # nodes'" using l(2) t(1) by (cases nodes) auto
  then show thesis using l t that by (auto simp: scope_at_def node_datum_def)
qed

text \<open>Replacing the first table by one that denotes another map.\<close>

lemma first_scope_replaced:
  assumes inv: "sym_inv n s (m # ms)" and sc: "sy_scopes s = Some node" "mem_cells (sy_lists s) node = Some c"
    "li_datum c = Some a" "mem_cells (sy_tables s) a = Some t"
    and t1: "denotes (sy_hash_func s) (sy_keyeq_func s) k t1 m1" and "k \<le> n"
  shows "\<exists>M. mem_set (sy_tables s) a t1 = Some M \<and> sym_inv k (s\<lparr>sy_tables := M\<rparr>) (m1 # ms)"
  using inv
proof (rule sym_invE)
  fix nodes tabs
  let ?M = "(sy_tables s)\<lparr>mem_cells := (mem_cells (sy_tables s))(a \<mapsto> t1)\<rparr>"
  assume l: "list_at (sy_lists s) (sy_scopes s) nodes" "list_data (sy_lists s) nodes = map Some tabs" "distinct tabs"
    and all: "list_all2 (scope_at s n (sy_tables s)) tabs (m # ms)"
    and ok: "hash_contract (sy_hash_func s) (sy_keyeq_func s)" "mem_ok (sy_lists s)" "mem_ok (sy_tables s)"
      "n \<le> mem_room (sy_lists s)" "n \<le> mem_room (sy_tables s)"
  have M: "mem_set (sy_tables s) a t1 = Some ?M" using sc by (simp add: mem_set_def)
  obtain tabs' where t: "tabs = a # tabs'" "list_all2 (scope_at s n (sy_tables s)) tabs' ms"
    using all l sc by (cases nodes; auto simp: list_all2_Cons2 node_datum_def)
  have "list_all2 (scope_at (s\<lparr>sy_tables := ?M\<rparr>) k ?M) tabs' ms"
    using t l(3) assms(7) by (intro scopes_frame [OF scopes_mono [OF t(2)]]) auto
  moreover have "scope_at (s\<lparr>sy_tables := ?M\<rparr>) k ?M a m1" using t1 by (simp add: scope_at_def)
  ultimately have "sym_inv k (s\<lparr>sy_tables := ?M\<rparr>) (m1 # ms)"
    using l t(1) ok assms(7) mem_set_ok [OF ok(3) M] by (intro sym_invI [where nodes = nodes and tabs = tabs]) auto
  then show ?thesis using M by blast
qed

lemma insert_refines:
  assumes "sym_inv (Suc n) s ms"
  shows "\<exists>rc s'. globus_symboltable_insert s k (Some d) = Some (rc, s') \<and>
    scope_apply (sy_keyeq_func s) (Insert k d) ms = (Code rc, snd (scope_apply (sy_keyeq_func s) (Insert k d) ms)) \<and>
    sym_inv n s' (snd (scope_apply (sy_keyeq_func s) (Insert k d) ms)) \<and> sy_keyeq_func s' = sy_keyeq_func s"
proof (cases ms)
  case Nil
  then have "sy_scopes s = None" using assms by (auto elim!: sym_invE)
  then show ?thesis
    using Nil assms sym_inv_mono [of "Suc n" s ms n] by (simp add: globus_symboltable_insert_def store_simps)
next
  case (Cons m ms')
  obtain node a c t where sc: "sy_scopes s = Some node" "mem_cells (sy_lists s) node = Some c" "li_datum c = Some a"
    "mem_cells (sy_tables s) a = Some t" and den: "denotes (sy_hash_func s) (sy_keyeq_func s) (Suc n) t m"
    using assms Cons by (auto elim: first_scope)
  let ?h = "sy_hash_func s" and ?eq = "sy_keyeq_func s"
  have hc: "hash_contract ?h ?eq" using assms by (simp add: sym_inv_def)
  obtain gs where gs: "hash_contract.table_inv ?h ?eq t gs"
    using den by (auto simp: denotes_def hash_contract.table_inv_def [OF hc])
  obtain rc t' gs' where r: "globus_hashtable_insert t k (Some d) = Some (rc, t')"
    "hash_contract.table_inv ?h ?eq t' gs'"
    "if globus_hashtable_lookup t k \<noteq> Some None \<or> mem_room (hx_memory t) = 0
     then rc = GLOBUS_FAILURE \<and> t' = t
     else rc = GLOBUS_SUCCESS \<and> (\<forall>j. globus_hashtable_lookup t' j =
          (if ?eq k j then Some (Some d) else globus_hashtable_lookup t j))"
    using hash_contract.insert_lookup [OF hc gs, of k d] by (elim exE conjE) (rule that)
  define m1 where "m1 = (if m k \<noteq> None then m else (\<lambda>j. if ?eq k j then Some d else m j))"
  have rc: "scope_apply ?eq (Insert k d) (m # ms') = (Code rc, m1 # ms')"
    using r(3) den by (auto simp: m1_def denotes_def split: if_splits)
  have "denotes ?h ?eq n t' m1"
    using r den insert_room [OF r(1)]
    by (auto simp: denotes_def hash_contract.table_inv_def [OF hc] m1_def split: if_splits)
  then obtain M where "mem_set (sy_tables s) a t' = Some M" "sym_inv n (s\<lparr>sy_tables := M\<rparr>) (m1 # ms')"
    using first_scope_replaced [OF assms [unfolded Cons] sc, of n t' m1] by auto
  then show ?thesis
    using sc r(1) rc Cons by (auto simp: globus_symboltable_insert_def store_simps)
qed

lemma remove_refines:
  assumes "sym_inv n s ms"
  shows "\<exists>d s'. globus_symboltable_remove s k = Some (d, s') \<and>
    scope_apply (sy_keyeq_func s) (Remove k) ms = (Datum d, snd (scope_apply (sy_keyeq_func s) (Remove k) ms)) \<and>
    sym_inv n s' (snd (scope_apply (sy_keyeq_func s) (Remove k) ms)) \<and> sy_keyeq_func s' = sy_keyeq_func s"
proof (cases ms)
  case Nil
  then have "sy_scopes s = None" using assms by (auto elim!: sym_invE)
  then show ?thesis using Nil assms by (simp add: globus_symboltable_remove_def store_simps)
next
  case (Cons m ms')
  obtain node a c t where sc: "sy_scopes s = Some node" "mem_cells (sy_lists s) node = Some c" "li_datum c = Some a"
    "mem_cells (sy_tables s) a = Some t" and den: "denotes (sy_hash_func s) (sy_keyeq_func s) n t m"
    using assms Cons by (auto elim: first_scope)
  let ?h = "sy_hash_func s" and ?eq = "sy_keyeq_func s"
  have hc: "hash_contract ?h ?eq" using assms by (simp add: sym_inv_def)
  obtain gs where "hash_contract.table_inv ?h ?eq t gs"
    using den by (auto simp: denotes_def hash_contract.table_inv_def [OF hc])
  then obtain t' gs' where r: "globus_hashtable_remove t k = Some (m k, t')" "hash_contract.table_inv ?h ?eq t' gs'"
    "\<forall>j. globus_hashtable_lookup t' j = (if ?eq k j then Some None else globus_hashtable_lookup t j)"
    using hash_contract.remove_lookup [OF hc, of t gs k] den by (auto simp: denotes_def)
  define m1 where "m1 = (\<lambda>j. if ?eq k j then None else m j)"
  have "denotes ?h ?eq n t' m1"
    using r den remove_room [OF r(1)]
    by (auto simp: denotes_def hash_contract.table_inv_def [OF hc] m1_def)
  then obtain M where "mem_set (sy_tables s) a t' = Some M" "sym_inv n (s\<lparr>sy_tables := M\<rparr>) (m1 # ms')"
    using first_scope_replaced [OF assms [unfolded Cons] sc, of n t' m1] by auto
  then show ?thesis
    using sc r(1) Cons by (auto simp: globus_symboltable_remove_def store_simps m1_def)
qed

lemma new_table_denotes:
  assumes "hash_contract h eq" and "n \<le> room" and "0 < sz" and "sz < 2 ^ 31"
  shows "\<exists>t :: ('k, 'd) hashtable. globus_hashtable_init True True room sz h eq = Some (GLOBUS_SUCCESS, t) \<and>
    denotes h eq n t (\<lambda>_. None) \<and> mem_room (hx_memory t) = room"
proof -
  obtain t :: "('k, 'd) hashtable" where t: "globus_hashtable_init True True room sz h eq = Some (GLOBUS_SUCCESS, t)"
    using assms(3) by (simp add: globus_hashtable_init_def)
  have "hash_inv t []" and fs: "hx_hash_func t = h" "hx_keyeq_func t = eq" "mem_room (hx_memory t) = room"
    using t assms(3,4) by (auto simp: globus_hashtable_init_def hash_inv_def runs_ok_def keys_apart_def bucket_of_def)
  moreover from this have "globus_hashtable_lookup t k = Some None" for k
    using hash_contract.lookup_correct [OF assms(1), of t "[]" k]
    by (simp add: hash_contract.table_inv_def [OF assms(1)] contents_def entry_for_def)
  ultimately have "denotes h eq n t (\<lambda>_. None)" using assms(2) by (auto simp: denotes_def)
  then show ?thesis using t fs(3) by blast
qed

lemma create_scope_refines:
  fixes s :: "('k, 'd) symboltable"
  assumes "sym_inv (Suc n) s ms" and "n \<le> room"
  shows "\<exists>s'. globus_symboltable_create_scope True True room s = Some (0, s') \<and>
    sym_inv n s' ((\<lambda>_. None) # ms) \<and> sy_keyeq_func s' = sy_keyeq_func s"
  using assms(1)
proof (rule sym_invE)
  fix nodes tabs
  assume l: "list_at (sy_lists s) (sy_scopes s) nodes" "list_data (sy_lists s) nodes = map Some tabs" "distinct tabs"
    and all: "list_all2 (scope_at s (Suc n) (sy_tables s)) tabs ms"
    and ok: "hash_contract (sy_hash_func s) (sy_keyeq_func s)" "mem_ok (sy_lists s)" "mem_ok (sy_tables s)"
      "Suc n \<le> mem_room (sy_lists s)" "Suc n \<le> mem_room (sy_tables s)"
  obtain t :: "('k, 'd) hashtable" where t: "globus_hashtable_init True True room 16 (sy_hash_func s) (sy_keyeq_func s) = Some (GLOBUS_SUCCESS, t)"
    "denotes (sy_hash_func s) (sy_keyeq_func s) n t (\<lambda>_. None)"
    using new_table_denotes [OF ok(1) assms(2), of 16] by auto
  let ?a = "mem_brk (sy_tables s)"
  define T where "T = (sy_tables s)\<lparr>mem_cells := (mem_cells (sy_tables s))(?a \<mapsto> t), mem_brk := Suc ?a,
    mem_room := mem_room (sy_tables s) - 1\<rparr>"
  have al: "mem_alloc (sy_tables s) t = Some (?a, T)" using ok(5) by (simp add: mem_alloc_def T_def)
  have old: "mem_cells T a = mem_cells (sy_tables s) a" "a \<noteq> ?a" if "a \<in> set tabs" for a
  proof -
    have "mem_cells (sy_tables s) a \<noteq> None"
      using all that by (auto simp: scope_at_def in_set_conv_nth list_all2_conv_all_nth)
    then show "a \<noteq> ?a" using mem_ok_fresh [OF ok(3)] by auto
    then show "mem_cells T a = mem_cells (sy_tables s) a" by (simp add: T_def)
  qed
  obtain node L where L: "globus_list_insert True (sy_lists s) (sy_scopes s) (Some ?a) = Some (Some node, L)"
    "list_at L (Some node) (node # nodes)" "list_data L (node # nodes) = Some ?a # list_data (sy_lists s) nodes"
    "mem_ok L" "mem_room L = mem_room (sy_lists s) - 1"
    using globus_list_insert_eq [OF ok(2) l(1), of True "Some ?a"] ok(4) by auto
  let ?s = "s\<lparr>sy_scopes := Some node, sy_lists := L, sy_tables := T\<rparr>"
  have "sym_inv n ?s ((\<lambda>_. None) # ms)"
  proof (rule sym_invI [where nodes = "node # nodes" and tabs = "?a # tabs"])
    show "list_all2 (scope_at ?s n (sy_tables ?s)) (?a # tabs) ((\<lambda>_. None) # ms)"
      using t(2) scopes_frame [OF scopes_mono [OF all, of n], of T ?s] old by (simp add: scope_at_def T_def)
    show "list_data (sy_lists ?s) (node # nodes) = map Some (?a # tabs)" using L(3) l(2) by simp
    show "mem_ok (sy_tables ?s)" using mem_alloc_ok [OF ok(3) al] by simp
  qed (use ok L l old in \<open>auto simp: T_def\<close>)
  moreover have "globus_symboltable_create_scope True True room s = Some (0, ?s)"
    using t(1) al L(1) by (simp add: globus_symboltable_create_scope_def GLOBUS_SUCCESS_def)
  ultimately show ?thesis by auto
qed

lemma destroy_returns: "hash_inv t gs \<Longrightarrow> \<exists>m. globus_hashtable_destroy t = Some (0, m)"
  using hash_destroy_loop_correct [of "hx_memory t" None "chain_of gs"]
  by (auto simp: hash_inv_def runs_ok_def globus_hashtable_destroy_def GLOBUS_SUCCESS_def)

lemma drop_first_scope_refines:
  assumes "sym_inv n s (m # ms)"
  shows "\<exists>s'. drop_first_scope s = Some s' \<and> sym_inv n s' ms \<and> sy_keyeq_func s' = sy_keyeq_func s \<and>
    mem_room (sy_lists s') = Suc (mem_room (sy_lists s)) \<and> mem_room (sy_tables s') = Suc (mem_room (sy_tables s))"
  using assms
proof (rule sym_invE)
  fix nodes tabs
  assume l: "list_at (sy_lists s) (sy_scopes s) nodes" "list_data (sy_lists s) nodes = map Some tabs" "distinct tabs"
    and all: "list_all2 (scope_at s n (sy_tables s)) tabs (m # ms)"
    and ok: "hash_contract (sy_hash_func s) (sy_keyeq_func s)" "mem_ok (sy_lists s)" "mem_ok (sy_tables s)"
      "n \<le> mem_room (sy_lists s)" "n \<le> mem_room (sy_tables s)"
  obtain a tabs' where tabs: "tabs = a # tabs'" "scope_at s n (sy_tables s) a m"
      "list_all2 (scope_at s n (sy_tables s)) tabs' ms" using all by (auto simp: list_all2_Cons2)
  obtain node nodes' where nodes: "nodes = node # nodes'" "node_datum (mem_cells (sy_lists s)) node = Some a"
      "list_data (sy_lists s) nodes' = map Some tabs'" using l(2) tabs(1) by (cases nodes) auto
  obtain c where c: "sy_scopes s = Some node" "mem_cells (sy_lists s) node = Some c" "li_datum c = Some a"
    using l(1) nodes by (auto simp: node_datum_def)
  obtain t m' where t: "mem_cells (sy_tables s) a = Some t" "globus_hashtable_destroy t = Some (0, m')"
    using tabs(2) destroy_returns by (fastforce simp: scope_at_def denotes_def)
  obtain p L where L: "globus_list_remove (sy_lists s) (sy_scopes s) node = Some (Some a, p, L)"
    "list_at L p nodes'" "released (sy_lists s) nodes node L"
    using globus_list_remove_eq [OF l(1), of node] nodes by auto
  define T where "T = (sy_tables s)\<lparr>mem_cells := (mem_cells (sy_tables s))(a := None),
    mem_room := Suc (mem_room (sy_tables s))\<rparr>"
  have fr: "mem_free (sy_tables s) a = Some T" using t(1) by (simp add: mem_free_def T_def)
  let ?s = "s\<lparr>sy_scopes := p, sy_lists := L, sy_tables := T\<rparr>"
  have "node \<notin> set nodes'" using seg_distinct [OF l(1)] nodes by simp
  then have kept: "list_data L nodes' = list_data (sy_lists s) nodes'"
    using L(3) nodes by (intro map_cong) (auto simp: released_def)
  have "sym_inv n ?s ms"
  proof (rule sym_invI [where nodes = nodes' and tabs = tabs'])
    show "list_all2 (scope_at ?s n (sy_tables ?s)) tabs' ms"
      using l(3) tabs by (intro scopes_frame [OF tabs(3)]) (auto simp: T_def)
    show "list_data (sy_lists ?s) nodes' = map Some tabs'"
      using kept nodes(3) by simp
    show "mem_ok (sy_tables ?s)" using mem_free_ok [OF ok(3) fr] by simp
    show "mem_ok (sy_lists ?s)" using released_ok [OF L(3) ok(2)] by simp
  qed (use ok L l tabs in \<open>auto simp: T_def released_def\<close>)
  moreover have "drop_first_scope s = Some ?s"
    using c t L(1) fr by (simp add: drop_first_scope_def store_simps)
  moreover have "mem_room L = Suc (mem_room (sy_lists s))" "mem_room T = Suc (mem_room (sy_tables s))"
    using L(3) by (simp_all add: released_def T_def)
  ultimately show ?thesis by (intro exI [of _ ?s]) simp
qed

section \<open>Properties\<close>

lemma no_scopes: "sym_inv n s [] \<Longrightarrow> sy_scopes s = None"
  by (auto elim!: sym_invE)

lemma apply_refines:
  assumes "sym_inv (Suc n) s ms" and "n \<le> room" and "scope_apply (sy_keyeq_func s) op ms = (r, ms')"
  shows "\<exists>s'. sym_apply room op s = Some (r, s') \<and> sym_inv n s' ms' \<and> sy_keyeq_func s' = sy_keyeq_func s"
proof (cases op)
  case Create_scope
  then show ?thesis using create_scope_refines [OF assms(1,2)] assms(3) by auto
next
  case Remove_scope
  have inv: "sym_inv n s ms" using sym_inv_mono [OF assms(1), of n] by simp
  show ?thesis
  proof (cases ms)
    case Nil
    then show ?thesis using inv no_scopes [of n s] Remove_scope assms(3)
      by (auto simp: globus_symboltable_remove_scope_def store_simps)
  next
    case (Cons m rest)
    then have "sy_scopes s \<noteq> None" using inv by (auto elim: first_scope)
    then show ?thesis using drop_first_scope_refines [OF inv [unfolded Cons]] Remove_scope Cons assms(3)
      by (auto simp: globus_symboltable_remove_scope_def store_simps)
  qed
next
  case (Insert k d)
  then show ?thesis using insert_refines [OF assms(1), of k d] assms(3) by auto
next
  case (Remove k)
  then show ?thesis using remove_refines [OF sym_inv_mono [OF assms(1), of n], of k] assms(3) by auto
next
  case (Lookup k)
  then show ?thesis using lookup_refines [OF assms(1)] sym_inv_mono [OF assms(1), of n] assms(3) by auto
qed

lemma sym_run_refines:
  assumes "sym_inv (length ops) s ms" and "length ops \<le> room" and "scope_run (sy_keyeq_func s) ops ms = (rs, ms')"
  shows "\<exists>s'. sym_run room ops s = Some (rs, s') \<and> sym_inv 0 s' ms'"
  using assms
proof (induction ops arbitrary: s ms rs)
  case Nil
  then show ?case by simp
next
  case (Cons op ops)
  let ?eq = "sy_keyeq_func s"
  obtain r ms1 where r: "scope_apply ?eq op ms = (r, ms1)" by fastforce
  obtain rs1 where rs: "scope_run ?eq ops ms1 = (rs1, ms')" "rs = r # rs1"
    using Cons.prems(3) r by (auto split: prod.splits)
  obtain s1 where s1: "sym_apply room op s = Some (r, s1)" "sym_inv (length ops) s1 ms1" "sy_keyeq_func s1 = ?eq"
    using apply_refines [OF _ _ r, of "length ops" room] Cons.prems(1,2) by auto
  then obtain s' where "sym_run room ops s1 = Some (rs1, s')" "sym_inv 0 s' ms'"
    using Cons.IH [of s1 ms1 rs1] Cons.prems(2) rs by auto
  then show ?case using s1 rs by simp
qed

text \<open>Destroying a table gives back the node and the table of every scope.\<close>

lemma scopes_destroyed:
  assumes "sym_inv n s ms"
  shows "\<exists>s'. symboltable_destroy_loop s = Some s' \<and> sy_scopes s' = None \<and>
    mem_room (sy_lists s') = mem_room (sy_lists s) + length ms \<and>
    mem_room (sy_tables s') = mem_room (sy_tables s) + length ms"
  using assms
proof (induction ms arbitrary: s)
  case Nil
  then show ?case using no_scopes [of n s]
    by (subst symboltable_destroy_loop.simps) (auto simp: store_simps)
next
  case (Cons m ms)
  obtain s1 where s1: "drop_first_scope s = Some s1" "sym_inv n s1 ms"
      "mem_room (sy_lists s1) = Suc (mem_room (sy_lists s))" "mem_room (sy_tables s1) = Suc (mem_room (sy_tables s))"
    using drop_first_scope_refines [OF Cons.prems] by auto
  have "sy_scopes s \<noteq> None" using Cons.prems by (auto elim: first_scope)
  then show ?case using s1 Cons.IH [OF s1(2)]
    by (subst symboltable_destroy_loop.simps) (auto simp: store_simps)
qed

text \<open>
  C31. The symbol table refines a stack of finite maps. From a table whose scopes denote the maps \<open>ms\<close>,
  with memory for one more scope and one more entry per operation, every sequence of
  \<open>globus_symboltable_create_scope\<close>, \<open>_remove_scope\<close>, \<open>_insert\<close>, \<open>_remove\<close> and \<open>_lookup\<close> returns (no
  assertion fails, no freed scope is read), yields the results the specification yields on \<open>ms\<close>, and
  ends in a table that denotes the maps the specification ends with: insert and remove act on the
  innermost scope only, insert fails on a key that scope binds, and lookup finds the innermost binding.
  \<open>globus_symboltable_destroy\<close> then succeeds and gives back one list node and one table per scope left.
\<close>

theorem globus_symboltable_refines_scopes:
  assumes "sym_inv (length ops) s ms" and "length ops \<le> room"
    and "scope_run (sy_keyeq_func s) ops ms = (rs, ms')"
  shows "\<exists>s' L T. sym_run room ops s = Some (rs, s') \<and> sym_inv 0 s' ms' \<and>
    globus_symboltable_destroy s' = Some (0, L, T) \<and>
    mem_room L = mem_room (sy_lists s') + length ms' \<and> mem_room T = mem_room (sy_tables s') + length ms'"
proof -
  obtain s' where s': "sym_run room ops s = Some (rs, s')" "sym_inv 0 s' ms'"
    using sym_run_refines [OF assms] by blast
  then show ?thesis
    using scopes_destroyed [OF s'(2)] by (auto simp: globus_symboltable_destroy_def)
qed

text \<open>
  An empty table from \<open>globus_symboltable_init\<close>, with the integer keys of the hash table. Symbol 3 is
  bound in two scopes: the inner binding hides the outer one, and removing the inner scope shows it again.
\<close>

definition ulong_symbols :: "(64 word, nat) symboltable" where
  "ulong_symbols = the (snd (the (globus_symboltable_init False True (mem_empty 9) (mem_empty 9)
     globus_hashtable_ulong_hash globus_hashtable_ulong_keyeq)))"

lemma ulong_symbols_inv: "sym_inv 9 ulong_symbols []"
  using ulong_table.hash_contract_axioms
  by (auto simp: ulong_symbols_def globus_symboltable_init_def sym_inv_def)

theorem globus_symboltable_witness:
  "\<exists>s' L T. sym_run 9 [Insert 3 7, Create_scope, Insert 3 7, Insert 3 8, Create_scope, Insert 3 9, Lookup 3,
      Remove_scope, Lookup 3] ulong_symbols =
    Some ([Code 1, Code 0, Code GLOBUS_SUCCESS, Code GLOBUS_FAILURE, Code 0, Code GLOBUS_SUCCESS, Datum (Some 9), Code 0,
      Datum (Some 7)], s') \<and> globus_symboltable_destroy s' = Some (0, L, T) \<and> mem_room L = Suc (mem_room (sy_lists s'))"
proof -
  let ?ops = "[Insert 3 7, Create_scope, Insert 3 7, Insert 3 8, Create_scope, Insert 3 9, Lookup 3,
      Remove_scope, Lookup 3] :: (64 word, nat) sym_op list"
  have run: "scope_run (sy_keyeq_func ulong_symbols) ?ops [] =
    ([Code 1, Code 0, Code GLOBUS_SUCCESS, Code GLOBUS_FAILURE, Code 0, Code GLOBUS_SUCCESS, Datum (Some 9), Code 0,
      Datum (Some 7)], [\<lambda>j. if globus_hashtable_ulong_keyeq 3 j then Some 7 else None])"
    by (simp add: ulong_symbols_def globus_symboltable_init_def globus_hashtable_ulong_keyeq_def)
  have inv: "sym_inv (length ?ops) ulong_symbols []" and len: "length ?ops \<le> 9"
    by (rule sym_inv_mono [OF ulong_symbols_inv]) simp_all
  show ?thesis
    using globus_symboltable_refines_scopes [OF inv len run]
    by (elim exE conjE) (intro exI conjI, assumption+, simp only: list.size add_Suc_right add_0_right)
qed

end
