(* ===== verification/C_String.thy ===== *)
theory C_String
  imports Globus_Prelude
begin

text \<open>
  The part of the C library's strings and formatted input and output that the message code calls.

  A C string is a \<^typ>\<open>string\<close> without the character \<open>NUL\<close>; a buffer handed to a reader is the list
  of its bytes, terminator included. A pointer into a buffer is the suffix that starts at it, so
  reading through a pointer to an exhausted suffix is an access outside the buffer and yields
  \<open>None\<close>. \<open>sprintf\<close> and \<open>sscanf\<close> interpret the format strings of the source; \<open>buf_put\<close> is a write of
  a terminated string at the end of what a buffer of a given capacity holds.

  The lemmas give the lengths of printed integers, the exact condition for a sequence of writes to
  stay inside the buffer, and that \<open>strtol\<close> and \<open>%d\<close> read back what \<open>%d\<close> printed.
\<close>

named_theorems fmt_simps \<open>evaluation of format strings\<close>

section \<open>Characters\<close>

definition NUL :: char where
  "NUL = CHR 0x00"

definition CR :: char where
  "CR = CHR 0x0D"

definition LF :: char where
  "LF = CHR 0x0A"

definition isspace :: "char \<Rightarrow> bool" where
  "isspace c \<longleftrightarrow> c \<in> {CHR '' '', CHR 0x09, CHR 0x0A, CHR 0x0B, CHR 0x0C, CHR 0x0D}"

definition isdigit :: "char \<Rightarrow> bool" where
  "isdigit c \<longleftrightarrow> 48 \<le> (of_char c :: nat) \<and> (of_char c :: nat) \<le> 57"

definition c_string :: "string \<Rightarrow> bool" where
  "c_string s \<longleftrightarrow> NUL \<notin> set s"

section \<open>Printing integers\<close>

fun digits :: "nat \<Rightarrow> string" where
  "digits n = (if n < 10 then [char_of (48 + n)]
               else digits (n div 10) @ [char_of (48 + n mod 10)])"

declare digits.simps [simp del]

definition print_int :: "int \<Rightarrow> string" where
  "print_int i = (if i < 0 then CHR ''-'' # digits (nat (- i)) else digits (nat i))"

datatype fmt_arg = D int | S string

text \<open>\<open>sprintf\<close> for the conversions the message formats use; a conversion without a matching
  argument has no defined meaning.\<close>

fun c_sprintf :: "string \<Rightarrow> fmt_arg list \<Rightarrow> string option" where
  "c_sprintf [] args = Some []"
| "c_sprintf (c # cs) args =
     (if c = CHR ''%'' then
        (case cs of [] \<Rightarrow> None | d # ds \<Rightarrow>
          (case args of [] \<Rightarrow> None | a # as \<Rightarrow>
            (case a of
               D i \<Rightarrow> (if d = CHR ''d'' then map_option ((@) (print_int i)) (c_sprintf ds as) else None)
             | S s \<Rightarrow> (if d = CHR ''s'' then map_option ((@) s) (c_sprintf ds as) else None))))
      else map_option ((#) c) (c_sprintf cs args))"

section \<open>Reading integers\<close>

fun read_digits :: "nat \<Rightarrow> string \<Rightarrow> nat \<times> string" where
  "read_digits acc [] = (acc, [])"
| "read_digits acc (c # cs) =
     (if isdigit c then read_digits (10 * acc + (of_char c - 48)) cs else (acc, c # cs))"

text \<open>An optionally signed decimal number after white space; \<open>None\<close> when no digit follows.\<close>

definition read_int :: "string \<Rightarrow> (int \<times> string) option" where
  "read_int s =
     (let t = dropWhile isspace s;
          neg = (t \<noteq> [] \<and> hd t = CHR ''-'');
          u = (if t \<noteq> [] \<and> (hd t = CHR ''-'' \<or> hd t = CHR ''+'') then tl t else t)
      in if u = [] \<or> \<not> isdigit (hd u) then None
         else (case read_digits 0 u of (n, rest) \<Rightarrow> Some (if neg then - int n else int n, rest)))"

text \<open>\<open>strtol\<close> saturates at the bounds of a 64-bit \<open>long\<close>; \<open>atoi\<close> and the conversion \<open>%d\<close> of \<open>sscanf\<close>
  truncate that value to an \<open>int\<close>.\<close>

definition clamp_long :: "int \<Rightarrow> int" where
  "clamp_long i = max (- (2 ^ 63)) (min (2 ^ 63 - 1) i)"

definition strtol :: "string \<Rightarrow> int" where
  "strtol s = (case read_int s of None \<Rightarrow> 0 | Some (i, _) \<Rightarrow> clamp_long i)"

definition atoi :: "string \<Rightarrow> int" where
  "atoi s = wrap_s 32 (strtol s)"

definition int_range :: "int \<Rightarrow> bool" where
  "int_range i \<longleftrightarrow> - (2 ^ 31) \<le> i \<and> i < 2 ^ 31"

text \<open>\<open>sscanf\<close> with the conversion \<open>%d\<close>: the values assigned, in order. White space in the format
  matches any amount of white space, any other character matches itself.\<close>

fun c_sscanf :: "string \<Rightarrow> string \<Rightarrow> int list" where
  "c_sscanf [] s = []"
| "c_sscanf (c # cs) s =
     (if isspace c then c_sscanf cs (dropWhile isspace s)
      else if c = CHR ''%'' then
        (case cs of [] \<Rightarrow> [] | d # ds \<Rightarrow>
          (case read_int s of None \<Rightarrow> []
           | Some (i, rest) \<Rightarrow> wrap_s 32 (clamp_long i) # c_sscanf ds rest))
      else (case s of [] \<Rightarrow> [] | d # ds \<Rightarrow> if d = c then c_sscanf cs ds else []))"

section \<open>Output buffers\<close>

text \<open>Appending a string and its terminator to what a buffer of \<open>cap\<close> bytes holds.\<close>

definition buf_put :: "nat \<Rightarrow> string \<Rightarrow> string \<Rightarrow> string option" where
  "buf_put cap out s = (if length out + length s < cap then Some (out @ s) else None)"

definition buf_sprintf :: "nat \<Rightarrow> string \<Rightarrow> string \<Rightarrow> fmt_arg list \<Rightarrow> string option" where
  "buf_sprintf cap out f args = Option.bind (c_sprintf f args) (buf_put cap out)"

lemma buf_put_eq: "length out + length s < cap \<Longrightarrow> buf_put cap out s = Some (out @ s)"
  by (simp add: buf_put_def)

lemma buf_put_iff: "(buf_put cap out s = Some r) = (length out + length s < cap \<and> r = out @ s)"
  by (auto simp: buf_put_def)

section \<open>Searching\<close>

text \<open>\<open>strstr\<close>: the position of the first occurrence.\<close>

fun strstr :: "string \<Rightarrow> string \<Rightarrow> nat option" where
  "strstr [] p = (if p = [] then Some 0 else None)"
| "strstr (c # cs) p = (if take (length p) (c # cs) = p then Some 0 else map_option Suc (strstr cs p))"

section \<open>Facts\<close>

lemma char_simps [simp]:
  "NUL \<noteq> CR" "NUL \<noteq> LF" "CR \<noteq> LF" "CR \<noteq> NUL" "LF \<noteq> NUL" "LF \<noteq> CR"
  "isspace CR" "isspace LF" "isspace CHR '' ''"
  "NUL \<noteq> CHR '':''" "NUL \<noteq> CHR '' ''" "NUL \<noteq> CHR 0x22" "NUL \<noteq> CHR 0x5C"
  "CR \<noteq> CHR '':''" "CR \<noteq> CHR '' ''" "CR \<noteq> CHR 0x22" "CR \<noteq> CHR 0x5C"
  "LF \<noteq> CHR '':''" "LF \<noteq> CHR '' ''" "LF \<noteq> CHR 0x22" "LF \<noteq> CHR 0x5C"
  by (simp_all add: NUL_def CR_def LF_def isspace_def)

lemmas char_simps_sym [simp] = char_simps(10-21) [symmetric]

lemma of_digit [simp]: "n < 10 \<Longrightarrow> (of_char (char_of (48 + n) :: char) :: nat) = 48 + n"
  by simp

lemma digit_char [simp]: "(n::nat) < 10 \<Longrightarrow> isdigit (char_of (48 + n))"
  by (simp add: isdigit_def)

lemma digit_plain: "isdigit c \<Longrightarrow> \<not> isspace c \<and> c \<noteq> NUL \<and> c \<noteq> CR \<and> c \<noteq> CHR 0x5C \<and> c \<noteq> CHR 0x22
    \<and> c \<noteq> CHR ''-'' \<and> c \<noteq> CHR ''+''"
  by (auto simp: isdigit_def isspace_def NUL_def CR_def)

lemma digits_isdigit: "c \<in> set (digits n) \<Longrightarrow> isdigit c"
proof (induction n rule: digits.induct)
  case (1 n)
  then show ?case
    by (subst (asm) (2) digits.simps) (auto split: if_splits)
qed

lemma digits_nonempty [simp]: "digits n \<noteq> []"
  by (subst digits.simps) simp

lemma read_digits_append:
  assumes "rest = [] \<or> \<not> isdigit (hd rest)"
  shows "read_digits acc (digits n @ rest) = (acc * 10 ^ length (digits n) + n, rest)"
proof -
  have last: "read_digits a (digits m @ t) = read_digits (a * 10 ^ length (digits m) + m) t" for a m t
  proof (induction m arbitrary: a t rule: digits.induct)
    case (1 m)
    show ?case
    proof (cases "m < 10")
      case True
      then show ?thesis by (simp add: digits.simps [of m] mult.commute)
    next
      case False
      then have "read_digits a (digits m @ t)
          = read_digits (a * 10 ^ length (digits (m div 10)) + m div 10) (char_of (48 + m mod 10) # t)"
        using 1 by (simp add: digits.simps [of m])
      also have "\<dots> = read_digits (10 * (a * 10 ^ length (digits (m div 10)) + m div 10) + m mod 10) t"
        by simp
      also have "10 * (a * 10 ^ length (digits (m div 10)) + m div 10) + m mod 10
          = a * 10 ^ length (digits m) + m"
        using False by (simp add: digits.simps [of m] algebra_simps)
      finally show ?thesis .
    qed
  qed
  show ?thesis
    using assms last [of acc n rest] by (cases rest) simp_all
qed

lemma print_int_chars: "c \<in> set (print_int i) \<Longrightarrow> isdigit c \<or> c = CHR ''-''"
  by (auto simp: print_int_def dest: digits_isdigit split: if_splits)

lemma print_int_plain:
  "c \<in> set (print_int i) \<Longrightarrow> \<not> isspace c \<and> c \<noteq> NUL \<and> c \<noteq> CR \<and> c \<noteq> CHR 0x5C \<and> c \<noteq> CHR 0x22"
  by (drule print_int_chars) (auto dest: digit_plain simp: NUL_def CR_def isspace_def)

lemma print_int_nonempty [simp]: "print_int i \<noteq> []"
  by (simp add: print_int_def)

lemma dropWhile_print_int:
  "dropWhile isspace (print_int i @ rest) = print_int i @ rest"
proof -
  have "print_int i = hd (print_int i) # tl (print_int i)" by simp
  moreover have "\<not> isspace (hd (print_int i))"
    using print_int_plain [of "hd (print_int i)" i] by simp
  ultimately show ?thesis
    by (metis append_Cons dropWhile.simps(2))
qed

lemma read_print_int:
  assumes "rest = [] \<or> \<not> isdigit (hd rest)"
  shows "read_int (print_int i @ rest) = Some (i, rest)"
proof -
  have d: "isdigit (hd (digits n))" for n
    using digits_isdigit [of "hd (digits n)" n] by simp
  have n: "hd (digits n) \<noteq> CHR ''-''" "hd (digits n) \<noteq> CHR ''+''" for n
    using digit_plain [OF d [of n]] by simp_all
  show ?thesis
    using d n by (cases "i < 0")
      (simp_all add: read_int_def dropWhile_print_int Let_def,
       simp_all add: print_int_def read_digits_append [OF assms])
qed

lemma clamp_id: "int_range i \<Longrightarrow> clamp_long i = i"
  by (simp add: clamp_long_def int_range_def)

lemma wrap_int_range: "int_range i \<Longrightarrow> wrap_s 32 i = i"
  by (rule wrap_s_id) (simp_all add: int_range_def)

lemma strtol_print_int: "int_range i \<Longrightarrow> strtol (print_int i) = i"
  using read_print_int [of "[]" i] by (simp add: strtol_def clamp_id)

lemma atoi_print_int: "int_range i \<Longrightarrow> atoi (print_int i) = i"
  by (simp add: atoi_def strtol_print_int wrap_int_range)

lemma length_digits_le:
  assumes "n < 10 ^ k" and "0 < k"
  shows "length (digits n) \<le> k"
  using assms
proof (induction k arbitrary: n)
  case (Suc k)
  show ?case
  proof (cases "n < 10")
    case True
    then show ?thesis by (simp add: digits.simps [of n])
  next
    case False
    then have "0 < k" using Suc.prems by (cases k) simp_all
    moreover have "n div 10 < 10 ^ k"
      using Suc.prems(1) by (simp add: div_less_iff_less_mult mult.commute)
    ultimately have "length (digits (n div 10)) \<le> k" using Suc.IH by blast
    with False show ?thesis by (simp add: digits.simps [of n])
  qed
qed simp

lemma length_print_int: "int_range i \<Longrightarrow> length (print_int i) \<le> 11"
proof -
  assume "int_range i"
  then have "nat i < 10 ^ 10" and "nat (- i) < 10 ^ 10"
    unfolding int_range_def by (auto simp: nat_less_iff)
  then have "length (digits (nat i)) \<le> 10" and "length (digits (nat (- i))) \<le> 10"
    using length_digits_le [of "nat i" 10] length_digits_le [of "nat (- i)" 10] by simp_all
  then show ?thesis by (simp add: print_int_def)
qed

lemma length_print_small: "0 \<le> i \<Longrightarrow> i < 1000 \<Longrightarrow> length (print_int i) \<le> 3"
  using length_digits_le [of "nat i" 3] by (simp add: print_int_def)

section \<open>Format strings\<close>

lemma c_sprintf_lit:
  "CHR ''%'' \<notin> set l \<Longrightarrow> c_sprintf (l @ f) args = map_option (\<lambda>t. l @ t) (c_sprintf f args)"
proof (induction l)
  case Nil
  show ?case by (cases "c_sprintf f args") simp_all
next
  case (Cons a l)
  then show ?case by (cases "c_sprintf f args") auto
qed

lemma c_sprintf_D [fmt_simps]:
  "c_sprintf (CHR ''%'' # CHR ''d'' # f) (D i # args) = map_option ((@) (print_int i)) (c_sprintf f args)"
  by simp

lemma c_sprintf_S [fmt_simps]:
  "c_sprintf (CHR ''%'' # CHR ''s'' # f) (S s # args) = map_option ((@) s) (c_sprintf f args)"
  by simp

lemma c_sscanf_lit:
  "\<forall>c \<in> set l. \<not> isspace c \<and> c \<noteq> CHR ''%'' \<Longrightarrow> c_sscanf (l @ f) (l @ s) = c_sscanf f s"
  by (induction l) auto

lemma c_sscanf_D:
  assumes "int_range i" and "rest = [] \<or> \<not> isdigit (hd rest)"
  shows "c_sscanf (CHR ''%'' # CHR ''d'' # f) (print_int i @ rest) = i # c_sscanf f rest"
proof -
  have "\<not> isspace CHR ''%''" by (simp add: isspace_def)
  then show ?thesis
    using assms by (simp add: read_print_int clamp_id wrap_int_range)
qed

lemma c_sscanf_space: "isspace c \<Longrightarrow> c_sscanf (c # f) s = c_sscanf f (dropWhile isspace s)"
  by simp

end
