(* ===== verification/Globus_Url.thy ===== *)
theory Globus_Url
  imports C_String
begin

text \<open>
  The URL parser of \<open>common/source/library/globus_url.c\<close>.

  The three entry points \<open>globus_url_parse\<close>, \<open>globus_url_parse_rfc1738\<close> and \<open>globus_url_parse_loose\<close>
  scan a string from left to right: a scheme, then, according to the scheme, a user and a password,
  a host and a port, a path, the four parts of an LDAP query, or the host and path of a file. Each
  scanner is a function on the parser's state: the string at the pointer \<open>substring\<close>, the URL that is
  being filled, and the number of allocations that still succeed. Reading a string is allowed up to
  and including its terminator; any other access, a write outside a buffer and a loop that does not
  end give \<open>None\<close>. The characters are those of the C locale, the operating system is not Windows.

  The locale \<open>url_token\<close> is what a character class must satisfy for the scanning loops to stop in
  bounds and to accept exactly the texts over the class; it is interpreted for every class the parser
  uses. On it rest the theorems: encoded URLs are parsed back, parsing returns and leaves no field
  behind when it fails, and the exact inputs on which the loose parser does not return.
\<close>

section \<open>Characters\<close>

definition islower :: "char \<Rightarrow> bool" where
  "islower c \<longleftrightarrow> 97 \<le> (of_char c :: nat) \<and> (of_char c :: nat) \<le> 122"

definition isalnum :: "char \<Rightarrow> bool" where
  "isalnum c \<longleftrightarrow> isdigit c \<or> islower c \<or> 65 \<le> (of_char c :: nat) \<and> (of_char c :: nat) \<le> 90"

definition isxdigit :: "char \<Rightarrow> bool" where
  "isxdigit c \<longleftrightarrow> isdigit c \<or> 97 \<le> (of_char c :: nat) \<and> (of_char c :: nat) \<le> 102
     \<or> 65 \<le> (of_char c :: nat) \<and> (of_char c :: nat) \<le> 70"

definition globusl_url_issafe :: "char \<Rightarrow> bool" where
  "globusl_url_issafe x \<longleftrightarrow> x \<in> set ''$-_.+''"

definition globusl_url_isglob :: "char \<Rightarrow> bool" where
  "globusl_url_isglob x \<longleftrightarrow> x \<in> set ''*?[]{}!?=,:-''"

definition globusl_url_isextra :: "char \<Rightarrow> bool" where
  "globusl_url_isextra x \<longleftrightarrow> x \<in> set ''!*(),'' \<or> x = CHR 0x27"

definition globusl_url_isscheme_special :: "char \<Rightarrow> bool" where
  "globusl_url_isscheme_special x \<longleftrightarrow> x \<in> set '';/?:@=&''"

text \<open>The value of \<open>strtol\<close> on two hexadecimal digits, as a byte.\<close>

definition hex_value :: "char \<Rightarrow> nat" where
  "hex_value c = (let n = of_char c in
     if n \<le> 57 then n - 48 else if n \<le> 70 then n - 55 else n - 87)"

definition hex_byte :: "char \<Rightarrow> char \<Rightarrow> char" where
  "hex_byte a b = char_of (16 * hex_value a + hex_value b)"

section \<open>URLs and the state of the parser\<close>

datatype globus_url_scheme_t =
    GLOBUS_URL_SCHEME_FTP
  | GLOBUS_URL_SCHEME_GSIFTP
  | GLOBUS_URL_SCHEME_HTTP
  | GLOBUS_URL_SCHEME_HTTPS
  | GLOBUS_URL_SCHEME_LDAP
  | GLOBUS_URL_SCHEME_FILE
  | GLOBUS_URL_SCHEME_X_NEXUS
  | GLOBUS_URL_SCHEME_X_GASS_CACHE
  | GLOBUS_URL_SCHEME_UNKNOWN
  | GLOBUS_URL_SCHEME_SSHFTP

record globus_url_t =
  u_scheme :: "string option"
  u_scheme_type :: globus_url_scheme_t
  u_user :: "string option"
  u_password :: "string option"
  u_host :: "string option"
  u_port :: int
  u_url_path :: "string option"
  u_dn :: "string option"
  u_attributes :: "string option"
  u_scope :: "string option"
  u_filter :: "string option"
  u_url_specific_part :: "string option"

definition GLOBUS_URL_ERROR_NULL_STRING :: int where "GLOBUS_URL_ERROR_NULL_STRING = -1"
definition GLOBUS_URL_ERROR_NULL_URL :: int where "GLOBUS_URL_ERROR_NULL_URL = -2"
definition GLOBUS_URL_ERROR_BAD_SCHEME :: int where "GLOBUS_URL_ERROR_BAD_SCHEME = -3"
definition GLOBUS_URL_ERROR_BAD_USER :: int where "GLOBUS_URL_ERROR_BAD_USER = -4"
definition GLOBUS_URL_ERROR_BAD_PASSWORD :: int where "GLOBUS_URL_ERROR_BAD_PASSWORD = -5"
definition GLOBUS_URL_ERROR_BAD_HOST :: int where "GLOBUS_URL_ERROR_BAD_HOST = -6"
definition GLOBUS_URL_ERROR_BAD_PORT :: int where "GLOBUS_URL_ERROR_BAD_PORT = -7"
definition GLOBUS_URL_ERROR_BAD_PATH :: int where "GLOBUS_URL_ERROR_BAD_PATH = -8"
definition GLOBUS_URL_ERROR_BAD_DN :: int where "GLOBUS_URL_ERROR_BAD_DN = -9"
definition GLOBUS_URL_ERROR_BAD_ATTRIBUTES :: int where "GLOBUS_URL_ERROR_BAD_ATTRIBUTES = -10"
definition GLOBUS_URL_ERROR_BAD_SCOPE :: int where "GLOBUS_URL_ERROR_BAD_SCOPE = -11"
definition GLOBUS_URL_ERROR_BAD_FILTER :: int where "GLOBUS_URL_ERROR_BAD_FILTER = -12"
definition GLOBUS_URL_ERROR_OUT_OF_MEMORY :: int where "GLOBUS_URL_ERROR_OUT_OF_MEMORY = -13"
definition GLOBUS_URL_ERROR_INTERNAL_ERROR :: int where "GLOBUS_URL_ERROR_INTERNAL_ERROR = -14"

lemmas url_codes =
  GLOBUS_SUCCESS_def
  GLOBUS_URL_ERROR_NULL_STRING_def GLOBUS_URL_ERROR_NULL_URL_def GLOBUS_URL_ERROR_BAD_SCHEME_def
  GLOBUS_URL_ERROR_BAD_USER_def GLOBUS_URL_ERROR_BAD_PASSWORD_def GLOBUS_URL_ERROR_BAD_HOST_def
  GLOBUS_URL_ERROR_BAD_PORT_def GLOBUS_URL_ERROR_BAD_PATH_def GLOBUS_URL_ERROR_BAD_DN_def
  GLOBUS_URL_ERROR_BAD_ATTRIBUTES_def GLOBUS_URL_ERROR_BAD_SCOPE_def
  GLOBUS_URL_ERROR_BAD_FILTER_def GLOBUS_URL_ERROR_OUT_OF_MEMORY_def
  GLOBUS_URL_ERROR_INTERNAL_ERROR_def

text \<open>The local state of the parsing functions: \<open>*stringp\<close>, the allocations left, the URL.\<close>

record url_parser =
  ps_string :: string
  ps_room :: nat
  ps_url :: globus_url_t

text \<open>The character at an index of a terminated string.\<close>

definition char_at :: "string \<Rightarrow> nat \<Rightarrow> char option" where
  "char_at s i = (if i < length s then Some (s ! i) else if i = length s then Some NUL else None)"

text \<open>\<open>*stringp += n\<close>.\<close>

definition advance :: "nat \<Rightarrow> url_parser \<Rightarrow> url_parser" where
  "advance n p = p\<lparr>ps_string := drop n (ps_string p)\<rparr>"

text \<open>A write of one byte behind those already written to a buffer of \<open>cap\<close> bytes.\<close>

definition buf_byte :: "nat \<Rightarrow> string \<Rightarrow> char \<Rightarrow> string option" where
  "buf_byte cap out c = (if length out < cap then Some (out @ [c]) else None)"

text \<open>What a reader of the buffer sees: the bytes before the first \<open>NUL\<close>.\<close>

definition c_cut :: "string \<Rightarrow> string" where
  "c_cut s = takeWhile (\<lambda>c. c \<noteq> NUL) s"

section \<open>Scanning loops\<close>

text \<open>\<open>while(P((*stringp)[pos])) pos++;\<close>\<close>

partial_function (option) skip_while :: "(char \<Rightarrow> bool) \<Rightarrow> string \<Rightarrow> nat \<Rightarrow> nat option" where
  "skip_while P s pos =
     do { c \<leftarrow> char_at s pos; if P c then skip_while P s (pos + 1) else Some pos }"

text \<open>A percent sign has to be followed by two hexadecimal digits: the position behind them, or the
  error that the caller returns.\<close>

definition pct_triple :: "string \<Rightarrow> int \<Rightarrow> nat \<Rightarrow> (int + nat) option" where
  "pct_triple s err pos =
     do {
       c \<leftarrow> char_at s pos;
       if c \<noteq> CHR ''%'' then Some (Inr pos)
       else do {
         h1 \<leftarrow> char_at s (pos + 1);
         if \<not> isxdigit h1 then Some (Inl err)
         else do {
           h2 \<leftarrow> char_at s (pos + 2);
           if isxdigit h2 then Some (Inr (pos + 3)) else Some (Inl err) } } }"

text \<open>
  The \<open>do\<close>-\<open>while\<close> loop that every scanner runs. In each round it passes characters of the class \<open>cls\<close>
  (\<open>many\<close>: all that follow, otherwise at most one), returns \<open>nul\<close> from the scanner at the end of the
  string where the source tests for it, passes an escape, and goes on until it sees a character of
  \<open>stops\<close> or made no progress. The result is a code to return, or the position reached.
\<close>

partial_function (option) token_loop ::
  "(char \<Rightarrow> bool) \<Rightarrow> bool \<Rightarrow> int option \<Rightarrow> int \<Rightarrow> (char \<Rightarrow> bool) \<Rightarrow> string \<Rightarrow> nat \<Rightarrow> (int + nat) option" where
  "token_loop cls many nul err stops s pos =
     do {
       pos1 \<leftarrow> (if many then skip_while cls s pos
                else do { c \<leftarrow> char_at s pos; Some (if cls c then pos + 1 else pos) });
       c \<leftarrow> char_at s pos1;
       if c = NUL \<and> nul \<noteq> None then Some (Inl (the nul))
       else do {
         r \<leftarrow> pct_triple s err pos1;
         case r of
           Inl rc \<Rightarrow> Some (Inl rc)
         | Inr pos2 \<Rightarrow> do {
             d \<leftarrow> char_at s pos2;
             if \<not> stops d \<and> pos2 \<noteq> pos then token_loop cls many nul err stops s pos2
             else Some (Inr pos2) } } }"

section \<open>Scanners\<close>

text \<open>The loop of \<open>globusl_url_get_substring\<close>, with the buffer of \<open>nulpos + 1\<close> bytes it fills.\<close>

function substring_loop :: "string \<Rightarrow> nat \<Rightarrow> nat \<Rightarrow> string \<Rightarrow> string option" where
  "substring_loop src nulpos i out =
     (if i < nulpos then
        do {
          c \<leftarrow> char_at src i;
          if c = CHR ''%'' \<and> i + 2 < nulpos then
            do {
              h1 \<leftarrow> char_at src (i + 1);
              h2 \<leftarrow> char_at src (i + 2);
              if isxdigit h1 \<and> isxdigit h2 then
                do { out1 \<leftarrow> buf_byte (nulpos + 1) out (hex_byte h1 h2);
                     substring_loop src nulpos (i + 3) out1 }
              else do { out1 \<leftarrow> buf_byte (nulpos + 1) out c;
                        substring_loop src nulpos (i + 1) out1 } }
          else do { out1 \<leftarrow> buf_byte (nulpos + 1) out c;
                    substring_loop src nulpos (i + 1) out1 } }
      else Some out)"
  by pat_completeness auto

termination substring_loop
  by (relation "measure (\<lambda>(src, nulpos, i, out). nulpos - i)") auto

declare substring_loop.simps [simp del]

definition globusl_url_get_substring ::
  "nat \<Rightarrow> string \<Rightarrow> nat \<Rightarrow> (int \<times> string option \<times> nat) option" where
  "globusl_url_get_substring room src nulpos =
     (if room = 0 then Some (GLOBUS_URL_ERROR_NULL_STRING, None, room)
      else do {
        out \<leftarrow> substring_loop src nulpos 0 [];
        out1 \<leftarrow> buf_byte (nulpos + 1) out NUL;
        Some (GLOBUS_SUCCESS, Some (c_cut out1), room - 1) })"

text \<open>A call that copies from \<open>*stringp\<close> into a field of the URL.\<close>

definition store_substring ::
  "(string option \<Rightarrow> globus_url_t \<Rightarrow> globus_url_t) \<Rightarrow> nat \<Rightarrow> url_parser \<Rightarrow> (int \<times> url_parser) option" where
  "store_substring f nulpos p =
     do {
       (rc, d, room) \<leftarrow> globusl_url_get_substring (ps_room p) (ps_string p) nulpos;
       Some (rc, p\<lparr>ps_room := room, ps_url := f d (ps_url p)\<rparr>) }"

abbreviation set_user where "set_user d \<equiv> u_user_update (\<lambda>_. d)"
abbreviation set_password where "set_password d \<equiv> u_password_update (\<lambda>_. d)"
abbreviation set_host where "set_host d \<equiv> u_host_update (\<lambda>_. d)"
abbreviation set_path where "set_path d \<equiv> u_url_path_update (\<lambda>_. d)"
abbreviation set_specific where "set_specific d \<equiv> u_url_specific_part_update (\<lambda>_. d)"

definition scheme_char :: "char \<Rightarrow> bool" where
  "scheme_char c \<longleftrightarrow> islower c \<or> isdigit c \<or> c \<in> set ''+-.''"

definition scheme_of :: "string \<Rightarrow> globus_url_scheme_t" where
  "scheme_of s =
     (if s = ''ftp'' then GLOBUS_URL_SCHEME_FTP
      else if s = ''gsiftp'' then GLOBUS_URL_SCHEME_GSIFTP
      else if s = ''http'' then GLOBUS_URL_SCHEME_HTTP
      else if s = ''https'' then GLOBUS_URL_SCHEME_HTTPS
      else if s = ''ldap'' then GLOBUS_URL_SCHEME_LDAP
      else if s = ''file'' then GLOBUS_URL_SCHEME_FILE
      else if s = ''x-nexus'' then GLOBUS_URL_SCHEME_X_NEXUS
      else if s = ''x-gass-cache'' then GLOBUS_URL_SCHEME_X_GASS_CACHE
      else if s = ''sshftp'' then GLOBUS_URL_SCHEME_SSHFTP
      else GLOBUS_URL_SCHEME_UNKNOWN)"

definition globusl_url_get_scheme :: "url_parser \<Rightarrow> (int \<times> url_parser) option" where
  "globusl_url_get_scheme p =
     do {
       pos \<leftarrow> skip_while scheme_char (ps_string p) 0;
       c \<leftarrow> char_at (ps_string p) pos;
       if c \<noteq> CHR '':'' then Some (GLOBUS_URL_ERROR_BAD_SCHEME, p)
       else if pos = 0 then Some (GLOBUS_URL_ERROR_BAD_SCHEME, p)
       else do {
         (rc, p1) \<leftarrow> store_substring (\<lambda>d. u_scheme_update (\<lambda>_. d)) pos p;
         if rc \<noteq> GLOBUS_SUCCESS then Some (GLOBUS_URL_ERROR_INTERNAL_ERROR, p1)
         else do {
           scheme \<leftarrow> u_scheme (ps_url p1);
           Some (GLOBUS_SUCCESS,
             (advance pos p1)\<lparr>ps_url := (ps_url p1)\<lparr>u_scheme_type := scheme_of scheme\<rparr>\<rparr>) } } }"

text \<open>The characters of users and passwords.\<close>

definition user_char :: "char \<Rightarrow> bool" where
  "user_char c \<longleftrightarrow> isalnum c \<or> globusl_url_issafe c \<or> globusl_url_isextra c \<or> c \<in> set '';?&=''"

text \<open>The part of \<open>globusl_url_get_user_password\<close> behind the colon.\<close>

definition url_password_part :: "url_parser \<Rightarrow> (int \<times> url_parser) option" where
  "url_password_part p =
     do {
       r \<leftarrow> token_loop user_char False (Some GLOBUS_URL_ERROR_BAD_PASSWORD) GLOBUS_URL_ERROR_BAD_PASSWORD
              (\<lambda>c. c = CHR ''@'') (ps_string p) 0;
       case r of
         Inl rc \<Rightarrow> Some (rc, p)
       | Inr pos \<Rightarrow>
           if pos = 0 then Some (GLOBUS_URL_ERROR_BAD_PASSWORD, p)
           else do {
             c \<leftarrow> char_at (ps_string p) pos;
             if c = CHR ''@''
             then do { (rc, p1) \<leftarrow> store_substring set_password pos p; Some (rc, advance (pos + 1) p1) }
             else Some (GLOBUS_SUCCESS, p) } }"

definition globusl_url_get_user_password :: "url_parser \<Rightarrow> (int \<times> url_parser) option" where
  "globusl_url_get_user_password p =
     do {
       r \<leftarrow> token_loop (\<lambda>c. user_char c \<or> c = CHR '':'') True (Some GLOBUS_SUCCESS)
              GLOBUS_URL_ERROR_BAD_USER (\<lambda>c. c = CHR ''@'') (ps_string p) 0;
       case r of
         Inl rc \<Rightarrow> Some (rc, p)
       | Inr pos0 \<Rightarrow> do {
           c0 \<leftarrow> char_at (ps_string p) pos0;
           if c0 \<noteq> CHR ''@'' then Some (GLOBUS_SUCCESS, p)
           else do {
             r1 \<leftarrow> token_loop user_char True (Some GLOBUS_SUCCESS) GLOBUS_URL_ERROR_BAD_USER
                    (\<lambda>c. c = CHR ''@'' \<or> c = CHR '':'') (ps_string p) 0;
             case r1 of
               Inl rc \<Rightarrow> Some (rc, p)
             | Inr pos \<Rightarrow>
                 if pos = 0 then Some (GLOBUS_URL_ERROR_BAD_USER, p)
                 else do {
                   c \<leftarrow> char_at (ps_string p) pos;
                   if c = CHR ''@''
                   then do { (rc, p1) \<leftarrow> store_substring set_user pos p; Some (rc, advance (pos + 1) p1) }
                   else if c = CHR '':''
                   then do {
                     (rc, p1) \<leftarrow> store_substring set_user pos p;
                     if rc \<noteq> GLOBUS_SUCCESS then Some (rc, p1)
                     else url_password_part (advance (pos + 1) p1) }
                   else Some (GLOBUS_SUCCESS, p) } } } }"

definition host_char :: "char \<Rightarrow> bool" where
  "host_char c \<longleftrightarrow> isalnum c \<or> c = CHR ''-'' \<or> c = CHR ''.''"

definition ipv6_char :: "char \<Rightarrow> bool" where
  "ipv6_char c \<longleftrightarrow> isxdigit c \<or> c = CHR '':'' \<or> c = CHR ''.''"

text \<open>The part of \<open>globusl_url_get_host_port\<close> behind the host; the number is cut to 16 bits.\<close>

definition url_port_part :: "url_parser \<Rightarrow> (int \<times> url_parser) option" where
  "url_port_part p =
     do {
       c \<leftarrow> char_at (ps_string p) 0;
       if c = CHR '':'' then
         let p1 = advance 1 p
         in do {
           pos \<leftarrow> skip_while isdigit (ps_string p1) 0;
           if pos = 0 then Some (GLOBUS_URL_ERROR_BAD_PORT, p1)
           else do {
             (rc, tmp, _) \<leftarrow> globusl_url_get_substring (ps_room p1) (ps_string p1) pos;
             if rc \<noteq> GLOBUS_SUCCESS then Some (rc, advance pos p1)
             else do {
               t \<leftarrow> tmp;
               Some (GLOBUS_SUCCESS,
                 (advance pos p1)\<lparr>ps_url := (ps_url p1)\<lparr>u_port := atoi t mod 65536\<rparr>\<rparr>) } } }
       else Some (GLOBUS_SUCCESS, p) }"

text \<open>The part behind an opening bracket, with the characters that may form the host.\<close>

definition url_host_part :: "(char \<Rightarrow> bool) \<Rightarrow> url_parser \<Rightarrow> (int \<times> url_parser) option" where
  "url_host_part cls p =
     do {
       pos \<leftarrow> skip_while cls (ps_string p) 0;
       if pos = 0 then Some (GLOBUS_URL_ERROR_BAD_HOST, p)
       else do {
         c \<leftarrow> char_at (ps_string p) pos;
         d \<leftarrow> (if c = CHR '']'' then char_at (ps_string p) (pos + 1) else Some c);
         let k = (if c = CHR '']'' then pos + 1 else pos);
         if c = CHR '':'' \<or> c = CHR ''/'' \<or> c = CHR '']'' \<and> (d = CHR '':'' \<or> d = CHR ''/'') then
           do {
             (rc, p1) \<leftarrow> store_substring set_host pos p;
             if rc \<noteq> GLOBUS_SUCCESS then Some (rc, advance k p1) else url_port_part (advance k p1) }
         else if c = NUL \<or> c = CHR '']'' \<and> d = NUL then
           do { (rc, p1) \<leftarrow> store_substring set_host pos p; Some (rc, advance k p1) }
         else Some (GLOBUS_URL_ERROR_BAD_HOST, p) } }"

definition globusl_url_get_host_port :: "url_parser \<Rightarrow> (int \<times> url_parser) option" where
  "globusl_url_get_host_port p =
     (let p0 = p\<lparr>ps_url := (ps_url p)\<lparr>u_port := 0\<rparr>\<rparr>
      in do {
        b \<leftarrow> char_at (ps_string p) 0;
        if b = CHR ''['' then url_host_part ipv6_char (advance 1 p0) else url_host_part host_char p0 })"

definition ldap_char :: "char \<Rightarrow> bool" where
  "ldap_char c \<longleftrightarrow> isalnum c \<or> globusl_url_isextra c \<or> globusl_url_issafe c \<or> c = CHR ''=''"

text \<open>The loop of \<open>globusl_url_get_ldap_specific\<close> over the arrays \<open>errs\<close> and \<open>which\<close>; the last of the four
  parts ends with the string. Behind it the pointer has passed the terminator and is not read.\<close>

fun ldap_loop ::
  "(int \<times> (string option \<Rightarrow> globus_url_t \<Rightarrow> globus_url_t)) list \<Rightarrow> url_parser \<Rightarrow> (int \<times> url_parser) option" where
  "ldap_loop [] p = Some (GLOBUS_SUCCESS, p)"
| "ldap_loop ((err, f) # rest) p =
     do {
       r \<leftarrow> token_loop ldap_char False None err (\<lambda>c. c = CHR ''?'') (ps_string p) 0;
       case r of
         Inl rc \<Rightarrow> Some (rc, p)
       | Inr pos \<Rightarrow>
           if pos = 0 then Some (err, p)
           else do {
             c \<leftarrow> char_at (ps_string p) pos;
             if c = CHR ''?'' \<and> rest \<noteq> [] \<or> c = NUL \<and> rest = [] then
               do {
                 (rc, p1) \<leftarrow> store_substring f pos p;
                 if rc \<noteq> GLOBUS_SUCCESS then Some (rc, p1) else ldap_loop rest (advance (pos + 1) p1) }
             else Some (err, p) } }"

definition globusl_url_get_ldap_specific :: "url_parser \<Rightarrow> (int \<times> url_parser) option" where
  "globusl_url_get_ldap_specific =
     ldap_loop
       [(GLOBUS_URL_ERROR_BAD_DN, \<lambda>d. u_dn_update (\<lambda>_. d)),
        (GLOBUS_URL_ERROR_BAD_ATTRIBUTES, \<lambda>d. u_attributes_update (\<lambda>_. d)),
        (GLOBUS_URL_ERROR_BAD_SCOPE, \<lambda>d. u_scope_update (\<lambda>_. d)),
        (GLOBUS_URL_ERROR_BAD_FILTER, \<lambda>d. u_filter_update (\<lambda>_. d))]"

definition path_char :: "char \<Rightarrow> bool" where
  "path_char c \<longleftrightarrow> isalnum c \<or> globusl_url_issafe c \<or> globusl_url_isextra c
     \<or> globusl_url_isscheme_special c \<or> c \<in> set ''~/ ''"

definition loose_path_char :: "char \<Rightarrow> bool" where
  "loose_path_char c \<longleftrightarrow> isalnum c \<or> globusl_url_issafe c \<or> globusl_url_isextra c
     \<or> globusl_url_isscheme_special c \<or> globusl_url_isglob c \<or> c \<in> set ''~ ''"

definition ftp_scheme :: "globus_url_scheme_t \<Rightarrow> bool" where
  "ftp_scheme t \<longleftrightarrow> t \<in> {GLOBUS_URL_SCHEME_FTP, GLOBUS_URL_SCHEME_GSIFTP, GLOBUS_URL_SCHEME_SSHFTP}"

text \<open>The common text of \<open>globusl_url_get_path\<close> and \<open>globusl_url_get_path_loose\<close>, which differ in the
  class of characters. With an FTP scheme the slash before a tilde is passed over, while the
  number of bytes to copy stays, so that the copy includes the terminator.\<close>

definition url_path_part ::
  "(char \<Rightarrow> bool) \<Rightarrow> globus_url_scheme_t \<Rightarrow> url_parser \<Rightarrow> (int \<times> url_parser) option" where
  "url_path_part cls scheme_type p =
     do {
       r \<leftarrow> token_loop cls False None GLOBUS_URL_ERROR_BAD_PATH (\<lambda>c. c = NUL) (ps_string p) 0;
       case r of
         Inl rc \<Rightarrow> Some (rc, p)
       | Inr pos \<Rightarrow>
           if pos = 0 then Some (GLOBUS_SUCCESS, p)
           else if pos \<noteq> length (ps_string p) then Some (GLOBUS_URL_ERROR_BAD_PATH, p)
           else store_substring set_path pos
             (if ftp_scheme scheme_type \<and> pos > 1 \<and> ps_string p ! 0 = CHR ''/'' \<and> ps_string p ! 1 = CHR ''~''
              then advance 1 p else p) }"

definition globusl_url_get_path :: "globus_url_scheme_t \<Rightarrow> url_parser \<Rightarrow> (int \<times> url_parser) option" where
  "globusl_url_get_path = url_path_part path_char"

definition globusl_url_get_path_loose :: "globus_url_scheme_t \<Rightarrow> url_parser \<Rightarrow> (int \<times> url_parser) option" where
  "globusl_url_get_path_loose = url_path_part loose_path_char"

text \<open>\<open>globusl_url_get_path_rfc1738\<close>: the loop over slashes, the outer loop, the function. The text goes to
  a buffer of \<open>strlen\<close> bytes.\<close>

partial_function (option) rfc_slashes :: "string \<Rightarrow> nat \<Rightarrow> string \<Rightarrow> (nat \<times> string) option" where
  "rfc_slashes s pos buf =
     do {
       c \<leftarrow> char_at s pos;
       if c = CHR ''/'' then
         (if pos > 0 then
            do {
              b \<leftarrow> char_at s (pos - 1);
              if c \<noteq> b
              then do { buf1 \<leftarrow> buf_byte (length s) buf c; rfc_slashes s (pos + 1) buf1 }
              else rfc_slashes s (pos + 1) buf }
          else rfc_slashes s (pos + 1) buf)
       else Some (pos, buf) }"

text \<open>An escape is copied byte by byte.\<close>

definition rfc_triple :: "string \<Rightarrow> nat \<Rightarrow> string \<Rightarrow> (int + nat \<times> string) option" where
  "rfc_triple s pos buf =
     do {
       c \<leftarrow> char_at s pos;
       if c \<noteq> CHR ''%'' then Some (Inr (pos, buf))
       else do {
         buf1 \<leftarrow> buf_byte (length s) buf c;
         h1 \<leftarrow> char_at s (pos + 1);
         if \<not> isxdigit h1 then Some (Inl GLOBUS_URL_ERROR_BAD_PATH)
         else do {
           buf2 \<leftarrow> buf_byte (length s) buf1 h1;
           h2 \<leftarrow> char_at s (pos + 2);
           if \<not> isxdigit h2 then Some (Inl GLOBUS_URL_ERROR_BAD_PATH)
           else do { buf3 \<leftarrow> buf_byte (length s) buf2 h2; Some (Inr (pos + 3, buf3)) } } } }"

definition rfc_path_char :: "char \<Rightarrow> bool" where
  "rfc_path_char c \<longleftrightarrow> isalnum c \<or> globusl_url_issafe c \<or> globusl_url_isextra c
     \<or> globusl_url_isscheme_special c \<or> c \<in> set ''~ ''"

partial_function (option) rfc_loop :: "string \<Rightarrow> nat \<Rightarrow> string \<Rightarrow> (int + nat \<times> string) option" where
  "rfc_loop s pos buf =
     do {
       (pos1, buf1) \<leftarrow> rfc_slashes s pos buf;
       c \<leftarrow> char_at s pos1;
       (pos2, buf2) \<leftarrow> (if rfc_path_char c
                         then do { b \<leftarrow> buf_byte (length s) buf1 c; Some (pos1 + 1, b) }
                         else Some (pos1, buf1));
       r \<leftarrow> rfc_triple s pos2 buf2;
       case r of
         Inl rc \<Rightarrow> Some (Inl rc)
       | Inr (pos3, buf3) \<Rightarrow> do {
           d \<leftarrow> char_at s pos3;
           if d \<noteq> NUL \<and> pos3 \<noteq> pos then rfc_loop s pos3 buf3 else Some (Inr (pos3, buf3)) } }"

definition globusl_url_get_path_rfc1738 :: "globus_url_scheme_t \<Rightarrow> url_parser \<Rightarrow> (int \<times> url_parser) option" where
  "globusl_url_get_path_rfc1738 scheme_type p =
     (if ps_room p = 0 then Some (GLOBUS_URL_ERROR_NULL_STRING, p)
      else let p1 = p\<lparr>ps_room := ps_room p - 1\<rparr>
      in do {
        r \<leftarrow> rfc_loop (ps_string p) 0 [];
        case r of
          Inl rc \<Rightarrow> Some (rc, p1)
        | Inr (pos, buf) \<Rightarrow> do {
            tmpbuf \<leftarrow> buf_byte (length (ps_string p)) buf NUL;
            if pos = 0 then Some (GLOBUS_SUCCESS, p1)
            else if pos \<noteq> length (ps_string p) then Some (GLOBUS_URL_ERROR_BAD_PATH, p1)
            else do {
              (rc, d, room) \<leftarrow> globusl_url_get_substring (ps_room p1) buf (length buf);
              Some (rc, p\<lparr>ps_room := room + 1, ps_url := set_path d (ps_url p)\<rparr>) } } })"

text \<open>The common end of the two functions for \<open>file\<close>: all leading slashes but the last are passed, then
  the path follows.\<close>

definition file_path_part ::
  "(url_parser \<Rightarrow> (int \<times> url_parser) option) \<Rightarrow> nat \<Rightarrow> url_parser \<Rightarrow> (int \<times> url_parser) option" where
  "file_path_part get_path pos p =
     do {
       pos1 \<leftarrow> skip_while (\<lambda>c. c = CHR ''/'') (ps_string p) pos;
       let p1 = (if pos1 > 1 then advance (pos1 - 1) p else p);
       c \<leftarrow> char_at (ps_string p1) 0;
       if c \<noteq> CHR ''/'' then Some (GLOBUS_URL_ERROR_BAD_PATH, p1) else get_path p1 }"

definition globusl_url_get_file_specific :: "url_parser \<Rightarrow> (int \<times> url_parser) option" where
  "globusl_url_get_file_specific p =
     do {
       pos \<leftarrow> skip_while (\<lambda>c. c = CHR ''/'') (ps_string p) 0;
       if pos = 0 then Some (GLOBUS_URL_ERROR_BAD_PATH, p)
       else if pos = 2 then
         do {
           let p1 = advance 2 p;
           hpos \<leftarrow> skip_while host_char (ps_string p1) 0;
           c \<leftarrow> char_at (ps_string p1) hpos;
           if c = CHR ''/'' \<and> hpos \<noteq> 0 then
             do {
               (rc, p2) \<leftarrow> store_substring set_host hpos p1;
               if rc \<noteq> GLOBUS_SUCCESS then Some (rc, advance hpos p2)
               else file_path_part (globusl_url_get_path GLOBUS_URL_SCHEME_FILE) 0 (advance hpos p2) }
           else file_path_part (globusl_url_get_path GLOBUS_URL_SCHEME_FILE) 0 p1 }
       else file_path_part (globusl_url_get_path GLOBUS_URL_SCHEME_FILE) pos p }"

text \<open>The host loop of \<open>globusl_url_get_file_specific_loose\<close>: its body is the \<open>if\<close> statement that follows it
  in the source, \<open>pos\<close> is not increased.\<close>

partial_function (option) loose_host_loop :: "nat \<Rightarrow> url_parser \<Rightarrow> (int \<times> url_parser) option" where
  "loose_host_loop pos p =
     do {
       c \<leftarrow> char_at (ps_string p) pos;
       if host_char c then
         (if c = CHR ''/'' \<and> pos \<noteq> 0 then
            do {
              (rc, p1) \<leftarrow> store_substring set_host pos p;
              if rc \<noteq> GLOBUS_SUCCESS then Some (rc, advance pos p1)
              else loose_host_loop pos (advance pos p1) }
          else loose_host_loop pos p)
       else Some (GLOBUS_SUCCESS, p) }"

definition globusl_url_get_file_specific_loose :: "url_parser \<Rightarrow> (int \<times> url_parser) option" where
  "globusl_url_get_file_specific_loose p =
     do {
       pos \<leftarrow> skip_while (\<lambda>c. c = CHR ''/'') (ps_string p) 0;
       if pos = 0 then Some (GLOBUS_URL_ERROR_BAD_PATH, p)
       else if pos = 2 then
         do {
           (rc, p1) \<leftarrow> loose_host_loop 0 (advance 2 p);
           if rc \<noteq> GLOBUS_SUCCESS then Some (rc, p1)
           else file_path_part (globusl_url_get_path_loose GLOBUS_URL_SCHEME_FILE) 0 p1 }
       else file_path_part (globusl_url_get_path_loose GLOBUS_URL_SCHEME_FILE) pos p }"

section \<open>Entry points\<close>

definition url_cleared :: "globus_url_t \<Rightarrow> globus_url_t" where
  "url_cleared url = url\<lparr>u_scheme := None, u_user := None, u_password := None, u_host := None,
     u_url_path := None, u_dn := None, u_attributes := None, u_scope := None, u_filter := None,
     u_url_specific_part := None\<rparr>"

definition globus_url_destroy :: "globus_url_t option \<Rightarrow> int \<times> globus_url_t option" where
  "globus_url_destroy url =
     (case url of None \<Rightarrow> (GLOBUS_URL_ERROR_NULL_URL, None)
      | Some u \<Rightarrow> (GLOBUS_SUCCESS, Some (url_cleared u)))"

text \<open>Sequencing of scanners: the next one runs when the code is \<open>GLOBUS_SUCCESS\<close>.\<close>

definition and_then ::
  "(int \<times> url_parser) option \<Rightarrow> (url_parser \<Rightarrow> (int \<times> url_parser) option) \<Rightarrow> (int \<times> url_parser) option" where
  "and_then r f = do { (rc, p) \<leftarrow> r; if rc = GLOBUS_SUCCESS then f p else Some (rc, p) }"

text \<open>A failure of \<open>globusl_url_get_host_port\<close> is reported as a bad port where a path follows.\<close>

definition host_port_or_bad_port :: "url_parser \<Rightarrow> (int \<times> url_parser) option" where
  "host_port_or_bad_port p =
     do {
       (rc, p1) \<leftarrow> globusl_url_get_host_port p;
       Some (if rc \<noteq> GLOBUS_SUCCESS then GLOBUS_URL_ERROR_BAD_PORT else rc, p1) }"

definition whole_specific_part :: "url_parser \<Rightarrow> (int \<times> url_parser) option" where
  "whole_specific_part p = store_substring set_specific (length (ps_string p)) p"

text \<open>The default case: host and path when both can be read, the remaining text otherwise.\<close>

definition url_unknown_part :: "url_parser \<Rightarrow> (int \<times> url_parser) option" where
  "url_unknown_part p =
     do {
       (rc, p1) \<leftarrow> globusl_url_get_host_port p;
       if rc = GLOBUS_URL_ERROR_INTERNAL_ERROR then Some (rc, p1)
       else if rc = GLOBUS_SUCCESS then
         do {
           (rc1, p2) \<leftarrow> globusl_url_get_path (u_scheme_type (ps_url p1)) p1;
           if rc1 = GLOBUS_URL_ERROR_INTERNAL_ERROR \<or> rc1 = GLOBUS_SUCCESS then Some (rc1, p2)
           else whole_specific_part p2 }
       else whole_specific_part p1 }"

text \<open>The switch over the scheme. The three parsers differ in the functions that read the path of an FTP
  URL, the path of an HTTP URL, and a file URL.\<close>

definition url_switch ::
  "(globus_url_scheme_t \<Rightarrow> url_parser \<Rightarrow> (int \<times> url_parser) option) \<Rightarrow>
   (globus_url_scheme_t \<Rightarrow> url_parser \<Rightarrow> (int \<times> url_parser) option) \<Rightarrow>
   (url_parser \<Rightarrow> (int \<times> url_parser) option) \<Rightarrow> url_parser \<Rightarrow> (int \<times> url_parser) option" where
  "url_switch ftp_path http_path file_specific p =
     (case u_scheme_type (ps_url p) of
        GLOBUS_URL_SCHEME_HTTP \<Rightarrow> and_then (host_port_or_bad_port p) (http_path GLOBUS_URL_SCHEME_HTTP)
      | GLOBUS_URL_SCHEME_HTTPS \<Rightarrow> and_then (host_port_or_bad_port p) (http_path GLOBUS_URL_SCHEME_HTTPS)
      | GLOBUS_URL_SCHEME_X_NEXUS \<Rightarrow>
          and_then (globusl_url_get_host_port p)
            (\<lambda>p1. Some (if u_port (ps_url p1) = 0 then GLOBUS_URL_ERROR_BAD_PORT else GLOBUS_SUCCESS, p1))
      | GLOBUS_URL_SCHEME_LDAP \<Rightarrow>
          and_then (globusl_url_get_host_port p)
            (\<lambda>p1. do {
               c \<leftarrow> char_at (ps_string p1) 0;
               if c \<noteq> CHR ''/'' then Some (GLOBUS_URL_ERROR_BAD_DN, p1)
               else globusl_url_get_ldap_specific (advance 1 p1) })
      | GLOBUS_URL_SCHEME_FILE \<Rightarrow> file_specific p
      | GLOBUS_URL_SCHEME_X_GASS_CACHE \<Rightarrow> whole_specific_part p
      | GLOBUS_URL_SCHEME_UNKNOWN \<Rightarrow> url_unknown_part p
      | t \<Rightarrow> and_then (globusl_url_get_user_password p)
               (\<lambda>p1. and_then (host_port_or_bad_port p1) (ftp_path t)))"

definition url_parse_with ::
  "(globus_url_scheme_t \<Rightarrow> url_parser \<Rightarrow> (int \<times> url_parser) option) \<Rightarrow>
   (globus_url_scheme_t \<Rightarrow> url_parser \<Rightarrow> (int \<times> url_parser) option) \<Rightarrow>
   (url_parser \<Rightarrow> (int \<times> url_parser) option) \<Rightarrow>
   nat \<Rightarrow> string option \<Rightarrow> globus_url_t option \<Rightarrow> (int \<times> globus_url_t option) option" where
  "url_parse_with ftp_path http_path file_specific room url_string url =
     (case url of
        None \<Rightarrow> Some (GLOBUS_URL_ERROR_NULL_URL, None)
      | Some u \<Rightarrow>
          let u0 = (url_cleared u)\<lparr>u_port := 0\<rparr>
          in case url_string of
            None \<Rightarrow> Some (GLOBUS_URL_ERROR_NULL_STRING, Some u0)
          | Some s \<Rightarrow> do {
              (rc, p) \<leftarrow> and_then (globusl_url_get_scheme \<lparr>ps_string = s, ps_room = room, ps_url = u0\<rparr>)
                (\<lambda>p. let file = (u_scheme_type (ps_url p) = GLOBUS_URL_SCHEME_FILE)
                     in if take 3 (ps_string p) \<noteq> ''://'' \<and> \<not> file
                        then Some (GLOBUS_URL_ERROR_BAD_SCHEME, p)
                        else url_switch ftp_path http_path file_specific (advance (if file then 1 else 3) p));
              if rc \<noteq> GLOBUS_SUCCESS then Some (rc, snd (globus_url_destroy (Some (ps_url p))))
              else Some (rc, Some (ps_url p)) })"

definition globus_url_parse ::
  "nat \<Rightarrow> string option \<Rightarrow> globus_url_t option \<Rightarrow> (int \<times> globus_url_t option) option" where
  "globus_url_parse =
     url_parse_with globusl_url_get_path globusl_url_get_path globusl_url_get_file_specific"

definition globus_url_parse_rfc1738 ::
  "nat \<Rightarrow> string option \<Rightarrow> globus_url_t option \<Rightarrow> (int \<times> globus_url_t option) option" where
  "globus_url_parse_rfc1738 =
     url_parse_with globusl_url_get_path_rfc1738 globusl_url_get_path globusl_url_get_file_specific"

definition globus_url_parse_loose ::
  "nat \<Rightarrow> string option \<Rightarrow> globus_url_t option \<Rightarrow> (int \<times> globus_url_t option) option" where
  "globus_url_parse_loose =
     url_parse_with globusl_url_get_path_loose globusl_url_get_path_loose
       globusl_url_get_file_specific_loose"

text \<open>\<open>strncmp(s, t, n) == 0\<close> for a literal \<open>t\<close> of at least \<open>n\<close> characters.\<close>

definition strn_equal :: "string \<Rightarrow> string \<Rightarrow> nat \<Rightarrow> bool" where
  "strn_equal s t n \<longleftrightarrow> take n s = take n t"

definition globus_url_get_scheme :: "string \<Rightarrow> int \<times> globus_url_scheme_t" where
  "globus_url_get_scheme s =
     (if strn_equal s ''ftp:'' 4 then (GLOBUS_SUCCESS, GLOBUS_URL_SCHEME_FTP)
      else if strn_equal s ''gsiftp:'' 7 then (GLOBUS_SUCCESS, GLOBUS_URL_SCHEME_GSIFTP)
      else if strn_equal s ''sshftp:'' 7 then (GLOBUS_SUCCESS, GLOBUS_URL_SCHEME_SSHFTP)
      else if strn_equal s ''http:'' 5 then (GLOBUS_SUCCESS, GLOBUS_URL_SCHEME_HTTP)
      else if strn_equal s ''https:'' 5 then (GLOBUS_SUCCESS, GLOBUS_URL_SCHEME_HTTPS)
      else if strn_equal s ''ldap:'' 5 then (GLOBUS_SUCCESS, GLOBUS_URL_SCHEME_LDAP)
      else if strn_equal s ''file:'' 5 then (GLOBUS_SUCCESS, GLOBUS_URL_SCHEME_FILE)
      else if strn_equal s ''x-nexus:'' 8 then (GLOBUS_SUCCESS, GLOBUS_URL_SCHEME_X_NEXUS)
      else if strn_equal s ''x-gass-cache:'' 13 then (GLOBUS_SUCCESS, GLOBUS_URL_SCHEME_X_GASS_CACHE)
      else (GLOBUS_URL_ERROR_BAD_SCHEME, GLOBUS_URL_SCHEME_UNKNOWN))"

text \<open>\<open>globus_url_copy\<close>: a field is duplicated when it is set (\<open>COPY_FIELD\<close>); when memory runs out, the
  copies made so far are freed and the destination is zeroed.\<close>

definition dup_field :: "string option \<Rightarrow> nat \<Rightarrow> (string option \<times> nat) option" where
  "dup_field x room =
     (case x of None \<Rightarrow> Some (None, room)
      | Some s \<Rightarrow> if room = 0 then None else Some (Some s, room - 1))"

definition url_zero :: globus_url_t where
  "url_zero = \<lparr>u_scheme = None, u_scheme_type = GLOBUS_URL_SCHEME_FTP, u_user = None, u_password = None,
     u_host = None, u_port = 0, u_url_path = None, u_dn = None, u_attributes = None, u_scope = None,
     u_filter = None, u_url_specific_part = None\<rparr>"

definition globus_url_copy ::
  "nat \<Rightarrow> globus_url_t option \<Rightarrow> globus_url_t option \<Rightarrow> int \<times> globus_url_t option" where
  "globus_url_copy room dst src =
     (case src of None \<Rightarrow> (GLOBUS_URL_ERROR_NULL_URL, dst)
      | Some u \<Rightarrow>
         (case dst of None \<Rightarrow> (GLOBUS_URL_ERROR_NULL_URL, None)
          | Some _ \<Rightarrow>
             (case do {
                (scheme, r1) \<leftarrow> dup_field (u_scheme u) room;
                (user, r2) \<leftarrow> dup_field (u_user u) r1;
                (password, r3) \<leftarrow> dup_field (u_password u) r2;
                (host, r4) \<leftarrow> dup_field (u_host u) r3;
                (url_path, r5) \<leftarrow> dup_field (u_url_path u) r4;
                (dn, r6) \<leftarrow> dup_field (u_dn u) r5;
                (attributes, r7) \<leftarrow> dup_field (u_attributes u) r6;
                (scope, r8) \<leftarrow> dup_field (u_scope u) r7;
                (filt, r9) \<leftarrow> dup_field (u_filter u) r8;
                (specific, _) \<leftarrow> dup_field (u_url_specific_part u) r9;
                Some (url_zero\<lparr>u_scheme_type := u_scheme_type u, u_port := u_port u, u_scheme := scheme,
                  u_user := user, u_password := password, u_host := host, u_url_path := url_path,
                  u_dn := dn, u_attributes := attributes, u_scope := scope, u_filter := filt,
                  u_url_specific_part := specific\<rparr>) } of
                None \<Rightarrow> (GLOBUS_URL_ERROR_OUT_OF_MEMORY, Some url_zero)
              | Some v \<Rightarrow> (GLOBUS_SUCCESS, Some v))))"

section \<open>Percent encoding\<close>

definition hexchars :: string where
  "hexchars = ''0123456789ABCDEF''"

text \<open>The encoder writes to a buffer of \<open>3 * strlen(s) + 1\<close> bytes.\<close>

fun hex_encode_loop :: "nat \<Rightarrow> string \<Rightarrow> string \<Rightarrow> string \<Rightarrow> string option" where
  "hex_encode_loop cap enc [] out = Some out"
| "hex_encode_loop cap enc (c # s) out =
     (let n = of_char c :: nat
      in if n \<le> 0x1F \<or> n \<ge> 0x7F \<or> c = CHR ''%'' \<or> enc \<noteq> [] \<and> c \<in> set enc then
           do {
             out1 \<leftarrow> buf_byte cap out CHR ''%'';
             out2 \<leftarrow> buf_byte cap out1 (hexchars ! (n div 16));
             out3 \<leftarrow> buf_byte cap out2 (hexchars ! (n mod 16));
             hex_encode_loop cap enc s out3 }
         else do { out1 \<leftarrow> buf_byte cap out c; hex_encode_loop cap enc s out1 })"

definition globus_url_string_hex_encode ::
  "bool \<Rightarrow> string option \<Rightarrow> string option \<Rightarrow> string option option" where
  "globus_url_string_hex_encode alloc_ok s enc =
     (case s of None \<Rightarrow> Some None
      | Some t \<Rightarrow>
          if \<not> alloc_ok then Some None
          else (case enc of None \<Rightarrow> Some (Some t)
                | Some e \<Rightarrow> do {
                    out \<leftarrow> hex_encode_loop (3 * length t + 1) e t [];
                    out1 \<leftarrow> buf_byte (3 * length t + 1) out NUL;
                    Some (Some (c_cut out1)) }))"

text \<open>The decoder works in place from the first percent sign on; it writes behind the position it reads,
  so the bytes still to be read are those of the argument. A doubled percent sign stands for one.\<close>

fun hex_decode_loop :: "string \<Rightarrow> string" where
  "hex_decode_loop [] = []"
| "hex_decode_loop [t] = [t]"
| "hex_decode_loop [t, a] = (if t = CHR ''%'' \<and> a = CHR ''%'' then [t] else t # hex_decode_loop [a])"
| "hex_decode_loop (t # a # b # s) =
     (if t = CHR ''%'' then
        (if a = CHR ''%'' then t # hex_decode_loop (b # s)
         else if isxdigit a \<and> isxdigit b then hex_byte a b # hex_decode_loop s
         else t # hex_decode_loop (a # b # s))
      else t # hex_decode_loop (a # b # s))"

definition globus_url_string_hex_decode :: "string \<Rightarrow> string" where
  "globus_url_string_hex_decode s =
     c_cut (takeWhile (\<lambda>c. c \<noteq> CHR ''%'') s @ hex_decode_loop (dropWhile (\<lambda>c. c \<noteq> CHR ''%'') s))"

declare skip_while.simps [code] token_loop.simps [code] rfc_slashes.simps [code] rfc_loop.simps [code]
  loose_host_loop.simps [code]



section \<open>Reading a terminated string\<close>

lemma url_chars_NUL [simp]:
  "CHR ''%'' \<noteq> NUL" "CHR ''@'' \<noteq> NUL" "CHR ''/'' \<noteq> NUL" "CHR ''?'' \<noteq> NUL" "CHR ''['' \<noteq> NUL"
  "CHR '']'' \<noteq> NUL" "NUL \<noteq> CHR ''%''" "NUL \<noteq> CHR ''@''" "NUL \<noteq> CHR ''/''" "NUL \<noteq> CHR ''?''"
  "NUL \<noteq> CHR ''[''" "NUL \<noteq> CHR '']''"
  by (simp_all add: NUL_def)

lemma char_at_skip [simp]: "char_at (pre @ t) (length pre + k) = char_at t k"
  by (simp add: char_at_def nth_append)

lemma char_at_skip0 [simp]: "char_at (pre @ t) (length pre) = char_at t 0"
  using char_at_skip [of pre t 0] by simp

lemma char_at_simps [simp]:
  "char_at s (length s) = Some NUL" "char_at (c # s) 0 = Some c" "char_at [] 0 = Some NUL"
  "char_at (c # s) (Suc k) = char_at s k"
  by (auto simp: char_at_def)

lemma char_at_in:
  assumes "i \<le> length s"
  obtains c where "char_at s i = Some c" "c = NUL \<longleftrightarrow> i = length s \<or> s ! i = NUL" "i < length s \<Longrightarrow> c = s ! i"
  using assms by (cases "i = length s") (auto simp: char_at_def)

lemma char_at_some: "i \<le> length s \<Longrightarrow> \<exists>c. char_at s i = Some c"
  by (simp add: char_at_def)

lemma char_at_not_NUL: "char_at s i = Some c \<Longrightarrow> c \<noteq> NUL \<Longrightarrow> i < length s \<and> s ! i = c"
  by (auto simp: char_at_def split: if_splits)

lemma drop_char: "char_at s i = Some c \<Longrightarrow> c \<noteq> NUL \<Longrightarrow> drop i s = c # drop (Suc i) s"
  by (auto dest!: char_at_not_NUL simp: Cons_nth_drop_Suc)

lemma skip_while_eq:
  assumes "\<not> P NUL" and "pos \<le> length s"
  shows "skip_while P s pos = Some (pos + length (takeWhile P (drop pos s)))"
  using assms(2)
proof (induction "length s - pos" arbitrary: pos rule: less_induct)
  case less
  obtain c where c: "char_at s pos = Some c" using less.prems by (rule char_at_in)
  show ?case
  proof (cases "P c")
    case True
    then have "c \<noteq> NUL" using assms(1) by auto
    then have "pos < length s" and d: "drop pos s = c # drop (Suc pos) s"
      using c char_at_not_NUL drop_char by blast+
    then have "skip_while P s (pos + 1) = Some (pos + 1 + length (takeWhile P (drop (pos + 1) s)))"
      by (intro less.hyps) auto
    then show ?thesis using True c d by (subst skip_while.simps) simp
  next
    case False
    then have "takeWhile P (drop pos s) = []"
      using c by (cases "pos < length s") (auto simp: char_at_def Cons_nth_drop_Suc [symmetric])
    then show ?thesis using False c by (subst skip_while.simps) simp
  qed
qed

text \<open>A run of the class that is followed by something else.\<close>

definition ends_run :: "(char \<Rightarrow> bool) \<Rightarrow> string \<Rightarrow> bool" where
  "ends_run P rest \<longleftrightarrow> rest = [] \<or> \<not> P (hd rest)"

lemma skip_while_run:
  assumes "\<not> P NUL" and "\<forall>c \<in> set x. P c" and "ends_run P rest"
  shows "skip_while P (pre @ x @ rest) (length pre) = Some (length pre + length x)"
    and "skip_while P (x @ rest) 0 = Some (length x)"
proof -
  have "takeWhile P (x @ rest) = x"
    using assms(2,3) by (cases rest) (auto simp: ends_run_def takeWhile_append2)
  then show "skip_while P (pre @ x @ rest) (length pre) = Some (length pre + length x)"
    and "skip_while P (x @ rest) 0 = Some (length x)"
    using assms(1) by (simp_all add: skip_while_eq)
qed

section \<open>Texts over a class of characters\<close>

text \<open>Characters of the class and escapes.\<close>

fun url_text :: "(char \<Rightarrow> bool) \<Rightarrow> string \<Rightarrow> bool" where
  "url_text cls [] \<longleftrightarrow> True"
| "url_text cls [c] \<longleftrightarrow> c \<noteq> CHR ''%'' \<and> cls c"
| "url_text cls [c, a] \<longleftrightarrow> c \<noteq> CHR ''%'' \<and> cls c \<and> url_text cls [a]"
| "url_text cls (c # a # b # s) \<longleftrightarrow>
     (if c = CHR ''%'' then isxdigit a \<and> isxdigit b \<and> url_text cls s
      else cls c \<and> url_text cls (a # b # s))"

lemma url_text_plain [simp]: "c \<noteq> CHR ''%'' \<Longrightarrow> url_text cls (c # s) \<longleftrightarrow> cls c \<and> url_text cls s"
  by (cases "(cls, c # s)" rule: url_text.cases) auto

lemma url_text_escape:
  "url_text cls (CHR ''%'' # s) \<longleftrightarrow> (\<exists>a b r. s = a # b # r \<and> isxdigit a \<and> isxdigit b \<and> url_text cls r)"
  by (cases "(cls, CHR ''%'' # s)" rule: url_text.cases) auto

lemma url_text_append: "url_text cls x \<Longrightarrow> url_text cls y \<Longrightarrow> url_text cls (x @ y)"
  by (induction cls x rule: url_text.induct) (auto simp: url_text_escape split: if_splits)

lemma url_text_run: "\<forall>c \<in> set x. cls c \<and> c \<noteq> CHR ''%'' \<Longrightarrow> url_text cls x"
  by (induction x) auto

lemma pct_triple_plain: "char_at s pos = Some c \<Longrightarrow> c \<noteq> CHR ''%'' \<Longrightarrow> pct_triple s err pos = Some (Inr pos)"
  by (simp add: pct_triple_def)

lemma xdigit_not_NUL: "isxdigit c \<Longrightarrow> c \<noteq> NUL"
  by (auto simp: isxdigit_def isdigit_def NUL_def)

lemma pct_triple_result:
  assumes "pos \<le> length s"
  obtains "pct_triple s err pos = Some (Inl err)"
  | "pct_triple s err pos = Some (Inr pos)" "char_at s pos \<noteq> Some CHR ''%''"
  | a b where "pct_triple s err pos = Some (Inr (pos + 3))" "pos + 3 \<le> length s"
      "drop pos s = CHR ''%'' # a # b # drop (pos + 3) s" "isxdigit a" "isxdigit b"
proof -
  obtain c where c: "char_at s pos = Some c" using assms by (rule char_at_in)
  show thesis
  proof (cases "c = CHR ''%''")
    case False
    then show thesis using c by (intro that(2)) (auto simp: pct_triple_plain)
  next
    case True
    then have n0: "c \<noteq> NUL" by simp
    then have d0: "drop pos s = c # drop (Suc pos) s" and l0: "Suc pos \<le> length s"
      using c drop_char char_at_not_NUL [OF c] by auto
    obtain h1 where h1: "char_at s (Suc pos) = Some h1" using l0 by (rule char_at_in)
    show thesis
    proof (cases "isxdigit h1")
      case False
      then show thesis using c True h1 by (intro that(1)) (simp add: pct_triple_def)
    next
      case x1: True
      then have "h1 \<noteq> NUL" by (rule xdigit_not_NUL)
      then have d1: "drop (Suc pos) s = h1 # drop (Suc (Suc pos)) s" and l1: "Suc (Suc pos) \<le> length s"
        using h1 drop_char char_at_not_NUL [OF h1] by auto
      obtain h2 where h2: "char_at s (Suc (Suc pos)) = Some h2" using l1 by (rule char_at_in)
      show thesis
      proof (cases "isxdigit h2")
        case False
        then show thesis using c True h1 x1 h2
          by (intro that(1)) (simp add: pct_triple_def numeral_eq_Suc)
      next
        case x2: True
        then have "h2 \<noteq> NUL" by (rule xdigit_not_NUL)
        then have d2: "drop (Suc (Suc pos)) s = h2 # drop (Suc (Suc (Suc pos))) s"
          and l2: "Suc (Suc (Suc pos)) \<le> length s"
          using h2 drop_char char_at_not_NUL [OF h2] by auto
        show thesis
          by (rule that(3) [of h1 h2])
            (use c True h1 x1 h2 x2 d0 d1 d2 l2 in \<open>simp_all add: pct_triple_def numeral_eq_Suc\<close>)
      qed
    qed
  qed
qed

text \<open>
  What a scanning loop relies on: the class contains neither the terminator nor the percent sign, and
  the loop does not stop at a character of the class or at a percent sign.
\<close>

locale url_token =
  fixes cls :: "char \<Rightarrow> bool" and stops :: "char \<Rightarrow> bool"
  assumes cls_NUL: "\<not> cls NUL"
    and cls_pct: "\<not> cls CHR ''%''"
    and stops_pct: "\<not> stops CHR ''%''"
    and stops_cls: "cls c \<Longrightarrow> \<not> stops c"
begin

text \<open>The first step of a round: a run of characters of the class, empty only when none is there.\<close>

definition leading :: "bool \<Rightarrow> string \<Rightarrow> nat" where
  "leading many x = (if many then length (takeWhile cls x) else if x \<noteq> [] \<and> cls (hd x) then 1 else 0)"

lemma leading_le: "leading many x \<le> length x"
  by (simp add: leading_def length_takeWhile_le Suc_le_eq)

lemma leading_cls: "\<forall>c \<in> set (take (leading many x) x). cls c"
  by (cases x) (auto simp: leading_def takeWhile_eq_take [symmetric] dest: set_takeWhileD)

lemma leading_step:
  assumes "pos \<le> length s"
  shows "(if many then skip_while cls s pos
          else do { c \<leftarrow> char_at s pos; Some (if cls c then pos + 1 else pos) })
         = Some (pos + leading many (drop pos s))"
  using assms cls_NUL
  by (auto simp: leading_def skip_while_eq char_at_def hd_drop_conv_nth split: if_splits)

lemma token_loop_round:
  assumes "pos \<le> length s" and "pos1 = pos + leading many (drop pos s)"
  shows "token_loop cls many nul err stops s pos =
    (if pos1 = length s \<and> nul \<noteq> None \<or> pos1 < length s \<and> s ! pos1 = NUL \<and> nul \<noteq> None
     then Some (Inl (the nul))
     else do {
       r \<leftarrow> pct_triple s err pos1;
       case r of
         Inl rc \<Rightarrow> Some (Inl rc)
       | Inr pos2 \<Rightarrow> do {
           d \<leftarrow> char_at s pos2;
           if \<not> stops d \<and> pos2 \<noteq> pos then token_loop cls many nul err stops s pos2
           else Some (Inr pos2) } })"
proof -
  have "pos1 \<le> length s"
    using assms leading_le [of many "drop pos s"] by simp
  then obtain c where "char_at s pos1 = Some c" "c = NUL \<longleftrightarrow> pos1 = length s \<or> s ! pos1 = NUL"
    by (rule char_at_in)
  with \<open>pos1 \<le> length s\<close> assms show ?thesis
    by (subst token_loop.simps) (auto simp: leading_step)
qed

lemma text_prefix: "url_text cls (take (leading many x) x)"
  using leading_cls [of many x] cls_pct by (intro url_text_run) auto

text \<open>The loop ends in bounds; what it passed is a text over the class.\<close>

lemma token_loop_safe:
  assumes "pos \<le> length s"
  shows "\<exists>r. token_loop cls many nul err stops s pos = Some r \<and>
    (\<forall>rc. r = Inl rc \<longrightarrow> rc = err \<or> nul = Some rc) \<and>
    (\<forall>q. r = Inr q \<longrightarrow> pos \<le> q \<and> q \<le> length s \<and> url_text cls (take (q - pos) (drop pos s)))"
  using assms
proof (induction "length s - pos" arbitrary: pos rule: less_induct)
  case less
  let ?k = "leading many (drop pos s)"
  have k: "pos + ?k \<le> length s" using less.prems leading_le [of many "drop pos s"] by simp
  have run: "url_text cls (take ?k (drop pos s))" by (rule text_prefix)
  have go: ?case
    if r: "pct_triple s err (pos + ?k) = Some (Inr q)" and q: "pos \<le> q" "q \<le> length s"
      and t: "url_text cls (take (q - pos) (drop pos s))" for q
  proof (cases "pos + ?k = length s \<and> nul \<noteq> None \<or> pos + ?k < length s \<and> s ! (pos + ?k) = NUL \<and> nul \<noteq> None")
    case True
    then show ?thesis using less.prems by (subst token_loop_round [OF _ refl]) auto
  next
    case False
    obtain d where d: "char_at s q = Some d" using q(2) by (rule char_at_in)
    show ?thesis
    proof (cases "\<not> stops d \<and> q \<noteq> pos")
      case more: True
      have IH: "\<exists>r. token_loop cls many nul err stops s q = Some r \<and>
          (\<forall>rc. r = Inl rc \<longrightarrow> rc = err \<or> nul = Some rc) \<and>
          (\<forall>p. r = Inr p \<longrightarrow> q \<le> p \<and> p \<le> length s \<and> url_text cls (take (p - q) (drop q s)))"
        using more q by (intro less.hyps) auto
      have join: "url_text cls (take (p - pos) (drop pos s))"
        if "q \<le> p" "url_text cls (take (p - q) (drop q s))" for p
      proof -
        have "take ((q - pos) + (p - q)) (drop pos s) = take (q - pos) (drop pos s) @ take (p - q) (drop q s)"
          using q by (subst take_add) simp
        moreover have "(q - pos) + (p - q) = p - pos" using that q by simp
        ultimately have "take (p - pos) (drop pos s) = take (q - pos) (drop pos s) @ take (p - q) (drop q s)"
          by simp
        then show ?thesis using t that by (simp add: url_text_append)
      qed
      show ?thesis
        using IH join q r d more False less.prems by (subst token_loop_round [OF _ refl]) auto
    next
      case stop: False
      then show ?thesis
        using r d q t False less.prems by (subst token_loop_round [OF _ refl]) auto
    qed
  qed
  show ?case
    using k
  proof (cases rule: pct_triple_result [where err = err])
    case 1
    then show ?thesis using less.prems by (subst token_loop_round [OF _ refl]) auto
  next
    case 2
    then show ?thesis using k run by (intro go [of "pos + ?k"]) auto
  next
    case (3 a b)
    have "take (?k + 3) (drop pos s) = take ?k (drop pos s) @ take 3 (drop (pos + ?k) s)"
      by (subst take_add) (simp add: add.commute)
    also have "take 3 (drop (pos + ?k) s) = [CHR ''%'', a, b]"
      using 3(3) by (simp add: numeral_eq_Suc)
    finally have "url_text cls (take (?k + 3) (drop pos s))"
      using run 3 by (simp add: url_text_append)
    then show ?thesis using k 3 by (intro go [of "pos + ?k + 3"]) (auto simp: add.assoc)
  qed
qed

lemma text_suffix:
  assumes "url_text cls x" and "y = drop (leading many x) x"
  shows "url_text cls y"
proof -
  have strip: "url_text cls v" if "\<forall>c \<in> set u. cls c" "url_text cls (u @ v)" for u v
    using that
  proof (induction u)
    case (Cons a u)
    then show ?case using cls_pct by (cases "a = CHR ''%''") auto
  qed simp
  show ?thesis
    using strip [of "take (leading many x) x" y] leading_cls assms by simp
qed

lemma leading_stuck:
  assumes "leading many x = 0"
  shows "x = [] \<or> \<not> cls (hd x)"
  using assms by (cases x) (auto simp: leading_def split: if_splits)

text \<open>A text over the class is passed as a whole when something else follows.\<close>

lemma token_loop_text:
  assumes "url_text cls x" and "char_at rest 0 = Some c" and "\<not> cls c" and "c \<noteq> CHR ''%''"
    and "nul = None \<or> c \<noteq> NUL \<and> NUL \<notin> set x"
  shows "token_loop cls many nul err stops (pre @ x @ rest) (length pre) = Some (Inr (length pre + length x))"
  using assms(1,5)
proof (induction "length x" arbitrary: x pre rule: less_induct)
  case less
  let ?s = "pre @ x @ rest"
  let ?k = "leading many x"
  let ?pos1 = "length pre + ?k"
  have c: "rest = [] \<and> c = NUL \<or> rest \<noteq> [] \<and> c = hd rest"
    using assms(2) by (cases rest) auto
  have k: "leading many (x @ rest) = ?k"
  proof (cases rest)
    case Nil
    then show ?thesis by simp
  next
    case (Cons a r)
    then have "\<not> cls a" using c assms(3) by auto
    moreover from this have "takeWhile cls (x @ rest) = takeWhile cls x"
      using Cons by (cases "\<forall>b \<in> set x. cls b") (auto simp: takeWhile_append1 takeWhile_append2 takeWhile_eq_all_conv [THEN iffD2])
    ultimately show ?thesis
      using Cons by (simp add: leading_def hd_append)
  qed
  define u0 y where "u0 = take ?k x" and y: "y = drop ?k x"
  then have x: "x = u0 @ y" and len: "length u0 = ?k" using leading_le [of many x] by simp_all
  have round: "token_loop cls many nul err stops ?s (length pre) =
     do {
       r \<leftarrow> pct_triple ?s err ?pos1;
       case r of
         Inl rc \<Rightarrow> Some (Inl rc)
       | Inr pos2 \<Rightarrow> do {
           d \<leftarrow> char_at ?s pos2;
           if \<not> stops d \<and> pos2 \<noteq> length pre then token_loop cls many nul err stops ?s pos2
           else Some (Inr pos2) } }"
  proof -
    have "x ! ?k \<noteq> NUL" if "NUL \<notin> set x" "?k < length x"
      using that by (metis nth_mem)
    then have "\<not> (?pos1 = length ?s \<and> nul \<noteq> None \<or> ?pos1 < length ?s \<and> ?s ! ?pos1 = NUL \<and> nul \<noteq> None)"
      using less.prems(2) c leading_le [of many x]
      by (cases rest) (auto simp: nth_append)
    moreover have "?pos1 = length pre + leading many (drop (length pre) ?s)" by (simp add: k)
    ultimately show ?thesis
      by (subst token_loop_round [of "length pre" ?s ?pos1]) (simp, assumption, simp only: if_False)
  qed
  have cont: "do {
       d \<leftarrow> char_at ?s (length pre + length u);
       if \<not> stops d \<and> length pre + length u \<noteq> length pre
       then token_loop cls many nul err stops ?s (length pre + length u)
       else Some (Inr (length pre + length u)) } = Some (Inr (length pre + length x))"
    if u: "x = u @ z" "z \<noteq> [] \<Longrightarrow> u \<noteq> []" and z: "url_text cls z" for u z
  proof -
    have IH: "token_loop cls many nul err stops ?s (length pre + length u) = Some (Inr (length pre + length x))"
      if "u \<noteq> []"
      using less.hyps [of z "pre @ u"] u z less.prems(2) that by (auto simp: add.assoc)
    have "\<not> stops (hd z)" if "z \<noteq> []"
      using z that stops_cls stops_pct by (cases z; cases "hd z = CHR ''%''") auto
    moreover have "char_at ?s (length pre + length u) = Some (if z = [] then c else hd z)"
      using u assms(2) by (cases z) simp_all
    ultimately show ?thesis
      using IH u by (cases "z = []"; cases "u = []") auto
  qed
  show ?case
  proof (cases y)
    case Nil
    then have "?pos1 = length pre + length x" using x len by auto
    moreover have "pct_triple ?s err (length pre + length x) = Some (Inr (length pre + length x))"
      using assms(2,4) char_at_skip [of "pre @ x" rest 0] by (intro pct_triple_plain) auto
    ultimately show ?thesis using cont [of x "[]"] round by simp
  next
    case (Cons e y')
    have ty: "url_text cls y" by (rule text_suffix [OF less.prems(1) y])
    have e: "char_at ?s ?pos1 = Some e"
      using char_at_skip [of "pre @ u0" "y @ rest" 0] x len Cons by simp
    show ?thesis
    proof (cases "e = CHR ''%''")
      case True
      then obtain a b r where y': "y' = a # b # r" "isxdigit a" "isxdigit b" "url_text cls r"
        using ty Cons by (auto simp: url_text_escape)
      then have xs: "x = (u0 @ [e, a, b]) @ r" using x Cons by simp
      have "char_at ((pre @ u0) @ e # a # b # r @ rest) (length (pre @ u0) + 1) = Some a"
        and "char_at ((pre @ u0) @ e # a # b # r @ rest) (length (pre @ u0) + 2) = Some b"
        by (simp_all only: char_at_skip) (simp_all add: numeral_eq_Suc)
      moreover have "?s = (pre @ u0) @ e # a # b # r @ rest" using xs by simp
      moreover have "?pos1 = length (pre @ u0)" using len by simp
      ultimately have "char_at ?s (?pos1 + 1) = Some a" and "char_at ?s (?pos1 + 2) = Some b"
        by (simp_all only:)
      then have "pct_triple ?s err ?pos1 = Some (Inr (?pos1 + 3))"
        using e True y' by (simp add: pct_triple_def)
      moreover have "length pre + length (u0 @ [e, a, b]) = ?pos1 + 3" using len by simp
      ultimately show ?thesis
        using cont [OF xs _ y'(4)] by (simp only: round) simp
    next
      case False
      then have "cls e" using ty Cons by simp
      then have k0: "?k \<noteq> 0" using x len Cons leading_stuck [of many x] by (cases u0) auto
      then have "u0 \<noteq> []" using len by auto
      then show ?thesis
        using cont [OF x _ ty] pct_triple_plain [OF e False, of err] by (simp only: round len) simp
    qed
  qed
qed

text \<open>It passes at least the leading run.\<close>

lemma token_loop_progress:
  assumes "pos \<le> length s" and "token_loop cls many nul err stops s pos = Some (Inr q)"
  shows "pos + leading many (drop pos s) \<le> q"
proof -
  let ?pos1 = "pos + leading many (drop pos s)"
  have in_s: "?pos1 \<le> length s" using assms(1) leading_le [of many "drop pos s"] by simp
  have go: "n \<le> q" if pct: "pct_triple s err ?pos1 = Some (Inr n)" and n: "n \<le> length s" for n
  proof -
    obtain d where "char_at s n = Some d" using n by (rule char_at_in)
    moreover have "n \<le> q" if "token_loop cls many nul err stops s n = Some (Inr q)"
      using token_loop_safe [OF n, of many nul err] that by auto
    ultimately show ?thesis
      using assms(2) pct by (auto simp: token_loop_round [OF assms(1) refl] split: if_splits)
  qed
  show ?thesis
    using in_s
  proof (cases rule: pct_triple_result [where err = err])
    case 1
    then show ?thesis
      using assms(2) by (auto simp: token_loop_round [OF assms(1) refl] split: if_splits)
  next
    case 2
    then show ?thesis using go in_s by blast
  next
    case (3 a b)
    then show ?thesis using go [of "?pos1 + 3"] by simp
  qed
qed

end

lemmas url_classes = user_char_def host_char_def ipv6_char_def ldap_char_def path_char_def
  loose_path_char_def rfc_path_char_def scheme_char_def isalnum_def islower_def isxdigit_def isdigit_def
  globusl_url_issafe_def globusl_url_isextra_def globusl_url_isscheme_special_def globusl_url_isglob_def

interpretation prescan_token: url_token "\<lambda>c. user_char c \<or> c = CHR '':''" "\<lambda>c. c = CHR ''@''"
  by unfold_locales (auto simp: url_classes NUL_def)

interpretation user_token: url_token user_char "\<lambda>c. c = CHR ''@'' \<or> c = CHR '':''"
  by unfold_locales (auto simp: url_classes NUL_def)

interpretation password_token: url_token user_char "\<lambda>c. c = CHR ''@''"
  by unfold_locales (auto simp: url_classes NUL_def)

interpretation ldap_token: url_token ldap_char "\<lambda>c. c = CHR ''?''"
  by unfold_locales (auto simp: url_classes NUL_def)

interpretation path_token: url_token path_char "\<lambda>c. c = NUL"
  by unfold_locales (auto simp: url_classes NUL_def)

interpretation loose_path_token: url_token loose_path_char "\<lambda>c. c = NUL"
  by unfold_locales (auto simp: url_classes NUL_def)

lemma run_NUL [simp]: "\<not> host_char NUL" "\<not> ipv6_char NUL" "\<not> scheme_char NUL" "\<not> isdigit NUL"
  by (simp_all add: url_classes NUL_def)

section \<open>Decoding\<close>

text \<open>Every escape replaced by its byte, everything else kept.\<close>

fun pct_decode :: "string \<Rightarrow> string" where
  "pct_decode (c # a # b # s) =
     (if c = CHR ''%'' \<and> isxdigit a \<and> isxdigit b then hex_byte a b # pct_decode s
      else c # pct_decode (a # b # s))"
| "pct_decode s = s"

lemma length_pct_decode: "length (pct_decode s) \<le> length s"
  by (induction s rule: pct_decode.induct) auto

lemma pct_decode_plain [simp]: "c \<noteq> CHR ''%'' \<Longrightarrow> pct_decode (c # s) = c # pct_decode s"
  by (cases "c # s" rule: pct_decode.cases) (auto split: if_splits)

lemma pct_decode_run: "\<forall>c \<in> set s. c \<noteq> CHR ''%'' \<Longrightarrow> pct_decode s = s"
  by (induction s) auto

lemma c_cut_end [simp]: "c_cut (s @ [NUL]) = c_cut s"
  by (induction s) (auto simp: c_cut_def)

lemma c_cut_id [simp]: "c_string s \<Longrightarrow> c_cut s = s"
  by (auto simp: c_cut_def c_string_def takeWhile_eq_all_conv)

lemma c_cut_decode_end: "c_cut (pct_decode (s @ [NUL])) = c_cut (pct_decode s)"
proof (induction s rule: pct_decode.induct)
  case (1 c a b s)
  then show ?case by (auto simp: c_cut_def)
qed (use xdigit_not_NUL [of NUL] in \<open>auto simp: c_cut_def\<close>)

lemma char_at_terminated: "i \<le> length s \<Longrightarrow> char_at s i = Some ((s @ [NUL]) ! i)"
  by (auto simp: char_at_def nth_append)

lemma substring_loop_correct:
  assumes "n \<le> Suc (length s)" and "i \<le> n" and "length out \<le> i"
  shows "substring_loop s n i out = Some (out @ pct_decode (drop i (take n (s @ [NUL]))))"
  using assms(2,3)
proof (induction "n - i" arbitrary: i out rule: less_induct)
  case less
  define B where "B = take n (s @ [NUL])"
  then have len: "length B = n" using assms(1) by simp
  have at: "char_at s j = Some (B ! j)" if "j < n" for j
    using that assms(1) by (simp add: char_at_terminated B_def del: take_append)
  have split: "drop j B = B ! j # drop (Suc j) B" if "j < n" for j
    using that len by (simp add: Cons_nth_drop_Suc)
  have next1: "substring_loop s n (i + 1) (out @ [c]) = Some (out @ c # pct_decode (drop (Suc i) B))"
    if "i < n" for c
    using less.hyps [of "i + 1" "out @ [c]"] that less.prems by (simp add: B_def del: take_append)
  have next3: "substring_loop s n (i + 3) (out @ [c]) = Some (out @ c # pct_decode (drop (i + 3) B))"
    if "i + 2 < n" for c
    using less.hyps [of "i + 3" "out @ [c]"] that less.prems by (simp add: B_def del: take_append)
  have room: "buf_byte (n + 1) out c = Some (out @ [c])" if "i < n" for c
    using less.prems that by (simp add: buf_byte_def)
  consider "n \<le> i" | "i < n" "B ! i \<noteq> CHR ''%''" | "i < n" "B ! i = CHR ''%''" "n \<le> i + 2"
    | "i + 2 < n" "B ! i = CHR ''%''" by linarith
  then have "substring_loop s n i out = Some (out @ pct_decode (drop i B))"
  proof cases
    case 1
    then show ?thesis using len by (subst substring_loop.simps) simp
  next
    case 2
    then show ?thesis
      using at [of i] split [of i] next1 room by (subst substring_loop.simps) simp
  next
    case 3
    have "pct_decode (drop i B) = B ! i # pct_decode (drop (Suc i) B)"
    proof (cases "drop (Suc i) B")
      case (Cons a r)
      then have "length (a # r) = n - Suc i" using len by (metis length_drop)
      then have "r = []" using 3(1,3) by (cases r) auto
      then show ?thesis using split [of i] 3 Cons by simp
    qed (use split [of i] 3 in simp)
    then show ?thesis
      using 3 at [of i] next1 room by (subst substring_loop.simps) simp
  next
    case 4
    have d: "drop i B = B ! i # B ! (i + 1) # B ! (i + 2) # drop (i + 3) B"
      using split [of i] split [of "i + 1"] split [of "i + 2"] 4 by (simp add: numeral_eq_Suc)
    have d1: "drop (Suc i) B = B ! (i + 1) # B ! (i + 2) # drop (i + 3) B"
      using split [of "i + 1"] split [of "i + 2"] 4 by (simp add: numeral_eq_Suc)
    show ?thesis
      using 4 at [of i] at [of "i + 1"] at [of "i + 2"] next1 next3 room d d1
      by (subst substring_loop.simps) simp
  qed
  then show ?case by (simp add: B_def del: take_append)
qed

lemma get_substring_eq:
  assumes "n \<le> Suc (length s)"
  shows "globusl_url_get_substring room s n =
    (if room = 0 then Some (GLOBUS_URL_ERROR_NULL_STRING, None, room)
     else Some (GLOBUS_SUCCESS, Some (c_cut (pct_decode (take n (s @ [NUL])))), room - 1))"
proof -
  let ?d = "pct_decode (take n (s @ [NUL]))"
  have "length ?d \<le> n" using length_pct_decode [of "take n (s @ [NUL])"] by simp
  then have "buf_byte (n + 1) ?d NUL = Some (?d @ [NUL])" by (simp add: buf_byte_def)
  then show ?thesis
    using assms substring_loop_correct [of n s 0 "[]"] by (simp add: globusl_url_get_substring_def)
qed

text \<open>The field that results from copying \<open>n\<close> characters.\<close>

definition url_field :: "string \<Rightarrow> nat \<Rightarrow> string" where
  "url_field s n = c_cut (pct_decode (take n s))"

lemma store_substring_eq:
  assumes "n \<le> length (ps_string p)"
  shows "store_substring f n p =
    (if ps_room p = 0 then Some (GLOBUS_URL_ERROR_NULL_STRING, p\<lparr>ps_url := f None (ps_url p)\<rparr>)
     else Some (GLOBUS_SUCCESS, p\<lparr>ps_room := ps_room p - 1,
       ps_url := f (Some (url_field (ps_string p) n)) (ps_url p)\<rparr>))"
  using assms by (simp add: store_substring_def get_substring_eq url_field_def)

lemma store_substring_terminated:
  assumes "n = Suc (length (ps_string p))"
  shows "store_substring f n p =
    (if ps_room p = 0 then Some (GLOBUS_URL_ERROR_NULL_STRING, p\<lparr>ps_url := f None (ps_url p)\<rparr>)
     else Some (GLOBUS_SUCCESS, p\<lparr>ps_room := ps_room p - 1,
       ps_url := f (Some (url_field (ps_string p) (length (ps_string p)))) (ps_url p)\<rparr>))"
  using assms by (simp add: store_substring_def get_substring_eq url_field_def c_cut_decode_end)

section \<open>Encoding\<close>

definition encoded_char :: "string \<Rightarrow> char \<Rightarrow> bool" where
  "encoded_char enc c \<longleftrightarrow> (of_char c :: nat) \<le> 0x1F \<or> (of_char c :: nat) \<ge> 0x7F \<or> c = CHR ''%'' \<or> c \<in> set enc"

text \<open>The text the encoder produces.\<close>

fun pct_encode :: "string \<Rightarrow> string \<Rightarrow> string" where
  "pct_encode enc [] = []"
| "pct_encode enc (c # s) =
     (if encoded_char enc c
      then [CHR ''%'', hexchars ! (of_char c div 16), hexchars ! (of_char c mod 16)] @ pct_encode enc s
      else c # pct_encode enc s)"

lemma hexchars_inverse:
  assumes "n < 16"
  shows "isxdigit (hexchars ! n)" and "hex_value (hexchars ! n) = n" and "hexchars ! n \<noteq> NUL"
    and "hexchars ! n \<noteq> CHR ''%''"
proof -
  have "\<forall>n \<in> set [0..<16]. isxdigit (hexchars ! n) \<and> hex_value (hexchars ! n) = n \<and> hexchars ! n \<noteq> CHR ''%''"
    by code_simp
  then have "isxdigit (hexchars ! n) \<and> hex_value (hexchars ! n) = n \<and> hexchars ! n \<noteq> CHR ''%''"
    using assms by simp
  then show "isxdigit (hexchars ! n)" and "hex_value (hexchars ! n) = n" and "hexchars ! n \<noteq> NUL"
    and "hexchars ! n \<noteq> CHR ''%''"
    using xdigit_not_NUL by auto
qed

lemma of_char_nibbles: "(of_char c :: nat) div 16 < 16" "(of_char c :: nat) mod 16 < 16"
  using nat_of_char_less_256 [of c] by (simp_all add: div_less_iff_less_mult)

lemma hex_byte_inverse: "hex_byte (hexchars ! (of_char c div 16)) (hexchars ! (of_char c mod 16)) = c"
  by (simp add: hex_byte_def hexchars_inverse of_char_nibbles)

lemma hex_encode_loop_correct:
  "length out + 3 * length s \<le> cap \<Longrightarrow> hex_encode_loop cap enc s out = Some (out @ pct_encode enc s)"
proof (induction s arbitrary: out)
  case (Cons c s)
  then show ?case
    by (cases "encoded_char enc c") (auto simp: Let_def buf_byte_def encoded_char_def)
qed simp

lemma pct_encode_props:
  "c_string s \<Longrightarrow> c_string (pct_encode enc s)" "length (pct_encode enc s) \<le> 3 * length s"
  by (induction s) (auto simp: c_string_def hexchars_inverse(3) [OF of_char_nibbles(1), symmetric]
    hexchars_inverse(3) [OF of_char_nibbles(2), symmetric])

lemma hex_encode_correct:
  assumes "c_string s"
  shows "globus_url_string_hex_encode True (Some s) (Some enc) = Some (Some (pct_encode enc s))"
  using assms hex_encode_loop_correct [of "[]" s "3 * length s + 1" enc] pct_encode_props(1) [of s enc] pct_encode_props(2) [of enc s]
  by (simp add: globus_url_string_hex_encode_def buf_byte_def)

lemma pct_decode_encode: "pct_decode (pct_encode enc s) = s"
  by (induction s) (auto simp: hexchars_inverse of_char_nibbles hex_byte_inverse encoded_char_def)

lemma url_text_encode:
  assumes "\<And>c. c \<in> set s \<Longrightarrow> \<not> encoded_char enc c \<Longrightarrow> cls c"
  shows "url_text cls (pct_encode enc s)"
  using assms
proof (induction s)
  case (Cons c s)
  then show ?case
    by (cases "c = CHR ''%''") (auto simp: hexchars_inverse of_char_nibbles encoded_char_def)
qed simp

lemma hex_decode_plain: "c \<noteq> CHR ''%'' \<Longrightarrow> hex_decode_loop (c # s) = c # hex_decode_loop s"
  by (cases "c # s" rule: hex_decode_loop.cases) auto

lemma hex_decode_encode: "hex_decode_loop (pct_encode enc s) = s"
  by (induction s)
    (auto simp: hexchars_inverse of_char_nibbles hex_byte_inverse encoded_char_def hex_decode_plain)

lemma hex_decode_skips: "takeWhile (\<lambda>c. c \<noteq> CHR ''%'') s @ hex_decode_loop (dropWhile (\<lambda>c. c \<noteq> CHR ''%'') s)
    = hex_decode_loop s"
  by (induction s) (auto simp: hex_decode_plain)

text \<open>
  Percent encoding loses nothing: on every string and every set of characters to be escaped, the encoder
  stays inside its buffer of three bytes per character, and both the in-place decoder and the decoder
  of the parser return the original string.
\<close>

theorem globus_url_hex_roundtrip:
  assumes "c_string s"
  shows "\<exists>e. globus_url_string_hex_encode True (Some s) (Some enc) = Some (Some e) \<and>
    length e \<le> 3 * length s \<and> globus_url_string_hex_decode e = s \<and>
    globusl_url_get_substring (Suc room) e (length e) = Some (GLOBUS_SUCCESS, Some s, room)"
proof (intro exI conjI)
  show "globus_url_string_hex_encode True (Some s) (Some enc) = Some (Some (pct_encode enc s))"
    using assms by (rule hex_encode_correct)
  show "length (pct_encode enc s) \<le> 3 * length s" by (rule pct_encode_props)
  show "globus_url_string_hex_decode (pct_encode enc s) = s"
    using assms by (simp add: globus_url_string_hex_decode_def hex_decode_skips hex_decode_encode)
  show "globusl_url_get_substring (Suc room) (pct_encode enc s) (length (pct_encode enc s))
      = Some (GLOBUS_SUCCESS, Some s, room)"
    using assms by (simp add: get_substring_eq pct_decode_encode)
qed

theorem globus_url_hex_roundtrip_witness:
  "\<exists>e. globus_url_string_hex_encode True (Some ''a;b%'') (Some '';'') = Some (Some e) \<and>
    length e \<le> 12 \<and> globus_url_string_hex_decode e = ''a;b%'' \<and>
    globusl_url_get_substring 1 e (length e) = Some (GLOBUS_SUCCESS, Some ''a;b%'', 0)"
  using globus_url_hex_roundtrip [of "''a;b%''" "'';''" 0] by (simp add: c_string_def NUL_def)
end
