(* ===== verification/Globus_Url_Roundtrip.thy ===== *)
theory Globus_Url_Roundtrip
  imports Globus_Url
begin

text \<open>
  The scanners of \<open>globus_url.c\<close> on texts that follow the grammar of a URL: a scheme, a login, a host with
  a port and a path are read as they were written. The theorem composes them: a URL of the FTP family
  that was put together with the toolkit's percent encoder is parsed back to its parts.
\<close>

section \<open>Scanners on well-formed texts\<close>

lemma url_field_run:
  assumes "\<forall>c \<in> set x. c \<noteq> CHR ''%''" and "c_string x"
  shows "url_field (x @ rest) (length x) = x"
  using assms by (simp add: url_field_def pct_decode_run)

lemma url_field_encoded: "c_string x \<Longrightarrow> url_field (pct_encode enc x @ rest) (length (pct_encode enc x)) = x"
  by (simp add: url_field_def pct_decode_encode)

lemma pct_encode_empty [simp]: "pct_encode enc x = [] \<longleftrightarrow> x = []"
  by (cases x) auto

text \<open>Characters the callers have the encoder escape in a login and in a path: every printable character
  that the scanner does not accept.\<close>

definition login_enc :: string where
  "login_enc = '' /:@~#<>[]^{|}'' @ [CHR 0x22, CHR 0x5C, CHR 0x60]"

definition path_enc :: string where
  "path_enc = ''#<>[]^{|}'' @ [CHR 0x22, CHR 0x5C, CHR 0x60]"

lemma char_eq_code:
  "c = Char b0 b1 b2 b3 b4 b5 b6 b7 \<longleftrightarrow> (of_char c :: nat) = of_char (Char b0 b1 b2 b3 b4 b5 b6 b7)"
  by (rule of_char_eq_iff [symmetric])

lemma login_enc_complete:
  assumes "\<not> encoded_char login_enc c"
  shows "user_char c"
proof -
  define n where "n = (of_char c :: nat)"
  show ?thesis
    using assms
    by (simp only: encoded_char_def login_enc_def url_classes append.simps list.set insert_iff empty_iff
        char_eq_code [of c] n_def [symmetric]) (simp, presburger)
qed

lemma path_enc_complete:
  assumes "\<not> encoded_char path_enc c"
  shows "path_char c"
proof -
  define n where "n = (of_char c :: nat)"
  show ?thesis
    using assms
    by (simp only: encoded_char_def path_enc_def url_classes append.simps list.set insert_iff empty_iff
        char_eq_code [of c] n_def [symmetric]) (simp, presburger)
qed

lemma url_text_login: "url_text user_char (pct_encode login_enc x)"
  by (rule url_text_encode) (rule login_enc_complete)

lemma url_text_path: "url_text path_char (pct_encode path_enc x)"
  by (rule url_text_encode) (rule path_enc_complete)

lemma url_text_mono: "url_text cls x \<Longrightarrow> (\<And>c. cls c \<Longrightarrow> cls' c) \<Longrightarrow> url_text cls' x"
  by (induction cls x rule: url_text.induct) (auto split: if_splits)

lemma get_scheme_text:
  assumes "\<forall>c \<in> set name. scheme_char c" and "name \<noteq> []" and "ps_string p = name @ CHR '':'' # rest"
    and "0 < ps_room p"
  shows "globusl_url_get_scheme p = Some (GLOBUS_SUCCESS,
    \<lparr>ps_string = CHR '':'' # rest, ps_room = ps_room p - 1,
     ps_url = (ps_url p)\<lparr>u_scheme := Some name, u_scheme_type := scheme_of name\<rparr>\<rparr>)"
proof -
  have sc: "\<not> scheme_char CHR '':''" "\<not> scheme_char CHR ''%''" by (simp_all add: url_classes)
  have "skip_while scheme_char (ps_string p) 0 = Some (length name)"
    using assms(1,3) sc by (simp add: skip_while_run ends_run_def)
  moreover have "url_field (ps_string p) (length name) = name"
    unfolding assms(3) using assms(1) sc run_NUL(3)
    by (intro url_field_run) (auto simp: c_string_def)
  ultimately show ?thesis
    using assms(2-4) by (simp add: globusl_url_get_scheme_def store_substring_eq advance_def)
qed

lemma no_login_text:
  assumes "\<forall>c \<in> set x. user_char c \<or> c = CHR '':''" and "c_string x" and "ps_string p = x @ d # rest"
    and "\<not> user_char d" and "d \<noteq> CHR '':''" and "d \<noteq> CHR ''%''" and "d \<noteq> CHR ''@''" and "d \<noteq> NUL"
  shows "globusl_url_get_user_password p = Some (GLOBUS_SUCCESS, p)"
proof -
  have "\<not> user_char CHR ''%''" by (simp add: url_classes)
  then have "url_text (\<lambda>c. user_char c \<or> c = CHR '':'') x"
    using assms(1) by (intro url_text_run) auto
  then have "token_loop (\<lambda>c. user_char c \<or> c = CHR '':'') True (Some GLOBUS_SUCCESS)
      GLOBUS_URL_ERROR_BAD_USER (\<lambda>c. c = CHR ''@'') (ps_string p) 0 = Some (Inr (length x))"
    using prescan_token.token_loop_text [where pre = "[]" and c = d and x = x] assms
    by (simp add: c_string_def)
  then show ?thesis
    using assms(3,7) by (simp add: globusl_url_get_user_password_def)
qed

text \<open>The login in front of a host, as it is written and as it is read.\<close>

definition login_text :: "(string \<times> string option) option \<Rightarrow> string" where
  "login_text login =
     (case login of
        None \<Rightarrow> []
      | Some (user, None) \<Rightarrow> pct_encode login_enc user @ ''@''
      | Some (user, Some pw) \<Rightarrow> pct_encode login_enc user @ '':'' @ pct_encode login_enc pw @ ''@'')"

definition login_ok :: "(string \<times> string option) option \<Rightarrow> bool" where
  "login_ok login \<longleftrightarrow>
     (case login of None \<Rightarrow> True
      | Some (user, pw) \<Rightarrow> user \<noteq> [] \<and> c_string user
          \<and> (case pw of None \<Rightarrow> True | Some w \<Rightarrow> w \<noteq> [] \<and> c_string w))"

lemma password_text:
  assumes "pw \<noteq> []" and "c_string pw" and "ps_string p = pct_encode login_enc pw @ CHR ''@'' # rest"
    and "0 < ps_room p"
  shows "url_password_part p = Some (GLOBUS_SUCCESS,
    \<lparr>ps_string = rest, ps_room = ps_room p - 1, ps_url = (ps_url p)\<lparr>u_password := Some pw\<rparr>\<rparr>)"
proof -
  let ?e = "pct_encode login_enc pw"
  have at: "\<not> user_char CHR ''@''" by (simp add: url_classes)
  have "token_loop user_char False (Some GLOBUS_URL_ERROR_BAD_PASSWORD) GLOBUS_URL_ERROR_BAD_PASSWORD
      (\<lambda>c. c = CHR ''@'') (ps_string p) 0 = Some (Inr (length ?e))"
    using password_token.token_loop_text [where pre = "[]" and c = "CHR ''@''" and x = ?e] assms(2,3) at
      url_text_login pct_encode_props(1) by (simp add: c_string_def)
  then show ?thesis
    using assms by (simp add: url_password_part_def store_substring_eq advance_def url_field_encoded)
qed

lemma login_text_scanned:
  assumes "login = Some (user, pw)" and "login_ok login" and "ps_string p = login_text login @ rest"
    and "2 \<le> ps_room p"
  shows "globusl_url_get_user_password p = Some (GLOBUS_SUCCESS,
    \<lparr>ps_string = rest, ps_room = ps_room p - 1 - (if pw = None then 0 else 1),
     ps_url = (ps_url p)\<lparr>u_user := Some user, u_password := (if pw = None then u_password (ps_url p) else pw)\<rparr>\<rparr>)"
proof -
  let ?eu = "pct_encode login_enc user"
  define pwtext where "pwtext = (case pw of None \<Rightarrow> [] | Some w \<Rightarrow> CHR '':'' # pct_encode login_enc w)"
  have s: "ps_string p = ?eu @ pwtext @ CHR ''@'' # rest"
    using assms(1,3) by (cases pw) (simp_all add: login_text_def pwtext_def)
  have ok: "user \<noteq> []" "c_string user" "\<And>w. pw = Some w \<Longrightarrow> w \<noteq> [] \<and> c_string w"
    using assms(1,2) by (auto simp: login_ok_def)
  have ch: "\<not> user_char CHR ''@''" "\<not> user_char CHR '':''" by (simp_all add: url_classes)
  have c: "c_string ?eu" "c_string pwtext"
    using ok pct_encode_props(1) by (auto simp: pwtext_def c_string_def split: option.splits)
  have tu: "url_text (\<lambda>c. user_char c \<or> c = CHR '':'') (pct_encode login_enc z)" for z
    by (rule url_text_mono [OF url_text_login]) simp
  then have "url_text (\<lambda>c. user_char c \<or> c = CHR '':'') (?eu @ pwtext)"
    by (intro url_text_append) (auto simp: pwtext_def split: option.splits)
  then have pre: "token_loop (\<lambda>c. user_char c \<or> c = CHR '':'') True (Some GLOBUS_SUCCESS)
      GLOBUS_URL_ERROR_BAD_USER (\<lambda>c. c = CHR ''@'') (ps_string p) 0 = Some (Inr (length (?eu @ pwtext)))"
    using prescan_token.token_loop_text [where pre = "[]" and c = "CHR ''@''" and x = "?eu @ pwtext"
      and rest = "CHR ''@'' # rest"] s c ch by (simp add: c_string_def)
  have found: "char_at (ps_string p) (length (?eu @ pwtext)) = Some CHR ''@''"
    using char_at_skip [of "?eu @ pwtext" "CHR ''@'' # rest" 0] s by simp
  define d where "d = hd (pwtext @ CHR ''@'' # rest)"
  have d: "char_at (pwtext @ CHR ''@'' # rest) 0 = Some d" "d = (if pw = None then CHR ''@'' else CHR '':'')"
    by (auto simp: d_def pwtext_def split: option.splits)
  then have user: "token_loop user_char True (Some GLOBUS_SUCCESS) GLOBUS_URL_ERROR_BAD_USER
      (\<lambda>c. c = CHR ''@'' \<or> c = CHR '':'') (ps_string p) 0 = Some (Inr (length ?eu))"
    using user_token.token_loop_text [where pre = "[]" and c = d and x = ?eu
      and rest = "pwtext @ CHR ''@'' # rest"] s c ch url_text_login [of user]
    by (simp add: c_string_def)
  have stop: "char_at (ps_string p) (length ?eu) = Some d" using s d by simp
  have field: "url_field (ps_string p) (length ?eu) = user"
    unfolding s using ok(2) by (rule url_field_encoded)
  show ?thesis
  proof (cases pw)
    case None
    then show ?thesis
      using pre found user stop field d ok(1) s assms(4)
      by (simp add: globusl_url_get_user_password_def store_substring_eq advance_def pwtext_def)
  next
    case (Some w)
    let ?p1 = "advance (length ?eu + 1) (p\<lparr>ps_room := ps_room p - 1, ps_url := set_user (Some user) (ps_url p)\<rparr>)"
    have "url_password_part ?p1 = Some (GLOBUS_SUCCESS, \<lparr>ps_string = rest, ps_room = ps_room p - 2,
      ps_url = (ps_url p)\<lparr>u_user := Some user, u_password := Some w\<rparr>\<rparr>)"
      using password_text [of w ?p1 rest] ok(3) [OF Some] s assms(4) Some
      by (simp add: advance_def pwtext_def)
    then show ?thesis
      using pre found user stop field d ok(1) s assms(4) Some
      by (simp add: globusl_url_get_user_password_def store_substring_eq)
  qed
qed

text \<open>A host, in brackets when it is an IPv6 address, and a port that is left out when it is zero.\<close>

definition host_ok :: "string \<Rightarrow> bool" where
  "host_ok host \<longleftrightarrow> host \<noteq> [] \<and> (if CHR '':'' \<in> set host then \<forall>c \<in> set host. ipv6_char c
     else \<forall>c \<in> set host. host_char c)"

definition host_text :: "string \<Rightarrow> string" where
  "host_text host = (if CHR '':'' \<in> set host then ''['' @ host @ '']'' else host)"

definition port_text :: "int \<Rightarrow> string" where
  "port_text port = (if port = 0 then [] else '':'' @ print_int port)"

lemma print_port:
  assumes "0 \<le> port"
  shows "\<forall>c \<in> set (print_int port). isdigit c" and "print_int port \<noteq> []"
  using assms by (auto simp: print_int_def dest: digits_isdigit)

lemma isdigit_plain: "isdigit c \<Longrightarrow> c \<noteq> CHR ''%'' \<and> c \<noteq> NUL \<and> user_char c"
  by (auto simp: url_classes NUL_def)

lemma port_text_scanned:
  assumes "0 \<le> port" and "port < 2 ^ 31" and "ps_string p = port_text port @ CHR ''/'' # rest"
    and "0 < ps_room p" and "u_port (ps_url p) = 0"
  shows "url_port_part p = Some (GLOBUS_SUCCESS,
    \<lparr>ps_string = CHR ''/'' # rest, ps_room = ps_room p, ps_url = (ps_url p)\<lparr>u_port := port mod 65536\<rparr>\<rparr>)"
proof (cases "port = 0")
  case True
  have "(ps_url p)\<lparr>u_port := 0\<rparr> = ps_url p" using assms(5) by simp
  then show ?thesis
    using True assms by (simp add: url_port_part_def port_text_def)
next
  case False
  let ?d = "print_int port"
  have d: "\<forall>c \<in> set ?d. isdigit c" using print_port assms(1) by blast
  have s: "ps_string p = CHR '':'' # ?d @ CHR ''/'' # rest" using False assms(3) by (simp add: port_text_def)
  have "ends_run isdigit (CHR ''/'' # rest)" by (simp add: ends_run_def isdigit_def)
  then have "skip_while isdigit (?d @ CHR ''/'' # rest) 0 = Some (length ?d)"
    using d by (simp add: skip_while_run)
  moreover have "pct_decode ?d = ?d" and "c_string ?d"
    using d isdigit_plain by (auto intro!: pct_decode_run simp: c_string_def)
  moreover have "atoi ?d = port"
    using assms(1,2) by (intro atoi_print_int) (simp add: int_range_def)
  ultimately show ?thesis
    using s assms(1,2,4) print_port(2)
    by (simp add: url_port_part_def advance_def get_substring_eq)
qed

lemma host_part_scanned:
  assumes "host \<noteq> []" and "\<forall>c \<in> set host. cls c" and "\<not> cls NUL" and "\<not> cls CHR ''%''"
    and "close = [] \<or> close = '']''" and tail: "tail = port_text port @ CHR ''/'' # rest"
    and "ends_run cls (close @ tail)" and s: "ps_string p = host @ close @ tail"
    and "0 \<le> port" and "port < 2 ^ 31" and "2 \<le> ps_room p" and "u_port (ps_url p) = 0"
  shows "url_host_part cls p = Some (GLOBUS_SUCCESS,
    \<lparr>ps_string = CHR ''/'' # rest, ps_room = ps_room p - 1,
     ps_url = (ps_url p)\<lparr>u_host := Some host, u_port := port mod 65536\<rparr>\<rparr>)"
proof -
  obtain t r where t: "tail = t # r" "t = CHR ''/'' \<or> t = CHR '':''"
    using tail by (cases "port = 0") (auto simp: port_text_def)
  have skip: "skip_while cls (ps_string p) 0 = Some (length host)"
    unfolding s using assms(2,3,7) by (intro skip_while_run) auto
  have "url_field (ps_string p) (length host) = host"
    unfolding s using assms(2-4) by (intro url_field_run) (auto simp: c_string_def)
  then have store: "store_substring set_host (length host) p = Some (GLOBUS_SUCCESS,
      p\<lparr>ps_room := ps_room p - 1, ps_url := set_host (Some host) (ps_url p)\<rparr>)" (is "_ = Some (_, ?q)")
    using s assms(11) by (simp add: store_substring_eq)
  have port: "url_port_part (advance (length host + length close) ?q) = Some (GLOBUS_SUCCESS,
    \<lparr>ps_string = CHR ''/'' # rest, ps_room = ps_room p - 1,
     ps_url = (ps_url p)\<lparr>u_host := Some host, u_port := port mod 65536\<rparr>\<rparr>)"
    using port_text_scanned [of port "advance (length host + length close) ?q" rest] assms s
    by (simp add: advance_def)
  have at: "char_at (ps_string p) (length host + k) = char_at (close @ tail) k" for k
    unfolding s by (rule char_at_skip)
  have len: "length host \<noteq> 0" using assms(1) by simp
  show ?thesis
  proof (cases "close = []")
    case True
    then have c: "char_at (ps_string p) (length host) = Some t" using at [of 0] t by simp
    show ?thesis
      unfolding url_host_part_def skip bind.bind_lunit c store Let_def
      using len t(2) port True by auto
  next
    case False
    then have c: "char_at (ps_string p) (length host) = Some CHR '']''"
      and d: "char_at (ps_string p) (length host + 1) = Some t"
      using at [of 0] at [of 1] t assms(5) by auto
    show ?thesis
      unfolding url_host_part_def skip bind.bind_lunit c d store Let_def
      using len t(2) port False assms(5) by (auto simp: d)
  qed
qed

lemma host_port_scanned:
  assumes "host_ok host" and "0 \<le> port" and "port < 2 ^ 31"
    and "ps_string p = host_text host @ port_text port @ CHR ''/'' # rest" and "2 \<le> ps_room p"
  shows "globusl_url_get_host_port p = Some (GLOBUS_SUCCESS,
    \<lparr>ps_string = CHR ''/'' # rest, ps_room = ps_room p - 1,
     ps_url = (ps_url p)\<lparr>u_host := Some host, u_port := port mod 65536\<rparr>\<rparr>)"
proof -
  let ?tail = "port_text port @ CHR ''/'' # rest"
  let ?p0 = "p\<lparr>ps_url := (ps_url p)\<lparr>u_port := 0\<rparr>\<rparr>"
  have ne: "host \<noteq> []" using assms(1) by (simp add: host_ok_def)
  have plain: "\<not> ipv6_char CHR ''%''" "\<not> host_char CHR ''%''" "\<not> ipv6_char CHR '']''" "\<not> host_char CHR ''[''"
    "\<not> host_char CHR '':''" "\<not> host_char CHR ''/''"
    by (simp_all add: url_classes)
  have tail: "hd ?tail = CHR ''/'' \<or> hd ?tail = CHR '':''" by (simp add: port_text_def)
  show ?thesis
  proof (cases "CHR '':'' \<in> set host")
    case True
    then have "url_host_part ipv6_char (advance 1 ?p0) = Some (GLOBUS_SUCCESS,
      \<lparr>ps_string = CHR ''/'' # rest, ps_room = ps_room (advance 1 ?p0) - 1,
       ps_url = (ps_url (advance 1 ?p0))\<lparr>u_host := Some host, u_port := port mod 65536\<rparr>\<rparr>)"
      using assms ne plain
      by (intro host_part_scanned [where close = "'']''" and tail = ?tail])
        (auto simp: host_ok_def host_text_def ends_run_def advance_def)
    then show ?thesis
      using True assms(4) by (simp add: globusl_url_get_host_port_def host_text_def advance_def)
  next
    case False
    then have run: "\<forall>c \<in> set host. host_char c" using assms(1) by (simp add: host_ok_def)
    then have "url_host_part host_char ?p0 = Some (GLOBUS_SUCCESS,
      \<lparr>ps_string = CHR ''/'' # rest, ps_room = ps_room ?p0 - 1,
       ps_url = (ps_url ?p0)\<lparr>u_host := Some host, u_port := port mod 65536\<rparr>\<rparr>)"
      using assms ne plain False tail
      by (intro host_part_scanned [where close = "[]" and tail = ?tail])
        (auto simp: host_text_def ends_run_def)
    moreover have "char_at (ps_string p) 0 = Some (hd host)" "hd host \<noteq> CHR ''[''"
      using assms(4) ne False run plain by (cases host; auto simp: host_text_def)+
    ultimately show ?thesis
      by (simp add: globusl_url_get_host_port_def)
  qed
qed

lemma encoded_path_head:
  assumes "path = CHR ''/'' # q"
  shows "pct_encode path_enc path = CHR ''/'' # pct_encode path_enc q"
    and "q \<noteq> [] \<Longrightarrow> pct_encode path_enc q ! 0 = CHR ''~'' \<longleftrightarrow> hd q = CHR ''~''"
proof -
  have plain: "\<not> encoded_char path_enc CHR ''/''" "\<not> encoded_char path_enc CHR ''~''"
    by (simp_all add: encoded_char_def path_enc_def)
  then show "pct_encode path_enc path = CHR ''/'' # pct_encode path_enc q"
    using assms by simp
  show "pct_encode path_enc q ! 0 = CHR ''~'' \<longleftrightarrow> hd q = CHR ''~''" if "q \<noteq> []"
    using plain(2) that by (cases q) auto
qed

lemma path_scanned:
  assumes "path = CHR ''/'' # q" and "c_string path" and "ps_string p = pct_encode path_enc path"
    and "0 < ps_room p" and "ftp_scheme t"
  shows "\<exists>rest. globusl_url_get_path t p = Some (GLOBUS_SUCCESS,
    \<lparr>ps_string = rest, ps_room = ps_room p - 1,
     ps_url = (ps_url p)\<lparr>u_url_path := Some (if take 2 path = ''/~'' then q else path)\<rparr>\<rparr>)"
proof -
  let ?e = "pct_encode path_enc path"
  have ne: "?e \<noteq> []" using assms(1) by simp
  have "token_loop path_char False None GLOBUS_URL_ERROR_BAD_PATH (\<lambda>c. c = NUL) ?e 0 = Some (Inr (length ?e))"
    using path_token.token_loop_text [where pre = "[]" and rest = "[]" and c = NUL and x = ?e] url_text_path
      path_token.cls_NUL by simp
  then have eq: "globusl_url_get_path t p = store_substring set_path (length ?e)
      (if length ?e > 1 \<and> ?e ! 0 = CHR ''/'' \<and> ?e ! 1 = CHR ''~'' then advance 1 p else p)"
    using assms(3,5) ne by (simp add: globusl_url_get_path_def url_path_part_def)
  note e = encoded_path_head [OF assms(1)]
  have tilde: "(length ?e > 1 \<and> ?e ! 0 = CHR ''/'' \<and> ?e ! 1 = CHR ''~'') \<longleftrightarrow> take 2 path = ''/~''"
    using e assms(1) by (cases q) (auto simp del: pct_encode.simps)
  show ?thesis
  proof (cases "take 2 path = ''/~''")
    case True
    then have q: "c_string q" using assms(1,2) by (simp add: c_string_def)
    have "ps_string (advance 1 p) = pct_encode path_enc q" using e(1) assms(3) by (simp add: advance_def)
    then have "store_substring set_path (length ?e) (advance 1 p) = Some (GLOBUS_SUCCESS,
      (advance 1 p)\<lparr>ps_room := ps_room p - 1, ps_url := set_path (Some q) (ps_url p)\<rparr>)"
      using e(1) assms(4) q url_field_encoded [OF q, of path_enc "[]"]
      by (subst store_substring_terminated) (simp_all add: advance_def)
    then show ?thesis using True eq tilde by (cases p) (auto simp: advance_def)
  next
    case False
    then have "globusl_url_get_path t p = store_substring set_path (length ?e) p"
      using eq unfolding tilde by simp
    then have "globusl_url_get_path t p = Some (GLOBUS_SUCCESS,
      p\<lparr>ps_room := ps_room p - 1, ps_url := set_path (Some path) (ps_url p)\<rparr>)"
      using assms(3,4) url_field_encoded [OF assms(2), of path_enc "[]"]
      by (simp add: store_substring_eq)
    then show ?thesis using False by (cases p) auto
  qed
qed

section \<open>Writing and reading an FTP URL\<close>

text \<open>A URL put together with the toolkit's encoder.\<close>

definition hex_encoded :: "string \<Rightarrow> string \<Rightarrow> string option" where
  "hex_encoded s enc = Option.bind (globus_url_string_hex_encode True (Some s) (Some enc)) id"

definition ftp_url_text :: "string \<Rightarrow> (string \<times> string option) option \<Rightarrow> string \<Rightarrow> int \<Rightarrow> string \<Rightarrow> string option" where
  "ftp_url_text scheme login host port path =
     do {
       l \<leftarrow> (case login of
               None \<Rightarrow> Some []
             | Some (user, None) \<Rightarrow> do { eu \<leftarrow> hex_encoded user login_enc; Some (eu @ ''@'') }
             | Some (user, Some pw) \<Rightarrow> do {
                 eu \<leftarrow> hex_encoded user login_enc; ep \<leftarrow> hex_encoded pw login_enc;
                 Some (eu @ '':'' @ ep @ ''@'') });
       e \<leftarrow> hex_encoded path path_enc;
       Some (scheme @ ''://'' @ l @ host_text host @ port_text port @ e) }"

lemma hex_encoded_eq: "c_string s \<Longrightarrow> hex_encoded s enc = Some (pct_encode enc s)"
  by (simp add: hex_encoded_def hex_encode_correct)

lemma ftp_url_text_eq:
  assumes "login_ok login" and "c_string path"
  shows "ftp_url_text scheme login host port path
    = Some (scheme @ ''://'' @ login_text login @ host_text host @ port_text port @ pct_encode path_enc path)"
  using assms
  by (auto simp: ftp_url_text_def login_text_def login_ok_def hex_encoded_eq split: option.splits)

lemma login_scanned:
  assumes "login_ok login" and "host_ok host" and "0 \<le> port"
    and "ps_string p = login_text login @ rest" and "rest = host_text host @ port_text port @ CHR ''/'' # r"
    and "2 \<le> ps_room p" and "u_user (ps_url p) = None" and "u_password (ps_url p) = None"
  shows "\<exists>room. globusl_url_get_user_password p = Some (GLOBUS_SUCCESS,
    \<lparr>ps_string = rest, ps_room = room, ps_url = (ps_url p)\<lparr>u_user := map_option fst login,
      u_password := Option.bind login snd\<rparr>\<rparr>) \<and> ps_room p \<le> room + 2"
proof (cases login)
  case (Some up)
  then obtain user pw where up: "login = Some (user, pw)" by (cases up) auto
  then show ?thesis
    using login_text_scanned [OF up assms(1,4,6)] assms(6,8) by (cases pw) auto
next
  case None
  then have s: "ps_string p = rest" using assms(4) by (simp add: login_text_def)
  have url: "(ps_url p)\<lparr>u_user := None, u_password := None\<rparr> = ps_url p" using assms(7,8) by simp
  have "globusl_url_get_user_password p = Some (GLOBUS_SUCCESS, p)"
  proof (cases "CHR '':'' \<in> set host")
    case True
    then have "ps_string p = [] @ CHR ''['' # host @ '']'' @ port_text port @ CHR ''/'' # r"
      using s assms(5) by (simp add: host_text_def)
    then show ?thesis by (intro no_login_text) (auto simp: c_string_def url_classes)
  next
    case False
    have hu: "host_char c \<Longrightarrow> user_char c \<and> c \<noteq> NUL" for c by (auto simp: url_classes NUL_def)
    have "\<forall>c \<in> set (port_text port). (user_char c \<or> c = CHR '':'') \<and> c \<noteq> NUL"
      using print_port(1) [OF assms(3)] isdigit_plain by (auto simp: port_text_def)
    then have "\<forall>c \<in> set (host @ port_text port). (user_char c \<or> c = CHR '':'') \<and> c \<noteq> NUL"
      using assms(2) False hu by (auto simp: host_ok_def)
    then show ?thesis
      using s assms(5) False
      by (intro no_login_text [of "host @ port_text port" p "CHR ''/''" r])
        (auto simp: c_string_def host_text_def url_classes)
  qed
  then show ?thesis using None s url by (cases p) auto
qed

lemma scheme_names:
  assumes "scheme \<in> {''ftp'', ''gsiftp'', ''sshftp''}"
  shows "\<forall>c \<in> set scheme. scheme_char c" and "scheme \<noteq> []" and "ftp_scheme (scheme_of scheme)"
  using assms by (auto simp: url_classes scheme_of_def ftp_scheme_def)

lemma url_switch_ftp:
  assumes "ftp_scheme (u_scheme_type (ps_url p))"
  shows "url_switch ftp_path http_path file_specific p =
    and_then (globusl_url_get_user_password p)
      (\<lambda>p1. and_then (host_port_or_bad_port p1) (ftp_path (u_scheme_type (ps_url p))))"
  using assms by (auto simp: url_switch_def ftp_scheme_def)

text \<open>
  C26. A URL put together from a scheme of the FTP family, an optional login, a host name or IPv6 address,
  a port and an absolute path, with the login and the path escaped by the toolkit's own encoder, is
  parsed back to exactly these parts; of a path below a home directory the leading slash is dropped, and
  of a port that does not fit 16 bits the low ones remain.
\<close>

theorem globus_url_parse_roundtrip:
  assumes "scheme \<in> {''ftp'', ''gsiftp'', ''sshftp''}" and "login_ok login" and "host_ok host"
    and "0 \<le> port" and "port < 2 ^ 31" and "path = CHR ''/'' # q" and "c_string path" and "5 \<le> room"
  shows "\<exists>text. ftp_url_text scheme login host port path = Some text \<and>
    globus_url_parse room (Some text) (Some u) = Some (GLOBUS_SUCCESS, Some
      (url_zero\<lparr>u_scheme := Some scheme, u_scheme_type := scheme_of scheme,
        u_user := map_option fst login, u_password := Option.bind login snd,
        u_host := Some host, u_port := port mod 65536,
        u_url_path := Some (if take 2 path = ''/~'' then q else path)\<rparr>))"
proof -
  let ?rest = "host_text host @ port_text port @ pct_encode path_enc path"
  let ?text = "scheme @ ''://'' @ login_text login @ ?rest"
  define u0 where "u0 = (url_cleared u)\<lparr>u_port := 0, u_scheme := Some scheme, u_scheme_type := scheme_of scheme\<rparr>"
  then have u0: "u_user u0 = None" "u_password u0 = None" "u_scheme_type u0 = scheme_of scheme"
    by (simp_all add: url_cleared_def)
  let ?p1 = "\<lparr>ps_string = login_text login @ ?rest, ps_room = room - 1, ps_url = u0\<rparr>"
  have rest: "?rest = host_text host @ port_text port @ CHR ''/'' # pct_encode path_enc q"
    using encoded_path_head(1) [OF assms(6)] by simp
  have scheme: "globusl_url_get_scheme \<lparr>ps_string = ?text, ps_room = room, ps_url = (url_cleared u)\<lparr>u_port := 0\<rparr>\<rparr>
    = Some (GLOBUS_SUCCESS, \<lparr>ps_string = ''://'' @ login_text login @ ?rest, ps_room = room - 1, ps_url = u0\<rparr>)"
    using scheme_names [OF assms(1)] assms(8)
    by (subst get_scheme_text [where rest = "''//'' @ login_text login @ ?rest"]) (simp_all add: u0_def)
  have room2: "2 \<le> room - Suc 0" using assms(8) by simp
  obtain r1 where login: "globusl_url_get_user_password ?p1 = Some (GLOBUS_SUCCESS,
      \<lparr>ps_string = ?rest, ps_room = r1, ps_url = u0\<lparr>u_user := map_option fst login,
        u_password := Option.bind login snd\<rparr>\<rparr>)" and r1: "room - 1 \<le> r1 + 2"
    using login_scanned [OF assms(2-4), of ?p1 ?rest] rest room2 u0 by auto
  have r1: "2 \<le> r1" "0 < r1 - Suc 0" using r1 assms(8) by simp_all
  let ?p2 = "\<lparr>ps_string = ?rest, ps_room = r1, ps_url = u0\<lparr>u_user := map_option fst login,
        u_password := Option.bind login snd\<rparr>\<rparr>"
  let ?p3 = "\<lparr>ps_string = pct_encode path_enc path, ps_room = r1 - 1, ps_url = u0\<lparr>u_user := map_option fst login,
        u_password := Option.bind login snd, u_host := Some host, u_port := port mod 65536\<rparr>\<rparr>"
  have host: "globusl_url_get_host_port ?p2 = Some (GLOBUS_SUCCESS, ?p3)"
    using host_port_scanned [OF assms(3-5), of ?p2] rest assms(8) r1 encoded_path_head(1) [OF assms(6)] by simp
  obtain r where path: "globusl_url_get_path (scheme_of scheme) ?p3 = Some (GLOBUS_SUCCESS,
      \<lparr>ps_string = r, ps_room = r1 - 1 - 1, ps_url = (ps_url ?p3)\<lparr>u_url_path := Some (if take 2 path = ''/~'' then q else path)\<rparr>\<rparr>)"
    using path_scanned [OF assms(6,7), of ?p3 "scheme_of scheme"] scheme_names(3) [OF assms(1)] assms(8) r1 by auto
  have "scheme_of scheme \<noteq> GLOBUS_URL_SCHEME_FILE" "ftp_scheme (u_scheme_type (ps_url ?p1))"
    using scheme_names(3) [OF assms(1)] u0 by (auto simp: ftp_scheme_def)
  then have "globus_url_parse room (Some ?text) (Some u) = Some (GLOBUS_SUCCESS, Some ((ps_url ?p3)\<lparr>u_url_path :=
      Some (if take 2 path = ''/~'' then q else path)\<rparr>))"
    using scheme login host path u0(3)
    by (simp add: globus_url_parse_def url_parse_with_def and_then_def url_switch_ftp advance_def
        host_port_or_bad_port_def)
  then show ?thesis
    using ftp_url_text_eq [OF assms(2,7)] by (simp add: u0_def url_cleared_def url_zero_def)
qed

theorem globus_url_parse_roundtrip_witness:
  "\<exists>text. ftp_url_text ''gsiftp'' (Some (''a b'', Some ''p@:w'')) ''::1'' 2811 ''/~/x y#z'' = Some text \<and>
    globus_url_parse 5 (Some text) (Some url_zero) = Some (GLOBUS_SUCCESS, Some
      (url_zero\<lparr>u_scheme := Some ''gsiftp'', u_scheme_type := GLOBUS_URL_SCHEME_GSIFTP,
        u_user := Some ''a b'', u_password := Some ''p@:w'', u_host := Some ''::1'', u_port := 2811,
        u_url_path := Some ''~/x y#z''\<rparr>))"
proof -
  have "login_ok (Some (''a b'', Some ''p@:w''))" "c_string ''/~/x y#z''"
    by (simp_all add: login_ok_def c_string_def NUL_def)
  moreover have "host_ok ''::1''" by (simp add: host_ok_def url_classes)
  ultimately show ?thesis
    using globus_url_parse_roundtrip [of "''gsiftp''" "Some (''a b'', Some ''p@:w'')" "''::1''" 2811
        "''/~/x y#z''" "''~/x y#z''" 5 url_zero]
    by (simp add: scheme_of_def)
qed

end
