(* ===== verification/Globus_Url_Contract.thy ===== *)
theory Globus_Url_Contract
  imports Globus_Url_Roundtrip
begin

text \<open>
  What the parsers of \<open>globus_url.c\<close> do on every string. \<open>scans\<close> is the contract of a scanner: it
  returns, leaves the scheme alone, and on success has set its members. The locale \<open>url_paths\<close> is the
  interface of the functions that read a path, interpreted for the strict and the loose ones; from it
  follows that a parse returns and what it leaves behind. The host loop of the loose parser and the
  buffer of the RFC 1738 path, which break the contract, are characterised exactly.
\<close>

section \<open>Every parse returns\<close>

text \<open>What a scanner leaves of the URL in every case, and when it succeeds.\<close>

definition url_basic :: "globus_url_t \<Rightarrow> globus_url_t \<Rightarrow> bool" where
  "url_basic u v \<longleftrightarrow> u_scheme v = u_scheme u \<and> u_scheme_type v = u_scheme_type u
     \<and> (u_port u \<in> {0..65535} \<longrightarrow> u_port v \<in> {0..65535})"

definition url_keeps :: "globus_url_t \<Rightarrow> globus_url_t \<Rightarrow> bool" where
  "url_keeps u v \<longleftrightarrow> (u_host u \<noteq> None \<longrightarrow> u_host v \<noteq> None) \<and> (u_dn u \<noteq> None \<longrightarrow> u_dn v \<noteq> None)
     \<and> (u_attributes u \<noteq> None \<longrightarrow> u_attributes v \<noteq> None) \<and> (u_scope u \<noteq> None \<longrightarrow> u_scope v \<noteq> None)"

text \<open>A scanner's result: it returns, and on success \<open>Q\<close> holds of the URL.\<close>

definition scans :: "(int \<times> url_parser) option \<Rightarrow> url_parser \<Rightarrow> (globus_url_t \<Rightarrow> bool) \<Rightarrow> bool" where
  "scans r p Q \<longleftrightarrow> (\<exists>rc q. r = Some (rc, q) \<and> url_basic (ps_url p) (ps_url q) \<and>
     (rc = GLOBUS_SUCCESS \<longrightarrow> url_keeps (ps_url p) (ps_url q) \<and> Q (ps_url q)))"

lemma url_basic_refl [simp]: "url_basic u u" and url_keeps_refl [simp]: "url_keeps u u"
  by (simp_all add: url_basic_def url_keeps_def)

lemma url_basic_trans: "url_basic u v \<Longrightarrow> url_basic v w \<Longrightarrow> url_basic u w"
  by (simp add: url_basic_def)

lemma url_keeps_trans: "url_keeps u v \<Longrightarrow> url_keeps v w \<Longrightarrow> url_keeps u w"
  by (simp add: url_keeps_def)

lemma scans_trivial: "Q (ps_url p) \<Longrightarrow> scans (Some (rc, p)) p Q"
  by (simp add: scans_def)

lemma scans_error: "rc \<noteq> GLOBUS_SUCCESS \<Longrightarrow> scans (Some (rc, p)) p Q"
  by (simp add: scans_def)

lemma scans_if: "(b \<Longrightarrow> scans x p Q) \<Longrightarrow> (\<not> b \<Longrightarrow> scans y p Q) \<Longrightarrow> scans (if b then x else y) p Q"
  by simp

lemma scans_advance: "ps_url p1 = ps_url p \<Longrightarrow> scans r p1 Q = scans r p Q"
  by (simp add: scans_def)

lemma scans_bind:
  assumes "scans r p Q"
    and "\<And>q. url_keeps (ps_url p) (ps_url q) \<Longrightarrow> Q (ps_url q) \<Longrightarrow> scans (f GLOBUS_SUCCESS q) q (\<lambda>v. url_keeps (ps_url q) v \<longrightarrow> R v)"
    and "\<And>rc q. rc \<noteq> GLOBUS_SUCCESS \<Longrightarrow> scans (f rc q) q (\<lambda>v. url_keeps (ps_url p) v \<and> R v)"
  shows "scans (do { (rc, q) \<leftarrow> r; f rc q }) p R"
proof -
  obtain rc q where r: "r = Some (rc, q)" "url_basic (ps_url p) (ps_url q)"
    "rc = GLOBUS_SUCCESS \<Longrightarrow> url_keeps (ps_url p) (ps_url q) \<and> Q (ps_url q)"
    using assms(1) by (auto simp: scans_def)
  show ?thesis
  proof (cases "rc = GLOBUS_SUCCESS")
    case True
    then have "scans (f GLOBUS_SUCCESS q) q (\<lambda>v. url_keeps (ps_url q) v \<longrightarrow> R v)"
      using r assms(2) by blast
    with True r show ?thesis
      by (auto simp: scans_def dest: url_basic_trans url_keeps_trans)
  next
    case False
    then have "scans (f rc q) q (\<lambda>v. url_keeps (ps_url p) v \<and> R v)" by (rule assms(3))
    with r show ?thesis
      by (auto simp: scans_def dest: url_basic_trans)
  qed
qed

lemma scans_and_then:
  assumes "scans r p Q"
    and "\<And>q. url_keeps (ps_url p) (ps_url q) \<Longrightarrow> Q (ps_url q) \<Longrightarrow> scans (f q) q (\<lambda>v. url_keeps (ps_url q) v \<longrightarrow> R v)"
  shows "scans (and_then r f) p R"
  unfolding and_then_def using assms(1)
  by (rule scans_bind) (use assms(2) scans_error in auto)

text \<open>The setters of the fields.\<close>

definition field_setter :: "(string option \<Rightarrow> globus_url_t \<Rightarrow> globus_url_t) \<Rightarrow> bool" where
  "field_setter f \<longleftrightarrow> (\<forall>u d. url_basic u (f d u) \<and> (d \<noteq> None \<longrightarrow> url_keeps u (f d u)))"

lemma field_setters [simp]:
  "field_setter set_user" "field_setter set_password" "field_setter set_host" "field_setter set_path"
  "field_setter set_specific" "field_setter (\<lambda>d. u_dn_update (\<lambda>_. d))"
  "field_setter (\<lambda>d. u_attributes_update (\<lambda>_. d))" "field_setter (\<lambda>d. u_scope_update (\<lambda>_. d))"
  "field_setter (\<lambda>d. u_filter_update (\<lambda>_. d))"
  by (simp_all add: field_setter_def url_basic_def url_keeps_def)

lemma store_scans:
  assumes "n \<le> Suc (length (ps_string p))" and "field_setter f" and "\<And>d. Q (f (Some d) (ps_url p))"
  shows "scans (store_substring f n p) p Q"
proof (cases "n = Suc (length (ps_string p))")
  case True
  then show ?thesis
    using assms(2,3) by (auto simp: scans_def store_substring_terminated field_setter_def url_codes)
next
  case False
  then have "n \<le> length (ps_string p)" using assms(1) by simp
  then show ?thesis
    using assms(2,3) by (auto simp: scans_def store_substring_eq field_setter_def url_codes)
qed

lemma store_then_scans:
  assumes "n \<le> Suc (length (ps_string p))" and "field_setter f"
    and "\<And>q d. ps_url q = f (Some d) (ps_url p) \<Longrightarrow> scans (g GLOBUS_SUCCESS q) q R"
    and "\<And>rc q. rc \<noteq> GLOBUS_SUCCESS \<Longrightarrow> scans (g rc q) q (\<lambda>_. False)"
  shows "scans (do { (rc, q) \<leftarrow> store_substring f n p; g rc q }) p R"
proof (rule scans_bind)
  show "scans (store_substring f n p) p (\<lambda>v. \<exists>d. v = f (Some d) (ps_url p))"
    using assms(1,2) by (rule store_scans) blast
next
  fix q :: url_parser
  assume "\<exists>d. ps_url q = f (Some d) (ps_url p)"
  then obtain d where "ps_url q = f (Some d) (ps_url p)" by blast
  from assms(3) [OF this] show "scans (g GLOBUS_SUCCESS q) q (\<lambda>v. url_keeps (ps_url q) v \<longrightarrow> R v)"
    by (auto simp: scans_def)
next
  fix rc :: int and q
  assume "rc \<noteq> GLOBUS_SUCCESS"
  from assms(4) [OF this, of q] show "scans (g rc q) q (\<lambda>v. url_keeps (ps_url p) v \<and> R v)"
    by (auto simp: scans_def)
qed

lemma scans_store_advance:
  assumes "n \<le> Suc (length (ps_string p))" and "field_setter f" and "\<And>d. Q (f (Some d) (ps_url p))"
  shows "scans (do { (rc, q) \<leftarrow> store_substring f n p; Some (rc, advance k q) }) p Q"
proof -
  have "scans (store_substring f n p) p Q" using assms by (rule store_scans)
  then show ?thesis by (auto simp: scans_def advance_def)
qed

lemma user_password_scans: "scans (globusl_url_get_user_password p) p (\<lambda>_. True)"
proof -
  have password: "scans (url_password_part q) q (\<lambda>_. True)" for q
  proof -
    let ?s = "ps_string q"
    obtain r where r: "token_loop user_char False (Some GLOBUS_URL_ERROR_BAD_PASSWORD)
        GLOBUS_URL_ERROR_BAD_PASSWORD (\<lambda>c. c = CHR ''@'') ?s 0 = Some r" "\<And>n. r = Inr n \<Longrightarrow> n \<le> length ?s"
      using password_token.token_loop_safe [of 0 ?s] by fastforce
    show ?thesis
    proof (cases r)
      case (Inr n)
      then have n: "n \<le> length ?s" using r by simp
      then obtain c where "char_at ?s n = Some c" by (rule char_at_in)
      moreover have "scans (do { (rc, q') \<leftarrow> store_substring set_password n q; Some (rc, advance (n + 1) q') }) q (\<lambda>_. True)"
        using n by (intro scans_store_advance) auto
      ultimately show ?thesis
        using r Inr by (auto simp: url_password_part_def scans_trivial)
    qed (use r in \<open>auto simp: url_password_part_def scans_trivial\<close>)
  qed
  let ?s = "ps_string p"
  obtain r0 where r0: "token_loop (\<lambda>c. user_char c \<or> c = CHR '':'') True (Some GLOBUS_SUCCESS)
      GLOBUS_URL_ERROR_BAD_USER (\<lambda>c. c = CHR ''@'') ?s 0 = Some r0" "\<And>n. r0 = Inr n \<Longrightarrow> n \<le> length ?s"
    using prescan_token.token_loop_safe [of 0 ?s] by fastforce
  obtain r1 where r1: "token_loop user_char True (Some GLOBUS_SUCCESS) GLOBUS_URL_ERROR_BAD_USER
      (\<lambda>c. c = CHR ''@'' \<or> c = CHR '':'') ?s 0 = Some r1" "\<And>n. r1 = Inr n \<Longrightarrow> n \<le> length ?s"
    using user_token.token_loop_safe [of 0 ?s] by fastforce
  show ?thesis
  proof (cases "\<exists>n m. r0 = Inr n \<and> r1 = Inr m")
    case True
    then obtain n m where nm: "r0 = Inr n" "r1 = Inr m" by blast
    then have len: "n \<le> length ?s" "m \<le> length ?s" using r0 r1 by simp_all
    obtain c where c: "char_at ?s n = Some c" using len(1) by (rule char_at_in)
    obtain d where d: "char_at ?s m = Some d" using len(2) by (rule char_at_in)
    have "scans (do { (rc, q) \<leftarrow> store_substring set_user m p; Some (rc, advance (m + 1) q) }) p (\<lambda>_. True)"
      using len by (intro scans_store_advance) auto
    moreover have "scans (do { (rc, q) \<leftarrow> store_substring set_user m p;
        if rc \<noteq> GLOBUS_SUCCESS then Some (rc, q) else url_password_part (advance (m + 1) q) }) p (\<lambda>_. True)"
      using len password scans_advance [of "advance (m + 1) q" q for q]
      by (intro store_then_scans) (auto simp: advance_def scans_error)
    ultimately show ?thesis
      using r0 r1 nm c d by (auto simp: globusl_url_get_user_password_def scans_trivial)
  next
    case False
    show ?thesis
    proof (cases r0)
      case (Inr n)
      then obtain c where "char_at ?s n = Some c" using r0 by (metis char_at_in)
      then show ?thesis
        using r0 r1 Inr False by (cases r1) (auto simp: globusl_url_get_user_password_def scans_trivial)
    qed (use r0 in \<open>auto simp: globusl_url_get_user_password_def scans_trivial\<close>)
  qed
qed

lemma skip_while_in:
  assumes "\<not> P NUL"
  obtains n where "skip_while P s 0 = Some n" and "n \<le> length s"
  using assms skip_while_eq [of P 0 s] length_takeWhile_le [of P s] by auto

lemma port_scans:
  assumes "Q (ps_url p)" and "\<And>u n. Q u \<Longrightarrow> Q (u\<lparr>u_port := n\<rparr>)"
  shows "scans (url_port_part p) p Q"
proof -
  let ?s = "ps_string (advance 1 p)"
  obtain c where c: "char_at (ps_string p) 0 = Some c" using char_at_some by blast
  obtain n where n: "skip_while isdigit ?s 0 = Some n" "n \<le> length ?s"
    by (rule skip_while_in [of isdigit]) simp_all
  have moved: "scans (Some (rc, (advance k p)\<lparr>ps_url := u\<rparr>)) p Q"
    if "u = ps_url p \<or> (\<exists>i \<in> {0..65535}. u = (ps_url p)\<lparr>u_port := i\<rparr>)" for rc k u
    using that assms by (auto simp: scans_def url_basic_def url_keeps_def)
  have stay: "scans (Some (rc, advance k p)) p Q" for rc k
    using assms(1) by (simp add: scans_def advance_def)
  consider "c \<noteq> CHR '':''" | "c = CHR '':''" "n = 0" | "c = CHR '':''" "n \<noteq> 0" "ps_room p = 0"
    | "c = CHR '':''" "n \<noteq> 0" "ps_room p \<noteq> 0" by blast
  then show ?thesis
  proof cases
    case 1
    then show ?thesis using c assms(1) by (simp add: url_port_part_def scans_trivial)
  next
    case 2
    then show ?thesis using c n stay by (simp add: url_port_part_def Let_def)
  next
    case 3
    then have "url_port_part p = Some (GLOBUS_URL_ERROR_NULL_STRING, advance (Suc n) p)"
      using c n by (simp add: url_port_part_def Let_def get_substring_eq advance_def url_codes)
    then show ?thesis using stay by simp
  next
    case 4
    then have "\<exists>d. url_port_part p = Some (GLOBUS_SUCCESS,
        (advance (Suc n) p)\<lparr>ps_url := (ps_url p)\<lparr>u_port := atoi d mod 65536\<rparr>\<rparr>)"
      using c n by (auto simp: url_port_part_def Let_def get_substring_eq advance_def url_codes)
    then obtain d where "url_port_part p = Some (GLOBUS_SUCCESS,
        (advance (Suc n) p)\<lparr>ps_url := (ps_url p)\<lparr>u_port := atoi d mod 65536\<rparr>\<rparr>)" by blast
    moreover have "atoi d mod 65536 \<in> {0..65535}" using pos_mod_bound [of 65536 "atoi d"] by simp
    then have "scans (Some (GLOBUS_SUCCESS, (advance (Suc n) p)\<lparr>ps_url := (ps_url p)\<lparr>u_port := atoi d mod 65536\<rparr>\<rparr>)) p Q"
      by (intro moved) blast
    ultimately show ?thesis by simp
  qed
qed

lemma host_part_scans:
  assumes "\<not> cls NUL"
  shows "scans (url_host_part cls p) p (\<lambda>v. u_host v \<noteq> None)"
proof -
  let ?s = "ps_string p"
  obtain n where n: "skip_while cls ?s 0 = Some n" "n \<le> length ?s"
    using skip_while_in assms by blast
  obtain c where c: "char_at ?s n = Some c" using n(2) by (rule char_at_in)
  have "\<exists>d. (if c = CHR '']'' then char_at ?s (n + 1) else Some c) = Some d"
  proof (cases "c = CHR '']''")
    case True
    then have "n + 1 \<le> length ?s" using char_at_not_NUL [OF c] by auto
    then show ?thesis using True char_at_some by simp
  qed simp
  then obtain d where d: "(if c = CHR '']'' then char_at ?s (n + 1) else Some c) = Some d" by blast
  have full: "scans (do { (rc, q) \<leftarrow> store_substring set_host n p;
      if rc \<noteq> GLOBUS_SUCCESS then Some (rc, advance k q) else url_port_part (advance k q) })
      p (\<lambda>v. u_host v \<noteq> None)" for k
  proof (rule store_then_scans)
    fix q :: url_parser and d
    assume "ps_url q = set_host (Some d) (ps_url p)"
    then have "scans (url_port_part (advance k q)) (advance k q) (\<lambda>v. u_host v \<noteq> None)"
      by (intro port_scans) (auto simp: advance_def)
    then show "scans (if GLOBUS_SUCCESS \<noteq> GLOBUS_SUCCESS then Some (GLOBUS_SUCCESS, advance k q)
        else url_port_part (advance k q)) q (\<lambda>v. u_host v \<noteq> None)"
      by (simp add: scans_def advance_def)
  qed (use n in \<open>simp_all add: scans_def advance_def\<close>)
  have short: "scans (do { (rc, q) \<leftarrow> store_substring set_host n p; Some (rc, advance k q) })
      p (\<lambda>v. u_host v \<noteq> None)" for k
    using n(2) by (intro scans_store_advance) auto
  have bad: "scans (Some (GLOBUS_URL_ERROR_BAD_HOST, p)) p (\<lambda>v. u_host v \<noteq> None)"
    by (rule scans_error) (simp add: url_codes)
  show ?thesis
    unfolding url_host_part_def n(1) bind.bind_lunit c d Let_def
    by (intro scans_if full short bad)
qed

lemma host_port_scans: "scans (globusl_url_get_host_port p) p (\<lambda>v. u_host v \<noteq> None)"
proof -
  let ?p0 = "p\<lparr>ps_url := (ps_url p)\<lparr>u_port := 0\<rparr>\<rparr>"
  have step: "scans r p Q" if "scans r q Q" "ps_url q = (ps_url p)\<lparr>u_port := 0\<rparr>" for r q Q
    using that by (simp add: scans_def url_basic_def url_keeps_def) blast
  obtain b where b: "char_at (ps_string p) 0 = Some b" using char_at_some by blast
  have v6: "scans (url_host_part ipv6_char (advance 1 ?p0)) p (\<lambda>v. u_host v \<noteq> None)"
    by (rule step [OF host_part_scans]) (simp_all add: advance_def)
  have v4: "scans (url_host_part host_char ?p0) p (\<lambda>v. u_host v \<noteq> None)"
    by (rule step [OF host_part_scans]) simp_all
  show ?thesis
    unfolding globusl_url_get_host_port_def Let_def b bind.bind_lunit by (intro scans_if v6 v4)
qed

lemma ldap_step:
  assumes "err \<noteq> GLOBUS_SUCCESS" and "field_setter f"
    and "\<And>q d. ps_url q = f (Some d) (ps_url p) \<Longrightarrow> scans (ldap_loop rest q) q R"
  shows "scans (ldap_loop ((err, f) # rest) p) p R"
proof -
  let ?s = "ps_string p"
  obtain r where r: "token_loop ldap_char False None err (\<lambda>c. c = CHR ''?'') ?s 0 = Some r"
      "\<And>n. r = Inr n \<Longrightarrow> n \<le> length ?s" "\<And>rc. r = Inl rc \<Longrightarrow> rc = err"
    using ldap_token.token_loop_safe [of 0 ?s] by fastforce
  show ?thesis
  proof (cases r)
    case (Inr n)
    then have n: "n \<le> length ?s" using r by simp
    then obtain c where "char_at ?s n = Some c" by (rule char_at_in)
    moreover have "scans (do { (rc, p1) \<leftarrow> store_substring f n p;
        if rc \<noteq> GLOBUS_SUCCESS then Some (rc, p1) else ldap_loop rest (advance (n + 1) p1) }) p R"
      using n assms(2)
    proof (intro store_then_scans)
      fix q :: url_parser and d
      assume "ps_url q = f (Some d) (ps_url p)"
      then have "scans (ldap_loop rest (advance (n + 1) q)) (advance (n + 1) q) R"
        by (intro assms(3)) (simp add: advance_def)
      then show "scans (if GLOBUS_SUCCESS \<noteq> GLOBUS_SUCCESS then Some (GLOBUS_SUCCESS, q)
          else ldap_loop rest (advance (n + 1) q)) q R"
        by (simp add: scans_def advance_def)
    qed (simp_all add: scans_error)
    ultimately show ?thesis
      using r(1) Inr assms(1) by (auto simp: scans_error)
  qed (use r assms(1) in \<open>auto simp: scans_error\<close>)
qed

lemma ldap_scans:
  "scans (globusl_url_get_ldap_specific p) p
     (\<lambda>v. u_dn v \<noteq> None \<and> u_attributes v \<noteq> None \<and> u_scope v \<noteq> None \<and> u_filter v \<noteq> None)"
  unfolding globusl_url_get_ldap_specific_def
  by (intro ldap_step) (simp_all add: url_codes scans_trivial)

text \<open>The class of a path.\<close>

lemma path_part_scans:
  assumes "url_token cls (\<lambda>c. c = NUL)"
  shows "scans (url_path_part cls t p) p (\<lambda>v. ps_string p = [] \<or> \<not> cls (hd (ps_string p)) \<or> u_url_path v \<noteq> None)"
    (is "scans _ p ?Q")
proof -
  let ?s = "ps_string p"
  obtain r where r: "token_loop cls False None GLOBUS_URL_ERROR_BAD_PATH (\<lambda>c. c = NUL) ?s 0 = Some r"
      "\<And>n. r = Inr n \<Longrightarrow> n \<le> length ?s" "\<And>rc. r = Inl rc \<Longrightarrow> rc = GLOBUS_URL_ERROR_BAD_PATH"
    using url_token.token_loop_safe [OF assms, of 0 ?s] by fastforce
  have zero: "?s = [] \<or> \<not> cls (hd ?s)" if "r = Inr 0"
    using url_token.token_loop_progress [OF assms, of 0 ?s False None GLOBUS_URL_ERROR_BAD_PATH 0]
      url_token.leading_stuck [OF assms, of False ?s] r(1) that by auto
  show ?thesis
  proof (cases r)
    case (Inr n)
    have "scans (store_substring set_path n q) p ?Q" if "q = p \<or> n > 1 \<and> q = advance 1 p" "n = length ?s" for q
    proof -
      have "scans (store_substring set_path n q) q ?Q"
        using that by (intro store_scans) (auto simp: advance_def)
      then show ?thesis using that by (auto simp: scans_def advance_def)
    qed
    then show ?thesis
      using r Inr zero by (auto simp: url_path_part_def scans_error scans_trivial url_codes)
  qed (use r in \<open>auto simp: url_path_part_def scans_error url_codes\<close>)
qed

lemma path_scans: "scans (globusl_url_get_path t p) p (\<lambda>_. True)"
  and loose_path_scans: "scans (globusl_url_get_path_loose t p) p (\<lambda>_. True)"
  using path_part_scans [OF path_token.url_token_axioms, of t p]
    path_part_scans [OF loose_path_token.url_token_axioms, of t p]
  by (auto simp: scans_def globusl_url_get_path_def globusl_url_get_path_loose_def)

lemma file_path_scans:
  assumes "\<And>q. ps_string q \<noteq> [] \<Longrightarrow> hd (ps_string q) = CHR ''/'' \<Longrightarrow> scans (get_path q) q (\<lambda>v. u_url_path v \<noteq> None)"
    and "pos \<le> length (ps_string p)"
  shows "scans (file_path_part get_path pos p) p (\<lambda>v. u_url_path v \<noteq> None)"
proof -
  define n where "n = pos + length (takeWhile (\<lambda>c. c = CHR ''/'') (drop pos (ps_string p)))"
  have n: "skip_while (\<lambda>c. c = CHR ''/'') (ps_string p) pos = Some n"
    using assms(2) unfolding n_def by (intro skip_while_eq) auto
  define q where "q = (if n > 1 then advance (n - 1) p else p)"
  have url: "ps_url q = ps_url p" by (simp add: q_def advance_def)
  obtain c where c: "char_at (ps_string q) 0 = Some c" using char_at_some by blast
  have bad: "scans (Some (GLOBUS_URL_ERROR_BAD_PATH, q)) q (\<lambda>v. u_url_path v \<noteq> None)"
    by (rule scans_error) (simp add: url_codes)
  have path: "scans (get_path q) q (\<lambda>v. u_url_path v \<noteq> None)" if "\<not> c \<noteq> CHR ''/''"
  proof (rule assms(1))
    have "ps_string q \<noteq> [] \<and> hd (ps_string q) = c"
      using c that by (cases "ps_string q") auto
    then show "ps_string q \<noteq> []" and "hd (ps_string q) = CHR ''/''" using that by auto
  qed
  have "scans (file_path_part get_path pos p) q (\<lambda>v. u_url_path v \<noteq> None)"
    unfolding file_path_part_def n bind.bind_lunit Let_def q_def [symmetric] c
    by (intro scans_if bad path)
  then show ?thesis using scans_advance [OF url] by simp
qed

lemma file_get_path_scans:
  assumes "url_token cls (\<lambda>c. c = NUL)" and "cls CHR ''/''" and "ps_string q \<noteq> []" and "hd (ps_string q) = CHR ''/''"
  shows "scans (url_path_part cls t q) q (\<lambda>v. u_url_path v \<noteq> None)"
  using path_part_scans [OF assms(1), of t q] assms(2-4) by (simp add: scans_def)

lemma slash_classes: "path_char CHR ''/''" "loose_path_char CHR ''/''"
  by (simp_all add: url_classes)

lemma file_scans: "scans (globusl_url_get_file_specific p) p (\<lambda>v. u_url_path v \<noteq> None)"
proof -
  let ?s = "ps_string p" and ?Q = "\<lambda>v. u_url_path v \<noteq> None"
  have path: "scans (file_path_part (globusl_url_get_path GLOBUS_URL_SCHEME_FILE) k q) q ?Q"
    if "k \<le> length (ps_string q)" for k q
    using that unfolding globusl_url_get_path_def
    by (intro file_path_scans file_get_path_scans path_token.url_token_axioms slash_classes)
  obtain n where n: "skip_while (\<lambda>c. c = CHR ''/'') ?s 0 = Some n" "n \<le> length ?s"
    by (rule skip_while_in [of "\<lambda>c. c = CHR ''/''"]) simp_all
  define q where "q = advance 2 p"
  have url: "ps_url q = ps_url p" by (simp add: q_def advance_def)
  obtain k where k: "skip_while host_char (ps_string q) 0 = Some k" "k \<le> length (ps_string q)"
    by (rule skip_while_in [of host_char]) simp_all
  obtain c where c: "char_at (ps_string q) k = Some c" using k(2) by (rule char_at_in)
  have host: "scans (do { (rc, p2) \<leftarrow> store_substring set_host k q;
      if rc \<noteq> GLOBUS_SUCCESS then Some (rc, advance k p2)
      else file_path_part (globusl_url_get_path GLOBUS_URL_SCHEME_FILE) 0 (advance k p2) }) q ?Q"
  proof (rule store_then_scans)
    fix q' :: url_parser and d
    have "scans (file_path_part (globusl_url_get_path GLOBUS_URL_SCHEME_FILE) 0 (advance k q')) (advance k q') ?Q"
      by (rule path) simp
    then show "scans (if GLOBUS_SUCCESS \<noteq> GLOBUS_SUCCESS then Some (GLOBUS_SUCCESS, advance k q')
        else file_path_part (globusl_url_get_path GLOBUS_URL_SCHEME_FILE) 0 (advance k q')) q' ?Q"
      by (simp add: scans_def advance_def)
  qed (use k in \<open>simp_all add: scans_def advance_def\<close>)
  note here = scans_advance [OF url, THEN iffD1]
  have bad: "scans (Some (GLOBUS_URL_ERROR_BAD_PATH, p)) p ?Q"
    by (rule scans_error) (simp add: url_codes)
  show ?thesis
    unfolding globusl_url_get_file_specific_def n(1) bind.bind_lunit Let_def q_def [symmetric] k(1) c
    using n(2) by (intro scans_if bad path here host) auto
qed

section \<open>The contract of a parse\<close>

text \<open>The members that are set in a URL of a scheme.\<close>

definition url_members :: "globus_url_scheme_t \<Rightarrow> globus_url_t \<Rightarrow> bool" where
  "url_members t v \<longleftrightarrow>
     (case t of
        GLOBUS_URL_SCHEME_X_NEXUS \<Rightarrow> u_host v \<noteq> None \<and> u_port v \<noteq> 0
      | GLOBUS_URL_SCHEME_LDAP \<Rightarrow> u_host v \<noteq> None \<and> u_dn v \<noteq> None \<and> u_attributes v \<noteq> None
          \<and> u_scope v \<noteq> None \<and> u_filter v \<noteq> None
      | GLOBUS_URL_SCHEME_FILE \<Rightarrow> u_url_path v \<noteq> None
      | GLOBUS_URL_SCHEME_X_GASS_CACHE \<Rightarrow> u_url_specific_part v \<noteq> None
      | GLOBUS_URL_SCHEME_UNKNOWN \<Rightarrow> u_host v \<noteq> None \<or> u_url_specific_part v \<noteq> None
      | _ \<Rightarrow> u_host v \<noteq> None)"

definition url_complete :: "globus_url_t \<Rightarrow> bool" where
  "url_complete v \<longleftrightarrow> u_port v \<in> {0..65535} \<and>
     (\<exists>name. u_scheme v = Some name \<and> u_scheme_type v = scheme_of name \<and> url_members (scheme_of name) v)"

lemma whole_specific_scans: "scans (whole_specific_part p) p (\<lambda>v. u_url_specific_part v \<noteq> None)"
  unfolding whole_specific_part_def by (rule store_scans) simp_all

lemma host_or_bad_scans: "scans (host_port_or_bad_port p) p (\<lambda>v. u_host v \<noteq> None)"
proof -
  obtain rc q where "globusl_url_get_host_port p = Some (rc, q)" "url_basic (ps_url p) (ps_url q)"
    "rc = GLOBUS_SUCCESS \<longrightarrow> url_keeps (ps_url p) (ps_url q) \<and> u_host (ps_url q) \<noteq> None"
    using host_port_scans [of p] by (auto simp: scans_def)
  then show ?thesis by (auto simp: host_port_or_bad_port_def scans_def url_codes)
qed

lemma url_members_eqs:
  "url_members GLOBUS_URL_SCHEME_FTP = (\<lambda>v. u_host v \<noteq> None)"
  "url_members GLOBUS_URL_SCHEME_GSIFTP = (\<lambda>v. u_host v \<noteq> None)"
  "url_members GLOBUS_URL_SCHEME_SSHFTP = (\<lambda>v. u_host v \<noteq> None)"
  "url_members GLOBUS_URL_SCHEME_HTTP = (\<lambda>v. u_host v \<noteq> None)"
  "url_members GLOBUS_URL_SCHEME_HTTPS = (\<lambda>v. u_host v \<noteq> None)"
  "url_members GLOBUS_URL_SCHEME_FILE = (\<lambda>v. u_url_path v \<noteq> None)"
  "url_members GLOBUS_URL_SCHEME_X_GASS_CACHE = (\<lambda>v. u_url_specific_part v \<noteq> None)"
  "url_members GLOBUS_URL_SCHEME_UNKNOWN = (\<lambda>v. u_host v \<noteq> None \<or> u_url_specific_part v \<noteq> None)"
  by (simp_all add: fun_eq_iff url_members_def)

text \<open>Nothing is set yet.\<close>

definition url_fresh :: "globus_url_t \<Rightarrow> bool" where
  "url_fresh u \<longleftrightarrow> u_host u = None \<and> u_dn u = None \<and> u_attributes u = None \<and> u_scope u = None"

lemma url_fresh_keeps: "url_fresh u \<Longrightarrow> url_keeps u v"
  by (simp add: url_fresh_def url_keeps_def)

lemma unknown_scans:
  assumes "url_fresh (ps_url p)"
  shows "scans (url_unknown_part p) p (\<lambda>v. u_host v \<noteq> None \<or> u_url_specific_part v \<noteq> None)"
proof -
  have rest: "\<exists>rc q'. whole_specific_part q = Some (rc, q') \<and> url_basic (ps_url p) (ps_url q') \<and>
      (rc = GLOBUS_SUCCESS \<longrightarrow> u_url_specific_part (ps_url q') \<noteq> None)"
    if "url_basic (ps_url p) (ps_url q)" for q
    using whole_specific_scans [of q] that url_basic_trans by (fastforce simp: scans_def)
  obtain rc q where h: "globusl_url_get_host_port p = Some (rc, q)" "url_basic (ps_url p) (ps_url q)"
    "rc = GLOBUS_SUCCESS \<Longrightarrow> u_host (ps_url q) \<noteq> None"
    using host_port_scans [of p] by (auto simp: scans_def)
  obtain rc1 q1 where g: "globusl_url_get_path (u_scheme_type (ps_url q)) q = Some (rc1, q1)"
    "url_basic (ps_url q) (ps_url q1)" "rc1 = GLOBUS_SUCCESS \<Longrightarrow> url_keeps (ps_url q) (ps_url q1)"
    using path_scans [of "u_scheme_type (ps_url q)" q] by (auto simp: scans_def)
  have g2: "url_basic (ps_url p) (ps_url q1)" using h g url_basic_trans by blast
  have host: "u_host (ps_url q1) \<noteq> None" if "rc = GLOBUS_SUCCESS" "rc1 = GLOBUS_SUCCESS"
    using h g that by (simp add: url_keeps_def)
  show ?thesis
    using h g g2 host rest [OF h(2)] rest [OF g2] url_fresh_keeps [OF assms]
    by (auto simp: scans_def url_unknown_part_def url_codes)
qed

lemma ldap_switch_scans:
  "scans (and_then (globusl_url_get_host_port p)
     (\<lambda>p1. do {
        c \<leftarrow> char_at (ps_string p1) 0;
        if c \<noteq> CHR ''/'' then Some (GLOBUS_URL_ERROR_BAD_DN, p1)
        else globusl_url_get_ldap_specific (advance 1 p1) })) p (url_members GLOBUS_URL_SCHEME_LDAP)"
  using host_port_scans
proof (rule scans_and_then)
  fix q :: url_parser
  assume host: "u_host (ps_url q) \<noteq> None"
  obtain c where c: "char_at (ps_string q) 0 = Some c" using char_at_some by blast
  have "scans (globusl_url_get_ldap_specific (advance 1 q)) q
      (\<lambda>v. u_dn v \<noteq> None \<and> u_attributes v \<noteq> None \<and> u_scope v \<noteq> None \<and> u_filter v \<noteq> None)"
    using ldap_scans [of "advance 1 q"] by (simp add: scans_def advance_def)
  then have ldap: "scans (globusl_url_get_ldap_specific (advance 1 q)) q
      (\<lambda>v. url_keeps (ps_url q) v \<longrightarrow> url_members GLOBUS_URL_SCHEME_LDAP v)"
    using host by (auto simp: scans_def url_members_def url_keeps_def)
  show "scans (do { c \<leftarrow> char_at (ps_string q) 0;
        if c \<noteq> CHR ''/'' then Some (GLOBUS_URL_ERROR_BAD_DN, q)
        else globusl_url_get_ldap_specific (advance 1 q) }) q
      (\<lambda>v. url_keeps (ps_url q) v \<longrightarrow> url_members GLOBUS_URL_SCHEME_LDAP v)"
    unfolding c bind.bind_lunit by (intro scans_if scans_error ldap) (auto simp: url_codes)
qed

text \<open>
  The parsers differ in the functions that read a path. A path scanner that returns on every input gives
  a parser that returns, whatever it does with files.
\<close>

locale url_paths =
  fixes ftp_path http_path :: "globus_url_scheme_t \<Rightarrow> url_parser \<Rightarrow> (int \<times> url_parser) option"
  assumes ftp_path_scans: "scans (ftp_path t p) p (\<lambda>_. True)"
    and http_path_scans: "scans (http_path t p) p (\<lambda>_. True)"
begin

lemma host_path_scans:
  assumes "\<And>q. scans (path q) q (\<lambda>_. True)"
  shows "scans (and_then (host_port_or_bad_port p) path) p (\<lambda>v. u_host v \<noteq> None)"
  using host_or_bad_scans
proof (rule scans_and_then)
  fix q :: url_parser
  assume "u_host (ps_url q) \<noteq> None"
  then show "scans (path q) q (\<lambda>v. url_keeps (ps_url q) v \<longrightarrow> u_host v \<noteq> None)"
    using assms [of q] by (auto simp: scans_def url_keeps_def)
qed

lemma switch_scans:
  assumes "url_fresh (ps_url p)"
    and "u_scheme_type (ps_url p) = GLOBUS_URL_SCHEME_FILE \<Longrightarrow> scans (file_specific p) p (\<lambda>v. u_url_path v \<noteq> None)"
  shows "scans (url_switch ftp_path http_path file_specific p) p (url_members (u_scheme_type (ps_url p)))"
proof -
  have login: "scans (and_then (globusl_url_get_user_password p)
      (\<lambda>q. and_then (host_port_or_bad_port q) (ftp_path t))) p (\<lambda>v. u_host v \<noteq> None)" for t
  proof (rule scans_and_then [OF user_password_scans])
    fix q
    show "scans (and_then (host_port_or_bad_port q) (ftp_path t)) q
        (\<lambda>v. url_keeps (ps_url q) v \<longrightarrow> u_host v \<noteq> None)"
      using host_path_scans [of "ftp_path t" q, OF ftp_path_scans] by (auto simp: scans_def)
  qed
  have nexus: "scans (and_then (globusl_url_get_host_port p)
      (\<lambda>p1. Some (if u_port (ps_url p1) = 0 then GLOBUS_URL_ERROR_BAD_PORT else GLOBUS_SUCCESS, p1)))
      p (url_members GLOBUS_URL_SCHEME_X_NEXUS)"
    using host_port_scans
    by (rule scans_and_then) (auto simp: scans_def url_members_def url_codes)
  have http: "scans (and_then (host_port_or_bad_port p) (http_path t)) p (\<lambda>v. u_host v \<noteq> None)" for t
    by (rule host_path_scans [OF http_path_scans])
  show ?thesis
    by (cases "u_scheme_type (ps_url p)")
      (simp_all only: url_switch_def globus_url_scheme_t.case url_members_eqs login nexus ldap_switch_scans
        whole_specific_scans unknown_scans [OF assms(1)] assms(2) http)
qed

end

interpretation strict_paths: url_paths globusl_url_get_path globusl_url_get_path
  by unfold_locales (rule path_scans)+

interpretation loose_paths: url_paths globusl_url_get_path_loose globusl_url_get_path_loose
  by unfold_locales (rule loose_path_scans)+

lemma get_scheme_result:
  obtains rc q where "globusl_url_get_scheme p = Some (rc, q)" "rc \<noteq> GLOBUS_SUCCESS"
      "u_port (ps_url q) = u_port (ps_url p)"
      "\<And>n r. ps_room p > 0 \<Longrightarrow> ps_string p = n @ CHR '':'' # r \<Longrightarrow> \<forall>c \<in> set n. scheme_char c \<Longrightarrow> n = []"
  | name r where "ps_string p = name @ CHR '':'' # r" "ps_room p > 0" "\<forall>c \<in> set name. scheme_char c" "name \<noteq> []"
      "globusl_url_get_scheme p = Some (GLOBUS_SUCCESS, \<lparr>ps_string = CHR '':'' # r, ps_room = ps_room p - 1,
        ps_url = (ps_url p)\<lparr>u_scheme := Some name, u_scheme_type := scheme_of name\<rparr>\<rparr>)"
proof (cases "ps_room p > 0 \<and> (\<exists>n r. ps_string p = n @ CHR '':'' # r \<and> (\<forall>c \<in> set n. scheme_char c) \<and> n \<noteq> [])")
  case True
  then obtain n r where "ps_string p = n @ CHR '':'' # r" "\<forall>c \<in> set n. scheme_char c" "n \<noteq> []" "ps_room p > 0"
    by blast
  then show thesis using get_scheme_text by (intro that(2)) simp_all
next
  case False
  note failed = that(1)
  let ?s = "ps_string p" and ?n = "takeWhile scheme_char (ps_string p)"
  have skip: "skip_while scheme_char ?s 0 = Some (length ?n)" by (simp add: skip_while_eq)
  have len: "length ?n \<le> length ?s" by (rule length_takeWhile_le)
  then obtain c where c: "char_at ?s (length ?n) = Some c" by (rule char_at_in)
  have bad: thesis if "c \<noteq> CHR '':'' \<or> length ?n = 0"
  proof -
    have "globusl_url_get_scheme p = Some (GLOBUS_URL_ERROR_BAD_SCHEME, p)"
      unfolding globusl_url_get_scheme_def skip bind.bind_lunit c using that by auto
    then show thesis by (rule failed) (use False in \<open>auto simp: url_codes\<close>)
  qed
  show thesis
  proof (cases "c \<noteq> CHR '':'' \<or> length ?n = 0")
    case False': False
    have "?s = ?n @ drop (length ?n) ?s" by (metis append_take_drop_id takeWhile_eq_take)
    moreover have "drop (length ?n) ?s = c # drop (Suc (length ?n)) ?s"
      using drop_char [OF c] False' by auto
    ultimately have "?s = ?n @ CHR '':'' # drop (Suc (length ?n)) ?s" using False' by simp
    moreover have "\<forall>c \<in> set ?n. scheme_char c" by (auto dest: set_takeWhileD)
    moreover have "?n \<noteq> []" using False' by auto
    ultimately have room: "ps_room p = 0" using False by (metis gr0I)
    have "globusl_url_get_scheme p = Some (GLOBUS_URL_ERROR_INTERNAL_ERROR,
        p\<lparr>ps_url := (ps_url p)\<lparr>u_scheme := None\<rparr>\<rparr>)"
      unfolding globusl_url_get_scheme_def skip bind.bind_lunit c
      using False' room len by (simp add: store_substring_eq url_codes)
    then show thesis by (rule failed) (use room in \<open>auto simp: url_codes\<close>)
  qed (rule bad)
qed

lemma scheme_of_file: "scheme_of name = GLOBUS_URL_SCHEME_FILE \<longleftrightarrow> name = ''file''"
  by (simp add: scheme_of_def)

lemma file_scheme_chars: "\<forall>c \<in> set ''file''. scheme_char c"
  by (simp add: url_classes)

text \<open>The outcome of a parse: a complete URL, or an error and no member set.\<close>

definition parse_outcome :: "string \<Rightarrow> (int \<times> globus_url_t option) option \<Rightarrow> bool" where
  "parse_outcome s r \<longleftrightarrow> (\<exists>rc v. r = Some (rc, Some v) \<and> u_port v \<in> {0..65535} \<and>
     (if rc = GLOBUS_SUCCESS
      then url_complete v \<and> (\<exists>name rest. s = name @ '':'' @ rest \<and> u_scheme v = Some name)
      else v = url_cleared v))"

lemma url_cleared_idem [simp]: "url_cleared (url_cleared u) = url_cleared u"
  and url_cleared_port [simp]: "u_port (url_cleared u) = u_port u"
  by (simp_all add: url_cleared_def)

context url_paths
begin

lemma parse_contract:
  assumes "\<And>q. s = ''file:'' @ ps_string q \<Longrightarrow> scans (file_specific q) q (\<lambda>v. u_url_path v \<noteq> None)"
  shows "parse_outcome s (url_parse_with ftp_path http_path file_specific room (Some s) (Some u))"
proof -
  let ?u0 = "(url_cleared u)\<lparr>u_port := 0\<rparr>"
  let ?p = "\<lparr>ps_string = s, ps_room = room, ps_url = ?u0\<rparr>"
  show ?thesis
  proof (rule get_scheme_result [of ?p])
    fix rc q
    assume "globusl_url_get_scheme ?p = Some (rc, q)" "rc \<noteq> GLOBUS_SUCCESS" "u_port (ps_url q) = u_port (ps_url ?p)"
    then show ?thesis
      by (simp add: parse_outcome_def url_parse_with_def and_then_def globus_url_destroy_def)
  next
    fix name r
    let ?p1 = "\<lparr>ps_string = CHR '':'' # r, ps_room = room - 1,
        ps_url = ?u0\<lparr>u_scheme := Some name, u_scheme_type := scheme_of name\<rparr>\<rparr>"
    let ?file = "name = ''file''"
    assume s: "ps_string ?p = name @ CHR '':'' # r"
      and scheme: "globusl_url_get_scheme ?p = Some (GLOBUS_SUCCESS, \<lparr>ps_string = CHR '':'' # r, ps_room = ps_room ?p - 1,
        ps_url = (ps_url ?p)\<lparr>u_scheme := Some name, u_scheme_type := scheme_of name\<rparr>\<rparr>)"
    define q where "q = advance (if ?file then 1 else 3) ?p1"
    have "scans (url_switch ftp_path http_path file_specific q) q (url_members (u_scheme_type (ps_url q)))"
    proof (rule switch_scans)
      show "url_fresh (ps_url q)" by (simp add: q_def url_fresh_def advance_def url_cleared_def)
      assume "u_scheme_type (ps_url q) = GLOBUS_URL_SCHEME_FILE"
      then have "?file" by (simp add: q_def advance_def scheme_of_file)
      then show "scans (file_specific q) q (\<lambda>v. u_url_path v \<noteq> None)"
        using s by (intro assms) (simp add: q_def advance_def)
    qed
    then obtain rc p2 where sw: "url_switch ftp_path http_path file_specific q = Some (rc, p2)"
      and basic: "u_scheme (ps_url p2) = Some name" "u_scheme_type (ps_url p2) = scheme_of name"
        "u_port (ps_url p2) \<in> {0..65535}"
      and ok: "rc = GLOBUS_SUCCESS \<Longrightarrow> url_members (scheme_of name) (ps_url p2)"
      by (auto simp: scans_def url_basic_def advance_def q_def)
    have scheme1: "globusl_url_get_scheme ?p = Some (GLOBUS_SUCCESS, ?p1)" using scheme by simp
    have isf: "(u_scheme_type (ps_url ?p1) = GLOBUS_URL_SCHEME_FILE) = ?file" by (simp add: scheme_of_file)
    have "url_parse_with ftp_path http_path file_specific room (Some s) (Some u) =
        (if take 3 (CHR '':'' # r) \<noteq> ''://'' \<and> \<not> ?file
         then Some (GLOBUS_URL_ERROR_BAD_SCHEME, Some (url_cleared (ps_url ?p1)))
         else Some (rc, Some (if rc = GLOBUS_SUCCESS then ps_url p2 else url_cleared (ps_url p2))))"
      unfolding url_parse_with_def Let_def option.case and_then_def scheme1 bind.bind_lunit prod.case
        isf q_def [symmetric] sw
      by (simp add: sw globus_url_destroy_def url_codes)
    then show ?thesis
      using basic ok s by (auto simp: parse_outcome_def url_complete_def url_codes)
  qed
qed

lemma parse_no_room: "parse_outcome s (url_parse_with ftp_path http_path file_specific 0 (Some s) (Some u))"
proof -
  let ?p = "\<lparr>ps_string = s, ps_room = 0, ps_url = (url_cleared u)\<lparr>u_port := 0\<rparr>\<rparr>"
  show ?thesis
    by (rule get_scheme_result [of ?p])
      (simp_all add: parse_outcome_def url_parse_with_def and_then_def globus_url_destroy_def)
qed

end

section \<open>The loose parser and files\<close>

lemma loose_host_loop_stuck:
  assumes "char_at (ps_string p) 0 = Some c" and "host_char c"
  shows "loose_host_loop 0 p = None"
proof (rule ccontr)
  assume "loose_host_loop 0 p \<noteq> None"
  then obtain y where "loose_host_loop 0 p = Some y" by auto
  then have "0 = (0::nat) \<and> char_at (ps_string p) 0 = Some c \<longrightarrow> \<not> host_char c"
    by (rule loose_host_loop.raw_induct [rotated]) (auto simp: bind_eq_Some_conv split: if_splits)
  then show False using assms by simp
qed

lemma loose_host_loop_passes:
  assumes "char_at (ps_string p) 0 = Some c" and "\<not> host_char c"
  shows "loose_host_loop 0 p = Some (GLOBUS_SUCCESS, p)"
  using assms by (subst loose_host_loop.simps) simp

text \<open>The inputs behind \<open>file:\<close> on which the loop does not end.\<close>

definition loose_file_stuck :: "string \<Rightarrow> bool" where
  "loose_file_stuck s \<longleftrightarrow> (\<exists>c r. s = ''//'' @ c # r \<and> host_char c)"

lemma slash_count_2:
  "length (takeWhile (\<lambda>c. c = CHR ''/'') s) = 2 \<longleftrightarrow>
    (\<exists>t. s = ''//'' @ t \<and> (t = [] \<or> hd t \<noteq> CHR ''/''))"
proof (cases s)
  case (Cons a t)
  then show ?thesis by (cases t; cases "tl t") auto
qed simp

lemma loose_file_scans:
  assumes "\<not> loose_file_stuck (ps_string p)"
  shows "scans (globusl_url_get_file_specific_loose p) p (\<lambda>v. u_url_path v \<noteq> None)"
proof -
  let ?s = "ps_string p" and ?Q = "\<lambda>v. u_url_path v \<noteq> None"
  let ?n = "length (takeWhile (\<lambda>c. c = CHR ''/'') ?s)"
  have path: "scans (file_path_part (globusl_url_get_path_loose GLOBUS_URL_SCHEME_FILE) k q) q ?Q"
    if "k \<le> length (ps_string q)" for k q
    using that unfolding globusl_url_get_path_loose_def
    by (intro file_path_scans file_get_path_scans loose_path_token.url_token_axioms slash_classes)
  have n: "skip_while (\<lambda>c. c = CHR ''/'') ?s 0 = Some ?n"
    by (simp add: skip_while_eq)
  define q where "q = advance 2 p"
  have bad: "scans (Some (GLOBUS_URL_ERROR_BAD_PATH, p)) p ?Q"
    by (rule scans_error) (simp add: url_codes)
  have two: "scans (do { (rc, p1) \<leftarrow> loose_host_loop 0 q; if rc \<noteq> GLOBUS_SUCCESS then Some (rc, p1)
      else file_path_part (globusl_url_get_path_loose GLOBUS_URL_SCHEME_FILE) 0 p1 }) p ?Q" if n2: "?n = 2"
  proof -
    obtain t where t: "?s = ''//'' @ t" using n2 slash_count_2 [of ?s] by blast
    obtain c where c: "char_at (ps_string q) 0 = Some c" using char_at_some by blast
    moreover have "\<not> host_char c"
      using assms t c by (cases t) (auto simp: loose_file_stuck_def q_def advance_def)
    ultimately have "loose_host_loop 0 q = Some (GLOBUS_SUCCESS, q)" by (rule loose_host_loop_passes)
    then show ?thesis using path [of 0 q] by (simp add: scans_def q_def advance_def)
  qed
  show ?thesis
    unfolding globusl_url_get_file_specific_loose_def n bind.bind_lunit q_def [symmetric]
    by (intro scans_if bad path two) (simp_all add: length_takeWhile_le)
qed

lemma loose_file_hangs:
  assumes "loose_file_stuck (ps_string p)"
  shows "globusl_url_get_file_specific_loose p = None"
proof -
  obtain c r where s: "ps_string p = ''//'' @ c # r" "host_char c" using assms by (auto simp: loose_file_stuck_def)
  then have "c \<noteq> CHR ''/''" by (auto simp: url_classes)
  then have "skip_while (\<lambda>c. c = CHR ''/'') (ps_string p) 0 = Some 2"
    using s by (simp add: skip_while_eq)
  moreover have "loose_host_loop 0 (advance 2 p) = None"
    using s by (intro loose_host_loop_stuck [of _ c]) (simp_all add: advance_def)
  ultimately show ?thesis by (simp add: globusl_url_get_file_specific_loose_def)
qed

lemma loose_parse_hangs:
  assumes "s = ''file:'' @ t" and "loose_file_stuck t" and "0 < room"
  shows "globus_url_parse_loose room (Some s) (Some u) = None"
proof -
  let ?u0 = "(url_cleared u)\<lparr>u_port := 0\<rparr>"
  have "globusl_url_get_scheme \<lparr>ps_string = s, ps_room = room, ps_url = ?u0\<rparr> = Some (GLOBUS_SUCCESS,
    \<lparr>ps_string = CHR '':'' # t, ps_room = room - 1,
     ps_url = ?u0\<lparr>u_scheme := Some ''file'', u_scheme_type := scheme_of ''file''\<rparr>\<rparr>)"
    using get_scheme_text [OF file_scheme_chars, of "\<lparr>ps_string = s, ps_room = room, ps_url = ?u0\<rparr>" t] assms(1,3)
    by simp
  then show ?thesis
    using assms(2)
    by (simp add: globus_url_parse_loose_def url_parse_with_def and_then_def url_switch_def scheme_of_def
        advance_def loose_file_hangs)
qed

section \<open>Paths of RFC 1738\<close>

text \<open>The text that is copied: without a leading slash, and with one slash for a run of them.\<close>

fun squeeze :: "char option \<Rightarrow> string \<Rightarrow> string" where
  "squeeze prev [] = []"
| "squeeze prev (c # s) =
     (if c = CHR ''/'' \<and> (prev = None \<or> prev = Some CHR ''/'') then squeeze (Some c) s
      else c # squeeze (Some c) s)"

lemma squeeze_snoc:
  "squeeze prev (s @ [c]) = squeeze prev s @
     (if c = CHR ''/'' \<and> (if s = [] then prev = None \<or> prev = Some CHR ''/'' else last s = CHR ''/'') then [] else [c])"
  by (induction s arbitrary: prev) auto

lemma length_squeeze: "length (squeeze prev s) \<le> length s"
  by (induction s arbitrary: prev) (auto intro: le_SucI)

lemma squeeze_id: "squeeze prev s = s \<longleftrightarrow> length (squeeze prev s) = length s"
proof (induction s arbitrary: prev)
  case (Cons c s)
  then show ?case using length_squeeze [of "Some c" s] by auto
qed simp

lemma squeeze_take_Suc:
  assumes "i < length s"
  shows "squeeze None (take (Suc i) s) = squeeze None (take i s) @
    (if s ! i = CHR ''/'' \<and> (i = 0 \<or> s ! (i - 1) = CHR ''/'') then [] else [s ! i])"
proof -
  have "last (take i s) = s ! (i - 1)" if "i \<noteq> 0"
    using assms that by (subst last_conv_nth) auto
  then show ?thesis using assms by (auto simp: take_Suc_conv_app_nth squeeze_snoc)
qed

text \<open>How far a text over a class reaches; \<open>None\<close> when a percent sign is not followed by two digits.\<close>

fun url_span :: "(char \<Rightarrow> bool) \<Rightarrow> string \<Rightarrow> nat option" where
  "url_span cls [] = Some 0"
| "url_span cls (c # s) =
     (if c = CHR ''%'' then
        (case s of a # b # t \<Rightarrow> if isxdigit a \<and> isxdigit b then map_option ((+) 3) (url_span cls t) else None
         | _ \<Rightarrow> None)
      else if cls c then map_option Suc (url_span cls s) else Some 0)"

lemma url_span_full: "url_span cls s = Some (length s) \<longleftrightarrow> url_text cls s"
  by (induction cls s rule: url_text.induct) (auto split: list.splits)

lemma url_span_le: "url_span cls s = Some k \<Longrightarrow> k \<le> length s"
  by (induction cls s arbitrary: k rule: url_span.induct) (auto split: if_splits list.splits)

lemma url_span_run: "\<forall>c \<in> set u. cls c \<and> c \<noteq> CHR ''%'' \<Longrightarrow> url_span cls (u @ v) = map_option ((+) (length u)) (url_span cls v)"
  by (cases "url_span cls v"; induction u; simp)

lemma rfc_slashes_eq:
  assumes "pos \<le> length s"
  shows "rfc_slashes s pos (squeeze None (take pos s)) =
    (let k = length (takeWhile (\<lambda>c. c = CHR ''/'') (drop pos s))
     in Some (pos + k, squeeze None (take (pos + k) s)))"
  using assms
proof (induction "length s - pos" arbitrary: pos rule: less_induct)
  case less
  obtain c where c: "char_at s pos = Some c" using less.prems by (rule char_at_in)
  show ?case
  proof (cases "c = CHR ''/''")
    case True
    then have pos: "pos < length s" "s ! pos = c" using char_at_not_NUL [OF c] by auto
    have drop: "drop pos s = c # drop (Suc pos) s" using drop_char [OF c] True by simp
    have IH: "rfc_slashes s (pos + 1) (squeeze None (take (Suc pos) s)) =
      (let k = length (takeWhile (\<lambda>c. c = CHR ''/'') (drop (Suc pos) s))
       in Some (Suc pos + k, squeeze None (take (Suc pos + k) s)))"
      using less.hyps [of "pos + 1"] pos by simp
    have prev: "char_at s (pos - 1) = Some (s ! (pos - 1))" using pos by (auto simp: char_at_def)
    have room: "buf_byte (length s) (squeeze None (take pos s)) c = Some (squeeze None (take pos s) @ [c])"
      using length_squeeze [of None "take pos s"] pos by (simp add: buf_byte_def)
    have "rfc_slashes s pos (squeeze None (take pos s)) = rfc_slashes s (pos + 1) (squeeze None (take (Suc pos) s))"
    proof (cases "pos = 0 \<or> s ! (pos - 1) = CHR ''/''")
      case True': True
      then show ?thesis
        using c True prev squeeze_take_Suc [OF pos(1)] pos(2) by (subst rfc_slashes.simps) auto
    next
      case False
      then show ?thesis
        using c True prev room squeeze_take_Suc [OF pos(1)] pos(2) by (subst rfc_slashes.simps) auto
    qed
    then show ?thesis using IH drop True by (simp add: Let_def)
  next
    case False
    then have "takeWhile (\<lambda>c. c = CHR ''/'') (drop pos s) = []"
      using c by (cases "pos < length s") (auto simp: char_at_def Cons_nth_drop_Suc [symmetric])
    then show ?thesis using c False by (subst rfc_slashes.simps) simp
  qed
qed

lemma rfc_char_plain: "rfc_path_char c \<Longrightarrow> c \<noteq> NUL \<and> c \<noteq> CHR ''%''" "rfc_path_char CHR ''/''"
  by (auto simp: url_classes NUL_def)

text \<open>Copying one more byte.\<close>

lemma rfc_copy:
  assumes "char_at s i = Some c" and "c \<noteq> NUL" and "c \<noteq> CHR ''/''"
  shows "buf_byte (length s) (squeeze None (take i s)) c = Some (squeeze None (take (Suc i) s))"
proof -
  have i: "i < length s" "s ! i = c" using char_at_not_NUL assms by auto
  then show ?thesis
    using length_squeeze [of None "take i s"] squeeze_take_Suc [OF i(1)] assms(3) by (simp add: buf_byte_def)
qed

lemma rfc_triple_eq:
  assumes "pos \<le> length s"
  shows "rfc_triple s pos (squeeze None (take pos s)) =
    (case pct_triple s GLOBUS_URL_ERROR_BAD_PATH pos of
       None \<Rightarrow> None
     | Some (Inl e) \<Rightarrow> Some (Inl e)
     | Some (Inr q) \<Rightarrow> Some (Inr (q, squeeze None (take q s))))"
proof -
  obtain c where c: "char_at s pos = Some c" using assms by (rule char_at_in)
  show ?thesis
  proof (cases "c = CHR ''%''")
    case False
    then show ?thesis using c by (simp add: rfc_triple_def pct_triple_def)
  next
    case True
    have x: "isxdigit d \<Longrightarrow> d \<noteq> NUL \<and> d \<noteq> CHR ''/''" for d by (auto simp: url_classes NUL_def)
    have b1: "buf_byte (length s) (squeeze None (take pos s)) c = Some (squeeze None (take (Suc pos) s))"
      using rfc_copy [OF c] True by simp
    obtain h1 where h1: "char_at s (Suc pos) = Some h1"
      using char_at_not_NUL [OF c] True char_at_some [of "Suc pos" s] by auto
    show ?thesis
    proof (cases "isxdigit h1")
      case False
      then show ?thesis using c True b1 h1 by (simp add: rfc_triple_def pct_triple_def)
    next
      case x1: True
      have b2: "buf_byte (length s) (squeeze None (take (Suc pos) s)) h1 = Some (squeeze None (take (Suc (Suc pos)) s))"
        using rfc_copy [OF h1] x [OF x1] by simp
      obtain h2 where h2: "char_at s (Suc (Suc pos)) = Some h2"
        using char_at_not_NUL [OF h1] x [OF x1] char_at_some [of "Suc (Suc pos)" s] by auto
      have b3: "buf_byte (length s) (squeeze None (take (Suc (Suc pos)) s)) h2
          = Some (squeeze None (take (Suc (Suc (Suc pos))) s))" if "isxdigit h2"
        using rfc_copy [OF h2] x [OF that] by simp
      show ?thesis
        using c True b1 h1 x1 b2 h2 b3
        by (simp add: rfc_triple_def pct_triple_def numeral_2_eq_2 numeral_3_eq_3)
    qed
  qed
qed

lemma char_at_drop: "pos \<le> length s \<Longrightarrow> char_at s (pos + k) = char_at (drop pos s) k"
  by (auto simp: char_at_def)

lemma pct_triple_span:
  assumes "pos \<le> length s"
  shows "pct_triple s err pos = Some (Inl err) \<and> url_span cls (drop pos s) = None
    \<or> (\<exists>k. pct_triple s err pos = Some (Inr (pos + k)) \<and> pos + k \<le> length s
        \<and> url_span cls (drop pos s) = map_option ((+) k) (url_span cls (drop (pos + k) s))
        \<and> (k = 0 \<longrightarrow> char_at s pos \<noteq> Some CHR ''%''))"
proof -
  define t where "t = drop pos s"
  have at: "char_at s pos = char_at t 0" "char_at s (pos + 1) = char_at t 1" "char_at s (pos + 2) = char_at t (Suc (Suc 0))"
    using char_at_drop [OF assms, of 0] char_at_drop [OF assms, of 1] char_at_drop [OF assms, of 2]
    by (simp_all add: t_def numeral_2_eq_2)
  show ?thesis
  proof (cases "char_at t 0 = Some CHR ''%''")
    case False
    then have "pct_triple s err pos = Some (Inr pos)"
      using at(1) char_at_some [of 0 t] by (auto simp: pct_triple_def)
    then show ?thesis using False assms at(1) by (cases "url_span cls (drop pos s)") (auto intro!: exI [of _ 0])
  next
    case True
    have noNUL: "\<not> isxdigit NUL" using xdigit_not_NUL by blast
    obtain r where t: "t = CHR ''%'' # r" using True by (cases t) auto
    consider "r = []" | a where "r = [a]" | a b v where "r = a # b # v" by (cases r; cases "tl r") auto
    then show ?thesis
    proof cases
      case 1
      then show ?thesis using at t noNUL by (simp add: pct_triple_def t_def [symmetric])
    next
      case 2
      then show ?thesis using at t noNUL by (simp add: pct_triple_def t_def [symmetric])
    next
      case (3 a b v)
      have "drop (3 + pos) s = drop 3 t" "length t = length s - pos" by (simp_all add: t_def)
      then have "drop (pos + 3) s = v" "pos + 3 \<le> length s"
        using t 3 by (simp_all add: add.commute)
      then show ?thesis
        using at t 3 by (auto simp: pct_triple_def t_def [symmetric] intro!: exI [of _ 3])
    qed
  qed
qed

lemma rfc_loop_eq:
  assumes "c_string s" and "pos \<le> length s"
  shows "rfc_loop s pos (squeeze None (take pos s)) =
    (case url_span rfc_path_char (drop pos s) of
       None \<Rightarrow> Some (Inl GLOBUS_URL_ERROR_BAD_PATH)
     | Some k \<Rightarrow> Some (Inr (pos + k, squeeze None (take (pos + k) s))))"
  using assms(2)
proof (induction "length s - pos" arbitrary: pos rule: less_induct)
  case less
  let ?span = "\<lambda>i. url_span rfc_path_char (drop i s)" and ?out = "\<lambda>i. squeeze None (take i s)"
  define j where "j = length (takeWhile (\<lambda>c. c = CHR ''/'') (drop pos s))"
  define pos1 where "pos1 = pos + j"
  have j: "pos1 \<le> length s" "pos \<le> pos1"
    using less.prems length_takeWhile_le [of "\<lambda>c. c = CHR ''/''" "drop pos s"] by (simp_all add: j_def pos1_def)
  have sl: "rfc_slashes s pos (?out pos) = Some (pos1, ?out pos1)"
    using rfc_slashes_eq [OF less.prems] by (simp add: Let_def j_def pos1_def)
  have sp1: "?span pos = map_option ((+) j) (?span pos1)"
  proof -
    have "drop pos s = takeWhile (\<lambda>c. c = CHR ''/'') (drop pos s) @ drop pos1 s"
      unfolding pos1_def j_def by (metis add.commute append_take_drop_id drop_drop takeWhile_eq_take)
    moreover have "\<forall>c \<in> set (takeWhile (\<lambda>c. c = CHR ''/'') (drop pos s)). rfc_path_char c \<and> c \<noteq> CHR ''%''"
      using rfc_char_plain by (auto dest: set_takeWhileD)
    ultimately show ?thesis using url_span_run unfolding j_def by metis
  qed
  obtain c where c: "char_at s pos1 = Some c" using j(1) by (rule char_at_in)
  have noslash: "c \<noteq> CHR ''/''"
  proof
    assume "c = CHR ''/''"
    moreover from this have "pos1 < length s" "s ! pos1 = c" using char_at_not_NUL [OF c] by auto
    moreover from this have "j < length (drop pos s)" by (simp add: pos1_def)
    ultimately show False
      using nth_length_takeWhile [of "\<lambda>c. c = CHR ''/''" "drop pos s"] by (simp add: j_def pos1_def)
  qed
  define pos2 where "pos2 = (if rfc_path_char c then pos1 + 1 else pos1)"
  have step: "(if rfc_path_char c then do { b \<leftarrow> buf_byte (length s) (?out pos1) c; Some (pos1 + 1, b) }
      else Some (pos1, ?out pos1)) = Some (pos2, ?out pos2)"
    using rfc_copy [OF c] rfc_char_plain(1) [of c] noslash by (simp add: pos2_def)
  have pos2: "pos2 \<le> length s" "pos1 \<le> pos2"
    using rfc_char_plain(1) [of c] char_at_not_NUL [OF c] j(1) by (auto simp: pos2_def)
  have sp2: "?span pos1 = map_option ((+) (pos2 - pos1)) (?span pos2)"
    using rfc_char_plain(1) [of c] drop_char [OF c]
    by (cases "rfc_path_char c") (cases "?span pos1"; auto simp: pos2_def)+
  show ?case
    using pct_triple_span [OF pos2(1), of GLOBUS_URL_ERROR_BAD_PATH rfc_path_char]
  proof (elim disjE exE conjE)
    assume t: "pct_triple s GLOBUS_URL_ERROR_BAD_PATH pos2 = Some (Inl GLOBUS_URL_ERROR_BAD_PATH)" "?span pos2 = None"
    then have "?span pos = None" using sp1 sp2 by simp
    then show ?thesis
      using sl c step rfc_triple_eq [OF pos2(1)] t by (subst rfc_loop.simps) simp
  next
    fix k
    assume t: "pct_triple s GLOBUS_URL_ERROR_BAD_PATH pos2 = Some (Inr (pos2 + k))" and in_s: "pos2 + k \<le> length s"
      and sp3: "?span pos2 = map_option ((+) k) (?span (pos2 + k))" and k0: "k = 0 \<longrightarrow> char_at s pos2 \<noteq> Some CHR ''%''"
    obtain d where d: "char_at s (pos2 + k) = Some d" using in_s by (rule char_at_in)
    have round: "rfc_loop s pos (?out pos) = (if d \<noteq> NUL \<and> pos2 + k \<noteq> pos
        then rfc_loop s (pos2 + k) (?out (pos2 + k)) else Some (Inr (pos2 + k, ?out (pos2 + k))))"
      using sl c step rfc_triple_eq [OF pos2(1)] t d by (subst rfc_loop.simps) simp
    have sp: "?span pos = map_option ((+) (pos2 + k - pos)) (?span (pos2 + k))"
      using sp1 sp2 sp3 j(2) pos2(2)
      by (cases "?span (pos2 + k)") (auto simp: pos1_def)
    consider "d \<noteq> NUL" "pos2 + k \<noteq> pos" | "d = NUL" | "d \<noteq> NUL" "pos2 + k = pos" by blast
    then show ?thesis
    proof cases
      case 1
      have "rfc_loop s (pos2 + k) (?out (pos2 + k)) = (case ?span (pos2 + k) of
          None \<Rightarrow> Some (Inl GLOBUS_URL_ERROR_BAD_PATH)
        | Some n \<Rightarrow> Some (Inr (pos2 + k + n, ?out (pos2 + k + n))))"
        using 1 in_s j(2) pos2(2) by (intro less.hyps) auto
      then show ?thesis
        using 1 round sp j(2) pos2(2) by (cases "?span (pos2 + k)") auto
    next
      case 2
      have "s ! i \<noteq> NUL" if "i < length s" for i
        using assms(1) that by (metis c_string_def nth_mem)
      then have "pos2 + k = length s"
        using 2 d by (auto simp: char_at_def split: if_splits)
      then show ?thesis
        using 2 round sp j(2) pos2(2) by simp
    next
      case 3
      then have "k = 0" "pos2 = pos1" "pos1 = pos" using j(2) pos2(2) by auto
      moreover from this have "\<not> rfc_path_char c" "c = d" using c d by (auto simp: pos2_def)
      ultimately have "?span pos = Some 0"
        using 3 c k0 drop_char [of s pos c] by auto
      then show ?thesis using 3 round by simp
    qed
  qed
qed

section \<open>Properties\<close>

text \<open>
  C28. The function that reads the path of an FTP URL by RFC 1738, on every string: a malformed escape, and a
  character outside the class behind a non-empty path, are rejected; the buffer of \<open>strlen\<close> bytes is
  overrun by one byte exactly when the whole text is accepted and no slash is dropped from it (in
  particular when there is no path at all); otherwise the path is the decoded text without its leading
  slash and with single slashes.
\<close>

theorem globusl_url_get_path_rfc1738_exact:
  assumes "c_string (ps_string p)" and "2 \<le> ps_room p"
  shows "globusl_url_get_path_rfc1738 t p =
    (let s = ps_string p; leak = p\<lparr>ps_room := ps_room p - 1\<rparr>
     in case url_span rfc_path_char s of
          None \<Rightarrow> Some (GLOBUS_URL_ERROR_BAD_PATH, leak)
        | Some k \<Rightarrow>
            if k = length s
            then (if squeeze None s = s then None
                  else Some (GLOBUS_SUCCESS, p\<lparr>ps_room := ps_room p - 1,
                    ps_url := set_path (Some (c_cut (pct_decode (squeeze None s)))) (ps_url p)\<rparr>))
            else Some (if k = 0 then GLOBUS_SUCCESS else GLOBUS_URL_ERROR_BAD_PATH, leak))"
proof -
  let ?s = "ps_string p"
  have loop: "rfc_loop ?s 0 [] = (case url_span rfc_path_char ?s of
      None \<Rightarrow> Some (Inl GLOBUS_URL_ERROR_BAD_PATH) | Some k \<Rightarrow> Some (Inr (k, squeeze None (take k ?s))))"
    using rfc_loop_eq [OF assms(1), of 0] by (cases "url_span rfc_path_char ?s") simp_all
  show ?thesis
  proof (cases "url_span rfc_path_char ?s")
    case None
    then show ?thesis using loop assms(2) by (simp add: globusl_url_get_path_rfc1738_def)
  next
    case (Some k)
    let ?b = "squeeze None (take k ?s)"
    have k: "k \<le> length ?s" using url_span_le Some by blast
    have fit: "length ?b < length ?s \<longleftrightarrow> \<not> (k = length ?s \<and> squeeze None ?s = ?s)"
      using k length_squeeze [of None "take k ?s"] squeeze_id [of None ?s] by (cases "k = length ?s") auto
    have store: "globusl_url_get_substring (ps_room p - 1) ?b (length ?b) =
        Some (GLOBUS_SUCCESS, Some (c_cut (pct_decode ?b)), ps_room p - 1 - 1)"
      using assms(2) by (simp add: get_substring_eq)
    have "squeeze None ?s \<noteq> ?s \<Longrightarrow> ?s \<noteq> []" by auto
    then show ?thesis
      using loop Some assms(2) store fit by (auto simp: globusl_url_get_path_rfc1738_def Let_def buf_byte_def)
  qed
qed

theorem globusl_url_get_path_rfc1738_witness:
  "let p = \<lparr>ps_string = ''//a//b%20c'', ps_room = 2, ps_url = url_zero\<rparr>
   in globusl_url_get_path_rfc1738 GLOBUS_URL_SCHEME_FTP p = Some (GLOBUS_SUCCESS,
        p\<lparr>ps_room := 1, ps_url := url_zero\<lparr>u_url_path := Some ''a/b c''\<rparr>\<rparr>)
      \<and> globusl_url_get_path_rfc1738 GLOBUS_URL_SCHEME_FTP (p\<lparr>ps_string := []\<rparr>) = None"
proof -
  have classes: "rfc_path_char CHR ''/''" "rfc_path_char CHR ''a''" "rfc_path_char CHR ''b''" "rfc_path_char CHR ''c''"
    "isxdigit CHR ''2''" "isxdigit CHR ''0''" "hex_byte CHR ''2'' CHR ''0'' = CHR '' ''"
    by code_simp+
  then show ?thesis
    using globusl_url_get_path_rfc1738_exact [of "\<lparr>ps_string = ''//a//b%20c'', ps_room = 2, ps_url = url_zero\<rparr>" GLOBUS_URL_SCHEME_FTP]
      globusl_url_get_path_rfc1738_exact [of "\<lparr>ps_string = [], ps_room = 2, ps_url = url_zero\<rparr>" GLOBUS_URL_SCHEME_FTP]
    by (simp add: c_string_def Let_def c_cut_def NUL_def)
qed

text \<open>
  C27. The strict parser returns on every string, whatever memory is available, without an access outside
  the string or a buffer. When it succeeds, the scheme is the text before the first colon and the
  members that belong to it are set; when it fails, no member is left allocated. The port fits an
  unsigned short.
\<close>

theorem globus_url_parse_contract:
  "parse_outcome s (globus_url_parse room (Some s) (Some u))"
  unfolding globus_url_parse_def by (rule strict_paths.parse_contract) (rule file_scans)

text \<open>
  C29. The loose parser does not return on exactly the strings that name a host in a file URL
  (\<open>file://\<close> followed by a letter, a digit, a hyphen or a dot), when memory for the scheme is there; on
  every other string it has the outcome of a parse.
\<close>

theorem globus_url_parse_loose_hangs:
  "(globus_url_parse_loose room (Some s) (Some u) = None \<longleftrightarrow>
     0 < room \<and> (\<exists>c r. s = ''file://'' @ c # r \<and> host_char c)) \<and>
   (globus_url_parse_loose room (Some s) (Some u) \<noteq> None \<longleftrightarrow>
     parse_outcome s (globus_url_parse_loose room (Some s) (Some u)))"
proof -
  let ?stuck = "0 < room \<and> (\<exists>c r. s = ''file://'' @ c # r \<and> host_char c)"
  have stuck: "loose_file_stuck t \<longleftrightarrow> (\<exists>c r. ''file:'' @ t = ''file://'' @ c # r \<and> host_char c)" for t
    by (simp add: loose_file_stuck_def)
  have ok: "parse_outcome s (globus_url_parse_loose room (Some s) (Some u))"
    if "\<not> ?stuck"
  proof (cases "room = 0")
    case False
    show ?thesis
      unfolding globus_url_parse_loose_def
    proof (rule loose_paths.parse_contract)
      fix q :: url_parser
      assume "s = ''file:'' @ ps_string q"
      then have "\<not> loose_file_stuck (ps_string q)" using that False stuck by simp
      then show "scans (globusl_url_get_file_specific_loose q) q (\<lambda>v. u_url_path v \<noteq> None)"
        by (rule loose_file_scans)
    qed
  next
    case True
    have "parse_outcome s (globus_url_parse_loose 0 (Some s) (Some u))"
      unfolding globus_url_parse_loose_def
      by (rule loose_paths.parse_no_room)
    then show ?thesis using True by simp
  qed
  have hang: "globus_url_parse_loose room (Some s) (Some u) = None" if st: ?stuck
  proof -
    obtain c r where "s = ''file:'' @ ''//'' @ c # r" "host_char c" "0 < room" using st by auto
    then show ?thesis by (intro loose_parse_hangs) (auto simp: loose_file_stuck_def)
  qed
  have "\<not> parse_outcome s None" by (simp add: parse_outcome_def)
  with ok hang show ?thesis by metis
qed

text \<open>
  The quick test of the scheme agrees with the parsers: when the strict parser succeeds with one of the
  known schemes, \<open>globus_url_get_scheme\<close> gives the same scheme. The converse fails for \<open>https\<close>, of which
  only five characters are compared.
\<close>

theorem globus_url_get_scheme_agrees:
  "(\<forall>v. globus_url_parse room (Some s) (Some u) = Some (GLOBUS_SUCCESS, Some v) \<longrightarrow>
      u_scheme_type v \<noteq> GLOBUS_URL_SCHEME_UNKNOWN \<longrightarrow>
      globus_url_get_scheme s = (GLOBUS_SUCCESS, u_scheme_type v)) \<and>
   globus_url_get_scheme ''httpsx://h/p'' = (GLOBUS_SUCCESS, GLOBUS_URL_SCHEME_HTTPS)"
proof (intro conjI allI impI)
  fix v
  assume "globus_url_parse room (Some s) (Some u) = Some (GLOBUS_SUCCESS, Some v)"
    and known: "u_scheme_type v \<noteq> GLOBUS_URL_SCHEME_UNKNOWN"
  moreover have "parse_outcome s (globus_url_parse room (Some s) (Some u))"
    unfolding globus_url_parse_def by (rule strict_paths.parse_contract) (rule file_scans)
  ultimately obtain name rest where "s = name @ '':'' @ rest" "u_scheme_type v = scheme_of name"
    by (auto simp: parse_outcome_def url_complete_def)
  with known show "globus_url_get_scheme s = (GLOBUS_SUCCESS, u_scheme_type v)"
    by (auto simp: scheme_of_def globus_url_get_scheme_def strn_equal_def split: if_splits)
next
  show "globus_url_get_scheme ''httpsx://h/p'' = (GLOBUS_SUCCESS, GLOBUS_URL_SCHEME_HTTPS)"
    by (simp add: globus_url_get_scheme_def strn_equal_def)
qed

theorem globus_url_get_scheme_witness:
  "globus_url_parse 9 (Some ''https://h/p'') (Some url_zero) =
     Some (GLOBUS_SUCCESS, Some (url_zero\<lparr>u_scheme := Some ''https'', u_scheme_type := GLOBUS_URL_SCHEME_HTTPS,
       u_host := Some ''h'', u_url_path := Some ''/p''\<rparr>)) \<and>
   globus_url_get_scheme ''https://h/p'' = (GLOBUS_SUCCESS, GLOBUS_URL_SCHEME_HTTPS)"
proof -
  have "globus_url_parse 9 (Some ''https://h/p'') (Some url_zero) =
     Some (GLOBUS_SUCCESS, Some (url_zero\<lparr>u_scheme := Some ''https'', u_scheme_type := GLOBUS_URL_SCHEME_HTTPS,
       u_host := Some ''h'', u_url_path := Some ''/p''\<rparr>))"
    by code_simp
  then show ?thesis
    using globus_url_get_scheme_agrees [of 9 "''https://h/p''" url_zero] by (simp add: url_zero_def)
qed


end
