(* ===== verification/Gram_Rsl.thy ===== *)
theory Gram_Rsl
  imports C_String
begin

text \<open>
  The syntax trees of the resource specification language, \<open>gram/rsl/source/globus_rsl.c\<close> and
  \<open>globus_rsl_assist.c\<close>: predicates, accessors, constructors, copies, release, extraction of parameters,
  printing, unparsing and canonical attribute names. A value of \<open>rsl\<close> or \<open>rsl_value\<close> is a
  pointer to a tree: the first constructor is NULL, the others are the four kinds of values and the two
  kinds of specifications. Lists of operands and values are the sequences that \<open>Globus_List\<close> proves of
  linked lists; code that changes a tree in place returns the changed tree. Allocation of nodes and
  strings succeeds. A result \<open>None\<close> is a fault: a NULL string that is read, the first element of an
  empty list, a write past the end of an array.
\<close>

section \<open>Trees\<close>

datatype rsl_value =
  Null_value | Literal "string option" | Sequence "rsl_value list" | Variable rsl_value
| Concatenation rsl_value rsl_value

datatype rsl = Null_rsl | Boolean int "rsl list" | Relation int "string option" rsl_value

definition GLOBUS_RSL_EQ :: int where "GLOBUS_RSL_EQ = 1"
definition GLOBUS_RSL_NEQ :: int where "GLOBUS_RSL_NEQ = 2"
definition GLOBUS_RSL_GT :: int where "GLOBUS_RSL_GT = 3"
definition GLOBUS_RSL_GTEQ :: int where "GLOBUS_RSL_GTEQ = 4"
definition GLOBUS_RSL_LT :: int where "GLOBUS_RSL_LT = 5"
definition GLOBUS_RSL_LTEQ :: int where "GLOBUS_RSL_LTEQ = 6"
definition GLOBUS_RSL_AND :: int where "GLOBUS_RSL_AND = 8"
definition GLOBUS_RSL_OR :: int where "GLOBUS_RSL_OR = 9"
definition GLOBUS_RSL_MULTIREQ :: int where "GLOBUS_RSL_MULTIREQ = 10"

definition GLOBUS_RSL_VALUE_LITERAL :: int where "GLOBUS_RSL_VALUE_LITERAL = 1"
definition GLOBUS_RSL_VALUE_SEQUENCE :: int where "GLOBUS_RSL_VALUE_SEQUENCE = 2"

definition GLOBUS_RSL_PARAM_SINGLE_LITERAL :: int where "GLOBUS_RSL_PARAM_SINGLE_LITERAL = 1"
definition GLOBUS_RSL_PARAM_MULTI_LITERAL :: int where "GLOBUS_RSL_PARAM_MULTI_LITERAL = 2"
definition GLOBUS_RSL_PARAM_SEQUENCE :: int where "GLOBUS_RSL_PARAM_SEQUENCE = 3"

lemmas rsl_operators = GLOBUS_RSL_EQ_def GLOBUS_RSL_NEQ_def GLOBUS_RSL_GT_def GLOBUS_RSL_GTEQ_def
  GLOBUS_RSL_LT_def GLOBUS_RSL_LTEQ_def GLOBUS_RSL_AND_def GLOBUS_RSL_OR_def GLOBUS_RSL_MULTIREQ_def

lemmas rsl_types = GLOBUS_RSL_VALUE_LITERAL_def GLOBUS_RSL_VALUE_SEQUENCE_def
  GLOBUS_RSL_PARAM_SINGLE_LITERAL_def GLOBUS_RSL_PARAM_MULTI_LITERAL_def GLOBUS_RSL_PARAM_SEQUENCE_def

section \<open>Characters\<close>

text \<open>\<open>tolower\<close> in the C locale, and \<open>strcasecmp\<close> as the test for equality that the code makes of it.\<close>

definition tolower :: "char \<Rightarrow> char" where
  "tolower c = (if 65 \<le> (of_char c :: nat) \<and> (of_char c :: nat) \<le> 90 then char_of (of_char c + 32 :: nat) else c)"

definition strcaseeq :: "string \<Rightarrow> string \<Rightarrow> bool" where
  "strcaseeq s t \<longleftrightarrow> map tolower s = map tolower t"

section \<open>Accessors and predicates\<close>

definition globus_rsl_is_relation :: "rsl \<Rightarrow> bool" where
  "globus_rsl_is_relation ast = (case ast of Relation _ _ _ \<Rightarrow> True | _ \<Rightarrow> False)"

definition globus_rsl_is_boolean :: "rsl \<Rightarrow> bool" where
  "globus_rsl_is_boolean ast = (case ast of Boolean _ _ \<Rightarrow> True | _ \<Rightarrow> False)"

definition globus_rsl_boolean_get_operator :: "rsl \<Rightarrow> int" where
  "globus_rsl_boolean_get_operator ast = (case ast of Boolean op _ \<Rightarrow> op | _ \<Rightarrow> -1)"

definition globus_rsl_boolean_get_operand_list :: "rsl \<Rightarrow> rsl list" where
  "globus_rsl_boolean_get_operand_list ast = (case ast of Boolean _ rs \<Rightarrow> rs | _ \<Rightarrow> [])"

definition globus_rsl_relation_get_attribute :: "rsl \<Rightarrow> string option" where
  "globus_rsl_relation_get_attribute ast = (case ast of Relation _ a _ \<Rightarrow> a | _ \<Rightarrow> None)"

definition globus_rsl_relation_get_operator :: "rsl \<Rightarrow> int" where
  "globus_rsl_relation_get_operator ast = (case ast of Relation op _ _ \<Rightarrow> op | _ \<Rightarrow> -1)"

definition globus_rsl_relation_get_value_sequence :: "rsl \<Rightarrow> rsl_value" where
  "globus_rsl_relation_get_value_sequence ast = (case ast of Relation _ _ v \<Rightarrow> v | _ \<Rightarrow> Null_value)"

definition globus_rsl_is_relation_eq :: "rsl \<Rightarrow> bool" where
  "globus_rsl_is_relation_eq ast \<longleftrightarrow>
     globus_rsl_is_relation ast \<and> globus_rsl_relation_get_operator ast = GLOBUS_RSL_EQ"

definition globus_rsl_is_relation_lessthan :: "rsl \<Rightarrow> bool" where
  "globus_rsl_is_relation_lessthan ast \<longleftrightarrow>
     globus_rsl_is_relation ast \<and> globus_rsl_relation_get_operator ast = GLOBUS_RSL_LT"

definition globus_rsl_is_relation_attribute_equal :: "rsl \<Rightarrow> string \<Rightarrow> bool option" where
  "globus_rsl_is_relation_attribute_equal ast attribute =
     (if \<not> globus_rsl_is_relation ast then Some False
      else case globus_rsl_relation_get_attribute ast of
        None \<Rightarrow> None
      | Some a \<Rightarrow> Some (strcaseeq a attribute))"

definition globus_rsl_is_boolean_and :: "rsl \<Rightarrow> bool" where
  "globus_rsl_is_boolean_and ast \<longleftrightarrow>
     globus_rsl_is_boolean ast \<and> globus_rsl_boolean_get_operator ast = GLOBUS_RSL_AND"

definition globus_rsl_is_boolean_or :: "rsl \<Rightarrow> bool" where
  "globus_rsl_is_boolean_or ast \<longleftrightarrow>
     globus_rsl_is_boolean ast \<and> globus_rsl_boolean_get_operator ast = GLOBUS_RSL_OR"

definition globus_rsl_is_boolean_multi :: "rsl \<Rightarrow> bool" where
  "globus_rsl_is_boolean_multi ast \<longleftrightarrow>
     globus_rsl_is_boolean ast \<and> globus_rsl_boolean_get_operator ast = GLOBUS_RSL_MULTIREQ"

definition globus_rsl_value_is_literal :: "rsl_value \<Rightarrow> bool" where
  "globus_rsl_value_is_literal v = (case v of Literal _ \<Rightarrow> True | _ \<Rightarrow> False)"

definition globus_rsl_value_is_sequence :: "rsl_value \<Rightarrow> bool" where
  "globus_rsl_value_is_sequence v = (case v of Sequence _ \<Rightarrow> True | _ \<Rightarrow> False)"

definition globus_rsl_value_is_variable :: "rsl_value \<Rightarrow> bool" where
  "globus_rsl_value_is_variable v = (case v of Variable _ \<Rightarrow> True | _ \<Rightarrow> False)"

definition globus_rsl_value_is_concatenation :: "rsl_value \<Rightarrow> bool" where
  "globus_rsl_value_is_concatenation v = (case v of Concatenation _ _ \<Rightarrow> True | _ \<Rightarrow> False)"

definition globus_rsl_value_literal_get_string :: "rsl_value \<Rightarrow> string option" where
  "globus_rsl_value_literal_get_string v = (case v of Literal s \<Rightarrow> s | _ \<Rightarrow> None)"

definition globus_rsl_value_sequence_get_value_list :: "rsl_value \<Rightarrow> rsl_value list" where
  "globus_rsl_value_sequence_get_value_list v = (case v of Sequence vs \<Rightarrow> vs | _ \<Rightarrow> [])"

definition globus_rsl_value_variable_get_sequence :: "rsl_value \<Rightarrow> rsl_value" where
  "globus_rsl_value_variable_get_sequence v = (case v of Variable s \<Rightarrow> s | _ \<Rightarrow> Null_value)"

definition globus_rsl_value_concatenation_get_left :: "rsl_value \<Rightarrow> rsl_value" where
  "globus_rsl_value_concatenation_get_left v = (case v of Concatenation l _ \<Rightarrow> l | _ \<Rightarrow> Null_value)"

definition globus_rsl_value_concatenation_get_right :: "rsl_value \<Rightarrow> rsl_value" where
  "globus_rsl_value_concatenation_get_right v = (case v of Concatenation _ r \<Rightarrow> r | _ \<Rightarrow> Null_value)"

definition globus_rsl_value_concatenation_set_left :: "rsl_value \<Rightarrow> rsl_value \<Rightarrow> int \<times> rsl_value" where
  "globus_rsl_value_concatenation_set_left v l =
     (case v of Concatenation _ r \<Rightarrow> if l = Null_value then (-1, v) else (0, Concatenation l r) | _ \<Rightarrow> (-1, v))"

definition globus_rsl_value_concatenation_set_right :: "rsl_value \<Rightarrow> rsl_value \<Rightarrow> int \<times> rsl_value" where
  "globus_rsl_value_concatenation_set_right v r =
     (case v of Concatenation l _ \<Rightarrow> if r = Null_value then (-1, v) else (0, Concatenation l r) | _ \<Rightarrow> (-1, v))"

text \<open>The value of a relation that has exactly one.\<close>

definition globus_rsl_relation_get_single_value :: "rsl \<Rightarrow> rsl_value" where
  "globus_rsl_relation_get_single_value ast =
     (case globus_rsl_value_sequence_get_value_list (globus_rsl_relation_get_value_sequence ast) of
        [v] \<Rightarrow> v
      | _ \<Rightarrow> Null_value)"

definition globus_rsl_value_variable_get_size :: "rsl_value \<Rightarrow> int" where
  "globus_rsl_value_variable_get_size v =
     (if globus_rsl_value_is_variable v
      then int (length (globus_rsl_value_sequence_get_value_list (globus_rsl_value_variable_get_sequence v)))
      else -1)"

text \<open>The first element of an empty list is an assertion that fails.\<close>

definition globus_rsl_value_variable_get_name :: "rsl_value \<Rightarrow> string option option" where
  "globus_rsl_value_variable_get_name v =
     (if \<not> globus_rsl_value_is_variable v then Some None
      else case globus_rsl_value_sequence_get_value_list (globus_rsl_value_variable_get_sequence v) of
        [] \<Rightarrow> None
      | x # _ \<Rightarrow> Some (globus_rsl_value_literal_get_string x))"

definition globus_rsl_value_variable_get_default :: "rsl_value \<Rightarrow> string option" where
  "globus_rsl_value_variable_get_default v =
     (if globus_rsl_value_variable_get_size v > 1
      then globus_rsl_value_literal_get_string
             (globus_rsl_value_sequence_get_value_list (globus_rsl_value_variable_get_sequence v) ! 1)
      else None)"

section \<open>Constructors and copies\<close>

definition globus_rsl_make_boolean :: "int \<Rightarrow> rsl list \<Rightarrow> rsl" where
  "globus_rsl_make_boolean operator children = Boolean operator children"

definition globus_rsl_make_relation :: "int \<Rightarrow> string option \<Rightarrow> rsl_value \<Rightarrow> rsl" where
  "globus_rsl_make_relation operator attributename value_sequence = Relation operator attributename value_sequence"

definition globus_rsl_value_make_literal :: "string option \<Rightarrow> rsl_value" where
  "globus_rsl_value_make_literal string = Literal string"

definition globus_rsl_value_make_sequence :: "rsl_value list \<Rightarrow> rsl_value" where
  "globus_rsl_value_make_sequence value_list = Sequence value_list"

definition globus_rsl_value_make_variable :: "rsl_value \<Rightarrow> rsl_value" where
  "globus_rsl_value_make_variable sequence = Variable sequence"

definition globus_rsl_value_make_concatenation :: "rsl_value \<Rightarrow> rsl_value \<Rightarrow> rsl_value" where
  "globus_rsl_value_make_concatenation left_value right_value = Concatenation left_value right_value"

lemmas rsl_constructors = globus_rsl_make_boolean_def globus_rsl_make_relation_def
  globus_rsl_value_make_literal_def globus_rsl_value_make_sequence_def
  globus_rsl_value_make_variable_def globus_rsl_value_make_concatenation_def

text \<open>The loop of \<open>globus_list_copy_reverse\<close>, which inserts each datum at the head of the new list.\<close>

fun copy_reverse_loop :: "'a list \<Rightarrow> 'a list \<Rightarrow> 'a list" where
  "copy_reverse_loop [] new_list = new_list"
| "copy_reverse_loop (x # orig) new_list = copy_reverse_loop orig (x # new_list)"

definition globus_list_copy_reverse :: "'a list \<Rightarrow> 'a list" where
  "globus_list_copy_reverse orig = copy_reverse_loop orig []"

text \<open>Copies of the elements are collected at the head of a list, which is then reversed.\<close>

fun globus_rsl_value_copy_recursive :: "rsl_value \<Rightarrow> rsl_value"
  and copy_values_loop :: "rsl_value list \<Rightarrow> rsl_value list \<Rightarrow> rsl_value list" where
  "globus_rsl_value_copy_recursive Null_value = Null_value"
| "globus_rsl_value_copy_recursive (Literal s) = globus_rsl_value_make_literal s"
| "globus_rsl_value_copy_recursive (Sequence vs) =
     globus_rsl_value_make_sequence (globus_list_copy_reverse (copy_values_loop vs []))"
| "globus_rsl_value_copy_recursive (Variable v) =
     globus_rsl_value_make_variable (globus_rsl_value_copy_recursive v)"
| "globus_rsl_value_copy_recursive (Concatenation l r) =
     globus_rsl_value_make_concatenation (globus_rsl_value_copy_recursive l) (globus_rsl_value_copy_recursive r)"
| "copy_values_loop [] new_list = new_list"
| "copy_values_loop (v # vs) new_list = copy_values_loop vs (globus_rsl_value_copy_recursive v # new_list)"

text \<open>The copy of a relation reads its attribute name, which must not be NULL.\<close>

fun globus_rsl_copy_recursive :: "rsl \<Rightarrow> rsl option"
  and copy_operands_loop :: "rsl list \<Rightarrow> rsl list \<Rightarrow> rsl list option" where
  "globus_rsl_copy_recursive Null_rsl = Some Null_rsl"
| "globus_rsl_copy_recursive (Boolean op rs) =
     do { new \<leftarrow> copy_operands_loop rs []; Some (globus_rsl_make_boolean op (globus_list_copy_reverse new)) }"
| "globus_rsl_copy_recursive (Relation op a v) =
     do {
       name \<leftarrow> a;
       Some (globus_rsl_make_relation op (Some name) (globus_rsl_value_make_sequence
         (globus_list_copy_reverse (copy_values_loop (globus_rsl_value_sequence_get_value_list v) [])))) }"
| "copy_operands_loop [] new_list = Some new_list"
| "copy_operands_loop (r # rs) new_list =
     do { c \<leftarrow> globus_rsl_copy_recursive r; copy_operands_loop rs (c # new_list) }"

section \<open>Release\<close>

text \<open>The blocks that are freed, in order; freeing a NULL string does nothing.\<close>

datatype rsl_block = String_block string | Value_block rsl_value | Spec_block rsl

definition free_string :: "string option \<Rightarrow> rsl_block list" where
  "free_string s = (case s of None \<Rightarrow> [] | Some t \<Rightarrow> [String_block t])"

fun globus_rsl_value_free_recursive :: "rsl_value \<Rightarrow> rsl_block list"
  and free_values_loop :: "rsl_value list \<Rightarrow> rsl_block list" where
  "globus_rsl_value_free_recursive Null_value = []"
| "globus_rsl_value_free_recursive (Literal s) = free_string s @ [Value_block (Literal s)]"
| "globus_rsl_value_free_recursive (Sequence vs) = free_values_loop vs @ [Value_block (Sequence vs)]"
| "globus_rsl_value_free_recursive (Variable v) =
     globus_rsl_value_free_recursive v @ [Value_block (Variable v)]"
| "globus_rsl_value_free_recursive (Concatenation l r) =
     globus_rsl_value_free_recursive l @ globus_rsl_value_free_recursive r @ [Value_block (Concatenation l r)]"
| "free_values_loop [] = []"
| "free_values_loop (v # vs) = globus_rsl_value_free_recursive v @ free_values_loop vs"

text \<open>\<open>globus_rsl_free_recursive\<close> reads the type of its argument without a test for NULL.\<close>

fun globus_rsl_free_recursive :: "rsl \<Rightarrow> rsl_block list option"
  and free_operands_loop :: "rsl list \<Rightarrow> rsl_block list option" where
  "globus_rsl_free_recursive Null_rsl = None"
| "globus_rsl_free_recursive (Boolean op rs) =
     do { bs \<leftarrow> free_operands_loop rs; Some (bs @ [Spec_block (Boolean op rs)]) }"
| "globus_rsl_free_recursive (Relation op a v) =
     Some (globus_rsl_value_free_recursive v @ free_string a @ [Spec_block (Relation op a v)])"
| "free_operands_loop [] = Some []"
| "free_operands_loop (r # rs) =
     do { b \<leftarrow> globus_rsl_free_recursive r; bs \<leftarrow> free_operands_loop rs; Some (b @ bs) }"

text \<open>Replacing the first value of a list by a literal; the old node alone is freed.\<close>

definition globus_rsl_value_list_literal_replace ::
  "rsl_value list \<Rightarrow> string option \<Rightarrow> (int \<times> rsl_block \<times> rsl_value list) option" where
  "globus_rsl_value_list_literal_replace value_list string_value =
     (case value_list of
        [] \<Rightarrow> None
      | v # vs \<Rightarrow> Some (GLOBUS_SUCCESS, Value_block v, globus_rsl_value_make_literal string_value # vs))"

section \<open>Parameters\<close>

text \<open>
  \<open>globus_rsl_value_list_param_get\<close>: the array has \<open>cap\<close> elements, of which \<open>values\<close> are those written so
  far, so \<open>value_ctr\<close> is their number. A write past the end is a fault.
\<close>

definition array_put :: "nat \<Rightarrow> string option list \<Rightarrow> string option \<Rightarrow> string option list option" where
  "array_put cap values s = (if length values < cap then Some (values @ [s]) else None)"

fun globus_rsl_value_list_param_get ::
  "nat \<Rightarrow> rsl_value list \<Rightarrow> int \<Rightarrow> string option list \<Rightarrow> (int \<times> string option list) option" where
  "globus_rsl_value_list_param_get cap [] required_type values = Some (0, values)"
| "globus_rsl_value_list_param_get cap (Literal s # vs) required_type values =
     (if required_type = GLOBUS_RSL_VALUE_LITERAL
      then do { values1 \<leftarrow> array_put cap values s; globus_rsl_value_list_param_get cap vs required_type values1 }
      else Some (1, values))"
| "globus_rsl_value_list_param_get cap (Sequence ws # vs) required_type values =
     (if required_type = GLOBUS_RSL_VALUE_SEQUENCE
      then if length ws \<noteq> 2 then Some (1, values)
           else do {
             (rc, values1) \<leftarrow> globus_rsl_value_list_param_get cap ws GLOBUS_RSL_VALUE_LITERAL values;
             if rc \<noteq> 0 then Some (1, values1)
             else globus_rsl_value_list_param_get cap vs required_type values1 }
      else Some (1, values))"
| "globus_rsl_value_list_param_get cap (v # vs) required_type values = Some (1, values)"

fun globus_rsl_param_get_values :: "rsl \<Rightarrow> string \<Rightarrow> rsl_value list option"
  and param_get_values_loop :: "rsl list \<Rightarrow> string \<Rightarrow> rsl_value list option" where
  "globus_rsl_param_get_values Null_rsl param = Some []"
| "globus_rsl_param_get_values (Boolean op rs) param = param_get_values_loop rs param"
| "globus_rsl_param_get_values (Relation op a v) param =
     do {
       eq \<leftarrow> globus_rsl_is_relation_attribute_equal (Relation op a v) param;
       Some (if \<not> eq then [] else globus_rsl_value_sequence_get_value_list v) }"
| "param_get_values_loop [] param = Some []"
| "param_get_values_loop (r # rs) param =
     do {
       vs \<leftarrow> globus_rsl_param_get_values r param;
       if vs \<noteq> [] then Some vs else param_get_values_loop rs param }"

text \<open>
  \<open>globus_rsl_param_get\<close>: \<open>values\<close> is the array that the caller's pointer refers to. The type of values
  that a parameter type requires, and the cases where it is refused.
\<close>

definition required_type_of :: "int \<Rightarrow> rsl_value list \<Rightarrow> int option" where
  "required_type_of param_type vs =
     (if param_type = GLOBUS_RSL_PARAM_SINGLE_LITERAL
      then if length vs \<noteq> 1 then None else Some GLOBUS_RSL_VALUE_LITERAL
      else if param_type = GLOBUS_RSL_PARAM_MULTI_LITERAL then Some GLOBUS_RSL_VALUE_LITERAL
      else if param_type = GLOBUS_RSL_PARAM_SEQUENCE then Some GLOBUS_RSL_VALUE_SEQUENCE
      else None)"

fun globus_rsl_param_get ::
  "rsl \<Rightarrow> int \<Rightarrow> string \<Rightarrow> string option list \<Rightarrow> (int \<times> string option list) option"
  and param_get_loop ::
  "rsl list \<Rightarrow> int \<Rightarrow> string \<Rightarrow> string option list \<Rightarrow> (int \<times> string option list) option" where
  "globus_rsl_param_get Null_rsl param_type param values = Some (1, values)"
| "globus_rsl_param_get (Boolean op rs) param_type param values = param_get_loop rs param_type param [None]"
| "globus_rsl_param_get (Relation op a v) param_type param values =
     do {
       eq \<leftarrow> globus_rsl_is_relation_attribute_equal (Relation op a v) param;
       let vs = globus_rsl_value_sequence_get_value_list v;
       let cap = 2 * length vs + 1;
       if \<not> eq then Some (0, values)
       else case required_type_of param_type vs of
         None \<Rightarrow> Some (1, values)
       | Some required_type \<Rightarrow>
           do {
             (rc, strings) \<leftarrow> globus_rsl_value_list_param_get cap vs required_type [];
             if rc \<noteq> 0 then Some (1, strings)
             else do { strings1 \<leftarrow> array_put cap strings None; Some (0, strings1) } } }"
| "param_get_loop [] param_type param values = Some (0, values)"
| "param_get_loop (r # rs) param_type param values =
     do {
       (rc, values1) \<leftarrow> globus_rsl_param_get r param_type param values;
       if rc \<noteq> 0 then Some (1, values1)
       else case values1 of
         [] \<Rightarrow> None
       | first # _ \<Rightarrow> if first \<noteq> None then Some (0, values1) else param_get_loop rs param_type param values1 }"

section \<open>Unparsing\<close>

text \<open>
  The fifo of characters is the string of its contents (\<open>Globus_Fifo\<close>). Each function returns its error
  code and the buffer.
\<close>

fun quote_loop :: "string \<Rightarrow> string \<Rightarrow> string" where
  "quote_loop [] buffer = buffer"
| "quote_loop (c # cs) buffer =
     (if c = CHR 0x22 then quote_loop cs (buffer @ [CHR 0x22, CHR 0x22]) else quote_loop cs (buffer @ [c]))"

definition globus_i_rsl_unparse_string_literal_to_fifo :: "string option \<Rightarrow> string \<Rightarrow> int \<times> string" where
  "globus_i_rsl_unparse_string_literal_to_fifo string buffer =
     (case string of
        None \<Rightarrow> (1, buffer)
      | Some s \<Rightarrow> (0, quote_loop s (buffer @ [CHR 0x22]) @ [CHR 0x22]))"

definition globus_i_rsl_unparse_operator_to_fifo :: "int \<Rightarrow> string \<Rightarrow> int \<times> string" where
  "globus_i_rsl_unparse_operator_to_fifo operator buffer =
     (if operator = GLOBUS_RSL_EQ then (0, buffer @ ''='')
      else if operator = GLOBUS_RSL_NEQ then (0, buffer @ ''!='')
      else if operator = GLOBUS_RSL_GT then (0, buffer @ ''>'')
      else if operator = GLOBUS_RSL_GTEQ then (0, buffer @ ''>='')
      else if operator = GLOBUS_RSL_LT then (0, buffer @ ''<'')
      else if operator = GLOBUS_RSL_LTEQ then (0, buffer @ ''<='')
      else if operator = GLOBUS_RSL_MULTIREQ then (0, buffer @ ''+'')
      else if operator = GLOBUS_RSL_AND then (0, buffer @ ''&'')
      else if operator = GLOBUS_RSL_OR then (0, buffer @ ''|'')
      else (1, buffer))"

fun globus_i_rsl_value_unparse_to_fifo :: "rsl_value \<Rightarrow> string \<Rightarrow> (int \<times> string) option"
  and unparse_values_loop :: "rsl_value list \<Rightarrow> string \<Rightarrow> (int \<times> string) option" where
  "globus_i_rsl_value_unparse_to_fifo Null_value buffer = Some (1, buffer)"
| "globus_i_rsl_value_unparse_to_fifo (Literal s) buffer =
     Some (0, snd (globus_i_rsl_unparse_string_literal_to_fifo s buffer))"
| "globus_i_rsl_value_unparse_to_fifo (Sequence vs) buffer =
     do {
       (err, b) \<leftarrow> unparse_values_loop vs (buffer @ ''('');
       if err \<noteq> 0 then Some (1, b) else Some (0, b @ '')'') }"
| "globus_i_rsl_value_unparse_to_fifo (Variable v) buffer =
     do {
       name \<leftarrow> globus_rsl_value_variable_get_name (Variable v);
       let (err, b) = globus_i_rsl_unparse_string_literal_to_fifo name (buffer @ ''$('');
       if err \<noteq> 0 then Some (1, b)
       else if globus_rsl_value_variable_get_default (Variable v) \<noteq> None
       then let (err1, b1) = globus_i_rsl_unparse_string_literal_to_fifo
                  (globus_rsl_value_variable_get_default (Variable v)) (b @ '' '')
            in if err1 \<noteq> 0 then Some (1, b1) else Some (0, b1 @ '')'')
       else Some (0, b @ '')'') }"
| "globus_i_rsl_value_unparse_to_fifo (Concatenation l r) buffer =
     do {
       (err, b) \<leftarrow> globus_i_rsl_value_unparse_to_fifo l buffer;
       if err \<noteq> 0 then Some (1, b)
       else do {
         (err1, b1) \<leftarrow> globus_i_rsl_value_unparse_to_fifo r (b @ '' # '');
         if err1 \<noteq> 0 then Some (1, b1) else Some (0, b1) } }"
| "unparse_values_loop [] buffer = Some (0, buffer)"
| "unparse_values_loop (v # vs) buffer =
     do {
       (err, b) \<leftarrow> globus_i_rsl_value_unparse_to_fifo v buffer;
       if err \<noteq> 0 then Some (1, b) else unparse_values_loop vs (b @ '' '') }"

fun globus_i_rsl_unparse_to_fifo :: "rsl \<Rightarrow> string \<Rightarrow> (int \<times> string) option"
  and unparse_operands_loop :: "rsl list \<Rightarrow> string \<Rightarrow> (int \<times> string) option" where
  "globus_i_rsl_unparse_to_fifo Null_rsl buffer = Some (1, buffer)"
| "globus_i_rsl_unparse_to_fifo (Relation op a v) buffer =
     (let (err, b) = globus_i_rsl_unparse_string_literal_to_fifo a buffer
      in if err \<noteq> 0 then Some (1, b)
         else unparse_values_loop (globus_rsl_value_sequence_get_value_list v)
                (snd (globus_i_rsl_unparse_operator_to_fifo op (b @ '' '')) @ '' ''))"
| "globus_i_rsl_unparse_to_fifo (Boolean op rs) buffer =
     unparse_operands_loop rs (snd (globus_i_rsl_unparse_operator_to_fifo op buffer))"
| "unparse_operands_loop [] buffer = Some (0, buffer)"
| "unparse_operands_loop (r # rs) buffer =
     do {
       (err, b) \<leftarrow> globus_i_rsl_unparse_to_fifo r (buffer @ ''('');
       if err \<noteq> 0 then Some (1, b) else unparse_operands_loop rs (b @ '')'') }"

text \<open>The string that the callers get, \<open>None\<close> inside for NULL.\<close>

definition globus_rsl_unparse :: "rsl \<Rightarrow> string option option" where
  "globus_rsl_unparse rsl_spec =
     do { (err, b) \<leftarrow> globus_i_rsl_unparse_to_fifo rsl_spec []; Some (if err \<noteq> 0 then None else Some b) }"

definition globus_rsl_value_unparse :: "rsl_value \<Rightarrow> string option option" where
  "globus_rsl_value_unparse rsl_value =
     do { (err, b) \<leftarrow> globus_i_rsl_value_unparse_to_fifo rsl_value []; Some (if err \<noteq> 0 then None else Some b) }"

section \<open>Display\<close>

text \<open>What is printed on standard output; \<open>lvl\<close> is the global level of indentation.\<close>

definition INDENT :: "nat \<Rightarrow> string" where
  "INDENT lvl = concat (replicate lvl ''  '')"

fun globus_rsl_value_print_recursive :: "nat \<Rightarrow> rsl_value \<Rightarrow> string"
  and print_values_loop :: "nat \<Rightarrow> rsl_value list \<Rightarrow> string" where
  "globus_rsl_value_print_recursive lvl Null_value = []"
| "globus_rsl_value_print_recursive lvl (Literal s) =
     INDENT (lvl + 1) @ ''LITERAL string = '' @ (case s of None \<Rightarrow> ''>NULL<'' | Some t \<Rightarrow> t) @ [LF]"
| "globus_rsl_value_print_recursive lvl (Sequence vs) =
     INDENT (lvl + 1) @ ''SEQUENCE'' @ [LF] @ print_values_loop (lvl + 1) vs"
| "globus_rsl_value_print_recursive lvl (Variable v) =
     INDENT (lvl + 1) @ ''VARIABLE'' @ [LF] @ globus_rsl_value_print_recursive (lvl + 1) v"
| "globus_rsl_value_print_recursive lvl (Concatenation l r) =
     INDENT (lvl + 1) @ ''CONCATENATION (left)'' @ [LF] @ globus_rsl_value_print_recursive (lvl + 1) l @
     INDENT (lvl + 1) @ ''CONCATENATION (right)'' @ [LF] @ globus_rsl_value_print_recursive (lvl + 1) r"
| "print_values_loop lvl [] = []"
| "print_values_loop lvl (v # vs) = globus_rsl_value_print_recursive lvl v @ print_values_loop lvl vs"

definition globus_rsl_get_operator :: "int \<Rightarrow> string" where
  "globus_rsl_get_operator my_op =
     (if my_op = GLOBUS_RSL_EQ then ''='' else if my_op = GLOBUS_RSL_NEQ then ''!=''
      else if my_op = GLOBUS_RSL_GT then ''>'' else if my_op = GLOBUS_RSL_GTEQ then ''>=''
      else if my_op = GLOBUS_RSL_LT then ''<'' else if my_op = GLOBUS_RSL_LTEQ then ''<=''
      else if my_op = GLOBUS_RSL_AND then ''&'' else if my_op = GLOBUS_RSL_OR then ''|''
      else if my_op = GLOBUS_RSL_MULTIREQ then ''+'' else ''??'')"

text \<open>A NULL tree and a NULL attribute name are read without a test.\<close>

fun globus_rsl_print_recursive :: "nat \<Rightarrow> rsl \<Rightarrow> string option"
  and print_operands_loop :: "nat \<Rightarrow> rsl list \<Rightarrow> string option" where
  "globus_rsl_print_recursive lvl Null_rsl = None"
| "globus_rsl_print_recursive lvl (Boolean op rs) =
     do {
       s \<leftarrow> print_operands_loop lvl rs;
       Some ([LF] @ ''BOOLEAN'' @ [LF] @ ''  operator = '' @ globus_rsl_get_operator op @ [LF] @ s) }"
| "globus_rsl_print_recursive lvl (Relation op a v) =
     do {
       name \<leftarrow> a;
       Some ([LF] @ ''  RELATION'' @ [LF] @ ''    attibute name = '' @ name @ [LF] @
         ''    operator = '' @ globus_rsl_get_operator op @ [LF] @ globus_rsl_value_print_recursive (lvl + 1) v) }"
| "print_operands_loop lvl [] = Some []"
| "print_operands_loop lvl (r # rs) =
     do { s \<leftarrow> globus_rsl_print_recursive lvl r; t \<leftarrow> print_operands_loop lvl rs; Some (s @ t) }"

section \<open>Canonical attribute names\<close>

text \<open>The write position is never ahead of the read position, so the loop rewrites the string in place.\<close>

fun globus_rsl_assist_string_canonicalize :: "string \<Rightarrow> string" where
  "globus_rsl_assist_string_canonicalize [] = []"
| "globus_rsl_assist_string_canonicalize (c # cs) =
     (if c = CHR ''_'' then globus_rsl_assist_string_canonicalize cs
      else tolower c # globus_rsl_assist_string_canonicalize cs)"

definition canonicalize_attribute :: "rsl \<Rightarrow> rsl" where
  "canonicalize_attribute r =
     (case r of Relation op a v \<Rightarrow> Relation op (map_option globus_rsl_assist_string_canonicalize a) v | _ \<Rightarrow> r)"

fun globus_rsl_assist_attributes_canonicalize :: "rsl \<Rightarrow> int \<times> rsl"
  and canonicalize_multi_loop :: "rsl list \<Rightarrow> int \<times> rsl list"
  and canonicalize_operands_loop :: "rsl list \<Rightarrow> int \<times> rsl list" where
  "globus_rsl_assist_attributes_canonicalize Null_rsl = (GLOBUS_FAILURE, Null_rsl)"
| "globus_rsl_assist_attributes_canonicalize (Boolean op rs) =
     (let (rc, rs1) = (if op = GLOBUS_RSL_MULTIREQ then canonicalize_multi_loop rs else canonicalize_operands_loop rs)
      in (rc, Boolean op rs1))"
| "globus_rsl_assist_attributes_canonicalize (Relation op a v) =
     (GLOBUS_SUCCESS, canonicalize_attribute (Relation op a v))"
| "canonicalize_multi_loop [] = (GLOBUS_SUCCESS, [])"
| "canonicalize_multi_loop (r # rs) =
     (let (rc, r1) = globus_rsl_assist_attributes_canonicalize r
      in if rc \<noteq> GLOBUS_SUCCESS then (GLOBUS_FAILURE, r1 # rs)
         else let (rc1, rs1) = canonicalize_multi_loop rs in (rc1, r1 # rs1))"
| "canonicalize_operands_loop [] = (GLOBUS_SUCCESS, [])"
| "canonicalize_operands_loop (r # rs) =
     (let (rc, r1) = (if globus_rsl_is_boolean r then globus_rsl_assist_attributes_canonicalize r
                      else (GLOBUS_SUCCESS, canonicalize_attribute r))
      in if rc \<noteq> GLOBUS_SUCCESS then (GLOBUS_FAILURE, r1 # rs)
         else let (rc1, rs1) = canonicalize_operands_loop rs in (rc1, r1 # rs1))"

section \<open>Copies\<close>

lemma copy_reverse_loop_eq: "copy_reverse_loop xs ys = rev xs @ ys"
  by (induction xs ys rule: copy_reverse_loop.induct) auto

lemma copy_reverse_eq [simp]: "globus_list_copy_reverse xs = rev xs"
  by (simp add: globus_list_copy_reverse_def copy_reverse_loop_eq)

lemma value_copy_eq:
  "globus_rsl_value_copy_recursive v = v" "copy_values_loop vs new_list = rev vs @ new_list"
  by (induction v and vs new_list rule: globus_rsl_value_copy_recursive_copy_values_loop.induct)
    (simp_all add: rsl_constructors)

text \<open>
  Trees without NULL where the parser puts none: names and literals are strings, lists of operands and of
  values are not empty, and a relation has a sequence of values.
\<close>

fun solid_value :: "rsl_value \<Rightarrow> bool" where
  "solid_value Null_value = False"
| "solid_value (Literal s) = (s \<noteq> None)"
| "solid_value (Sequence vs) = (vs \<noteq> [] \<and> list_all solid_value vs)"
| "solid_value (Variable v) = solid_value v"
| "solid_value (Concatenation v w) = (solid_value v \<and> solid_value w)"

fun solid :: "rsl \<Rightarrow> bool" where
  "solid Null_rsl = False"
| "solid (Boolean op rs) = (rs \<noteq> [] \<and> list_all solid rs)"
| "solid (Relation op a v) = (a \<noteq> None \<and> globus_rsl_value_is_sequence v \<and> solid_value v)"

lemma copy_eq:
  "solid r \<Longrightarrow> globus_rsl_copy_recursive r = Some r"
  "list_all solid rs \<Longrightarrow> copy_operands_loop rs new_list = Some (rev rs @ new_list)"
proof (induction r and rs new_list rule: globus_rsl_copy_recursive_copy_operands_loop.induct)
  case (3 op a v)
  then show ?case
    by (cases v) (auto simp: rsl_constructors value_copy_eq globus_rsl_value_is_sequence_def
        globus_rsl_value_sequence_get_value_list_def)
qed (auto simp: rsl_constructors)

section \<open>Extraction of parameters\<close>

text \<open>The relations of a tree in the order of the text, and the strings that a list of values stands for.\<close>

fun relations :: "rsl \<Rightarrow> (string \<times> rsl_value list) list" where
  "relations (Boolean op rs) = concat (map relations rs)"
| "relations (Relation op (Some a) v) = [(a, globus_rsl_value_sequence_get_value_list v)]"
| "relations r = []"

fun literals :: "rsl_value list \<Rightarrow> string option list option" where
  "literals [] = Some []"
| "literals (Literal s # vs) = map_option ((#) s) (literals vs)"
| "literals (v # vs) = None"

fun literal_pairs :: "rsl_value list \<Rightarrow> string option list option" where
  "literal_pairs [] = Some []"
| "literal_pairs (Sequence [Literal s, Literal t] # vs) = map_option (\<lambda>ss. s # t # ss) (literal_pairs vs)"
| "literal_pairs (v # vs) = None"

definition param_strings :: "int \<Rightarrow> rsl_value list \<Rightarrow> string option list option" where
  "param_strings param_type vs =
     (if param_type = GLOBUS_RSL_PARAM_SINGLE_LITERAL \<and> length vs = 1 \<or> param_type = GLOBUS_RSL_PARAM_MULTI_LITERAL
      then literals vs
      else if param_type = GLOBUS_RSL_PARAM_SEQUENCE then literal_pairs vs else None)"

text \<open>A result that is an error, or the strings followed by some more.\<close>

definition fetched :: "(int \<times> string option list) option \<Rightarrow> string option list option \<Rightarrow> string option list \<Rightarrow>
    string option list \<Rightarrow> bool" where
  "fetched res expected before after \<longleftrightarrow>
     (\<exists>rc out. res = Some (rc, out) \<and>
        (case expected of None \<Rightarrow> rc \<noteq> 0 | Some ss \<Rightarrow> rc = 0 \<and> out = before @ ss @ after))"

lemma fetched_simps [simp]:
  "fetched res None before after \<longleftrightarrow> (\<exists>rc out. res = Some (rc, out) \<and> rc \<noteq> 0)"
  "fetched res (Some ss) before after \<longleftrightarrow> res = Some (0, before @ ss @ after)"
  by (auto simp: fetched_def)

lemma literals_fetched:
  "length acc + length vs \<le> cap \<Longrightarrow>
   fetched (globus_rsl_value_list_param_get cap vs GLOBUS_RSL_VALUE_LITERAL acc) (literals vs) acc []"
proof (induction vs arbitrary: acc rule: literals.induct)
  case (2 s vs)
  then show ?case using "2.IH" [of "acc @ [s]"] by (cases "literals vs") (auto simp: array_put_def)
qed (auto simp: rsl_types)

lemma pairs_fetched:
  "length acc + 2 * length vs \<le> cap \<Longrightarrow>
   fetched (globus_rsl_value_list_param_get cap vs GLOBUS_RSL_VALUE_SEQUENCE acc) (literal_pairs vs) acc []"
proof (induction vs arbitrary: acc)
  case (Cons v vs)
  show ?case
  proof (cases "\<exists>ws. v = Sequence ws \<and> length ws = 2")
    case True
    then obtain x y where v: "v = Sequence [x, y]" by (auto simp: numeral_2_eq_2 length_Suc_conv)
    have pair: "fetched (globus_rsl_value_list_param_get cap [x, y] GLOBUS_RSL_VALUE_LITERAL acc) (literals [x, y]) acc []"
      using Cons.prems by (intro literals_fetched) simp
    show ?thesis
    proof (cases "literals [x, y]")
      case None
      then have "literal_pairs (v # vs) = None" by (cases x; cases y) (simp_all add: v)
      then show ?thesis using pair None by (auto simp: v simp del: literals.simps)
    next
      case (Some ss)
      then obtain s t where st: "x = Literal s" "y = Literal t" "ss = [s, t]" by (cases x; cases y) auto
      have IH: "fetched (globus_rsl_value_list_param_get cap vs GLOBUS_RSL_VALUE_SEQUENCE (acc @ [s, t]))
          (literal_pairs vs) (acc @ [s, t]) []"
        using Cons.prems by (intro Cons.IH) simp
      have "globus_rsl_value_list_param_get cap (v # vs) GLOBUS_RSL_VALUE_SEQUENCE acc =
          globus_rsl_value_list_param_get cap vs GLOBUS_RSL_VALUE_SEQUENCE (acc @ [s, t])"
        using pair st by (simp add: v)
      then show ?thesis using IH by (cases "literal_pairs vs") (auto simp: v st(1,2))
    qed
  next
    case False
    then have "literal_pairs (v # vs) = None" by (cases "v # vs" rule: literal_pairs.cases) auto
    moreover have "fetched (globus_rsl_value_list_param_get cap (v # vs) GLOBUS_RSL_VALUE_SEQUENCE acc) None acc []"
      using False by (cases v) (auto simp: rsl_types)
    ultimately show ?thesis by simp
  qed
qed simp

lemma param_strings_solid:
  assumes "param_strings param_type vs = Some ss" "vs \<noteq> []" "list_all solid_value vs"
  shows "\<exists>s ss'. ss = Some s # ss'"
proof (cases "literals vs = Some ss")
  case True
  then show ?thesis using assms(2,3) by (cases vs rule: literals.cases) auto
next
  case False
  then have "literal_pairs vs = Some ss" using assms(1) by (auto simp: param_strings_def split: if_splits)
  then show ?thesis using assms(2,3) by (cases vs rule: literal_pairs.cases) auto
qed

text \<open>What a call returns for a tree: the first relation with the name decides.\<close>

definition param_result ::
  "(string \<times> rsl_value list) list \<Rightarrow> int \<Rightarrow> string \<Rightarrow> string option list \<Rightarrow> (int \<times> string option list) option \<Rightarrow> bool" where
  "param_result rels param_type param values res \<longleftrightarrow>
     (case find (\<lambda>(a, vs). strcaseeq a param) rels of
        None \<Rightarrow> res = Some (0, values)
      | Some (a, vs) \<Rightarrow> fetched res (param_strings param_type vs) [] [None])"

lemma length_literals: "literals vs = Some ss \<Longrightarrow> length ss = length vs"
  by (induction vs arbitrary: ss rule: literals.induct) auto

lemma length_pairs: "literal_pairs vs = Some ss \<Longrightarrow> length ss = 2 * length vs"
  by (induction vs arbitrary: ss rule: literal_pairs.induct) auto

lemma relation_param:
  assumes "solid (Relation op a v)"
  shows "param_result (relations (Relation op a v)) param_type param values
    (globus_rsl_param_get (Relation op a v) param_type param values)"
proof -
  obtain vs n where v: "v = Sequence vs" "a = Some n"
    using assms by (cases v) (auto simp: globus_rsl_value_is_sequence_def)
  note defs = v globus_rsl_is_relation_attribute_equal_def globus_rsl_is_relation_def
    globus_rsl_relation_get_attribute_def globus_rsl_value_sequence_get_value_list_def Let_def
  let ?cap = "2 * length vs + 1"
  show ?thesis
  proof (cases "strcaseeq n param")
    case True
    have put: "array_put ?cap ss None = Some (ss @ [None])"
      if "literals vs = Some ss \<or> literal_pairs vs = Some ss" for ss
      using that length_literals [of vs ss] length_pairs [of vs ss] by (auto simp: array_put_def)
    have "fetched (globus_rsl_param_get (Relation op a v) param_type param values) (param_strings param_type vs) [] [None]"
    proof (cases "required_type_of param_type vs")
      case None
      then show ?thesis using True by (auto simp: defs required_type_of_def param_strings_def rsl_types split: if_splits)
    next
      case (Some ty)
      define found where "found = (if ty = GLOBUS_RSL_VALUE_LITERAL then literals vs else literal_pairs vs)"
      have ty: "ty = GLOBUS_RSL_VALUE_LITERAL \<or> ty = GLOBUS_RSL_VALUE_SEQUENCE" "param_strings param_type vs = found"
        using Some by (auto simp: required_type_of_def param_strings_def found_def rsl_types split: if_splits)
      have "fetched (globus_rsl_value_list_param_get ?cap vs ty []) found [] []"
        using ty(1) literals_fetched [of "[]" vs ?cap] pairs_fetched [of "[]" vs ?cap] unfolding found_def
        by (auto simp: GLOBUS_RSL_VALUE_LITERAL_def GLOBUS_RSL_VALUE_SEQUENCE_def)
      then show ?thesis using True Some ty put by (cases found) (auto simp: defs found_def split: if_splits)
    qed
    then show ?thesis using True by (simp add: param_result_def defs)
  qed (simp add: param_result_def defs)
qed

lemma find_append: "find P (xs @ ys) = (case find P xs of None \<Rightarrow> find P ys | Some x \<Rightarrow> Some x)"
  by (induction xs) auto

lemma solid_relations: "solid r \<Longrightarrow> (a, vs) \<in> set (relations r) \<Longrightarrow> vs \<noteq> [] \<and> list_all solid_value vs"
proof (induction r)
  case (Boolean op rs)
  then show ?case by (auto simp: list_all_iff)
next
  case (Relation op b v)
  then show ?case by (cases v) (auto simp: globus_rsl_value_is_sequence_def globus_rsl_value_sequence_get_value_list_def)
qed simp

lemma loop_param:
  assumes "list_all solid rs"
    and "\<And>r. r \<in> set rs \<Longrightarrow> param_result (relations r) param_type param [None] (globus_rsl_param_get r param_type param [None])"
  shows "param_result (concat (map relations rs)) param_type param [None] (param_get_loop rs param_type param [None])"
  using assms
proof (induction rs)
  case Nil
  then show ?case by (simp add: param_result_def)
next
  case (Cons r rs)
  let ?P = "\<lambda>(a, vs). strcaseeq a param"
  have IH: "param_result (concat (map relations rs)) param_type param [None] (param_get_loop rs param_type param [None])"
    using Cons by simp
  have r: "param_result (relations r) param_type param [None] (globus_rsl_param_get r param_type param [None])"
    using Cons.prems by simp
  show ?case
  proof (cases "find ?P (relations r)")
    case None
    then show ?thesis using r IH by (simp add: param_result_def find_append)
  next
    case (Some avs)
    obtain a vs where avs: "avs = (a, vs)" by (cases avs)
    have "(a, vs) \<in> set (relations r)" using Some avs by (auto simp: find_Some_iff in_set_conv_nth)
    then have vs: "vs \<noteq> []" "list_all solid_value vs" using solid_relations Cons.prems(1) by auto
    have "fetched (globus_rsl_param_get r param_type param [None]) (param_strings param_type vs) [] [None]"
      using r Some avs by (simp add: param_result_def)
    then have "fetched (param_get_loop (r # rs) param_type param [None]) (param_strings param_type vs) [] [None]"
      using param_strings_solid [OF _ vs, of param_type]
      by (cases "param_strings param_type vs") auto
    then show ?thesis using Some avs by (simp add: param_result_def find_append)
  qed
qed

lemma param_get_result:
  "solid r \<Longrightarrow> param_result (relations r) param_type param (if globus_rsl_is_boolean r then [None] else init)
     (globus_rsl_param_get r param_type param init)"
proof (induction r arbitrary: init)
  case (Boolean op rs)
  have "param_result (relations r) param_type param [None] (globus_rsl_param_get r param_type param [None])"
    if "r \<in> set rs" for r
    using Boolean.IH [OF that, of "[None]"] Boolean.prems that by (simp add: list_all_iff split: if_splits)
  then show ?case using Boolean.prems loop_param [of rs param_type param]
    by (simp add: globus_rsl_is_boolean_def)
next
  case (Relation op a v)
  then show ?case using relation_param by (simp add: globus_rsl_is_boolean_def del: globus_rsl_param_get.simps)
qed simp

text \<open>
  C10. \<open>globus_rsl_param_get\<close> on a tree without NULL: it returns, so that the array of twice the number of
  values and one is never overrun; the first relation in the order of the text whose attribute has the
  name, letter case aside, decides. If its values have the shape that the parameter type asks for (one
  literal, literals, or sequences of two literals) the array is filled with their strings and a NULL
  behind them, otherwise the call fails. If there is none, the call succeeds with the caller's array
  or, for a boolean, an array with a single NULL.
\<close>

theorem globus_rsl_param_get_first:
  assumes "solid r"
  shows "\<exists>rc out. globus_rsl_param_get r param_type param init = Some (rc, out) \<and>
    (case find (\<lambda>(a, vs). strcaseeq a param) (relations r) of
       None \<Rightarrow> rc = 0 \<and> out = (if globus_rsl_is_boolean r then [None] else init)
     | Some (a, vs) \<Rightarrow>
         (case param_strings param_type vs of None \<Rightarrow> rc \<noteq> 0 | Some ss \<Rightarrow> rc = 0 \<and> out = ss @ [None]))"
proof (cases "find (\<lambda>(a, vs). strcaseeq a param) (relations r)")
  case None
  then show ?thesis using param_get_result [OF assms, of param_type param init] by (simp add: param_result_def)
next
  case (Some avs)
  then show ?thesis using param_get_result [OF assms, of param_type param init]
    by (cases avs; cases "param_strings param_type (snd avs)") (auto simp: param_result_def)
qed

theorem globus_rsl_param_get_witness:
  "globus_rsl_param_get (Boolean GLOBUS_RSL_AND [Relation GLOBUS_RSL_EQ (Some ''count'') (Sequence [Literal (Some ''4'')]),
     Relation GLOBUS_RSL_EQ (Some ''Environment'')
       (Sequence [Sequence [Literal (Some ''A''), Literal (Some ''1'')], Sequence [Literal (Some ''B''), Literal (Some ''2'')]])])
     GLOBUS_RSL_PARAM_SEQUENCE ''environment'' [] =
   Some (0, [Some ''A'', Some ''1'', Some ''B'', Some ''2'', None])"
proof -
  let ?r = "Boolean GLOBUS_RSL_AND [Relation GLOBUS_RSL_EQ (Some ''count'') (Sequence [Literal (Some ''4'')]),
     Relation GLOBUS_RSL_EQ (Some ''Environment'')
       (Sequence [Sequence [Literal (Some ''A''), Literal (Some ''1'')], Sequence [Literal (Some ''B''), Literal (Some ''2'')]])]"
  have "solid ?r" by (simp add: globus_rsl_value_is_sequence_def)
  moreover have "find (\<lambda>(a, vs). strcaseeq a ''environment'') (relations ?r) = Some (''Environment'',
      [Sequence [Literal (Some ''A''), Literal (Some ''1'')], Sequence [Literal (Some ''B''), Literal (Some ''2'')]])"
    by code_simp
  ultimately show ?thesis
    using globus_rsl_param_get_first [of ?r GLOBUS_RSL_PARAM_SEQUENCE "''environment''" "[]"]
    by (auto simp: param_strings_def rsl_types simp del: globus_rsl_param_get.simps)
qed

end
