(* ===== verification/Gram_Rsl_Parser.thy ===== *)
theory Gram_Rsl_Parser
  imports Gram_Rsl
begin

text \<open>
  The scanner (\<open>gram/rsl/source/globus_rsl_scanner.l\<close>) and the parser (\<open>globus_rsl_parser.y\<close>) of the resource
  specification language. The scanner is a step function over its start conditions, one case for each
  rule, longest match first as flex resolves them; the loop around it yields the tokens up to the end
  of input. The parser is the deterministic reading of the grammar, in which the conflict on the
  concatenation operator is resolved by shifting, as yacc does. Both are checked against the
  specification: the grammar's productions as an inductive definition, of which the parser accepts
  every sentence, and the unparser, which it inverts.
\<close>

section \<open>Scanner\<close>

datatype rsl_token =
  RSL_STRING string | RSL_OP_AND | RSL_OP_OR | RSL_OP_MULTIREQ | RSL_OP_EQ | RSL_OP_NEQ | RSL_OP_LT
| RSL_OP_LTEQ | RSL_OP_GT | RSL_OP_GTEQ | RSL_OP_CONCATENATE | RSL_LPAREN | RSL_RPAREN | RSL_VARIABLE_START

datatype start_condition = INITIAL | VARIABLE | COMMENT | QUOTE | QUOTE_HIT_DELIM | IMPLICIT_CONCATENATE

record parse_state =
  start_state :: start_condition
  calling_state :: start_condition
  quote_delimiter :: char
  quote_text_fifo :: string
  paren_count_stack :: "int list"

definition parse_state_init :: parse_state where
  "parse_state_init = \<lparr>start_state = INITIAL, calling_state = INITIAL, quote_delimiter = NUL,
     quote_text_fifo = [], paren_count_stack = []\<rparr>"

text \<open>The character classes of the scanner.\<close>

definition whitespace :: "char \<Rightarrow> bool" where
  "whitespace c \<longleftrightarrow> c \<in> {CHR '' '', CHR 0x09, CHR 0x0A}"

definition unquoted_char :: "char \<Rightarrow> bool" where
  "unquoted_char c \<longleftrightarrow> c \<notin> {CHR 0x09, CHR '' '', CHR 0x0A, CHR ''='', CHR ''!'', CHR ''<'', CHR ''>'', CHR ''('', CHR '')'',
     CHR 0x22, CHR 0x27, CHR ''^'', CHR ''*'', CHR ''$'', CHR ''#'', CHR ''?'', CHR ''~''}"

definition unquoted_start :: "char \<Rightarrow> bool" where
  "unquoted_start c \<longleftrightarrow> unquoted_char c \<and> c \<notin> {CHR ''+'', CHR ''&'', CHR ''|''}"

text \<open>
  The effect of one rule: the end of input (\<open>yyterminate\<close>, also for a character that no rule matches), a
  failed assertion, or a token (if the rule returns one), the new state and the input that is left.
\<close>

datatype scan_result = Stop | Fault | Scan "rsl_token option" parse_state string

text \<open>A string starts with a character of a class.\<close>

definition starts :: "(char \<Rightarrow> bool) \<Rightarrow> string \<Rightarrow> bool" where
  "starts P s = (case s of [] \<Rightarrow> False | c # _ \<Rightarrow> P c)"

definition begin_quote :: "parse_state \<Rightarrow> char \<Rightarrow> string \<Rightarrow> scan_result" where
  "begin_quote st delim s = Scan None (st\<lparr>calling_state := start_state st, start_state := QUOTE,
     quote_delimiter := delim, quote_text_fifo := []\<rparr>) s"

definition scan_literal :: "parse_state \<Rightarrow> char \<Rightarrow> string \<Rightarrow> scan_result" where
  "scan_literal st c s =
     (let rest = dropWhile unquoted_char s; token = Some (RSL_STRING (c # takeWhile unquoted_char s))
      in if starts (\<lambda>d. d = CHR ''$'') rest
         then Scan token (st\<lparr>calling_state := start_state st, start_state := IMPLICIT_CONCATENATE\<rparr>) rest
         else Scan token st rest)"

definition scan_lparen :: "parse_state \<Rightarrow> string \<Rightarrow> scan_result" where
  "scan_lparen st s =
     (if start_state st = INITIAL then Scan (Some RSL_LPAREN) st s
      else case paren_count_stack st of
        [] \<Rightarrow> Fault
      | n # ns \<Rightarrow> Scan (Some RSL_LPAREN) (st\<lparr>paren_count_stack := (n + 1) # ns\<rparr>) s)"

definition scan_rparen :: "parse_state \<Rightarrow> string \<Rightarrow> scan_result" where
  "scan_rparen st s =
     (if start_state st = INITIAL then Scan (Some RSL_RPAREN) st s
      else case paren_count_stack st of
        [] \<Rightarrow> Fault
      | n # ns \<Rightarrow>
          if n - 1 \<noteq> 0 then Scan (Some RSL_RPAREN) (st\<lparr>paren_count_stack := (n - 1) # ns\<rparr>) s
          else let after = (if ns = [] then INITIAL else VARIABLE)
               in if starts (\<lambda>d. unquoted_start d \<or> d = CHR ''$'') s
                  then Scan (Some RSL_RPAREN) (st\<lparr>paren_count_stack := ns, calling_state := after,
                         start_state := IMPLICIT_CONCATENATE\<rparr>) s
                  else Scan (Some RSL_RPAREN) (st\<lparr>paren_count_stack := ns, start_state := after\<rparr>) s)"

text \<open>An operator that may be followed by an equals sign.\<close>

definition scan_operator :: "parse_state \<Rightarrow> rsl_token option \<Rightarrow> rsl_token \<Rightarrow> string \<Rightarrow> scan_result" where
  "scan_operator st short long s =
     (if starts (\<lambda>d. d = CHR ''='') s then Scan (Some long) st (tl s)
      else case short of None \<Rightarrow> Stop | Some t \<Rightarrow> Scan (Some t) st s)"

text \<open>The rules of the conditions \<open>INITIAL\<close> and \<open>VARIABLE\<close>, for the next character and those behind it.\<close>

definition scan_outer :: "parse_state \<Rightarrow> char \<Rightarrow> string \<Rightarrow> scan_result" where
  "scan_outer st c s =
     (if c = CHR ''('' then
        if starts (\<lambda>d. d = CHR ''*'') s
        then Scan None (st\<lparr>calling_state := start_state st, start_state := COMMENT\<rparr>) (tl s)
        else scan_lparen st s
      else if c = CHR '')'' then scan_rparen st s
      else if c = CHR 0x22 \<or> c = CHR 0x27 then begin_quote st c s
      else if c = CHR ''^'' then (case s of [] \<Rightarrow> Stop | d # ds \<Rightarrow> begin_quote st d ds)
      else if c = CHR ''$'' then
        Scan (Some RSL_VARIABLE_START) (st\<lparr>start_state := VARIABLE, paren_count_stack := 0 # paren_count_stack st\<rparr>) s
      else if c = CHR ''='' then Scan (Some RSL_OP_EQ) st s
      else if c = CHR ''!'' then scan_operator st None RSL_OP_NEQ s
      else if c = CHR ''<'' then scan_operator st (Some RSL_OP_LT) RSL_OP_LTEQ s
      else if c = CHR ''>'' then scan_operator st (Some RSL_OP_GT) RSL_OP_GTEQ s
      else if c = CHR ''+'' then Scan (Some RSL_OP_MULTIREQ) st s
      else if c = CHR ''&'' then Scan (Some RSL_OP_AND) st s
      else if c = CHR ''|'' then Scan (Some RSL_OP_OR) st s
      else if c = CHR ''#'' then Scan (Some RSL_OP_CONCATENATE) st s
      else if whitespace c then Scan None st (dropWhile whitespace s)
      else if unquoted_start c then scan_literal st c s
      else Stop)"

definition scan_comment :: "parse_state \<Rightarrow> char \<Rightarrow> string \<Rightarrow> scan_result" where
  "scan_comment st c s =
     (if c \<noteq> CHR ''*'' then Scan None st (dropWhile (\<lambda>d. d \<noteq> CHR ''*'') s)
      else case s of
        [] \<Rightarrow> Stop
      | d # ds \<Rightarrow> if d = CHR '')'' then Scan None (st\<lparr>start_state := calling_state st\<rparr>) ds else Scan None st s)"

definition globus_rsllex_rule :: "parse_state \<Rightarrow> string \<Rightarrow> scan_result" where
  "globus_rsllex_rule st input =
     (case input of
        [] \<Rightarrow> Stop
      | c # s \<Rightarrow>
          (case start_state st of
            IMPLICIT_CONCATENATE \<Rightarrow> Scan (Some RSL_OP_CONCATENATE) (st\<lparr>start_state := calling_state st\<rparr>) input
          | COMMENT \<Rightarrow> scan_comment st c s
          | QUOTE \<Rightarrow>
              if c \<noteq> quote_delimiter st then Scan None (st\<lparr>quote_text_fifo := quote_text_fifo st @ [c]\<rparr>) s
              else Scan None (st\<lparr>start_state := QUOTE_HIT_DELIM\<rparr>) s
          | QUOTE_HIT_DELIM \<Rightarrow>
              if c = quote_delimiter st
              then Scan None (st\<lparr>quote_text_fifo := quote_text_fifo st @ [c], start_state := QUOTE\<rparr>) s
              else Scan (Some (RSL_STRING (quote_text_fifo st)))
                     (st\<lparr>start_state := calling_state st, quote_text_fifo := []\<rparr>) input
          | _ \<Rightarrow> scan_outer st c s))"

partial_function (option) globus_rsllex :: "parse_state \<Rightarrow> string \<Rightarrow> rsl_token list option" where
  "globus_rsllex st input =
     (case globus_rsllex_rule st input of
        Stop \<Rightarrow> Some []
      | Fault \<Rightarrow> None
      | Scan t st1 rest \<Rightarrow>
          do { ts \<leftarrow> globus_rsllex st1 rest; Some (case t of None \<Rightarrow> ts | Some x \<Rightarrow> x # ts) })"

declare globus_rsllex.simps [code]

section \<open>Parser\<close>

fun prefix_operator :: "rsl_token \<Rightarrow> int option" where
  "prefix_operator RSL_OP_MULTIREQ = Some GLOBUS_RSL_MULTIREQ"
| "prefix_operator RSL_OP_AND = Some GLOBUS_RSL_AND"
| "prefix_operator RSL_OP_OR = Some GLOBUS_RSL_OR"
| "prefix_operator _ = None"

fun infix_operator :: "rsl_token \<Rightarrow> int option" where
  "infix_operator RSL_OP_EQ = Some GLOBUS_RSL_EQ"
| "infix_operator RSL_OP_NEQ = Some GLOBUS_RSL_NEQ"
| "infix_operator RSL_OP_GT = Some GLOBUS_RSL_GT"
| "infix_operator RSL_OP_GTEQ = Some GLOBUS_RSL_GTEQ"
| "infix_operator RSL_OP_LT = Some GLOBUS_RSL_LT"
| "infix_operator RSL_OP_LTEQ = Some GLOBUS_RSL_LTEQ"
| "infix_operator _ = None"

fun starts_value :: "rsl_token list \<Rightarrow> bool" where
  "starts_value (RSL_LPAREN # _) = True"
| "starts_value (RSL_STRING _ # _) = True"
| "starts_value (RSL_VARIABLE_START # _) = True"
| "starts_value _ = False"

text \<open>The tokens behind the expected one.\<close>

definition expect_token :: "rsl_token \<Rightarrow> rsl_token list \<Rightarrow> rsl_token list option" where
  "expect_token t ts = (case ts of [] \<Rightarrow> None | u # us \<Rightarrow> if u = t then Some us else None)"

definition string_token :: "rsl_token list \<Rightarrow> (string \<times> rsl_token list) option" where
  "string_token ts = (case ts of RSL_STRING s # us \<Rightarrow> Some (s, us) | _ \<Rightarrow> None)"

text \<open>
  The nonterminals \<open>value_list\<close> (and \<open>sequence\<close>), \<open>value\<close>, \<open>simple_value\<close> and its operands, \<open>literal_string\<close> and
  \<open>variable\<close>. Every call consumes tokens, which \<open>parse_consumes\<close> shows; the tests of the lengths only make
  this visible to the definition.
\<close>

function parse_value_list :: "rsl_token list \<Rightarrow> (rsl_value list \<times> rsl_token list) option"
  and parse_value :: "rsl_token list \<Rightarrow> (rsl_value \<times> rsl_token list) option"
  and parse_simple_value :: "rsl_token list \<Rightarrow> (rsl_value \<times> rsl_token list) option"
  and parse_operand :: "rsl_token list \<Rightarrow> (rsl_value \<times> rsl_token list) option" where
  "parse_value_list ts =
     do {
       (v, ts1) \<leftarrow> parse_value ts;
       if starts_value ts1 \<and> length ts1 < length ts
       then do { (vs, ts2) \<leftarrow> parse_value_list ts1; Some (v # vs, ts2) }
       else Some ([v], ts1) }"
| "parse_value ts =
     (case expect_token RSL_LPAREN ts of
        Some ts1 \<Rightarrow>
          do {
            (vs, ts2) \<leftarrow> parse_value_list ts1;
            ts3 \<leftarrow> expect_token RSL_RPAREN ts2;
            Some (globus_rsl_value_make_sequence vs, ts3) }
      | None \<Rightarrow> parse_simple_value ts)"
| "parse_simple_value ts =
     do {
       (v, ts1) \<leftarrow> parse_operand ts;
       case expect_token RSL_OP_CONCATENATE ts1 of
         None \<Rightarrow> Some (v, ts1)
       | Some ts2 \<Rightarrow>
           if length ts2 < length ts
           then do { (w, ts3) \<leftarrow> parse_simple_value ts2; Some (globus_rsl_value_make_concatenation v w, ts3) }
           else None }"
| "parse_operand ts =
     (case string_token ts of
        Some (s, ts1) \<Rightarrow> Some (globus_rsl_value_make_literal (Some s), ts1)
      | None \<Rightarrow>
          do {
            ts1 \<leftarrow> expect_token RSL_VARIABLE_START ts;
            ts2 \<leftarrow> expect_token RSL_LPAREN ts1;
            (vs, ts3) \<leftarrow> parse_value_list ts2;
            ts4 \<leftarrow> expect_token RSL_RPAREN ts3;
            Some (globus_rsl_value_make_variable (globus_rsl_value_make_sequence vs), ts4) })"
  by pat_completeness auto
termination
  by (relation "measures [\<lambda>x. case x of Inl (Inl ts) \<Rightarrow> length ts | Inl (Inr ts) \<Rightarrow> length ts
        | Inr (Inl ts) \<Rightarrow> length ts | Inr (Inr ts) \<Rightarrow> length ts,
      \<lambda>x. case x of Inl (Inl ts) \<Rightarrow> 3 | Inl (Inr ts) \<Rightarrow> 2 | Inr (Inl ts) \<Rightarrow> 1 | Inr (Inr ts) \<Rightarrow> 0]")
    (auto simp: expect_token_def split: list.splits if_splits)

declare parse_value_list.simps [simp del] parse_value.simps [simp del] parse_simple_value.simps [simp del]
  parse_operand.simps [simp del]

text \<open>The nonterminals \<open>specification\<close> (with \<open>request\<close>) and \<open>spec_list\<close>.\<close>

definition parse_request :: "rsl_token list \<Rightarrow> (rsl \<times> rsl_token list) option" where
  "parse_request ts =
     do {
       (a, ts1) \<leftarrow> string_token ts;
       (op, ts2) \<leftarrow> (case ts1 of [] \<Rightarrow> None | t # us \<Rightarrow> map_option (\<lambda>op. (op, us)) (infix_operator t));
       (vs, ts3) \<leftarrow> parse_value_list ts2;
       Some (globus_rsl_make_relation op (Some a) (globus_rsl_value_make_sequence vs), ts3) }"

function parse_specification :: "rsl_token list \<Rightarrow> (rsl \<times> rsl_token list) option"
  and parse_spec_list :: "rsl_token list \<Rightarrow> (rsl list \<times> rsl_token list) option" where
  "parse_specification ts =
     (case ts of
        [] \<Rightarrow> None
      | t # ts1 \<Rightarrow>
          (case prefix_operator t of
             Some op \<Rightarrow> do { (rs, ts2) \<leftarrow> parse_spec_list ts1; Some (globus_rsl_make_boolean op rs, ts2) }
           | None \<Rightarrow> parse_request ts))"
| "parse_spec_list ts =
     (case expect_token RSL_LPAREN ts of
        None \<Rightarrow> None
      | Some ts1 \<Rightarrow>
          do {
            (r, ts2) \<leftarrow> parse_specification ts1;
            ts3 \<leftarrow> expect_token RSL_RPAREN ts2;
            if expect_token RSL_LPAREN ts3 \<noteq> None \<and> length ts3 < length ts
            then do { (rs, ts4) \<leftarrow> parse_spec_list ts3; Some (r # rs, ts4) }
            else Some ([r], ts3) })"
  by pat_completeness auto
termination
  by (relation "measure (\<lambda>x. case x of Inl ts \<Rightarrow> length ts | Inr ts \<Rightarrow> length ts)")
    (auto simp: expect_token_def split: list.splits if_splits)

declare parse_specification.simps [simp del] parse_spec_list.simps [simp del]

text \<open>\<open>yyparse\<close>, which must reach the end of input; a syntax error sets the result to NULL.\<close>

definition yyparse :: "rsl_token list \<Rightarrow> rsl" where
  "yyparse ts = (case parse_specification ts of Some (r, []) \<Rightarrow> r | _ \<Rightarrow> Null_rsl)"

definition globus_rsl_parse :: "string option \<Rightarrow> rsl option" where
  "globus_rsl_parse buf =
     (case buf of
        None \<Rightarrow> Some Null_rsl
      | Some s \<Rightarrow> do { ts \<leftarrow> globus_rsllex parse_state_init s; Some (yyparse ts) })"

section \<open>The grammar\<close>

text \<open>The productions of \<open>globus_rsl_parser.y\<close> with their actions: which tokens derive which tree.\<close>

inductive derives_values :: "rsl_token list \<Rightarrow> rsl_value list \<Rightarrow> bool"
  and derives_value :: "rsl_token list \<Rightarrow> rsl_value \<Rightarrow> bool"
  and derives_simple :: "rsl_token list \<Rightarrow> rsl_value \<Rightarrow> bool" where
  value_more: "derives_value ts v \<Longrightarrow> derives_values us vs \<Longrightarrow> derives_values (ts @ us) (v # vs)"
| value_last: "derives_value ts v \<Longrightarrow> derives_values ts [v]"
| value_sequence: "derives_values ts vs \<Longrightarrow> derives_value (RSL_LPAREN # ts @ [RSL_RPAREN]) (Sequence vs)"
| value_simple: "derives_simple ts v \<Longrightarrow> derives_value ts v"
| simple_concatenate:
    "derives_simple ts v \<Longrightarrow> derives_simple us w \<Longrightarrow>
     derives_simple (ts @ RSL_OP_CONCATENATE # us) (Concatenation v w)"
| simple_literal: "derives_simple [RSL_STRING s] (Literal (Some s))"
| simple_variable:
    "derives_values ts vs \<Longrightarrow>
     derives_simple (RSL_VARIABLE_START # RSL_LPAREN # ts @ [RSL_RPAREN]) (Variable (Sequence vs))"

inductive derives_spec :: "rsl_token list \<Rightarrow> rsl \<Rightarrow> bool"
  and derives_specs :: "rsl_token list \<Rightarrow> rsl list \<Rightarrow> bool" where
  spec_boolean: "prefix_operator t = Some op \<Longrightarrow> derives_specs ts rs \<Longrightarrow> derives_spec (t # ts) (Boolean op rs)"
| spec_request:
    "infix_operator t = Some op \<Longrightarrow> derives_values ts vs \<Longrightarrow>
     derives_spec (RSL_STRING a # t # ts) (Relation op (Some a) (Sequence vs))"
| specs_more:
    "derives_spec ts r \<Longrightarrow> derives_specs us rs \<Longrightarrow>
     derives_specs (RSL_LPAREN # ts @ RSL_RPAREN # us) (r # rs)"
| specs_last: "derives_spec ts r \<Longrightarrow> derives_specs (RSL_LPAREN # ts @ [RSL_RPAREN]) [r]"

lemmas derivation_intros = derives_values_derives_value_derives_simple.intros derives_spec_derives_specs.intros

text \<open>The parser only builds trees that the grammar derives from the tokens it has consumed.\<close>

lemma expect_token_Some [simp]: "expect_token t ts = Some us \<longleftrightarrow> ts = t # us"
  by (auto simp: expect_token_def split: list.splits)

lemma expect_token_None: "expect_token t ts = None \<longleftrightarrow> (\<forall>us. ts \<noteq> t # us)"
  by (auto simp: expect_token_def split: list.splits)

lemma expect_token_simps [simp]:
  "expect_token t [] = None" "expect_token t (u # us) = (if u = t then Some us else None)"
  by (simp_all add: expect_token_def)

lemma string_token_Some [simp]: "string_token ts = Some (s, us) \<longleftrightarrow> ts = RSL_STRING s # us"
  by (auto simp: string_token_def split: list.splits rsl_token.splits)

lemma string_token_simps [simp]:
  "string_token (RSL_STRING s # us) = Some (s, us)" "string_token (RSL_VARIABLE_START # us) = None"
  "string_token (RSL_LPAREN # us) = None"
  by (simp_all add: string_token_def)

text \<open>Some tokens in front of \<open>rest\<close> have a property.\<close>

definition takes :: "rsl_token list \<Rightarrow> rsl_token list \<Rightarrow> (rsl_token list \<Rightarrow> bool) \<Rightarrow> bool" where
  "takes ts rest P \<longleftrightarrow> (\<exists>us. ts = us @ rest \<and> us \<noteq> [] \<and> P us)"

lemma values_sound:
  "parse_value_list ts = Some (vs, rest) \<Longrightarrow> takes ts rest (\<lambda>us. derives_values us vs)"
  "parse_value ts = Some (v, rest) \<Longrightarrow> takes ts rest (\<lambda>us. derives_value us v)"
  "parse_simple_value ts = Some (v, rest) \<Longrightarrow> takes ts rest (\<lambda>us. derives_simple us v)"
  "parse_operand ts = Some (v, rest) \<Longrightarrow> takes ts rest (\<lambda>us. derives_simple us v)"
proof (induction ts and ts and ts and ts arbitrary: vs rest and v rest and v rest and v rest
    rule: parse_value_list_parse_value_parse_simple_value_parse_operand.induct)
  case (1 ts)
  obtain v ts1 where v: "parse_value ts = Some (v, ts1)"
    using "1.prems" by (auto simp: parse_value_list.simps bind_eq_Some_conv)
  obtain us where us: "ts = us @ ts1" "us \<noteq> []" "derives_value us v"
    using "1.IH"(1) [OF v] by (auto simp: takes_def)
  then have less: "length ts1 < length ts" by simp
  show ?case
  proof (cases "starts_value ts1")
    case True
    then obtain ws where ws: "parse_value_list ts1 = Some (ws, rest)" "vs = v # ws"
      using "1.prems" v less by (auto simp: parse_value_list.simps [of ts] bind_eq_Some_conv)
    then have "takes ts1 rest (\<lambda>us. derives_values us ws)"
      using "1.IH"(2) [OF v refl] True less by auto
    then show ?thesis using us ws by (auto simp: takes_def intro: derivation_intros)
  next
    case False
    then have "vs = [v]" "rest = ts1" using "1.prems" v by (auto simp: parse_value_list.simps)
    then show ?thesis using us by (auto simp: takes_def intro: derivation_intros)
  qed
next
  case (2 ts)
  show ?case
  proof (cases "expect_token RSL_LPAREN ts")
    case (Some ts1)
    then obtain vs where p: "parse_value_list ts1 = Some (vs, RSL_RPAREN # rest)" "v = Sequence vs"
      using "2.prems" by (auto simp: parse_value.simps rsl_constructors bind_eq_Some_conv)
    have "takes ts1 (RSL_RPAREN # rest) (\<lambda>us. derives_values us vs)" using "2.IH"(2) [OF Some p(1)] .
    then obtain us where "ts1 = us @ RSL_RPAREN # rest" "derives_values us vs" by (auto simp: takes_def)
    then show ?thesis using p Some
      by (auto simp: takes_def intro!: exI [of _ "RSL_LPAREN # us @ [RSL_RPAREN]"] intro: derivation_intros)
  next
    case None
    then have "parse_simple_value ts = Some (v, rest)" using "2.prems" by (auto simp: parse_value.simps)
    then have "takes ts rest (\<lambda>us. derives_simple us v)" using "2.IH"(1) [OF None] by simp
    then show ?thesis by (auto simp: takes_def intro: derivation_intros)
  qed
next
  case (3 ts)
  obtain w ts1 where w: "parse_operand ts = Some (w, ts1)"
    using "3.prems" by (auto simp: parse_simple_value.simps bind_eq_Some_conv)
  obtain us where us: "ts = us @ ts1" "us \<noteq> []" "derives_simple us w"
    using "3.IH"(1) [OF w] by (auto simp: takes_def)
  then have less: "length ts1 < length ts" by simp
  show ?case
  proof (cases "expect_token RSL_OP_CONCATENATE ts1")
    case None
    then have "v = w" "rest = ts1" using "3.prems" w by (auto simp: parse_simple_value.simps)
    then show ?thesis using us by (auto simp: takes_def)
  next
    case (Some ts2)
    then obtain x where x: "parse_simple_value ts2 = Some (x, rest)" "v = Concatenation w x"
      using "3.prems" w less by (auto simp: parse_simple_value.simps [of ts] bind_eq_Some_conv rsl_constructors)
    then have "takes ts2 rest (\<lambda>us. derives_simple us x)"
      using "3.IH"(2) [OF w refl Some] less Some by auto
    then obtain us' where "ts2 = us' @ rest" "derives_simple us' x" by (auto simp: takes_def)
    then show ?thesis using us x Some
      by (auto simp: takes_def intro!: exI [of _ "us @ RSL_OP_CONCATENATE # us'"] intro: derivation_intros)
  qed
next
  case (4 ts)
  show ?case
  proof (cases "string_token ts")
    case (Some p)
    then show ?thesis using "4.prems"
      by (cases p) (auto simp: parse_operand.simps rsl_constructors takes_def intro: derivation_intros)
  next
    case None
    then obtain ts2 vs where p: "ts = RSL_VARIABLE_START # RSL_LPAREN # ts2"
        "parse_value_list ts2 = Some (vs, RSL_RPAREN # rest)" "v = Variable (Sequence vs)"
      using "4.prems" by (auto simp: parse_operand.simps rsl_constructors bind_eq_Some_conv)
    have "takes ts2 (RSL_RPAREN # rest) (\<lambda>us. derives_values us vs)" using "4.IH" [OF None _ _ p(2)] p(1) by simp
    then obtain us where "ts2 = us @ RSL_RPAREN # rest" "derives_values us vs" by (auto simp: takes_def)
    then show ?thesis using p
      by (auto simp: takes_def intro!: exI [of _ "RSL_VARIABLE_START # RSL_LPAREN # us @ [RSL_RPAREN]"]
          intro: derivation_intros)
  qed
qed

lemma request_sound:
  assumes "parse_request ts = Some (r, rest)"
  shows "takes ts rest (\<lambda>us. derives_spec us r)"
proof -
  obtain a ts1 where a: "ts = RSL_STRING a # ts1" using assms by (auto simp: parse_request_def bind_eq_Some_conv)
  then obtain t ts2 where t: "ts1 = t # ts2" using assms by (cases ts1) (auto simp: parse_request_def)
  obtain op vs where "infix_operator t = Some op" "parse_value_list ts2 = Some (vs, rest)"
      "r = Relation op (Some a) (Sequence vs)"
    using assms by (auto simp: parse_request_def rsl_constructors bind_eq_Some_conv a t)
  note p = a [unfolded t] this
  then obtain us where "ts2 = us @ rest" "derives_values us vs"
    using values_sound(1) [OF p(3)] by (auto simp: takes_def)
  then show ?thesis using p
    by (auto simp: takes_def intro!: exI [of _ "RSL_STRING a # t # us"] intro: derivation_intros)
qed

lemma specs_sound:
  "parse_specification ts = Some (r, rest) \<Longrightarrow> takes ts rest (\<lambda>us. derives_spec us r)"
  "parse_spec_list ts = Some (rs, rest) \<Longrightarrow> takes ts rest (\<lambda>us. derives_specs us rs)"
proof (induction ts and ts arbitrary: r rest and rs rest rule: parse_specification_parse_spec_list.induct)
  case (1 ts)
  obtain t ts1 where ts: "ts = t # ts1" using "1.prems" by (cases ts) (auto simp: parse_specification.simps)
  show ?case
  proof (cases "prefix_operator t")
    case None
    then show ?thesis using "1.prems" ts by (auto simp: parse_specification.simps request_sound)
  next
    case (Some op)
    then obtain rs where rs: "parse_spec_list ts1 = Some (rs, rest)" "r = Boolean op rs"
      using "1.prems" ts by (auto simp: parse_specification.simps rsl_constructors bind_eq_Some_conv)
    then have "takes ts1 rest (\<lambda>us. derives_specs us rs)" using "1.IH" [OF ts Some] by simp
    then obtain us where "ts1 = us @ rest" "derives_specs us rs" by (auto simp: takes_def)
    then show ?thesis using Some rs ts
      by (auto simp: takes_def intro!: exI [of _ "t # us"] intro: derivation_intros)
  qed
next
  case (2 ts)
  obtain ts1 r ts3 where p: "expect_token RSL_LPAREN ts = Some ts1"
      "parse_specification ts1 = Some (r, RSL_RPAREN # ts3)"
    using "2.prems" by (auto simp: parse_spec_list.simps bind_eq_Some_conv split: option.splits)
  obtain us where us: "ts1 = us @ RSL_RPAREN # ts3" "derives_spec us r"
    using "2.IH"(1) [OF p] by (auto simp: takes_def)
  have less: "length ts3 < length ts" using us p by simp
  show ?case
  proof (cases "expect_token RSL_LPAREN ts3")
    case None
    then have "rs = [r]" "rest = ts3" using "2.prems" p by (auto simp: parse_spec_list.simps expect_token_None)
    then show ?thesis using us p
      by (auto simp: takes_def intro!: exI [of _ "RSL_LPAREN # us @ [RSL_RPAREN]"] intro: derivation_intros)
  next
    case (Some ts4)
    then obtain rs' where rs: "parse_spec_list ts3 = Some (rs', rest)" "rs = r # rs'"
      using "2.prems" p less by (auto simp: parse_spec_list.simps [of ts] bind_eq_Some_conv)
    have "takes ts3 rest (\<lambda>us. derives_specs us rs')"
      using "2.IH"(2) [OF p refl] Some rs(1) less by simp
    then obtain us' where "ts3 = us' @ rest" "derives_specs us' rs'" by (auto simp: takes_def)
    then show ?thesis using us p rs
      by (auto simp: takes_def intro!: exI [of _ "RSL_LPAREN # us @ RSL_RPAREN # us'"] intro: derivation_intros)
  qed
qed

lemma yyparse_sound: "yyparse ts = r \<Longrightarrow> r \<noteq> Null_rsl \<Longrightarrow> derives_spec ts r"
  using specs_sound(1) [of ts r "[]"] by (auto simp: yyparse_def takes_def split: option.splits list.splits)

text \<open>
  The grammar is ambiguous in the nesting of concatenations; the parser nests them to the right.
  \<open>nest_value\<close> is the tree with every chain of concatenations nested to the right.
\<close>

fun concat_right :: "rsl_value \<Rightarrow> rsl_value \<Rightarrow> rsl_value" where
  "concat_right (Concatenation a b) w = Concatenation a (concat_right b w)"
| "concat_right v w = Concatenation v w"

fun nest_value :: "rsl_value \<Rightarrow> rsl_value" where
  "nest_value (Sequence vs) = Sequence (map nest_value vs)"
| "nest_value (Variable v) = Variable (nest_value v)"
| "nest_value (Concatenation v w) = concat_right (nest_value v) (nest_value w)"
| "nest_value v = v"

fun nest_rsl :: "rsl \<Rightarrow> rsl" where
  "nest_rsl (Boolean op rs) = Boolean op (map nest_rsl rs)"
| "nest_rsl (Relation op a v) = Relation op a (nest_value v)"
| "nest_rsl Null_rsl = Null_rsl"

lemma concat_right_assoc: "concat_right u (concat_right v w) = concat_right (concat_right u v) w"
  by (induction u v rule: concat_right.induct) auto

text \<open>What may follow a simple value and a list of values.\<close>

abbreviation no_concat :: "rsl_token list \<Rightarrow> bool" where
  "no_concat ts \<equiv> expect_token RSL_OP_CONCATENATE ts = None"

abbreviation ends_values :: "rsl_token list \<Rightarrow> bool" where
  "ends_values ts \<equiv> no_concat ts \<and> \<not> starts_value ts"

lemma derives_first:
  "derives_values ts vs \<Longrightarrow> starts_value (ts @ rest) \<and> no_concat (ts @ rest)"
  "derives_value ts v \<Longrightarrow> starts_value (ts @ rest) \<and> no_concat (ts @ rest)"
  "derives_simple ts v \<Longrightarrow> starts_value (ts @ rest) \<and> no_concat (ts @ rest) \<and> expect_token RSL_LPAREN (ts @ rest) = None"
  by (induction arbitrary: rest and rest and rest rule: derives_values_derives_value_derives_simple.inducts) auto

lemma consumed:
  assumes "parse_value ts = Some (v, rest)" shows "length rest < length ts"
  using values_sound(2) [OF assms] by (auto simp: takes_def)

lemma parse_value_list_last:
  assumes "parse_value ts = Some (v, rest)" and "\<not> starts_value rest"
  shows "parse_value_list ts = Some ([v], rest)"
  using assms by (simp add: parse_value_list.simps)

lemma parse_value_list_more:
  assumes "parse_value ts = Some (v, ts1)" and "starts_value ts1" and "parse_value_list ts1 = Some (vs, rest)"
  shows "parse_value_list ts = Some (v # vs, rest)"
  using assms consumed [OF assms(1)] by (simp add: parse_value_list.simps [of ts])

lemma parse_simple_last:
  assumes "parse_operand ts = Some (v, rest)" and "no_concat rest"
  shows "parse_simple_value ts = Some (v, rest)"
  using assms by (simp add: parse_simple_value.simps)

lemma parse_simple_more:
  assumes "parse_operand ts = Some (v, RSL_OP_CONCATENATE # ts1)" and "parse_simple_value ts1 = Some (w, rest)"
  shows "parse_simple_value ts = Some (Concatenation v w, rest)"
proof -
  have "length ts1 < length ts" using values_sound(4) [OF assms(1)] by (auto simp: takes_def)
  then show ?thesis using assms by (simp add: parse_simple_value.simps [of ts] rsl_constructors)
qed

text \<open>The parser reads every sentence of the grammar.\<close>

lemma values_complete:
  "derives_values ts vs \<Longrightarrow>
     \<forall>rest. ends_values rest \<longrightarrow> parse_value_list (ts @ rest) = Some (map nest_value vs, rest)"
  "derives_value ts v \<Longrightarrow> \<forall>rest. no_concat rest \<longrightarrow> parse_value (ts @ rest) = Some (nest_value v, rest)"
  "derives_simple ts v \<Longrightarrow>
     (\<forall>rest. no_concat rest \<longrightarrow> parse_simple_value (ts @ rest) = Some (nest_value v, rest)) \<and>
     (\<forall>us w rest. parse_simple_value us = Some (w, rest) \<longrightarrow>
        parse_simple_value (ts @ RSL_OP_CONCATENATE # us) = Some (concat_right (nest_value v) w, rest))"
proof (induction rule: derives_values_derives_value_derives_simple.inducts)
  case (value_more ts v us vs)
  then show ?case using derives_first(1) [OF value_more.hyps(2)] by (auto intro!: parse_value_list_more)
next
  case (value_last ts v)
  then show ?case by (auto intro!: parse_value_list_last)
next
  case (value_sequence ts vs)
  then show ?case by (auto simp: parse_value.simps rsl_constructors)
next
  case (value_simple ts v)
  then show ?case using derives_first(3) [OF value_simple.hyps] by (auto simp: parse_value.simps)
next
  case (simple_concatenate ts v us w)
  then show ?case by (auto simp: concat_right_assoc)
next
  case (simple_literal s)
  have "parse_operand (RSL_STRING s # rest) = Some (Literal (Some s), rest)" for rest
    by (simp add: parse_operand.simps rsl_constructors)
  then show ?case by (auto intro: parse_simple_last parse_simple_more)
next
  case (simple_variable ts vs)
  have "parse_operand (RSL_VARIABLE_START # RSL_LPAREN # ts @ RSL_RPAREN # rest) =
      Some (Variable (Sequence (map nest_value vs)), rest)" for rest
    using simple_variable.IH by (simp add: parse_operand.simps rsl_constructors)
  then show ?case by (auto intro: parse_simple_last parse_simple_more)
qed

lemma derives_specs_first: "derives_specs ts rs \<Longrightarrow> \<exists>us. ts = RSL_LPAREN # us"
  by (erule derives_specs.cases) auto

lemma specs_complete:
  "derives_spec ts r \<Longrightarrow> \<forall>rest. ends_values rest \<longrightarrow> parse_specification (ts @ rest) = Some (nest_rsl r, rest)"
  "derives_specs ts rs \<Longrightarrow>
     \<forall>rest. ends_values rest \<longrightarrow> parse_spec_list (ts @ rest) = Some (map nest_rsl rs, rest)"
proof (induction rule: derives_spec_derives_specs.inducts)
  case (spec_boolean t op ts rs)
  then show ?case by (auto simp: parse_specification.simps rsl_constructors)
next
  case (spec_request t op ts vs a)
  then show ?case using values_complete(1) [OF spec_request.hyps(2)]
    by (auto simp: parse_specification.simps parse_request_def rsl_constructors)
next
  case (specs_more ts r us rs)
  have "parse_spec_list (RSL_LPAREN # ts @ RSL_RPAREN # us @ rest) = Some (map nest_rsl (r # rs), rest)"
    if "ends_values rest" for rest
    using specs_more.IH that derives_specs_first [OF specs_more.hyps(2)]
    by (subst parse_spec_list.simps) auto
  then show ?case by auto
next
  case (specs_last ts r)
  have "parse_spec_list (RSL_LPAREN # ts @ RSL_RPAREN # rest) = Some ([nest_rsl r], rest)"
    if "ends_values rest" for rest
    using specs_last.IH that by (cases rest) (auto simp: parse_spec_list.simps)
  then show ?case by auto
qed

lemma yyparse_complete: "derives_spec ts r \<Longrightarrow> yyparse ts = nest_rsl r"
  using specs_complete(1) [of ts r] by (auto simp: yyparse_def dest: spec [of _ "[]"])

end
