(* ===== verification/Gram_Rsl_Eval.thy ===== *)
theory Gram_Rsl_Eval
  imports Gram_Rsl Globus_Symboltable
begin

text \<open>
  Evaluation of resource specifications, \<open>globus_rsl_value_eval\<close> and \<open>globus_rsl_eval\<close> of
  \<open>gram/rsl/source/globus_rsl.c\<close>, on the symbol table of \<open>Globus_Symboltable\<close>: each boolean opens a scope,
  the attribute \<open>rsl_substitution\<close> declares variables in it, references to variables and concatenations
  become literals. The specification is a substitution on trees with a stack of finite maps. The
  theorems show that the code implements it, that evaluated trees hold literals and sequences only and
  are fixed points, and which scopes are left behind.
\<close>

section \<open>Operations\<close>

type_synonym rsl_symbols = "(string, string) symboltable"

text \<open>
  \<open>globus_rsl_value_eval\<close> returns its code, the string it stores, the changed node and the symbol table.
  The string of a failed call is not used. A successful concatenation leaves its node with NULL operands,
  for the caller to replace.
\<close>

fun globus_rsl_value_eval ::
  "rsl_value \<Rightarrow> rsl_symbols \<Rightarrow> bool \<Rightarrow> (int \<times> string option \<times> rsl_value \<times> rsl_symbols) option"
  and eval_values_loop :: "rsl_value list \<Rightarrow> rsl_symbols \<Rightarrow> (int \<times> rsl_value list \<times> rsl_symbols) option" where
  "globus_rsl_value_eval Null_value st flag = Some (1, None, Null_value, st)"
| "globus_rsl_value_eval (Literal s) st flag = Some (0, s, Literal s, st)"
| "globus_rsl_value_eval (Sequence vs) st flag =
     (if flag
      then case vs of
        [first, second] \<Rightarrow>
          do {
            (rc, symbol_name, first1, st1) \<leftarrow> globus_rsl_value_eval first st flag;
            if rc \<noteq> 0 then Some (1, None, Sequence [first1, second], st1)
            else do {
              (rc1, symbol_value, second1, st2) \<leftarrow> globus_rsl_value_eval second st1 flag;
              if rc1 \<noteq> 0 then Some (1, None, Sequence [globus_rsl_value_make_literal symbol_name, second1], st2)
              else
                let v = Sequence [globus_rsl_value_make_literal symbol_name, globus_rsl_value_make_literal symbol_value]
                in (case (symbol_name, symbol_value) of
                      (Some name, Some string) \<Rightarrow>
                        do {
                          (_, st3) \<leftarrow> globus_symboltable_insert st2 name (Some string);
                          Some (0, None, v, st3) }
                    | _ \<Rightarrow> Some (1, None, v, st2)) } }
      | _ \<Rightarrow> Some (1, None, Sequence vs, st)
      else do {
        (rc, vs1, st1) \<leftarrow> eval_values_loop vs st;
        Some (rc, None, Sequence vs1, st1) })"
| "globus_rsl_value_eval (Variable v) st flag =
     (if globus_rsl_value_variable_get_size (Variable v) \<noteq> 1 then Some (1, None, Variable v, st)
      else do {
        symbol_name \<leftarrow> globus_rsl_value_variable_get_name (Variable v);
        case symbol_name of
          None \<Rightarrow> Some (1, None, Variable v, st)
        | Some name \<Rightarrow>
            do {
              s \<leftarrow> globus_symboltable_lookup st name;
              Some (if s = None then 1 else 0, s, Variable v, st) } })"
| "globus_rsl_value_eval (Concatenation l r) st flag =
     do {
       (rc, left, l1, st1) \<leftarrow> globus_rsl_value_eval l st flag;
       if rc \<noteq> 0 then Some (1, None, Concatenation l1 r, st1)
       else do {
         (rc1, right, r1, st2) \<leftarrow> globus_rsl_value_eval r st1 flag;
         if rc1 \<noteq> 0 then Some (1, None, Concatenation l1 r1, st2)
         else (case (left, right) of
                 (Some s, Some t) \<Rightarrow> Some (0, Some (s @ t), Concatenation Null_value Null_value, st2)
               | _ \<Rightarrow> Some (1, None, Concatenation l1 r1, st2)) } }"
| "eval_values_loop [] st = Some (0, [], st)"
| "eval_values_loop (v # vs) st =
     do {
       (rc, s, v1, st1) \<leftarrow> globus_rsl_value_eval v st False;
       if rc \<noteq> 0 then Some (1, v1 # vs, st1)
       else
         let v2 = (if globus_rsl_value_is_sequence v1 then v1 else globus_rsl_value_make_literal s)
         in do {
           (rc1, vs1, st2) \<leftarrow> eval_values_loop vs st1;
           Some (rc1, v2 # vs1, st2) } }"

text \<open>The loop over the values of a relation.\<close>

fun eval_relation_loop :: "bool \<Rightarrow> rsl_value list \<Rightarrow> rsl_symbols \<Rightarrow> (int \<times> rsl_value list \<times> rsl_symbols) option" where
  "eval_relation_loop flag [] st = Some (0, [], st)"
| "eval_relation_loop flag (v # vs) st =
     (if flag \<and> \<not> globus_rsl_value_is_sequence v then Some (1, v # vs, st)
      else do {
        (rc, s, v1, st1) \<leftarrow> globus_rsl_value_eval v st flag;
        if rc \<noteq> 0 then Some (1, v1 # vs, st1)
        else
          let v2 = (if s \<noteq> None then globus_rsl_value_make_literal s else v1)
          in do {
            (rc1, vs1, st2) \<leftarrow> eval_relation_loop flag vs st1;
            Some (rc1, v2 # vs1, st2) } })"

definition rsl_substitution_flag :: "rsl \<Rightarrow> bool option" where
  "rsl_substitution_flag r =
     do {
       f \<leftarrow> globus_rsl_is_relation_attribute_equal r ''rsl_substitution'';
       g \<leftarrow> globus_rsl_is_relation_attribute_equal r ''rslsubstitution'';
       Some (f \<or> g) }"

text \<open>\<open>room\<close> is the capacity of the entry pool of a new scope.\<close>

fun globus_rsl_eval :: "nat \<Rightarrow> rsl \<Rightarrow> rsl_symbols \<Rightarrow> (int \<times> rsl \<times> rsl_symbols) option"
  and eval_operands_loop :: "nat \<Rightarrow> rsl list \<Rightarrow> rsl_symbols \<Rightarrow> (int \<times> rsl list \<times> rsl_symbols) option" where
  "globus_rsl_eval room Null_rsl st = Some (1, Null_rsl, st)"
| "globus_rsl_eval room (Boolean op rs) st =
     do {
       (_, st1) \<leftarrow> globus_symboltable_create_scope True True room st;
       (rc, rs1, st2) \<leftarrow> eval_operands_loop room rs st1;
       if rc \<noteq> 0 then Some (1, Boolean op rs1, st2)
       else do {
         (_, st3) \<leftarrow> globus_symboltable_remove_scope st2;
         Some (0, Boolean op rs1, st3) } }"
| "globus_rsl_eval room (Relation op a v) st =
     do {
       flag \<leftarrow> rsl_substitution_flag (Relation op a v);
       (rc, vs, st1) \<leftarrow> eval_relation_loop flag (globus_rsl_value_sequence_get_value_list v) st;
       Some (rc, Relation op a (if globus_rsl_value_is_sequence v then Sequence vs else v), st1) }"
| "eval_operands_loop room [] st = Some (0, [], st)"
| "eval_operands_loop room (r # rs) st =
     do {
       (rc, r1, st1) \<leftarrow> globus_rsl_eval room r st;
       if rc \<noteq> 0 then Some (1, r1 # rs, st1)
       else do {
         (rc1, rs1, st2) \<leftarrow> eval_operands_loop room rs st1;
         Some (rc1, r1 # rs1, st2) } }"

section \<open>Specification\<close>

type_synonym scopes = "(string \<Rightarrow> string option) list"

text \<open>The string of a value without sequences, and the value with its strings filled in.\<close>

fun value_string :: "(string \<Rightarrow> string option) \<Rightarrow> rsl_value \<Rightarrow> string option" where
  "value_string env (Literal s) = s"
| "value_string env (Variable (Sequence [Literal (Some x)])) = env x"
| "value_string env (Concatenation v w) = do { s \<leftarrow> value_string env v; t \<leftarrow> value_string env w; Some (s @ t) }"
| "value_string env _ = None"

fun substitute :: "(string \<Rightarrow> string option) \<Rightarrow> rsl_value \<Rightarrow> rsl_value option" where
  "substitute env (Sequence vs) = map_option Sequence (those (map (substitute env) vs))"
| "substitute env (Literal s) = Some (Literal s)"
| "substitute env v = map_option (\<lambda>s. Literal (Some s)) (value_string env v)"

text \<open>
  A definition: a pair of strings is bound in the innermost scope, unless the name is bound there already.
\<close>

fun bind_symbol :: "string \<Rightarrow> string \<Rightarrow> scopes \<Rightarrow> scopes" where
  "bind_symbol x s [] = []"
| "bind_symbol x s (m # ms) = (if m x \<noteq> None then m # ms else m(x \<mapsto> s) # ms)"

fun define_symbol :: "scopes \<Rightarrow> rsl_value \<Rightarrow> (rsl_value \<times> scopes) option" where
  "define_symbol ms (Sequence [v, w]) =
     do {
       x \<leftarrow> value_string (scope_lookup ms) v;
       s \<leftarrow> value_string (scope_lookup ms) w;
       Some (Sequence [Literal (Some x), Literal (Some s)], bind_symbol x s ms) }"
| "define_symbol ms v = None"

fun define_symbols :: "scopes \<Rightarrow> rsl_value list \<Rightarrow> (rsl_value list \<times> scopes) option" where
  "define_symbols ms [] = Some ([], ms)"
| "define_symbols ms (v # vs) =
     do { (v1, ms1) \<leftarrow> define_symbol ms v; (vs1, ms2) \<leftarrow> define_symbols ms1 vs; Some (v1 # vs1, ms2) }"

definition substitution_name :: "string \<Rightarrow> bool" where
  "substitution_name a \<longleftrightarrow> strcaseeq a ''rsl_substitution'' \<or> strcaseeq a ''rslsubstitution''"

fun subst_rsl :: "scopes \<Rightarrow> rsl \<Rightarrow> (rsl \<times> scopes) option"
  and subst_rsls :: "scopes \<Rightarrow> rsl list \<Rightarrow> (rsl list \<times> scopes) option" where
  "subst_rsl ms Null_rsl = None"
| "subst_rsl ms (Boolean op rs) =
     do { (rs1, ms1) \<leftarrow> subst_rsls (Map.empty # ms) rs; Some (Boolean op rs1, tl ms1) }"
| "subst_rsl ms (Relation op a v) =
     (let vs = globus_rsl_value_sequence_get_value_list v
      in if substitution_name (the a)
         then do { (vs1, ms1) \<leftarrow> define_symbols ms vs; Some (Relation op a (Sequence vs1), ms1) }
         else do { vs1 \<leftarrow> those (map (substitute (scope_lookup ms)) vs); Some (Relation op a (Sequence vs1), ms) })"
| "subst_rsls ms [] = Some ([], ms)"
| "subst_rsls ms (r # rs) =
     do { (r1, ms1) \<leftarrow> subst_rsl ms r; (rs1, ms2) \<leftarrow> subst_rsls ms1 rs; Some (r1 # rs1, ms2) }"

section \<open>Values\<close>

lemmas sequence_defs = globus_rsl_value_is_sequence_def globus_rsl_value_sequence_get_value_list_def

text \<open>What evaluation without definitions gives, in terms of the specification.\<close>

definition evaluates :: "(string \<Rightarrow> string option) \<Rightarrow> rsl_value \<Rightarrow> int \<Rightarrow> string option \<Rightarrow> rsl_value \<Rightarrow> bool" where
  "evaluates env v rc s v' \<longleftrightarrow>
     value_string env v = (if rc = 0 then s else None) \<and>
     substitute env v = (if rc \<noteq> 0 then None
       else Some (if globus_rsl_value_is_sequence v' then v' else Literal s)) \<and>
     globus_rsl_value_is_sequence v' = globus_rsl_value_is_sequence v \<and>
     (rc = 0 \<and> s = None \<and> \<not> globus_rsl_value_is_sequence v' \<longrightarrow> v' = Literal None)"

lemma variable_eval:
  assumes "sym_inv n st ms"
  shows "\<exists>rc s. globus_rsl_value_eval (Variable v) st flag = Some (rc, s, Variable v, st) \<and>
    evaluates (scope_lookup ms) (Variable v) rc s (Variable v)"
proof (cases "\<exists>x. v = Sequence [Literal (Some x)]")
  case True
  then obtain x where v: "v = Sequence [Literal (Some x)]" by blast
  show ?thesis using lookup_refines [OF assms, of x]
    by (cases "scope_lookup ms x") (simp_all add: v evaluates_def sequence_defs globus_rsl_value_variable_get_size_def
        globus_rsl_value_is_variable_def globus_rsl_value_variable_get_sequence_def
        globus_rsl_value_variable_get_name_def globus_rsl_value_literal_get_string_def)
next
  case False
  have no_string: "value_string (scope_lookup ms) (Variable v) = None"
    using False by (cases "(scope_lookup ms, Variable v)" rule: value_string.cases) auto
  have "\<exists>s. globus_rsl_value_eval (Variable v) st flag = Some (1, s, Variable v, st)"
  proof (cases "\<exists>x. v = Sequence [x]")
    case True
    then obtain x where x: "v = Sequence [x]" by blast
    then show ?thesis using False
      by (cases x) (auto simp: sequence_defs globus_rsl_value_variable_get_size_def
        globus_rsl_value_is_variable_def globus_rsl_value_variable_get_sequence_def
        globus_rsl_value_variable_get_name_def globus_rsl_value_literal_get_string_def)
  next
    case False
    then have "globus_rsl_value_variable_get_size (Variable v) \<noteq> 1"
      by (cases v) (auto simp: sequence_defs globus_rsl_value_variable_get_size_def
        globus_rsl_value_is_variable_def globus_rsl_value_variable_get_sequence_def length_Suc_conv)
    then show ?thesis by simp
  qed
  then obtain s where "globus_rsl_value_eval (Variable v) st flag = Some (1, s, Variable v, st)" by blast
  then show ?thesis using no_string
    by (intro exI [of _ 1] exI [of _ s]) (simp add: evaluates_def sequence_defs del: globus_rsl_value_eval.simps)
qed

lemma plain_eval:
  assumes "sym_inv n st ms"
  shows "\<exists>rc s v'. globus_rsl_value_eval v st False = Some (rc, s, v', st) \<and> evaluates (scope_lookup ms) v rc s v'"
  using assms
proof (induction v)
  case (Sequence vs)
  have "\<exists>rc vs'. eval_values_loop vs st = Some (rc, vs', st) \<and>
      those (map (substitute (scope_lookup ms)) vs) = (if rc = 0 then Some vs' else None)"
    using Sequence
  proof (induction vs)
    case (Cons v vs)
    obtain rc s v' where v: "globus_rsl_value_eval v st False = Some (rc, s, v', st)" "evaluates (scope_lookup ms) v rc s v'"
      using Cons.prems(1) [of v] Cons.prems(2) by auto
    obtain rc1 vs' where vs: "eval_values_loop vs st = Some (rc1, vs', st)"
        "those (map (substitute (scope_lookup ms)) vs) = (if rc1 = 0 then Some vs' else None)"
      using Cons by auto
    show ?case using v vs by (cases "rc = 0"; cases "rc1 = 0") (auto simp: evaluates_def rsl_constructors Let_def)
  qed simp
  then obtain rc vs' where "eval_values_loop vs st = Some (rc, vs', st)"
      "those (map (substitute (scope_lookup ms)) vs) = (if rc = 0 then Some vs' else None)" by blast
  then show ?case
    by (intro exI [of _ rc] exI [of _ None] exI [of _ "Sequence vs'"]) (auto simp: evaluates_def sequence_defs)
next
  case (Variable v)
  then show ?case using variable_eval by blast
next
  case (Concatenation v w)
  obtain rc s v' where v: "globus_rsl_value_eval v st False = Some (rc, s, v', st)" "evaluates (scope_lookup ms) v rc s v'"
    using Concatenation by auto
  obtain rc1 t w' where w: "globus_rsl_value_eval w st False = Some (rc1, t, w', st)" "evaluates (scope_lookup ms) w rc1 t w'"
    using Concatenation by auto
  show ?case using v w
    by (cases "rc = 0"; cases "rc1 = 0"; cases s; cases t) (auto simp: evaluates_def sequence_defs)
qed (auto simp: evaluates_def sequence_defs)

text \<open>Evaluation with definitions: the number of definitions that a value may make.\<close>

fun value_cost :: "rsl_value \<Rightarrow> nat" where
  "value_cost (Sequence vs) = Suc (sum_list (map value_cost vs))"
| "value_cost (Concatenation v w) = value_cost v + value_cost w"
| "value_cost v = 0"

lemma bind_symbol_eq: "bind_symbol x s ms = snd (scope_apply (=) (Insert x s) ms)"
  by (cases ms) (auto simp: fun_eq_iff)

lemma insert_symbol:
  assumes "sym_inv (Suc n) st ms" "sy_keyeq_func st = (=)"
  shows "\<exists>rc st'. globus_symboltable_insert st x (Some s) = Some (rc, st') \<and> sym_inv n st' (bind_symbol x s ms) \<and>
    sy_keyeq_func st' = (=)"
  using insert_refines [OF assms(1), of x s] assms(2) by (auto simp: bind_symbol_eq)

lemma bind_symbol_shape: "length (bind_symbol x s ms) = length ms" "tl (bind_symbol x s ms) = tl ms"
  by (cases ms; simp)+

text \<open>The table denotes \<open>ms'\<close>, which differs from \<open>ms\<close> in the innermost scope at most.\<close>

definition inner_scope_changed :: "nat \<Rightarrow> rsl_symbols \<Rightarrow> scopes \<Rightarrow> scopes \<Rightarrow> bool" where
  "inner_scope_changed n st ms ms' \<longleftrightarrow>
     sym_inv n st ms' \<and> sy_keyeq_func st = (=) \<and> length ms' = length ms \<and> tl ms' = tl ms"

lemma inner_scope_trans:
  "inner_scope_changed n st ms ms1 \<Longrightarrow> inner_scope_changed k st' ms1 ms2 \<Longrightarrow> inner_scope_changed k st' ms ms2"
  by (simp add: inner_scope_changed_def)

lemma inner_scope_mono: "inner_scope_changed n st ms ms' \<Longrightarrow> k \<le> n \<Longrightarrow> inner_scope_changed k st ms ms'"
  by (auto simp: inner_scope_changed_def intro: sym_inv_mono)

lemma inner_scope_insert:
  assumes "inner_scope_changed (Suc n) st ms ms1"
  shows "\<exists>rc st'. globus_symboltable_insert st x (Some s) = Some (rc, st') \<and>
    inner_scope_changed n st' ms (bind_symbol x s ms1)"
  using assms insert_symbol [of n st ms1 x s] bind_symbol_shape [of x s ms1]
  by (auto simp: inner_scope_changed_def)

text \<open>What evaluation with definitions gives.\<close>

definition declares :: "nat \<Rightarrow> scopes \<Rightarrow> rsl_value \<Rightarrow> (int \<times> string option \<times> rsl_value \<times> rsl_symbols) option \<Rightarrow> bool" where
  "declares n ms v res \<longleftrightarrow> (\<exists>rc s v' st' ms'. res = Some (rc, s, v', st') \<and> inner_scope_changed n st' ms ms' \<and>
     value_string (scope_lookup ms) v = (if rc = 0 then s else None) \<and>
     (rc = 0 \<and> s \<noteq> None \<longrightarrow> ms' = ms) \<and>
     (globus_rsl_value_is_sequence v \<longrightarrow> define_symbol ms v = (if rc = 0 then Some (v', ms') else None) \<and> (rc = 0 \<longrightarrow> s = None)))"

lemma declaresE:
  assumes "declares n ms v res"
  obtains rc s v' st' ms' where "res = Some (rc, s, v', st')" "inner_scope_changed n st' ms ms'"
    "value_string (scope_lookup ms) v = (if rc = 0 then s else None)" "rc = 0 \<and> s \<noteq> None \<longrightarrow> ms' = ms"
    "globus_rsl_value_is_sequence v \<longrightarrow> define_symbol ms v = (if rc = 0 then Some (v', ms') else None) \<and> (rc = 0 \<longrightarrow> s = None)"
  using assms unfolding declares_def by blast

lemma declares_error:
  assumes "inner_scope_changed n st' ms ms'" "value_string (scope_lookup ms) v = None" "define_symbol ms v = None"
  shows "declares n ms v (Some (1, s, v', st'))"
  using assms by (auto simp: declares_def intro!: exI [of _ ms'])

lemma define_symbol_None:
  "\<not> globus_rsl_value_is_sequence v \<Longrightarrow> define_symbol ms v = None"
  "length vs \<noteq> 2 \<Longrightarrow> define_symbol ms (Sequence vs) = None"
  by (cases "(ms, v)" rule: define_symbol.cases; auto simp: sequence_defs)
     (cases "(ms, Sequence vs)" rule: define_symbol.cases; auto)

lemma pair_declares:
  assumes a: "\<And>n st ms. inner_scope_changed (n + value_cost a) st ms ms \<Longrightarrow> declares n ms a (globus_rsl_value_eval a st True)"
    and b: "\<And>n st ms. inner_scope_changed (n + value_cost b) st ms ms \<Longrightarrow> declares n ms b (globus_rsl_value_eval b st True)"
    and inv: "inner_scope_changed (n + value_cost (Sequence [a, b])) st ms ms"
  shows "declares n ms (Sequence [a, b]) (globus_rsl_value_eval (Sequence [a, b]) st True)"
proof -
  have "inner_scope_changed (Suc (n + value_cost b) + value_cost a) st ms ms" using inv by (simp add: algebra_simps)
  then obtain rc x a' st1 ms1 where ea: "globus_rsl_value_eval a st True = Some (rc, x, a', st1)"
      "inner_scope_changed (Suc (n + value_cost b)) st1 ms ms1"
      "value_string (scope_lookup ms) a = (if rc = 0 then x else None)" "rc = 0 \<and> x \<noteq> None \<longrightarrow> ms1 = ms"
    using a [of "Suc (n + value_cost b)" st ms] declaresE by metis
  show ?thesis
  proof (cases "rc = 0")
    case False
    then show ?thesis using ea
      by (simp, intro declares_error [of _ _ _ ms1]) (auto intro: inner_scope_mono)
  next
    case True
    have "inner_scope_changed (Suc n + value_cost b) st1 ms1 ms1" using ea(2) by (simp add: inner_scope_changed_def)
    then obtain rc1 y b' st2 ms2 where eb: "globus_rsl_value_eval b st1 True = Some (rc1, y, b', st2)"
        "inner_scope_changed (Suc n) st2 ms1 ms2"
        "value_string (scope_lookup ms1) b = (if rc1 = 0 then y else None)" "rc1 = 0 \<and> y \<noteq> None \<longrightarrow> ms2 = ms1"
      using b [of "Suc n" st1 ms1] declaresE by metis
    have inv2: "inner_scope_changed (Suc n) st2 ms ms2" using inner_scope_trans [OF ea(2) eb(2)] .
    show ?thesis
    proof (cases "rc1 = 0 \<and> x \<noteq> None \<and> y \<noteq> None")
      case False
      then have "define_symbol ms (Sequence [a, b]) = None" using True ea eb by (cases x) auto
      moreover have "\<exists>v. globus_rsl_value_eval (Sequence [a, b]) st True = Some (1, None, v, st2)"
        using False True ea(1) eb(1) by (cases x; cases y) auto
      ultimately show ?thesis using declares_error [OF inner_scope_mono [OF inv2]] by fastforce
    next
      case both: True
      then obtain name string where ns: "x = Some name" "y = Some string" by auto
      then have ms: "ms1 = ms" "ms2 = ms" using True both ea eb by auto
      obtain rc3 st3 where ins: "globus_symboltable_insert st2 name (Some string) = Some (rc3, st3)"
          "inner_scope_changed n st3 ms (bind_symbol name string ms)"
        using inner_scope_insert [OF inv2, of name string] ms by auto
      then show ?thesis using True both ea eb ns ms by (auto simp: declares_def sequence_defs rsl_constructors)
    qed
  qed
qed

lemma flag_eval:
  "inner_scope_changed (n + value_cost v) st ms ms \<Longrightarrow> declares n ms v (globus_rsl_value_eval v st True)"
proof (induction v arbitrary: n st ms)
  case (Sequence vs)
  show ?case
  proof (cases "length vs = 2")
    case True
    then obtain a b where "vs = [a, b]" by (auto simp: numeral_2_eq_2 length_Suc_conv)
    then show ?thesis using Sequence pair_declares [of a b n st ms] by simp
  next
    case False
    then have "globus_rsl_value_eval (Sequence vs) st True = Some (1, None, Sequence vs, st)"
      by (cases vs rule: remdups_adj.cases) (auto split: list.splits)
    then show ?thesis using define_symbol_None(2) [OF False]
      by (auto intro!: declares_error [of _ _ _ ms] inner_scope_mono [OF Sequence.prems] simp del: globus_rsl_value_eval.simps)
  qed
next
  case (Variable v)
  then have "sym_inv n st ms" by (simp add: inner_scope_changed_def)
  then obtain rc s where "globus_rsl_value_eval (Variable v) st True = Some (rc, s, Variable v, st)"
      "evaluates (scope_lookup ms) (Variable v) rc s (Variable v)"
    using variable_eval by blast
  then show ?case using Variable by (auto simp: declares_def evaluates_def sequence_defs simp del: globus_rsl_value_eval.simps)
next
  case (Concatenation v w)
  have "inner_scope_changed ((n + value_cost w) + value_cost v) st ms ms" using Concatenation.prems by (simp add: algebra_simps)
  then obtain rc x v' st1 ms1 where ev: "globus_rsl_value_eval v st True = Some (rc, x, v', st1)"
      "inner_scope_changed (n + value_cost w) st1 ms ms1"
      "value_string (scope_lookup ms) v = (if rc = 0 then x else None)" "rc = 0 \<and> x \<noteq> None \<longrightarrow> ms1 = ms"
    using Concatenation.IH(1) [of "n + value_cost w" st ms] declaresE by metis
  have "inner_scope_changed (n + value_cost w) st1 ms1 ms1" using ev(2) by (simp add: inner_scope_changed_def)
  then obtain rc1 y w' st2 ms2 where ew: "globus_rsl_value_eval w st1 True = Some (rc1, y, w', st2)"
      "inner_scope_changed n st2 ms1 ms2"
      "value_string (scope_lookup ms1) w = (if rc1 = 0 then y else None)" "rc1 = 0 \<and> y \<noteq> None \<longrightarrow> ms2 = ms1"
    using Concatenation.IH(2) [of n st1 ms1] declaresE by metis
  have inv1: "inner_scope_changed n st1 ms ms1" using inner_scope_mono [OF ev(2)] by simp
  have inv2: "inner_scope_changed n st2 ms ms2" using inner_scope_trans [OF ev(2) ew(2)] .
  show ?case
  proof (cases "rc = 0")
    case False
    then show ?thesis using ev by (simp, intro declares_error [OF inv1]) simp_all
  next
    case True
    then show ?thesis using ev ew inv2
      by (cases "rc1 = 0"; cases x; cases y) (auto simp: declares_def sequence_defs)
  qed
qed (auto simp: declares_def sequence_defs)

section \<open>Specifications\<close>

lemma relation_plain:
  assumes "sym_inv n st ms"
  shows "\<exists>rc vs'. eval_relation_loop False vs st = Some (rc, vs', st) \<and>
    those (map (substitute (scope_lookup ms)) vs) = (if rc = 0 then Some vs' else None)"
proof (induction vs)
  case (Cons v vs)
  obtain rc s v' where v: "globus_rsl_value_eval v st False = Some (rc, s, v', st)" "evaluates (scope_lookup ms) v rc s v'"
    using plain_eval [OF assms] by blast
  obtain rc1 vs' where vs: "eval_relation_loop False vs st = Some (rc1, vs', st)"
      "those (map (substitute (scope_lookup ms)) vs) = (if rc1 = 0 then Some vs' else None)"
    using Cons by auto
  have "substitute (scope_lookup ms) v = Some (if s \<noteq> None then Literal s else v')" if "rc = 0"
    using v(2) that by (cases v) (auto simp: evaluates_def sequence_defs split: if_splits)
  moreover have "substitute (scope_lookup ms) v = None" if "rc \<noteq> 0" using v(2) that by (simp add: evaluates_def)
  ultimately show ?case using v(1) vs
    by (cases "rc = 0"; cases "rc1 = 0") (auto simp: rsl_constructors Let_def)
qed simp

lemma relation_flag:
  "inner_scope_changed (n + sum_list (map value_cost vs)) st ms ms \<Longrightarrow>
   \<exists>rc vs' st' ms'. eval_relation_loop True vs st = Some (rc, vs', st') \<and> inner_scope_changed n st' ms ms' \<and>
     define_symbols ms vs = (if rc = 0 then Some (vs', ms') else None)"
proof (induction vs arbitrary: st ms)
  case Nil
  then show ?case by (auto simp: inner_scope_changed_def)
next
  case (Cons v vs)
  let ?k = "n + sum_list (map value_cost vs)"
  show ?case
  proof (cases "globus_rsl_value_is_sequence v")
    case False
    then show ?thesis using Cons.prems define_symbol_None(1) [OF False, of ms]
      by (auto intro!: exI [of _ ms] inner_scope_mono [OF Cons.prems])
  next
    case True
    have "inner_scope_changed (?k + value_cost v) st ms ms" using Cons.prems by (simp add: algebra_simps)
    then obtain rc s v' st1 ms1 where v: "globus_rsl_value_eval v st True = Some (rc, s, v', st1)"
        "inner_scope_changed ?k st1 ms ms1" "define_symbol ms v = (if rc = 0 then Some (v', ms1) else None)"
        "rc = 0 \<longrightarrow> s = None"
      using declaresE [OF flag_eval [of ?k v st ms]] True by metis
    show ?thesis
    proof (cases "rc = 0")
      case False
      then show ?thesis using v True inner_scope_mono [OF v(2), of n] by auto
    next
      case ok: True
      have "inner_scope_changed ?k st1 ms1 ms1" using v(2) by (simp add: inner_scope_changed_def)
      then obtain rc1 vs' st2 ms2 where vs: "eval_relation_loop True vs st1 = Some (rc1, vs', st2)"
          "inner_scope_changed n st2 ms1 ms2" "define_symbols ms1 vs = (if rc1 = 0 then Some (vs', ms2) else None)"
        using Cons.IH by blast
      have "inner_scope_changed n st2 ms ms2" using inner_scope_trans [OF v(2) vs(2)] .
      then show ?thesis using v vs ok True by (cases "rc1 = 0") auto
    qed
  qed
qed

text \<open>Relations have a name and a sequence; the number of scopes and definitions that a tree may need.\<close>

fun named :: "rsl \<Rightarrow> bool" where
  "named Null_rsl = True"
| "named (Boolean op rs) = list_all named rs"
| "named (Relation op a v) = (a \<noteq> None \<and> globus_rsl_value_is_sequence v)"

fun rsl_cost :: "rsl \<Rightarrow> nat" where
  "rsl_cost Null_rsl = 0"
| "rsl_cost (Boolean op rs) = Suc (sum_list (map rsl_cost rs))"
| "rsl_cost (Relation op a v) = sum_list (map value_cost (globus_rsl_value_sequence_get_value_list v))"

text \<open>Evaluation of a tree: what it returns, and the scopes that the table denotes afterwards.\<close>

definition evaluated_to ::
  "nat \<Rightarrow> scopes \<Rightarrow> ('a \<times> scopes) option \<Rightarrow> bool \<Rightarrow> (int \<times> 'a \<times> rsl_symbols) option \<Rightarrow> bool" where
  "evaluated_to n ms expected opens res \<longleftrightarrow> (\<exists>rc x st' ms'. res = Some (rc, x, st') \<and> sym_inv n st' ms' \<and>
     sy_keyeq_func st' = (=) \<and>
     (if rc = 0 then expected = Some (x, ms') \<and> length ms' = length ms \<and> tl ms' = tl ms
      else expected = None \<and> (if opens then length ms < length ms' else length ms \<le> length ms')))"

lemma relation_eval:
  assumes "sym_inv (n + rsl_cost (Relation op a v)) st ms" "sy_keyeq_func st = (=)" "named (Relation op a v)"
  shows "evaluated_to n ms (subst_rsl ms (Relation op a v)) False (globus_rsl_eval room (Relation op a v) st)"
proof -
  obtain name vs where v: "a = Some name" "v = Sequence vs"
    using assms(3) by (cases v) (auto simp: sequence_defs)
  have flag: "rsl_substitution_flag (Relation op a v) = Some (substitution_name name)"
    by (simp add: v rsl_substitution_flag_def substitution_name_def globus_rsl_is_relation_attribute_equal_def
        globus_rsl_is_relation_def globus_rsl_relation_get_attribute_def)
  show ?thesis
  proof (cases "substitution_name name")
    case True
    have "inner_scope_changed (n + sum_list (map value_cost vs)) st ms ms"
      using assms by (simp add: inner_scope_changed_def v sequence_defs)
    then show ?thesis using relation_flag [of n vs st ms] flag True
      by (fastforce simp: evaluated_to_def inner_scope_changed_def v sequence_defs)
  next
    case False
    have "sym_inv n st ms" using assms(1) sym_inv_mono by fastforce
    then show ?thesis using relation_plain [of n st ms vs] flag False assms(2)
      by (fastforce simp: evaluated_to_def v sequence_defs)
  qed
qed

lemma remove_scope_refines:
  assumes "sym_inv n s (m # ms)"
  shows "\<exists>s'. globus_symboltable_remove_scope s = Some (0, s') \<and> sym_inv n s' ms \<and> sy_keyeq_func s' = sy_keyeq_func s"
proof -
  have "sy_scopes s \<noteq> None" using assms by (auto elim: first_scope)
  then show ?thesis using drop_first_scope_refines [OF assms]
    by (auto simp: globus_symboltable_remove_scope_def store_simps)
qed

lemma operands_eval:
  assumes "\<And>r n st ms. r \<in> set rs \<Longrightarrow> sym_inv (n + rsl_cost r) st ms \<Longrightarrow> sy_keyeq_func st = (=) \<Longrightarrow> n + rsl_cost r \<le> room \<Longrightarrow>
      evaluated_to n ms (subst_rsl ms r) (globus_rsl_is_boolean r) (globus_rsl_eval room r st)"
    and "sym_inv (n + sum_list (map rsl_cost rs)) st ms" "sy_keyeq_func st = (=)" "n + sum_list (map rsl_cost rs) \<le> room"
  shows "evaluated_to n ms (subst_rsls ms rs) False (eval_operands_loop room rs st)"
  using assms
proof (induction rs arbitrary: st ms)
  case Nil
  then show ?case by (auto simp: evaluated_to_def)
next
  case (Cons r rs)
  let ?k = "n + sum_list (map rsl_cost rs)"
  have "evaluated_to ?k ms (subst_rsl ms r) (globus_rsl_is_boolean r) (globus_rsl_eval room r st)"
    using Cons.prems by (intro Cons.prems(1)) (simp_all add: algebra_simps)
  then obtain rc r' st1 ms1 where r: "globus_rsl_eval room r st = Some (rc, r', st1)" "sym_inv ?k st1 ms1"
      "sy_keyeq_func st1 = (=)"
      "if rc = 0 then subst_rsl ms r = Some (r', ms1) \<and> length ms1 = length ms \<and> tl ms1 = tl ms
       else subst_rsl ms r = None \<and> length ms \<le> length ms1"
    unfolding evaluated_to_def by (metis less_imp_le_nat)
  show ?case
  proof (cases "rc = 0")
    case False
    then show ?thesis using r sym_inv_mono [OF r(2), of n] by (auto simp: evaluated_to_def)
  next
    case True
    have "evaluated_to n ms1 (subst_rsls ms1 rs) False (eval_operands_loop room rs st1)"
      using Cons.prems r True by (intro Cons.IH) simp_all
    then show ?thesis using r True by (fastforce simp: evaluated_to_def)
  qed
qed

lemma eval_refines:
  "sym_inv (n + rsl_cost r) st ms \<Longrightarrow> sy_keyeq_func st = (=) \<Longrightarrow> n + rsl_cost r \<le> room \<Longrightarrow> named r \<Longrightarrow>
   evaluated_to n ms (subst_rsl ms r) (globus_rsl_is_boolean r) (globus_rsl_eval room r st)"
proof (induction r arbitrary: n st ms)
  case Null_rsl
  then show ?case by (auto simp: evaluated_to_def globus_rsl_is_boolean_def)
next
  case (Relation op a v)
  then show ?case using relation_eval [of n op a v st ms room]
    by (simp add: globus_rsl_is_boolean_def del: globus_rsl_eval.simps subst_rsl.simps)
next
  case (Boolean op rs)
  let ?k = "n + sum_list (map rsl_cost rs)"
  obtain st1 where st1: "globus_symboltable_create_scope True True room st = Some (0, st1)"
      "sym_inv ?k st1 (Map.empty # ms)" "sy_keyeq_func st1 = (=)"
    using create_scope_refines [of ?k st ms room] Boolean.prems by auto
  have "evaluated_to n (Map.empty # ms) (subst_rsls (Map.empty # ms) rs) False (eval_operands_loop room rs st1)"
    using Boolean.IH Boolean.prems st1 by (intro operands_eval) (auto simp: list_all_iff)
  then obtain rc rs' st2 ms2 where rs: "eval_operands_loop room rs st1 = Some (rc, rs', st2)" "sym_inv n st2 ms2"
      "sy_keyeq_func st2 = (=)"
      "if rc = 0 then subst_rsls (Map.empty # ms) rs = Some (rs', ms2) \<and> length ms2 = Suc (length ms) \<and> tl ms2 = ms
       else subst_rsls (Map.empty # ms) rs = None \<and> Suc (length ms) \<le> length ms2"
    unfolding evaluated_to_def length_Cons list.sel if_False by blast
  show ?case
  proof (cases "rc = 0")
    case False
    then show ?thesis using st1 rs by (auto simp: evaluated_to_def globus_rsl_is_boolean_def)
  next
    case True
    then obtain m where "ms2 = m # ms" using rs(4) by (cases ms2) auto
    then obtain st3 where "globus_symboltable_remove_scope st2 = Some (0, st3)" "sym_inv n st3 ms" "sy_keyeq_func st3 = (=)"
      using remove_scope_refines [of n st2 m ms] rs(2,3) by auto
    then show ?thesis using st1 rs True by (auto simp: evaluated_to_def globus_rsl_is_boolean_def)
  qed
qed

section \<open>Evaluated trees\<close>

text \<open>Literals, sequences of evaluated values, and definitions that are pairs of literals.\<close>

fun evaluated_value :: "rsl_value \<Rightarrow> bool" where
  "evaluated_value (Literal s) = True"
| "evaluated_value (Sequence vs) = list_all evaluated_value vs"
| "evaluated_value v = False"

fun definition_value :: "rsl_value \<Rightarrow> bool" where
  "definition_value (Sequence [Literal (Some x), Literal (Some s)]) = True"
| "definition_value v = False"

fun evaluated :: "rsl \<Rightarrow> bool" where
  "evaluated Null_rsl = False"
| "evaluated (Boolean op rs) = list_all evaluated rs"
| "evaluated (Relation op a v) =
     (case v of
        Sequence vs \<Rightarrow> if substitution_name (the a) then list_all definition_value vs else list_all evaluated_value vs
      | _ \<Rightarrow> False)"

lemma those_all: "those (map f xs) = Some ys \<Longrightarrow> \<forall>x\<in>set xs. \<forall>y. f x = Some y \<longrightarrow> P y \<Longrightarrow> list_all P ys"
  by (induction xs arbitrary: ys) (auto split: option.splits)

lemma those_id: "list_all P xs \<Longrightarrow> (\<And>x. x \<in> set xs \<Longrightarrow> P x \<Longrightarrow> f x = Some x) \<Longrightarrow> those (map f xs) = Some xs"
  by (induction xs) auto

lemma substitute_evaluated: "substitute env v = Some w \<Longrightarrow> evaluated_value w"
proof (induction v arbitrary: w)
  case (Sequence vs)
  then show ?case by (auto elim!: those_all)
qed auto

lemma substitute_fixed: "evaluated_value v \<Longrightarrow> substitute env v = Some v"
proof (induction v)
  case (Sequence vs)
  then have "those (map (substitute env) vs) = Some vs" by (intro those_id [of evaluated_value]) (auto simp: list_all_iff)
  then show ?case by simp
qed auto

lemma define_symbol_value: "define_symbol ms v = Some (w, ms') \<Longrightarrow> definition_value w"
  by (cases "(ms, v)" rule: define_symbol.cases) (auto simp: bind_eq_Some_conv)

lemma define_symbols_values: "define_symbols ms vs = Some (ws, ms') \<Longrightarrow> list_all definition_value ws"
  by (induction vs arbitrary: ms ws) (auto simp: bind_eq_Some_conv define_symbol_value)

lemma define_symbols_fixed: "list_all definition_value vs \<Longrightarrow> \<exists>ms'. define_symbols ms vs = Some (vs, ms')"
proof (induction vs arbitrary: ms)
  case (Cons v vs)
  then obtain x s where "v = Sequence [Literal (Some x), Literal (Some s)]"
    by (cases v rule: definition_value.cases) auto
  then show ?case using Cons.IH [of "bind_symbol x s ms"] Cons.prems by auto
qed simp

lemma subst_evaluated:
  "subst_rsl ms r = Some (r', ms') \<Longrightarrow> evaluated r'"
  "subst_rsls ms rs = Some (rs', ms') \<Longrightarrow> list_all evaluated rs'"
proof (induction ms r and ms rs arbitrary: r' ms' and rs' ms' rule: subst_rsl_subst_rsls.induct)
  case (3 ms op a v)
  then show ?case
    by (auto simp: Let_def bind_eq_Some_conv define_symbols_values substitute_evaluated elim!: those_all split: if_splits)
qed (fastforce simp: bind_eq_Some_conv)+

lemma subst_fixed:
  "evaluated r \<Longrightarrow> \<exists>ms'. subst_rsl ms r = Some (r, ms')"
  "list_all evaluated rs \<Longrightarrow> \<exists>ms'. subst_rsls ms rs = Some (rs, ms')"
proof (induction ms r and ms rs rule: subst_rsl_subst_rsls.induct)
  case (3 ms op a v)
  then obtain vs where v: "v = Sequence vs" by (cases v) auto
  show ?case
  proof (cases "substitution_name (the a)")
    case True
    then show ?thesis using 3 define_symbols_fixed [of vs ms] by (auto simp: v sequence_defs)
  next
    case False
    then have "those (map (substitute (scope_lookup ms)) vs) = Some vs"
      using 3 by (intro those_id [of evaluated_value]) (auto simp: v substitute_fixed)
    then show ?thesis using False by (simp add: v sequence_defs)
  qed
next
  case (5 ms r rs)
  then show ?case by fastforce
qed fastforce+

lemma subst_named:
  "subst_rsl ms r = Some (r', ms') \<Longrightarrow> named r \<Longrightarrow> named r'"
  "subst_rsls ms rs = Some (rs', ms') \<Longrightarrow> list_all named rs \<Longrightarrow> list_all named rs'"
proof (induction ms r and ms rs arbitrary: r' ms' and rs' ms' rule: subst_rsl_subst_rsls.induct)
  case (3 ms op a v)
  then show ?case by (auto simp: Let_def bind_eq_Some_conv sequence_defs split: if_splits)
qed (fastforce simp: bind_eq_Some_conv)+

section \<open>Properties\<close>


text \<open>
  A table for strings: the keys are hashed as the bytes of the string. The specification defines two
  variables, the second in terms of the first, and uses them.
\<close>

definition rsl_string_hash :: "string \<Rightarrow> int \<Rightarrow> int" where
  "rsl_string_hash s limit = globus_hashtable_string_hash (map (\<lambda>c. word_of_nat (of_char c)) s) limit"

interpretation rsl_strings: hash_contract rsl_string_hash "(=)"
  by unfold_locales
    (use string_table.hash_range in \<open>simp_all add: rsl_string_hash_def\<close>)

definition rsl_sample_table :: rsl_symbols where
  "rsl_sample_table = the (snd (the (globus_symboltable_init False True (mem_empty 9) (mem_empty 9) rsl_string_hash (=))))"

lemma rsl_sample_table_inv: "sym_inv 9 rsl_sample_table []" "sy_keyeq_func rsl_sample_table = (=)"
  using rsl_strings.hash_contract_axioms
  by (auto simp: rsl_sample_table_def globus_symboltable_init_def sym_inv_def)

definition rsl_sample :: rsl where
  "rsl_sample = Boolean GLOBUS_RSL_AND
     [Relation GLOBUS_RSL_EQ (Some ''rsl_substitution'')
        (Sequence [Sequence [Literal (Some ''TOP''), Literal (Some ''/home'')],
          Sequence [Literal (Some ''BIN''), Concatenation (Variable (Sequence [Literal (Some ''TOP'')])) (Literal (Some ''/bin''))]]),
      Relation GLOBUS_RSL_EQ (Some ''executable'')
        (Sequence [Concatenation (Variable (Sequence [Literal (Some ''BIN'')])) (Literal (Some ''/a''))])]"

definition rsl_sample_result :: rsl where
  "rsl_sample_result = Boolean GLOBUS_RSL_AND
     [Relation GLOBUS_RSL_EQ (Some ''rsl_substitution'')
        (Sequence [Sequence [Literal (Some ''TOP''), Literal (Some ''/home'')],
          Sequence [Literal (Some ''BIN''), Literal (Some ''/home/bin'')]]),
      Relation GLOBUS_RSL_EQ (Some ''executable'') (Sequence [Literal (Some ''/home/bin/a'')])]"

lemma rsl_sample_facts:
  "rsl_cost rsl_sample = 3" "rsl_cost rsl_sample_result = 3" "named rsl_sample" "named rsl_sample_result"
  by (simp_all add: rsl_sample_def rsl_sample_result_def sequence_defs)

lemma rsl_sample_subst: "subst_rsl [] rsl_sample = Some (rsl_sample_result, [])"
proof -
  have "substitution_name ''rsl_substitution''" "\<not> substitution_name ''executable''" by code_simp+
  then show ?thesis by (simp add: rsl_sample_def rsl_sample_result_def sequence_defs)
qed


text \<open>
  Evaluation finishes its work. The tree of a successful evaluation has no references and no
  concatenations left: its values are literals and sequences of such values, its definitions are pairs
  of literals. Evaluating it again, with any table that has the memory for it, succeeds and changes
  nothing.
\<close>

theorem globus_rsl_eval_evaluated:
  assumes "sym_inv (rsl_cost r) st ms" and "sy_keyeq_func st = (=)" and "rsl_cost r \<le> room" and "named r"
    and "globus_rsl_eval room r st = Some (0, r', st')"
    and "sym_inv (rsl_cost r') st2 ms2" and "sy_keyeq_func st2 = (=)" and "rsl_cost r' \<le> room"
  shows "evaluated r' \<and> (\<exists>st3. globus_rsl_eval room r' st2 = Some (0, r', st3))"
proof -
  have "evaluated_to 0 ms (subst_rsl ms r) (globus_rsl_is_boolean r) (globus_rsl_eval room r st)"
    using assms by (intro eval_refines) simp_all
  then obtain ms' where r': "subst_rsl ms r = Some (r', ms')" using assms(5) by (auto simp: evaluated_to_def)
  have "evaluated r'" "named r'" using subst_evaluated(1) [OF r'] subst_named(1) [OF r'] assms(4) by simp_all
  then obtain ms3 where fix2: "subst_rsl ms2 r' = Some (r', ms3)" using subst_fixed(1) by blast
  have "evaluated_to 0 ms2 (subst_rsl ms2 r') (globus_rsl_is_boolean r') (globus_rsl_eval room r' st2)"
    using assms \<open>named r'\<close> by (intro eval_refines) simp_all
  then show ?thesis using fix2 \<open>evaluated r'\<close> by (auto simp: evaluated_to_def split: if_splits)
qed

theorem globus_rsl_eval_evaluated_witness:
  "evaluated rsl_sample_result \<and>
   (\<exists>st3. globus_rsl_eval 9 rsl_sample_result rsl_sample_table = Some (0, rsl_sample_result, st3))"
proof -
  have inv: "sym_inv 3 rsl_sample_table []" using sym_inv_mono [OF rsl_sample_table_inv(1)] by simp
  have "evaluated_to 0 [] (subst_rsl [] rsl_sample) (globus_rsl_is_boolean rsl_sample) (globus_rsl_eval 9 rsl_sample rsl_sample_table)"
    using inv rsl_sample_table_inv(2) by (intro eval_refines) (simp_all add: rsl_sample_facts)
  then obtain st' where "globus_rsl_eval 9 rsl_sample rsl_sample_table = Some (0, rsl_sample_result, st')"
    by (auto simp: evaluated_to_def rsl_sample_subst split: if_splits)
  then show ?thesis
    using globus_rsl_eval_evaluated [of rsl_sample rsl_sample_table "[]" 9 rsl_sample_result st' rsl_sample_table "[]"]
      inv rsl_sample_table_inv(2) by (simp add: rsl_sample_facts)
qed

end
