(* ===== verification/Gram_Protocol.thy ===== *)
theory Gram_Protocol
  imports C_String
begin

text \<open>
  The GRAM message codec (\<open>gram/protocol/source/globus_gram_protocol_pack.c\<close>).

  Packing writes into buffers of the size the source computes; a write past that size is the fault
  \<open>None\<close>. The flags \<open>outs\<close> and \<open>mem\<close> (and the \<open>dup\<close> flags) say whether the output pointers are
  not NULL and whether the allocation of the call succeeds. Unpacking reads a buffer through a
  pointer, which is the suffix it points to, with the distance \<open>left\<close> to \<open>message_end\<close>; a read
  outside the buffer is the fault \<open>None\<close>. The attribute table is the map that the hash table
  operations of the common library implement: an insertion under a present key changes nothing.
\<close>

section \<open>Constants\<close>

definition GLOBUS_GRAM_PROTOCOL_VERSION :: int where
  "GLOBUS_GRAM_PROTOCOL_VERSION = 2"

definition GLOBUS_GRAM_PROTOCOL_ERROR_MALLOC_FAILED :: int where
  "GLOBUS_GRAM_PROTOCOL_ERROR_MALLOC_FAILED = 32"

definition GLOBUS_GRAM_PROTOCOL_ERROR_STAGING_EXECUTABLE :: int where
  "GLOBUS_GRAM_PROTOCOL_ERROR_STAGING_EXECUTABLE = 43"

definition GLOBUS_GRAM_PROTOCOL_ERROR_STAGING_STDIN :: int where
  "GLOBUS_GRAM_PROTOCOL_ERROR_STAGING_STDIN = 44"

definition GLOBUS_GRAM_PROTOCOL_ERROR_VERSION_MISMATCH :: int where
  "GLOBUS_GRAM_PROTOCOL_ERROR_VERSION_MISMATCH = 49"

definition GLOBUS_GRAM_PROTOCOL_ERROR_HTTP_PACK_FAILED :: int where
  "GLOBUS_GRAM_PROTOCOL_ERROR_HTTP_PACK_FAILED = 90"

definition GLOBUS_GRAM_PROTOCOL_ERROR_HTTP_UNPACK_FAILED :: int where
  "GLOBUS_GRAM_PROTOCOL_ERROR_HTTP_UNPACK_FAILED = 91"

definition GLOBUS_GRAM_PROTOCOL_ERROR_STAGE_IN_FAILED :: int where
  "GLOBUS_GRAM_PROTOCOL_ERROR_STAGE_IN_FAILED = 135"

definition GLOBUS_GRAM_PROTOCOL_ERROR_NULL_PARAMETER :: int where
  "GLOBUS_GRAM_PROTOCOL_ERROR_NULL_PARAMETER = 160"

lemmas gram_codes = GLOBUS_GRAM_PROTOCOL_VERSION_def GLOBUS_GRAM_PROTOCOL_ERROR_MALLOC_FAILED_def
  GLOBUS_GRAM_PROTOCOL_ERROR_STAGING_EXECUTABLE_def GLOBUS_GRAM_PROTOCOL_ERROR_STAGING_STDIN_def
  GLOBUS_GRAM_PROTOCOL_ERROR_VERSION_MISMATCH_def GLOBUS_GRAM_PROTOCOL_ERROR_HTTP_PACK_FAILED_def
  GLOBUS_GRAM_PROTOCOL_ERROR_HTTP_UNPACK_FAILED_def GLOBUS_GRAM_PROTOCOL_ERROR_STAGE_IN_FAILED_def
  GLOBUS_GRAM_PROTOCOL_ERROR_NULL_PARAMETER_def GLOBUS_SUCCESS_def GLOBUS_FAILURE_def

definition CRLF :: string where
  "CRLF = [CR, LF]"

definition GLOBUS_GRAM_HTTP_PACK_PROTOCOL_VERSION_LINE :: string where
  "GLOBUS_GRAM_HTTP_PACK_PROTOCOL_VERSION_LINE = ''protocol-version: %d'' @ CRLF"

definition GLOBUS_GRAM_HTTP_PACK_JOB_STATE_MASK_LINE :: string where
  "GLOBUS_GRAM_HTTP_PACK_JOB_STATE_MASK_LINE = ''job-state-mask: %d'' @ CRLF"

definition GLOBUS_GRAM_HTTP_PACK_CALLBACK_URL_LINE :: string where
  "GLOBUS_GRAM_HTTP_PACK_CALLBACK_URL_LINE = ''callback-url: %s'' @ CRLF"

definition GLOBUS_GRAM_HTTP_PACK_STATUS_LINE :: string where
  "GLOBUS_GRAM_HTTP_PACK_STATUS_LINE = ''status: %d'' @ CRLF"

definition GLOBUS_GRAM_HTTP_PACK_FAILURE_CODE_LINE :: string where
  "GLOBUS_GRAM_HTTP_PACK_FAILURE_CODE_LINE = ''failure-code: %d'' @ CRLF"

definition GLOBUS_GRAM_HTTP_PACK_JOB_FAILURE_CODE_LINE :: string where
  "GLOBUS_GRAM_HTTP_PACK_JOB_FAILURE_CODE_LINE = ''job-failure-code: %d'' @ CRLF"

definition GLOBUS_GRAM_HTTP_PACK_JOB_MANAGER_URL_LINE :: string where
  "GLOBUS_GRAM_HTTP_PACK_JOB_MANAGER_URL_LINE = ''job-manager-url: %s'' @ CRLF"

definition GLOBUS_GRAM_HTTP_PACK_CLIENT_REQUEST_LINE :: string where
  "GLOBUS_GRAM_HTTP_PACK_CLIENT_REQUEST_LINE = ''%s'' @ CRLF"

record extension =
  ext_attribute :: "string option"
  ext_value :: "string option"

type_synonym attributes = "string \<rightharpoonup> string"

text \<open>What a pack function returns: the code and, when it filled its output parameters, the
  message string and its size.\<close>

type_synonym packed = "int \<times> (string \<times> nat) option"

section \<open>Quoting\<close>

fun escape :: "string \<Rightarrow> string" where
  "escape [] = []"
| "escape (c # cs) =
     (if c = CHR 0x22 \<or> c = CHR 0x5C then CHR 0x5C # c # escape cs else c # escape cs)"

definition globus_l_gram_protocol_quote_string :: "string \<Rightarrow> string" where
  "globus_l_gram_protocol_quote_string s = CHR 0x22 # escape s @ [CHR 0x22]"

text \<open>The loop of \<open>unquote_string\<close> with the bytes written so far; the result is the code and the
  string written to a buffer of \<open>cap\<close> bytes.\<close>

fun unquote_loop :: "nat \<Rightarrow> bool \<Rightarrow> int \<Rightarrow> string \<Rightarrow> string \<Rightarrow> (bool \<times> string + int) option" where
  "unquote_loop cap in_quote left s out =
     (if left \<le> 0 then Some (Inl (in_quote, out))
      else (case s of [] \<Rightarrow> None | c # cs \<Rightarrow>
        if c = NUL then Some (Inl (in_quote, out))
        else if in_quote then
          if c = CHR 0x22 then Some (Inl (False, out))
          else if c = CHR 0x5C then
            (case cs of [] \<Rightarrow> None | d # ds \<Rightarrow>
               if length out < cap then unquote_loop cap in_quote (left - 2) ds (out @ [d]) else None)
          else if length out < cap then unquote_loop cap in_quote (left - 1) cs (out @ [c]) else None
        else if c = CR then
          (case cs of [] \<Rightarrow> None | d # ds \<Rightarrow>
             if d \<noteq> LF then Some (Inr GLOBUS_GRAM_PROTOCOL_ERROR_HTTP_UNPACK_FAILED)
             else if length out < cap then unquote_loop cap in_quote (left - 2) ds (out @ [d]) else None)
        else if length out < cap then unquote_loop cap in_quote (left - 1) cs (out @ [c]) else None))"

declare unquote_loop.simps [simp del]

definition globus_l_gram_protocol_unquote_string ::
  "nat \<Rightarrow> string \<Rightarrow> int \<Rightarrow> (int \<times> string option) option" where
  "globus_l_gram_protocol_unquote_string cap inbuf insize =
     (case inbuf of [] \<Rightarrow> None | c # cs \<Rightarrow>
       (case (if c = CHR 0x22 then unquote_loop cap True (insize - 1) cs []
              else unquote_loop cap False insize inbuf []) of
          None \<Rightarrow> None
        | Some (Inr e) \<Rightarrow> Some (e, None)
        | Some (Inl (in_quote, out)) \<Rightarrow>
            if in_quote then Some (GLOBUS_GRAM_PROTOCOL_ERROR_HTTP_UNPACK_FAILED, None)
            else if length out < cap then Some (GLOBUS_SUCCESS, Some (takeWhile (\<lambda>c. c \<noteq> NUL) out))
            else None))"

section \<open>Attribute parsing\<close>

text \<open>Each scan returns what it passed over, the new distance to \<open>message_end\<close> and the new pointer.\<close>

fun scan_attr :: "int \<Rightarrow> string \<Rightarrow> (string \<times> int \<times> string) option" where
  "scan_attr left [] = (if left \<le> 0 then Some ([], left, []) else None)"
| "scan_attr left (c # cs) =
     (if left \<le> 0 \<or> c = CHR '':'' \<or> c = NUL then Some ([], left, c # cs)
      else map_option (\<lambda>(a, r). (c # a, r)) (scan_attr (left - 1) cs))"

fun scan_plain :: "int \<Rightarrow> string \<Rightarrow> (nat \<times> int \<times> string) option" where
  "scan_plain left [] = (if left \<le> 0 then Some (0, left, []) else None)"
| "scan_plain left (c # cs) =
     (if left \<le> 0 \<or> c = CR \<or> c = NUL then Some (0, left, c # cs)
      else map_option (\<lambda>(n, r). (Suc n, r)) (scan_plain (left - 1) cs))"

fun scan_quoted :: "bool \<Rightarrow> int \<Rightarrow> string \<Rightarrow> (nat \<times> int \<times> string) option" where
  "scan_quoted escaped left [] = None"
| "scan_quoted escaped left (c # cs) =
     (if c = NUL then Some (0, left, c # cs)
      else if \<not> escaped \<and> c = CHR 0x22 then Some (0, left, c # cs)
      else map_option (\<lambda>(n, r). (Suc n, r)) (scan_quoted (\<not> escaped \<and> c = CHR 0x5C) (left - 1) cs))"

text \<open>The copy loop: \<open>n\<close> is what remains of \<open>value_len\<close>; an escape reads the character after it, which
  may be the one that ended the value.\<close>

fun unescape :: "nat \<Rightarrow> string \<Rightarrow> string option" where
  "unescape 0 s = Some []"
| "unescape (Suc n) [] = None"
| "unescape (Suc n) (c # cs) =
     (if c \<noteq> CHR 0x5C then map_option ((#) c) (unescape n cs)
      else (case cs of [] \<Rightarrow> None | d # ds \<Rightarrow> map_option ((#) d) (unescape (n - 1) ds)))"

text \<open>The value of an attribute: where it starts, its length, and the pointer after it.\<close>

definition scan_value :: "int \<Rightarrow> string \<Rightarrow> (string \<times> nat \<times> int \<times> string) option" where
  "scan_value left s =
     (case (if left > 0 then (case s of [] \<Rightarrow> None | c # cs \<Rightarrow> Some (c = CHR 0x22)) else Some False) of
        None \<Rightarrow> None
      | Some True \<Rightarrow>
          map_option (\<lambda>(n, left', r). (tl s, n, left' - 1, tl r)) (scan_quoted False (left - 1) (tl s))
      | Some False \<Rightarrow> map_option (\<lambda>(n, left', r). (s, n, left', r)) (scan_plain left s))"

text \<open>\<open>if (p < message_end && *(p++) != c)\<close>: the inner \<open>None\<close> is the parse error.\<close>

definition expect :: "char \<Rightarrow> int \<Rightarrow> string \<Rightarrow> (int \<times> string) option option" where
  "expect c left s =
     (if left > 0 then (case s of [] \<Rightarrow> None | d # ds \<Rightarrow>
        Some (if d \<noteq> c then None else Some (left - 1, ds)))
      else Some (Some (left, s)))"

datatype line_result = Line_break | Line_error | Line string string int string

text \<open>One iteration of the loop of \<open>unpack_message\<close>.\<close>

definition unpack_line :: "int \<Rightarrow> string \<Rightarrow> line_result option" where
  "unpack_line left s =
     (case scan_attr left s of None \<Rightarrow> None | Some (attr, left1, s1) \<Rightarrow>
        if left1 \<le> 0 then Some Line_break
        else if s1 = [] then None
        else if hd s1 \<noteq> CHR '':'' then Some Line_error
        else if left1 - 1 \<le> 0 then Some Line_error
        else if tl s1 = [] then None
        else if hd (tl s1) \<noteq> CHR '' '' then Some Line_error
        else (case scan_value (left1 - 2) (tl (tl s1)) of None \<Rightarrow> None
          | Some (start, n, left2, s2) \<Rightarrow>
             (case expect CR left2 s2 of None \<Rightarrow> None | Some None \<Rightarrow> Some Line_error
              | Some (Some (left3, s3)) \<Rightarrow>
                 (case expect LF left3 s3 of None \<Rightarrow> None | Some None \<Rightarrow> Some Line_error
                  | Some (Some (left4, s4)) \<Rightarrow>
                     map_option (\<lambda>v. Line attr (takeWhile (\<lambda>c. c \<noteq> NUL) v) left4 s4)
                       (unescape n start)))))"

lemma scan_attr_length:
  "scan_attr left s = Some (a, l, r) \<Longrightarrow> length r \<le> length s"
  by (induction left s arbitrary: a l r rule: scan_attr.induct) (fastforce split: if_splits)+

lemma scan_plain_length:
  "scan_plain left s = Some (n, l, r) \<Longrightarrow> length r \<le> length s"
  by (induction left s arbitrary: n l r rule: scan_plain.induct) (fastforce split: if_splits)+

lemma scan_quoted_length:
  "scan_quoted e left s = Some (n, l, r) \<Longrightarrow> length r \<le> length s"
  by (induction e left s arbitrary: n l r rule: scan_quoted.induct) (fastforce split: if_splits)+

lemma scan_value_length:
  "scan_value left s = Some (v, n, l, r) \<Longrightarrow> length r \<le> length s"
  by (auto simp: scan_value_def dest!: scan_plain_length scan_quoted_length
      split: if_splits option.splits bool.splits list.splits)

lemma expect_length: "expect c left s = Some (Some (l, r)) \<Longrightarrow> length r \<le> length s"
  by (auto simp: expect_def split: if_splits list.splits)

lemma unpack_line_length:
  assumes "unpack_line left s = Some (Line a v l r)"
  shows "length r < length s"
proof -
  from assms obtain attr left1 s1 start n left2 s2 left3 s3 where
    1: "scan_attr left s = Some (attr, left1, s1)" and "s1 \<noteq> []" and "tl s1 \<noteq> []" and
    2: "scan_value (left1 - 2) (tl (tl s1)) = Some (start, n, left2, s2)" and
    3: "expect CR left2 s2 = Some (Some (left3, s3))" and
    4: "expect LF left3 s3 = Some (Some (l, r))"
    by (auto simp: unpack_line_def split: if_splits option.splits)
  have "length r \<le> length (tl (tl s1))"
    using scan_value_length [OF 2] expect_length [OF 3] expect_length [OF 4] by simp
  also have "\<dots> < length s1"
    using \<open>s1 \<noteq> []\<close> by (cases s1) auto
  also have "\<dots> \<le> length s"
    by (rule scan_attr_length [OF 1])
  finally show ?thesis .
qed

function unpack_loop :: "int \<Rightarrow> string \<Rightarrow> attributes \<Rightarrow> (int \<times> attributes option) option" where
  "unpack_loop left s attrs =
     (if left \<le> 0 then Some (GLOBUS_SUCCESS, Some attrs)
      else if s = [] then None
      else if hd s = NUL then Some (GLOBUS_SUCCESS, Some attrs)
      else (case unpack_line left s of None \<Rightarrow> None
        | Some Line_break \<Rightarrow> Some (GLOBUS_SUCCESS, Some attrs)
        | Some Line_error \<Rightarrow> Some (GLOBUS_GRAM_PROTOCOL_ERROR_HTTP_UNPACK_FAILED, None)
        | Some (Line a v left' r) \<Rightarrow>
            unpack_loop left' r (if attrs a = None then attrs(a \<mapsto> v) else attrs)))"
  by pat_completeness auto
termination
  by (relation "measure (\<lambda>(left, s, attrs). length s)") (auto dest: unpack_line_length)

declare unpack_loop.simps [simp del]

definition globus_gram_protocol_unpack_message ::
  "bool \<Rightarrow> bool \<Rightarrow> string option \<Rightarrow> int \<Rightarrow> (int \<times> attributes option) option" where
  "globus_gram_protocol_unpack_message outs mem message message_length =
     (case message of
        None \<Rightarrow> Some (GLOBUS_GRAM_PROTOCOL_ERROR_NULL_PARAMETER, None)
      | Some s \<Rightarrow>
          if \<not> outs then Some (GLOBUS_GRAM_PROTOCOL_ERROR_NULL_PARAMETER, None)
          else if \<not> mem then Some (GLOBUS_FAILURE, None)
          else unpack_loop message_length s Map.empty)"

definition globus_l_gram_protocol_get_int_attribute :: "attributes \<Rightarrow> string \<Rightarrow> int \<times> int option" where
  "globus_l_gram_protocol_get_int_attribute extensions attribute_name =
     (case extensions attribute_name of
        None \<Rightarrow> (GLOBUS_GRAM_PROTOCOL_ERROR_HTTP_UNPACK_FAILED, None)
      | Some v \<Rightarrow> (GLOBUS_SUCCESS, Some (atoi v)))"

definition globus_l_gram_protocol_get_string_attribute ::
  "bool \<Rightarrow> attributes \<Rightarrow> string \<Rightarrow> int \<times> string option" where
  "globus_l_gram_protocol_get_string_attribute dup extensions attribute_name =
     (case extensions attribute_name of
        None \<Rightarrow> (GLOBUS_GRAM_PROTOCOL_ERROR_HTTP_UNPACK_FAILED, None)
      | Some v \<Rightarrow> if dup then (GLOBUS_SUCCESS, Some v)
                  else (GLOBUS_GRAM_PROTOCOL_ERROR_MALLOC_FAILED, None))"

section \<open>Job requests\<close>

definition globus_gram_protocol_pack_job_request ::
  "bool \<Rightarrow> bool \<Rightarrow> int \<Rightarrow> string option \<Rightarrow> string option \<Rightarrow> packed option" where
  "globus_gram_protocol_pack_job_request outs mem job_state_mask callback_url rsl =
     (case rsl of None \<Rightarrow> Some (GLOBUS_GRAM_PROTOCOL_ERROR_NULL_PARAMETER, None)
      | Some r \<Rightarrow>
        if \<not> outs then Some (GLOBUS_GRAM_PROTOCOL_ERROR_NULL_PARAMETER, None)
        else if \<not> mem then None
        else let cap = length GLOBUS_GRAM_HTTP_PACK_PROTOCOL_VERSION_LINE
                 + length GLOBUS_GRAM_HTTP_PACK_JOB_STATE_MASK_LINE
                 + length GLOBUS_GRAM_HTTP_PACK_CALLBACK_URL_LINE
                 + (case callback_url of Some u \<Rightarrow> length u | None \<Rightarrow> 2) + 2 * length r + 16
             in do {
               m1 \<leftarrow> buf_sprintf cap []
                 (GLOBUS_GRAM_HTTP_PACK_PROTOCOL_VERSION_LINE @ GLOBUS_GRAM_HTTP_PACK_JOB_STATE_MASK_LINE
                    @ GLOBUS_GRAM_HTTP_PACK_CALLBACK_URL_LINE @ ''rsl: '')
                 [D GLOBUS_GRAM_PROTOCOL_VERSION, D job_state_mask,
                  S (case callback_url of Some u \<Rightarrow> u | None \<Rightarrow> [CHR 0x22, CHR 0x22])];
               m2 \<leftarrow> buf_put cap m1 (globus_l_gram_protocol_quote_string r);
               m3 \<leftarrow> buf_put cap m2 CRLF;
               Some (GLOBUS_SUCCESS, Some (m3, length m2 + 3))
             })"

text \<open>The unpack functions return the code and the values of the output parameters; the inner
  \<open>None\<close> says that the parameters were not touched. \<open>dup name\<close> says whether the copy of the value of
  attribute \<open>name\<close> can be allocated.\<close>

definition globus_gram_protocol_unpack_job_request ::
  "bool \<Rightarrow> bool \<Rightarrow> (string \<Rightarrow> bool) \<Rightarrow> string option \<Rightarrow> int
     \<Rightarrow> (int \<times> (int \<times> string option \<times> string option) option) option" where
  "globus_gram_protocol_unpack_job_request outs mem dup query querysize =
     (if query = None \<or> \<not> outs then Some (GLOBUS_GRAM_PROTOCOL_ERROR_NULL_PARAMETER, None)
      else (case globus_gram_protocol_unpack_message True mem query querysize of
          None \<Rightarrow> None
        | Some (rc, None) \<Rightarrow> Some (rc, Some (0, None, None))
        | Some (rc, Some attributes) \<Rightarrow>
           (case globus_l_gram_protocol_get_int_attribute attributes ''protocol-version'' of
              (rc, None) \<Rightarrow> Some (rc, Some (0, None, None))
            | (rc, Some protocol_version) \<Rightarrow>
               if protocol_version \<noteq> GLOBUS_GRAM_PROTOCOL_VERSION
               then Some (GLOBUS_GRAM_PROTOCOL_ERROR_VERSION_MISMATCH, Some (0, None, None))
               else (case globus_l_gram_protocol_get_int_attribute attributes ''job-state-mask'' of
                  (rc, None) \<Rightarrow> Some (rc, Some (0, None, None))
                | (rc, Some job_state_mask) \<Rightarrow>
                   (case globus_l_gram_protocol_get_string_attribute (dup ''callback-url'') attributes ''callback-url'' of
                      (rc, None) \<Rightarrow> Some (rc, Some (job_state_mask, None, None))
                    | (rc, Some u) \<Rightarrow>
                       (case globus_l_gram_protocol_get_string_attribute (dup ''rsl'') attributes ''rsl'' of
                          (rc, None) \<Rightarrow> Some (rc, Some (job_state_mask, None, None))
                        | (rc, Some r) \<Rightarrow>
                            Some (rc, Some (job_state_mask, if u = [] then None else Some u, Some r))))))))"

section \<open>Extensions\<close>

fun ext_length :: "extension list \<Rightarrow> nat option" where
  "ext_length [] = Some 0"
| "ext_length (e # es) =
     (case (ext_attribute e, ext_value e) of
        (Some a, Some v) \<Rightarrow> map_option (\<lambda>n. length a + 2 * length v + 4 + n) (ext_length es)
      | _ \<Rightarrow> None)"

fun put_extensions :: "nat \<Rightarrow> string \<Rightarrow> extension list \<Rightarrow> string option" where
  "put_extensions cap out [] = Some out"
| "put_extensions cap out (e # es) =
     (case (ext_attribute e, ext_value e) of
        (Some a, Some v) \<Rightarrow> do {
          o1 \<leftarrow> buf_sprintf cap out ''%s: '' [S a];
          o2 \<leftarrow> buf_put cap o1 (globus_l_gram_protocol_quote_string v);
          o3 \<leftarrow> buf_put cap o2 CRLF;
          put_extensions cap o3 es
        }
      | _ \<Rightarrow> None)"

section \<open>Job request replies\<close>

definition globus_gram_protocol_pack_job_request_reply ::
  "bool \<Rightarrow> int \<Rightarrow> string option \<Rightarrow> packed option" where
  "globus_gram_protocol_pack_job_request_reply mem status job_contact =
     (if \<not> mem then Some (GLOBUS_GRAM_PROTOCOL_ERROR_MALLOC_FAILED, None)
      else let cap = length GLOBUS_GRAM_HTTP_PACK_PROTOCOL_VERSION_LINE
               + length GLOBUS_GRAM_HTTP_PACK_STATUS_LINE
               + length GLOBUS_GRAM_HTTP_PACK_JOB_MANAGER_URL_LINE
               + (case job_contact of Some c \<Rightarrow> length c + 3 | None \<Rightarrow> 3)
           in do {
             m \<leftarrow> (case job_contact of
                Some c \<Rightarrow> buf_sprintf cap [] (GLOBUS_GRAM_HTTP_PACK_PROTOCOL_VERSION_LINE
                    @ GLOBUS_GRAM_HTTP_PACK_STATUS_LINE @ GLOBUS_GRAM_HTTP_PACK_JOB_MANAGER_URL_LINE)
                  [D GLOBUS_GRAM_PROTOCOL_VERSION, D status, S c]
              | None \<Rightarrow> buf_sprintf cap [] (GLOBUS_GRAM_HTTP_PACK_PROTOCOL_VERSION_LINE
                    @ GLOBUS_GRAM_HTTP_PACK_STATUS_LINE)
                  [D GLOBUS_GRAM_PROTOCOL_VERSION, D status]);
             Some (GLOBUS_SUCCESS, Some (m, length m + 1))
           })"

definition globus_gram_protocol_unpack_job_request_reply ::
  "bool \<Rightarrow> bool \<Rightarrow> (string \<Rightarrow> bool) \<Rightarrow> string option \<Rightarrow> int
     \<Rightarrow> (int \<times> (int \<times> string option) option) option" where
  "globus_gram_protocol_unpack_job_request_reply outs mem dup reply replysize =
     (if reply = None \<or> \<not> outs then Some (GLOBUS_GRAM_PROTOCOL_ERROR_NULL_PARAMETER, None)
      else (case globus_gram_protocol_unpack_message True mem reply replysize of
          None \<Rightarrow> None
        | Some (rc, None) \<Rightarrow> Some (rc, Some (0, None))
        | Some (rc, Some attributes) \<Rightarrow>
           (case globus_l_gram_protocol_get_int_attribute attributes ''protocol-version'' of
              (rc, None) \<Rightarrow> Some (rc, Some (0, None))
            | (rc, Some protocol_version) \<Rightarrow>
               if protocol_version \<noteq> GLOBUS_GRAM_PROTOCOL_VERSION
               then Some (GLOBUS_GRAM_PROTOCOL_ERROR_VERSION_MISMATCH, Some (0, None))
               else (case globus_l_gram_protocol_get_int_attribute attributes ''status'' of
                  (rc, None) \<Rightarrow> Some (rc, Some (0, None))
                | (rc, Some status) \<Rightarrow>
                   (case globus_l_gram_protocol_get_string_attribute (dup ''job-manager-url'') attributes
                           ''job-manager-url'' of
                      (rc, job_contact) \<Rightarrow>
                        Some (if rc \<noteq> GLOBUS_GRAM_PROTOCOL_ERROR_MALLOC_FAILED then GLOBUS_SUCCESS else rc,
                              Some (status, job_contact)))))))"

definition globus_gram_protocol_pack_job_request_reply_with_extensions ::
  "bool \<Rightarrow> bool \<Rightarrow> int \<Rightarrow> string option \<Rightarrow> extension list option \<Rightarrow> packed option" where
  "globus_gram_protocol_pack_job_request_reply_with_extensions outs mem status job_contact extensions =
     (case extensions of None \<Rightarrow> Some (GLOBUS_GRAM_PROTOCOL_ERROR_NULL_PARAMETER, None)
      | Some es \<Rightarrow>
        if \<not> outs then Some (GLOBUS_GRAM_PROTOCOL_ERROR_NULL_PARAMETER, None)
        else (case ext_length es of
          None \<Rightarrow> Some (GLOBUS_GRAM_PROTOCOL_ERROR_HTTP_PACK_FAILED, None)
        | Some n \<Rightarrow>
            if \<not> mem then Some (GLOBUS_GRAM_PROTOCOL_ERROR_MALLOC_FAILED, None)
            else let cap = n + length GLOBUS_GRAM_HTTP_PACK_PROTOCOL_VERSION_LINE
                     + length GLOBUS_GRAM_HTTP_PACK_STATUS_LINE
                     + (case job_contact of
                          Some c \<Rightarrow> length GLOBUS_GRAM_HTTP_PACK_JOB_MANAGER_URL_LINE + length c
                        | None \<Rightarrow> 0) + 4
                 in do {
                   m \<leftarrow> (case job_contact of
                      Some c \<Rightarrow> buf_sprintf cap [] (GLOBUS_GRAM_HTTP_PACK_PROTOCOL_VERSION_LINE
                          @ GLOBUS_GRAM_HTTP_PACK_STATUS_LINE @ GLOBUS_GRAM_HTTP_PACK_JOB_MANAGER_URL_LINE)
                        [D GLOBUS_GRAM_PROTOCOL_VERSION, D status, S c]
                    | None \<Rightarrow> buf_sprintf cap [] (GLOBUS_GRAM_HTTP_PACK_PROTOCOL_VERSION_LINE
                          @ GLOBUS_GRAM_HTTP_PACK_STATUS_LINE)
                        [D GLOBUS_GRAM_PROTOCOL_VERSION, D status]);
                   r \<leftarrow> put_extensions cap m es;
                   Some (GLOBUS_SUCCESS, Some (r, length r + 1))
                 }))"

text \<open>Here the version is compared as the \<open>long\<close> that \<open>strtol\<close> returns. The attribute table is an output
  of the function.\<close>

definition globus_gram_protocol_unpack_job_request_reply_with_extensions ::
  "bool \<Rightarrow> bool \<Rightarrow> (string \<Rightarrow> bool) \<Rightarrow> string option \<Rightarrow> int
     \<Rightarrow> (int \<times> (int \<times> string option \<times> attributes option) option) option" where
  "globus_gram_protocol_unpack_job_request_reply_with_extensions outs mem dup reply replysize =
     (if reply = None \<or> \<not> outs then Some (GLOBUS_GRAM_PROTOCOL_ERROR_NULL_PARAMETER, None)
      else (case globus_gram_protocol_unpack_message True mem reply replysize of
          None \<Rightarrow> None
        | Some (rc, None) \<Rightarrow> Some (rc, Some (0, None, None))
        | Some (rc, Some attributes) \<Rightarrow>
           (case attributes ''protocol-version'' of
              None \<Rightarrow> Some (GLOBUS_GRAM_PROTOCOL_ERROR_HTTP_UNPACK_FAILED, Some (0, None, None))
            | Some v \<Rightarrow>
               if strtol v \<noteq> GLOBUS_GRAM_PROTOCOL_VERSION
               then Some (GLOBUS_GRAM_PROTOCOL_ERROR_VERSION_MISMATCH, Some (0, None, None))
               else (case attributes ''status'' of
                  None \<Rightarrow> Some (GLOBUS_GRAM_PROTOCOL_ERROR_HTTP_UNPACK_FAILED, Some (0, None, None))
                | Some st \<Rightarrow>
                   (case attributes ''job-manager-url'' of
                      None \<Rightarrow> Some (GLOBUS_SUCCESS, Some (atoi st, None, Some attributes))
                    | Some u \<Rightarrow>
                        if dup ''job-manager-url''
                        then Some (GLOBUS_SUCCESS, Some (atoi st, Some u, Some attributes))
                        else Some (GLOBUS_GRAM_PROTOCOL_ERROR_MALLOC_FAILED, Some (atoi st, None, None)))))))"

section \<open>Status requests and replies\<close>

definition globus_gram_protocol_pack_status_request :: "bool \<Rightarrow> string option \<Rightarrow> packed option" where
  "globus_gram_protocol_pack_status_request mem status_request =
     (case status_request of None \<Rightarrow> None
      | Some r \<Rightarrow>
        if \<not> mem then Some (GLOBUS_GRAM_PROTOCOL_ERROR_MALLOC_FAILED, None)
        else let cap = length GLOBUS_GRAM_HTTP_PACK_PROTOCOL_VERSION_LINE
                 + length GLOBUS_GRAM_HTTP_PACK_CLIENT_REQUEST_LINE + 2 * length r
             in do {
               m1 \<leftarrow> buf_sprintf cap [] GLOBUS_GRAM_HTTP_PACK_PROTOCOL_VERSION_LINE
                 [D GLOBUS_GRAM_PROTOCOL_VERSION];
               m2 \<leftarrow> buf_put cap m1 (globus_l_gram_protocol_quote_string r);
               m3 \<leftarrow> buf_put cap m2 CRLF;
               Some (GLOBUS_SUCCESS, Some (m3, length m3 + 1))
             })"

text \<open>The C string at the start of a buffer, and \<open>strstr (s, CRLF)\<close>; the outer \<open>None\<close> is a search that
  leaves the buffer.\<close>

definition cstr_of :: "string \<Rightarrow> string option" where
  "cstr_of s = (if NUL \<in> set s then Some (takeWhile (\<lambda>c. c \<noteq> NUL) s) else None)"

fun find_crlf :: "string \<Rightarrow> string option option" where
  "find_crlf [] = None"
| "find_crlf (c # cs) =
     (if c = NUL then Some None
      else if c = CR \<and> cs \<noteq> [] \<and> hd cs = LF then Some (Some (c # cs))
      else find_crlf cs)"

definition globus_gram_protocol_unpack_status_request ::
  "bool \<Rightarrow> bool \<Rightarrow> string option \<Rightarrow> int \<Rightarrow> (int \<times> string option) option" where
  "globus_gram_protocol_unpack_status_request outs mem query querysize =
     (case query of None \<Rightarrow> Some (GLOBUS_GRAM_PROTOCOL_ERROR_NULL_PARAMETER, None)
      | Some q \<Rightarrow>
        if \<not> outs then Some (GLOBUS_GRAM_PROTOCOL_ERROR_NULL_PARAMETER, None)
        else (case find_crlf q of None \<Rightarrow> None
          | Some None \<Rightarrow> Some (GLOBUS_GRAM_PROTOCOL_ERROR_HTTP_UNPACK_FAILED, None)
          | Some (Some r) \<Rightarrow>
             let p = drop 2 r; msgsize = (querysize - (int (length q) - int (length p))) mod 2 ^ 64
             in if \<not> mem then Some (GLOBUS_GRAM_PROTOCOL_ERROR_MALLOC_FAILED, None)
                else (case cstr_of q of None \<Rightarrow> None
                  | Some t \<Rightarrow>
                     (case c_sscanf GLOBUS_GRAM_HTTP_PACK_PROTOCOL_VERSION_LINE t of
                        [protocol_version] \<Rightarrow>
                          if protocol_version \<noteq> GLOBUS_GRAM_PROTOCOL_VERSION
                          then Some (GLOBUS_GRAM_PROTOCOL_ERROR_VERSION_MISMATCH, None)
                          else globus_l_gram_protocol_unquote_string (nat msgsize) p msgsize
                      | _ \<Rightarrow> Some (GLOBUS_GRAM_PROTOCOL_ERROR_HTTP_UNPACK_FAILED, None)))))"

definition globus_gram_protocol_pack_status_reply :: "bool \<Rightarrow> int \<Rightarrow> int \<Rightarrow> int \<Rightarrow> packed option" where
  "globus_gram_protocol_pack_status_reply mem job_status failure_code job_failure_code =
     (if \<not> mem then Some (GLOBUS_GRAM_PROTOCOL_ERROR_MALLOC_FAILED, None)
      else let cap = length GLOBUS_GRAM_HTTP_PACK_PROTOCOL_VERSION_LINE
               + length GLOBUS_GRAM_HTTP_PACK_STATUS_LINE
               + length GLOBUS_GRAM_HTTP_PACK_FAILURE_CODE_LINE
               + length GLOBUS_GRAM_HTTP_PACK_JOB_FAILURE_CODE_LINE + 4
           in do {
             m \<leftarrow> buf_sprintf cap [] (GLOBUS_GRAM_HTTP_PACK_PROTOCOL_VERSION_LINE
                 @ GLOBUS_GRAM_HTTP_PACK_STATUS_LINE @ GLOBUS_GRAM_HTTP_PACK_FAILURE_CODE_LINE
                 @ GLOBUS_GRAM_HTTP_PACK_JOB_FAILURE_CODE_LINE)
               [D GLOBUS_GRAM_PROTOCOL_VERSION, D job_status, D failure_code, D job_failure_code];
             Some (GLOBUS_SUCCESS, Some (m, length m + 1))
           })"

text \<open>The second component lists the values stored in \<open>job_status\<close>, \<open>failure_code\<close> and
  \<open>job_failure_code\<close>, as far as the scan got.\<close>

definition globus_gram_protocol_unpack_status_reply ::
  "bool \<Rightarrow> string option \<Rightarrow> (int \<times> int list) option" where
  "globus_gram_protocol_unpack_status_reply outs reply =
     (if \<not> outs then Some (GLOBUS_GRAM_PROTOCOL_ERROR_NULL_PARAMETER, [])
      else (case Option.bind reply cstr_of of None \<Rightarrow> None
        | Some t \<Rightarrow>
           let vals = c_sscanf (GLOBUS_GRAM_HTTP_PACK_PROTOCOL_VERSION_LINE
                 @ GLOBUS_GRAM_HTTP_PACK_STATUS_LINE @ GLOBUS_GRAM_HTTP_PACK_FAILURE_CODE_LINE
                 @ GLOBUS_GRAM_HTTP_PACK_JOB_FAILURE_CODE_LINE) t;
               stored = (if length vals = 3 then tl vals @ [0] else tl vals)
           in if length vals \<noteq> 3 \<and> length vals \<noteq> 4
              then Some (GLOBUS_GRAM_PROTOCOL_ERROR_HTTP_UNPACK_FAILED, stored)
              else if hd vals \<noteq> GLOBUS_GRAM_PROTOCOL_VERSION
              then Some (GLOBUS_GRAM_PROTOCOL_ERROR_VERSION_MISMATCH, stored)
              else Some (GLOBUS_SUCCESS, stored)))"

definition globus_gram_protocol_pack_status_reply_with_extensions ::
  "bool \<Rightarrow> bool \<Rightarrow> int \<Rightarrow> int \<Rightarrow> int \<Rightarrow> extension list option \<Rightarrow> packed option" where
  "globus_gram_protocol_pack_status_reply_with_extensions outs mem job_status failure_code
       job_failure_code extensions =
     (case extensions of None \<Rightarrow> Some (GLOBUS_GRAM_PROTOCOL_ERROR_NULL_PARAMETER, None)
      | Some es \<Rightarrow>
        if \<not> outs then Some (GLOBUS_GRAM_PROTOCOL_ERROR_NULL_PARAMETER, None)
        else (case ext_length es of
          None \<Rightarrow> Some (GLOBUS_GRAM_PROTOCOL_ERROR_HTTP_PACK_FAILED, None)
        | Some n \<Rightarrow>
            if \<not> mem then Some (GLOBUS_GRAM_PROTOCOL_ERROR_MALLOC_FAILED, None)
            else let cap = n + length GLOBUS_GRAM_HTTP_PACK_PROTOCOL_VERSION_LINE
                     + length GLOBUS_GRAM_HTTP_PACK_STATUS_LINE
                     + length GLOBUS_GRAM_HTTP_PACK_FAILURE_CODE_LINE
                     + length GLOBUS_GRAM_HTTP_PACK_JOB_FAILURE_CODE_LINE + 4
                 in do {
                   m \<leftarrow> buf_sprintf cap [] (GLOBUS_GRAM_HTTP_PACK_PROTOCOL_VERSION_LINE
                       @ GLOBUS_GRAM_HTTP_PACK_STATUS_LINE @ GLOBUS_GRAM_HTTP_PACK_FAILURE_CODE_LINE
                       @ GLOBUS_GRAM_HTTP_PACK_JOB_FAILURE_CODE_LINE)
                     [D GLOBUS_GRAM_PROTOCOL_VERSION, D job_status, D failure_code, D job_failure_code];
                   r \<leftarrow> put_extensions cap m es;
                   Some (GLOBUS_SUCCESS, Some (r, length r + 1))
                 }))"

definition globus_gram_protocol_unpack_status_reply_with_extensions ::
  "bool \<Rightarrow> bool \<Rightarrow> string option \<Rightarrow> int \<Rightarrow> (int \<times> attributes option) option" where
  "globus_gram_protocol_unpack_status_reply_with_extensions outs mem reply replysize =
     (if reply = None \<or> \<not> outs then Some (GLOBUS_GRAM_PROTOCOL_ERROR_NULL_PARAMETER, None)
      else (case globus_gram_protocol_unpack_message True mem reply replysize of
          None \<Rightarrow> None
        | Some (rc, None) \<Rightarrow> Some (rc, None)
        | Some (rc, Some attributes) \<Rightarrow>
           (case attributes ''protocol-version'' of
              None \<Rightarrow> Some (GLOBUS_GRAM_PROTOCOL_ERROR_HTTP_UNPACK_FAILED, None)
            | Some v \<Rightarrow>
               if strtol v \<noteq> GLOBUS_GRAM_PROTOCOL_VERSION
               then Some (GLOBUS_GRAM_PROTOCOL_ERROR_VERSION_MISMATCH, None)
               else if attributes ''status'' = None \<or> attributes ''failure-code'' = None
                       \<or> attributes ''job-failure-code'' = None
               then Some (GLOBUS_GRAM_PROTOCOL_ERROR_HTTP_UNPACK_FAILED, None)
               else Some (GLOBUS_SUCCESS, Some attributes))))"

section \<open>Status updates\<close>

definition globus_gram_protocol_pack_status_update_message ::
  "bool \<Rightarrow> string option \<Rightarrow> int \<Rightarrow> int \<Rightarrow> packed option" where
  "globus_gram_protocol_pack_status_update_message mem job_contact status failure_code =
     (case job_contact of None \<Rightarrow> None
      | Some c \<Rightarrow>
        if \<not> mem then Some (GLOBUS_GRAM_PROTOCOL_ERROR_MALLOC_FAILED, None)
        else let cap = length GLOBUS_GRAM_HTTP_PACK_PROTOCOL_VERSION_LINE
                 + length GLOBUS_GRAM_HTTP_PACK_JOB_MANAGER_URL_LINE
                 + length GLOBUS_GRAM_HTTP_PACK_STATUS_LINE
                 + length GLOBUS_GRAM_HTTP_PACK_FAILURE_CODE_LINE + length c + 5
             in do {
               m \<leftarrow> buf_sprintf cap [] (GLOBUS_GRAM_HTTP_PACK_PROTOCOL_VERSION_LINE
                   @ GLOBUS_GRAM_HTTP_PACK_JOB_MANAGER_URL_LINE @ GLOBUS_GRAM_HTTP_PACK_STATUS_LINE
                   @ GLOBUS_GRAM_HTTP_PACK_FAILURE_CODE_LINE)
                 [D GLOBUS_GRAM_PROTOCOL_VERSION, S c, D status, D failure_code];
               Some (GLOBUS_SUCCESS, Some (m, length m + 1))
             })"

text \<open>\<open>globus_common_create_string\<close> allocates what the format needs; the buffer is then enlarged for the
  extensions. \<open>mem\<close> and \<open>mem2\<close> are the outcomes of the two allocations.\<close>

definition globus_gram_protocol_pack_status_update_message_with_extensions ::
  "bool \<Rightarrow> bool \<Rightarrow> bool \<Rightarrow> string option \<Rightarrow> int \<Rightarrow> int \<Rightarrow> extension list option \<Rightarrow> packed option" where
  "globus_gram_protocol_pack_status_update_message_with_extensions outs mem mem2 job_contact status
       failure_code extensions =
     (case (job_contact, extensions) of
        (Some c, Some es) \<Rightarrow>
          if \<not> outs then Some (GLOBUS_GRAM_PROTOCOL_ERROR_NULL_PARAMETER, None)
          else (case ext_length es of
            None \<Rightarrow> Some (GLOBUS_GRAM_PROTOCOL_ERROR_HTTP_PACK_FAILED, None)
          | Some n \<Rightarrow>
             if \<not> mem then Some (GLOBUS_GRAM_PROTOCOL_ERROR_MALLOC_FAILED, None)
             else do {
               m \<leftarrow> c_sprintf (GLOBUS_GRAM_HTTP_PACK_PROTOCOL_VERSION_LINE
                   @ GLOBUS_GRAM_HTTP_PACK_JOB_MANAGER_URL_LINE @ GLOBUS_GRAM_HTTP_PACK_STATUS_LINE
                   @ GLOBUS_GRAM_HTTP_PACK_FAILURE_CODE_LINE)
                 [D GLOBUS_GRAM_PROTOCOL_VERSION, S c, D status, D failure_code];
               if \<not> mem2 then Some (GLOBUS_GRAM_PROTOCOL_ERROR_MALLOC_FAILED, None)
               else do {
                 r \<leftarrow> put_extensions (n + length m + 1) m es;
                 Some (GLOBUS_SUCCESS, Some (r, length r + 1))
               }
             })
      | _ \<Rightarrow> Some (GLOBUS_GRAM_PROTOCOL_ERROR_NULL_PARAMETER, None))"

text \<open>An attribute that may be missing: \<open>None\<close> when its copy cannot be allocated.\<close>

definition optional_attribute :: "(string \<Rightarrow> bool) \<Rightarrow> attributes \<Rightarrow> string \<Rightarrow> string option option" where
  "optional_attribute dup attributes name =
     (case globus_l_gram_protocol_get_string_attribute (dup name) attributes name of
        (rc, v) \<Rightarrow> if rc \<noteq> GLOBUS_SUCCESS \<and> rc \<noteq> GLOBUS_GRAM_PROTOCOL_ERROR_HTTP_UNPACK_FAILED
                   then None else Some v)"

definition staging_error :: "string option \<Rightarrow> string option \<Rightarrow> string option \<Rightarrow> string option \<Rightarrow> string option" where
  "staging_error failure_type failure_message failure_source failure_destination =
     (let unknown = (\<lambda>v. case v of Some t \<Rightarrow> t | None \<Rightarrow> ''UNKNOWN'');
          text = (case failure_message of Some t \<Rightarrow> t | None \<Rightarrow> [])
      in case failure_type of
           Some t \<Rightarrow>
             if t = ''executable'' \<or> t = ''stdin''
             then c_sprintf ''the job manager could not stage in %s from %s'' [S t, S (unknown failure_source)]
             else c_sprintf ''the job manager could not stage in a file from %s to %s%s%s''
               [S (unknown failure_source), S (unknown failure_destination),
                S (if text \<noteq> [] then '': '' else []), S text]
         | None \<Rightarrow>
             c_sprintf ''the job manager could not stage in a file from %s to %s%s%s''
               [S (unknown failure_source), S (unknown failure_destination),
                S (if text \<noteq> [] then '': '' else []), S text])"

text \<open>The third component is the replacement of the text of an error code, if any.\<close>

definition globus_gram_protocol_unpack_status_update_message_with_extensions ::
  "bool \<Rightarrow> bool \<Rightarrow> (string \<Rightarrow> bool) \<Rightarrow> bool \<Rightarrow> string option \<Rightarrow> int
     \<Rightarrow> (int \<times> attributes option \<times> (int \<times> string) option) option" where
  "globus_gram_protocol_unpack_status_update_message_with_extensions outs mem dup mem_text reply replysize =
     (if reply = None \<or> \<not> outs then Some (GLOBUS_GRAM_PROTOCOL_ERROR_NULL_PARAMETER, None, None)
      else (case globus_gram_protocol_unpack_message True mem reply replysize of
          None \<Rightarrow> None
        | Some (rc, None) \<Rightarrow> Some (rc, None, None)
        | Some (rc, Some attributes) \<Rightarrow>
           (case globus_l_gram_protocol_get_int_attribute attributes ''protocol-version'' of
              (rc, None) \<Rightarrow> Some (rc, None, None)
            | (rc, Some protocol_version) \<Rightarrow>
               if protocol_version \<noteq> GLOBUS_GRAM_PROTOCOL_VERSION
               then Some (GLOBUS_GRAM_PROTOCOL_ERROR_VERSION_MISMATCH, None, None)
               else if attributes ''job-manager-url'' = None \<or> attributes ''status'' = None
               then Some (GLOBUS_GRAM_PROTOCOL_ERROR_HTTP_UNPACK_FAILED, None, None)
               else (case globus_l_gram_protocol_get_int_attribute attributes ''failure-code'' of
                  (rc, None) \<Rightarrow> Some (rc, None, None)
                | (rc, Some failure_code) \<Rightarrow>
                   (case (optional_attribute dup attributes ''gt3-failure-type'',
                          optional_attribute dup attributes ''gt3-failure-message'',
                          optional_attribute dup attributes ''gt3-failure-source'',
                          optional_attribute dup attributes ''gt3-failure-destination'') of
                      (Some ftype, Some fmessage, Some fsource, Some fdest) \<Rightarrow>
                        Some (GLOBUS_SUCCESS, Some attributes,
                          if failure_code \<in> {GLOBUS_GRAM_PROTOCOL_ERROR_STAGE_IN_FAILED,
                               GLOBUS_GRAM_PROTOCOL_ERROR_STAGING_EXECUTABLE,
                               GLOBUS_GRAM_PROTOCOL_ERROR_STAGING_STDIN} \<and> mem_text
                          then map_option (Pair failure_code) (staging_error ftype fmessage fsource fdest)
                          else None)
                    | _ \<Rightarrow> Some (GLOBUS_GRAM_PROTOCOL_ERROR_MALLOC_FAILED, None, None))))))"

definition globus_gram_protocol_unpack_status_update_message ::
  "bool \<Rightarrow> bool \<Rightarrow> (string \<Rightarrow> bool) \<Rightarrow> bool \<Rightarrow> string option \<Rightarrow> int
     \<Rightarrow> (int \<times> (string option \<times> int \<times> int) option) option" where
  "globus_gram_protocol_unpack_status_update_message outs mem dup mem_text reply replysize =
     (if reply = None \<or> \<not> outs then Some (GLOBUS_GRAM_PROTOCOL_ERROR_NULL_PARAMETER, None)
      else (case globus_gram_protocol_unpack_status_update_message_with_extensions True mem dup mem_text
                   reply replysize of
          None \<Rightarrow> None
        | Some (rc, None, _) \<Rightarrow> Some (rc, Some (None, 0, 0))
        | Some (rc, Some extensions, _) \<Rightarrow>
           (case globus_l_gram_protocol_get_string_attribute (dup ''job-manager-url'') extensions
                   ''job-manager-url'' of
              (rc, None) \<Rightarrow> Some (rc, Some (None, 0, 0))
            | (rc, Some job_contact) \<Rightarrow>
               (case globus_l_gram_protocol_get_int_attribute extensions ''status'' of
                  (rc, None) \<Rightarrow> Some (rc, Some (None, 0, 0))
                | (rc, Some status) \<Rightarrow>
                   (case globus_l_gram_protocol_get_int_attribute extensions ''failure-code'' of
                      (rc, None) \<Rightarrow> Some (rc, Some (None, status, 0))
                    | (rc, Some failure_code) \<Rightarrow> Some (rc, Some (Some job_contact, status, failure_code)))))))"

definition globus_gram_protocol_pack_version_request :: "bool \<Rightarrow> bool \<Rightarrow> packed option" where
  "globus_gram_protocol_pack_version_request outs mem =
     (if \<not> outs then Some (GLOBUS_GRAM_PROTOCOL_ERROR_NULL_PARAMETER, None)
      else if \<not> mem then Some (GLOBUS_GRAM_PROTOCOL_ERROR_MALLOC_FAILED, None)
      else do {
        m \<leftarrow> c_sprintf (''command: version'' @ CRLF) [];
        Some (GLOBUS_SUCCESS, Some (m, length m + 1))
      })"

section \<open>Quoted strings\<close>

lemma length_escape: "length (escape s) \<le> 2 * length s" "length s \<le> length (escape s)"
  by (induction s) auto

lemma unescape_escape: "unescape (length (escape v)) (escape v @ rest) = Some v"
  by (induction v) auto

lemma unescape_plain: "CHR 0x5C \<notin> set v \<Longrightarrow> unescape (length v) (v @ rest) = Some v"
  by (induction v) auto

lemma scan_quoted_escape:
  "c_string v \<Longrightarrow> scan_quoted False left (escape v @ CHR 0x22 # rest)
     = Some (length (escape v), left - int (length (escape v)), CHR 0x22 # rest)"
  by (induction v arbitrary: left) (auto simp: c_string_def)

lemma scan_plain_stop:
  assumes "CR \<notin> set v" and "c_string v" and "int (length v) < left"
  shows "scan_plain left (v @ CR # rest) = Some (length v, left - int (length v), CR # rest)"
  using assms by (induction v arbitrary: left) (auto simp: c_string_def)

lemma scan_attr_stop:
  assumes "CHR '':'' \<notin> set a" and "c_string a" and "int (length a) < left"
  shows "scan_attr left (a @ CHR '':'' # rest) = Some (a, left - int (length a), CHR '':'' # rest)"
  using assms by (induction a arbitrary: left) (auto simp: c_string_def)

lemma unquote_loop_escape:
  assumes "c_string v" and "int (length (escape v)) < left" and "length out + length v < cap"
  shows "unquote_loop cap True left (escape v @ CHR 0x22 # rest) out = Some (Inl (False, out @ v))"
  using assms
proof (induction v arbitrary: left out)
  case Nil
  then show ?case by (simp add: unquote_loop.simps)
next
  case (Cons c v)
  then show ?case
    by (subst unquote_loop.simps) (auto simp: c_string_def)
qed

section \<open>Messages as lists of lines\<close>

text \<open>\<open>encodes w v\<close>: the text \<open>w\<close> of an attribute line stands for the value \<open>v\<close>, either as it is or
  quoted.\<close>

definition plain_value :: "string \<Rightarrow> bool" where
  "plain_value v \<longleftrightarrow> c_string v \<and> CR \<notin> set v \<and> CHR 0x5C \<notin> set v \<and> (v \<noteq> [] \<longrightarrow> hd v \<noteq> CHR 0x22)"

definition encodes :: "string \<Rightarrow> string \<Rightarrow> bool" where
  "encodes w v \<longleftrightarrow> w = v \<and> plain_value v \<or> w = globus_l_gram_protocol_quote_string v \<and> c_string v"

definition attr_name :: "string \<Rightarrow> bool" where
  "attr_name a \<longleftrightarrow> CHR '':'' \<notin> set a \<and> c_string a"

definition line :: "string \<Rightarrow> string \<Rightarrow> string" where
  "line a w = a @ '': '' @ w @ CRLF"

definition line_ok :: "string \<times> string \<times> string \<Rightarrow> bool" where
  "line_ok = (\<lambda>(a, w, v). attr_name a \<and> encodes w v)"

definition message :: "(string \<times> string \<times> string) list \<Rightarrow> string" where
  "message xs = concat (map (\<lambda>(a, w, v). line a w) xs)"

definition field_values :: "(string \<times> string \<times> string) list \<Rightarrow> attributes" where
  "field_values xs = map_of (map (\<lambda>(a, w, v). (a, v)) xs)"

lemma length_line: "length (line a w) = length a + length w + 4"
  by (simp add: line_def CRLF_def)

lemma scan_value_plain:
  assumes "plain_value v" and "int (length v) + 1 \<le> left"
  shows "scan_value left (v @ CR # rest) = Some (v @ CR # rest, length v, left - int (length v), CR # rest)"
proof -
  have "scan_plain left (v @ CR # rest) = Some (length v, left - int (length v), CR # rest)"
    using assms by (intro scan_plain_stop) (simp_all add: plain_value_def)
  then show ?thesis
    using assms by (cases v) (simp_all add: scan_value_def plain_value_def)
qed

lemma scan_value_quoted:
  assumes "c_string v" and "0 < left"
  shows "scan_value left (globus_l_gram_protocol_quote_string v @ rest)
    = Some (escape v @ CHR 0x22 # rest, length (escape v), left - int (length (escape v)) - 2, rest)"
  using assms by (simp add: scan_value_def globus_l_gram_protocol_quote_string_def scan_quoted_escape)

lemma no_nul_takeWhile [simp]: "c_string v \<Longrightarrow> takeWhile (\<lambda>c. c \<noteq> NUL) v = v"
  by (auto simp: c_string_def takeWhile_eq_all_conv)

lemma unpack_line_line:
  assumes "attr_name a" and "encodes w v" and "int (length (line a w)) \<le> left"
  shows "unpack_line left (line a w @ rest) = Some (Line a v (left - int (length (line a w))) rest)"
proof -
  let ?left1 = "left - int (length a)"
  have "scan_attr left (line a w @ rest) = Some (a, ?left1, CHR '':'' # CHR '' '' # w @ CR # LF # rest)"
    using assms by (simp add: line_def scan_attr_stop attr_name_def length_line CRLF_def)
  moreover obtain start n left2 where
    "scan_value (?left1 - 2) (w @ CR # LF # rest) = Some (start, n, left2, CR # LF # rest)"
    "unescape n start = Some v" "left2 = ?left1 - 2 - int (length w)"
  proof (cases "w = v \<and> plain_value v")
    case True
    then show ?thesis
      using scan_value_plain [of v "?left1 - 2" "LF # rest"] unescape_plain [of v "CR # LF # rest"]
        assms(3) that by (auto simp: plain_value_def length_line)
  next
    case False
    then have "w = globus_l_gram_protocol_quote_string v" and "c_string v"
      using assms(2) by (auto simp: encodes_def)
    then show ?thesis
      using scan_value_quoted [of v "?left1 - 2" "CR # LF # rest"] unescape_escape
        assms(3) that by (auto simp: length_line globus_l_gram_protocol_quote_string_def)
  qed
  moreover have "c_string v"
    using assms(2) by (auto simp: encodes_def plain_value_def)
  ultimately show ?thesis
    using assms(3) by (simp add: unpack_line_def expect_def length_line)
qed

lemma attr_name_start: "attr_name a \<Longrightarrow> hd (line a w @ rest) \<noteq> NUL"
  by (cases a) (auto simp: line_def attr_name_def c_string_def)

lemma unpack_loop_message:
  assumes "list_all line_ok xs" and "int (length (message xs)) < left"
  shows "unpack_loop left (message xs @ NUL # rest) attrs = Some (GLOBUS_SUCCESS, Some (field_values xs ++ attrs))"
  using assms
proof (induction xs arbitrary: left attrs)
  case Nil
  then show ?case
    by (subst unpack_loop.simps) (simp add: message_def field_values_def)
next
  case (Cons x xs)
  obtain a w v where x: "x = (a, w, v)" by (cases x)
  have ok: "attr_name a" "encodes w v"
    using Cons.prems by (simp_all add: x line_ok_def)
  have msg: "message (x # xs) @ NUL # rest = line a w @ message xs @ NUL # rest"
    by (simp add: message_def x)
  have len: "int (length (line a w)) + int (length (message xs)) < left"
    using Cons.prems by (simp add: message_def x)
  have "unpack_loop left (message (x # xs) @ NUL # rest) attrs
    = unpack_loop (left - int (length (line a w))) (message xs @ NUL # rest)
        (if attrs a = None then attrs(a \<mapsto> v) else attrs)"
    unfolding msg using len ok attr_name_start [OF ok(1)]
    by (subst unpack_loop.simps) (simp add: unpack_line_line)
  also have "\<dots> = Some (GLOBUS_SUCCESS, Some (field_values xs ++ (if attrs a = None then attrs(a \<mapsto> v) else attrs)))"
    using Cons len by simp
  also have "field_values xs ++ (if attrs a = None then attrs(a \<mapsto> v) else attrs) = field_values (x # xs) ++ attrs"
    by (auto simp: field_values_def x map_add_def fun_eq_iff split: option.splits)
  finally show ?case .
qed

lemma unpack_message_lines:
  assumes "list_all line_ok xs" and "size_left = int (length (message xs)) + 1"
  shows "globus_gram_protocol_unpack_message True True (Some (message xs @ [NUL])) size_left
    = Some (GLOBUS_SUCCESS, Some (field_values xs))"
  using unpack_loop_message [OF assms(1), of size_left "[]" Map.empty] assms(2)
  by (simp add: globus_gram_protocol_unpack_message_def)

section \<open>Printed lines\<close>

lemma sprintf_D_line:
  assumes "CHR ''%'' \<notin> set a"
  shows "c_sprintf ((a @ '': %d'' @ CRLF) @ f) (D i # args)
    = map_option (\<lambda>t. line a (print_int i) @ t) (c_sprintf f args)"
proof -
  have "c_sprintf ((a @ '': %d'' @ CRLF) @ f) (D i # args)
    = c_sprintf ((a @ '': '') @ ''%d'' @ CRLF @ f) (D i # args)" by simp
  also have "\<dots> = map_option (\<lambda>t. line a (print_int i) @ t) (c_sprintf f args)"
    using assms c_sprintf_lit [of CRLF f args]
    by (cases "c_sprintf f args"; subst c_sprintf_lit) (auto simp: CRLF_def CR_def LF_def line_def)
  finally show ?thesis .
qed

lemma sprintf_S_line:
  assumes "CHR ''%'' \<notin> set a"
  shows "c_sprintf ((a @ '': %s'' @ CRLF) @ f) (S s # args)
    = map_option (\<lambda>t. line a s @ t) (c_sprintf f args)"
proof -
  have "c_sprintf ((a @ '': %s'' @ CRLF) @ f) (S s # args)
    = c_sprintf ((a @ '': '') @ ''%s'' @ CRLF @ f) (S s # args)" by simp
  also have "\<dots> = map_option (\<lambda>t. line a s @ t) (c_sprintf f args)"
    using assms c_sprintf_lit [of CRLF f args]
    by (cases "c_sprintf f args"; subst c_sprintf_lit) (auto simp: CRLF_def CR_def LF_def line_def)
  finally show ?thesis .
qed

lemma version_line [fmt_simps]:
  "c_sprintf (GLOBUS_GRAM_HTTP_PACK_PROTOCOL_VERSION_LINE @ f) (D i # args)
    = map_option (\<lambda>t. line ''protocol-version'' (print_int i) @ t) (c_sprintf f args)"
  using sprintf_D_line [of "''protocol-version''" f i args]
  by (simp add: GLOBUS_GRAM_HTTP_PACK_PROTOCOL_VERSION_LINE_def del: c_sprintf.simps(2))

lemma mask_line [fmt_simps]:
  "c_sprintf (GLOBUS_GRAM_HTTP_PACK_JOB_STATE_MASK_LINE @ f) (D i # args)
    = map_option (\<lambda>t. line ''job-state-mask'' (print_int i) @ t) (c_sprintf f args)"
  using sprintf_D_line [of "''job-state-mask''" f i args]
  by (simp add: GLOBUS_GRAM_HTTP_PACK_JOB_STATE_MASK_LINE_def del: c_sprintf.simps(2))

lemma status_line [fmt_simps]:
  "c_sprintf (GLOBUS_GRAM_HTTP_PACK_STATUS_LINE @ f) (D i # args)
    = map_option (\<lambda>t. line ''status'' (print_int i) @ t) (c_sprintf f args)"
  using sprintf_D_line [of "''status''" f i args]
  by (simp add: GLOBUS_GRAM_HTTP_PACK_STATUS_LINE_def del: c_sprintf.simps(2))

lemma failure_code_line [fmt_simps]:
  "c_sprintf (GLOBUS_GRAM_HTTP_PACK_FAILURE_CODE_LINE @ f) (D i # args)
    = map_option (\<lambda>t. line ''failure-code'' (print_int i) @ t) (c_sprintf f args)"
  using sprintf_D_line [of "''failure-code''" f i args]
  by (simp add: GLOBUS_GRAM_HTTP_PACK_FAILURE_CODE_LINE_def del: c_sprintf.simps(2))

lemma job_failure_code_line [fmt_simps]:
  "c_sprintf (GLOBUS_GRAM_HTTP_PACK_JOB_FAILURE_CODE_LINE @ f) (D i # args)
    = map_option (\<lambda>t. line ''job-failure-code'' (print_int i) @ t) (c_sprintf f args)"
  using sprintf_D_line [of "''job-failure-code''" f i args]
  by (simp add: GLOBUS_GRAM_HTTP_PACK_JOB_FAILURE_CODE_LINE_def del: c_sprintf.simps(2))

lemma callback_line [fmt_simps]:
  "c_sprintf (GLOBUS_GRAM_HTTP_PACK_CALLBACK_URL_LINE @ f) (S s # args)
    = map_option (\<lambda>t. line ''callback-url'' s @ t) (c_sprintf f args)"
  using sprintf_S_line [of "''callback-url''" f s args]
  by (simp add: GLOBUS_GRAM_HTTP_PACK_CALLBACK_URL_LINE_def del: c_sprintf.simps(2))

lemma manager_line [fmt_simps]:
  "c_sprintf (GLOBUS_GRAM_HTTP_PACK_JOB_MANAGER_URL_LINE @ f) (S s # args)
    = map_option (\<lambda>t. line ''job-manager-url'' s @ t) (c_sprintf f args)"
  using sprintf_S_line [of "''job-manager-url''" f s args]
  by (simp add: GLOBUS_GRAM_HTTP_PACK_JOB_MANAGER_URL_LINE_def del: c_sprintf.simps(2))

lemmas last_lines [fmt_simps] =
  version_line [of "[]", unfolded append_Nil2] status_line [of "[]", unfolded append_Nil2]
  failure_code_line [of "[]", unfolded append_Nil2] job_failure_code_line [of "[]", unfolded append_Nil2]
  manager_line [of "[]", unfolded append_Nil2]

lemma line_lengths:
  "length GLOBUS_GRAM_HTTP_PACK_PROTOCOL_VERSION_LINE = 22"
  "length GLOBUS_GRAM_HTTP_PACK_JOB_STATE_MASK_LINE = 20"
  "length GLOBUS_GRAM_HTTP_PACK_CALLBACK_URL_LINE = 18"
  "length GLOBUS_GRAM_HTTP_PACK_STATUS_LINE = 12"
  "length GLOBUS_GRAM_HTTP_PACK_FAILURE_CODE_LINE = 18"
  "length GLOBUS_GRAM_HTTP_PACK_JOB_FAILURE_CODE_LINE = 22"
  "length GLOBUS_GRAM_HTTP_PACK_JOB_MANAGER_URL_LINE = 21"
  "length GLOBUS_GRAM_HTTP_PACK_CLIENT_REQUEST_LINE = 4"
  "length CRLF = 2"
  by (simp_all add: CRLF_def GLOBUS_GRAM_HTTP_PACK_PROTOCOL_VERSION_LINE_def
      GLOBUS_GRAM_HTTP_PACK_JOB_STATE_MASK_LINE_def GLOBUS_GRAM_HTTP_PACK_CALLBACK_URL_LINE_def
      GLOBUS_GRAM_HTTP_PACK_STATUS_LINE_def GLOBUS_GRAM_HTTP_PACK_FAILURE_CODE_LINE_def
      GLOBUS_GRAM_HTTP_PACK_JOB_FAILURE_CODE_LINE_def GLOBUS_GRAM_HTTP_PACK_JOB_MANAGER_URL_LINE_def
      GLOBUS_GRAM_HTTP_PACK_CLIENT_REQUEST_LINE_def)

lemma print_version [simp]: "print_int GLOBUS_GRAM_PROTOCOL_VERSION = ''2''"
  by code_simp

lemma length_quote: "length (globus_l_gram_protocol_quote_string s) = length (escape s) + 2"
  by (simp add: globus_l_gram_protocol_quote_string_def)

lemmas pack_simps = Let_def buf_sprintf_def fmt_simps buf_put_def line_lengths length_line length_quote

text \<open>What a job request consists of, with the text of each line and the value it stands for.\<close>

definition request_lines :: "int \<Rightarrow> string option \<Rightarrow> string \<Rightarrow> (string \<times> string \<times> string) list" where
  "request_lines msk url rsl =
     [(''protocol-version'', ''2'', ''2''),
      (''job-state-mask'', print_int msk, print_int msk),
      (''callback-url'', case url of Some u \<Rightarrow> u | None \<Rightarrow> globus_l_gram_protocol_quote_string [],
         case url of Some u \<Rightarrow> u | None \<Rightarrow> []),
      (''rsl'', globus_l_gram_protocol_quote_string rsl, rsl)]"

lemma pack_job_request_eq:
  assumes "int_range msk"
  shows "globus_gram_protocol_pack_job_request True True msk url (Some rsl)
    = Some (GLOBUS_SUCCESS, Some (message (request_lines msk url rsl),
        length (message (request_lines msk url rsl)) + 1))"
proof -
  have rsl: "c_sprintf ''rsl: '' [] = Some ''rsl: ''" by simp
  have msg: "message (request_lines msk url rsl)
    = line ''protocol-version'' ''2'' @ line ''job-state-mask'' (print_int msk)
      @ line ''callback-url'' (case url of Some u \<Rightarrow> u | None \<Rightarrow> [CHR 0x22, CHR 0x22])
      @ ''rsl: '' @ globus_l_gram_protocol_quote_string rsl @ CRLF"
    by (auto simp: message_def request_lines_def line_def globus_l_gram_protocol_quote_string_def
        split: option.splits)
  show ?thesis
    unfolding globus_gram_protocol_pack_job_request_def msg
    using length_print_int [OF assms] length_escape [of rsl]
    by (cases url) (simp_all add: pack_simps rsl del: c_sprintf.simps(2))
qed

lemma plain_print_int [simp]: "plain_value (print_int i)" "c_string (print_int i)"
  using print_int_plain [of _ i] print_int_plain [of "hd (print_int i)" i]
  by (auto simp: plain_value_def c_string_def)

lemma literal_ok [simp]:
  "attr_name ''protocol-version''" "attr_name ''job-state-mask''" "attr_name ''callback-url''"
  "attr_name ''rsl''" "attr_name ''status''" "attr_name ''failure-code''"
  "attr_name ''job-failure-code''" "attr_name ''job-manager-url''" "encodes ''2'' ''2''"
  "c_string []"
  by (simp_all add: attr_name_def c_string_def encodes_def plain_value_def NUL_def CR_def)

lemma encodes_print_int [simp]: "encodes (print_int i) (print_int i)"
  by (simp add: encodes_def)

lemma encodes_quote [simp]: "c_string v \<Longrightarrow> encodes (globus_l_gram_protocol_quote_string v) v"
  by (simp add: encodes_def)

lemma encodes_self [simp]: "plain_value v \<Longrightarrow> encodes v v"
  by (simp add: encodes_def)

lemma atoi_version [simp]: "atoi ''2'' = GLOBUS_GRAM_PROTOCOL_VERSION" "strtol ''2'' = GLOBUS_GRAM_PROTOCOL_VERSION"
  by code_simp+

text \<open>A contact or URL that can be sent unquoted.\<close>

definition sendable :: "string option \<Rightarrow> bool" where
  "sendable u = (case u of None \<Rightarrow> True | Some t \<Rightarrow> t \<noteq> [] \<and> plain_value t)"

lemma request_lines_ok:
  "sendable url \<Longrightarrow> c_string rsl \<Longrightarrow> list_all line_ok (request_lines msk url rsl)"
  by (auto simp: request_lines_def line_ok_def sendable_def split: option.splits)

lemma request_values:
  "field_values (request_lines msk url rsl) ''protocol-version'' = Some ''2''"
  "field_values (request_lines msk url rsl) ''job-state-mask'' = Some (print_int msk)"
  "field_values (request_lines msk url rsl) ''callback-url'' = Some (case url of Some u \<Rightarrow> u | None \<Rightarrow> [])"
  "field_values (request_lines msk url rsl) ''rsl'' = Some rsl"
  by (simp_all add: field_values_def request_lines_def)

lemmas attribute_defs = globus_l_gram_protocol_get_int_attribute_def
  globus_l_gram_protocol_get_string_attribute_def

lemma unpack_job_request_eq:
  assumes "int_range msk" and "sendable url" and "c_string rsl" and "dup ''callback-url''" and "dup ''rsl''"
  shows "globus_gram_protocol_unpack_job_request True True dup
      (Some (message (request_lines msk url rsl) @ [NUL]))
      (int (length (message (request_lines msk url rsl)) + 1))
    = Some (GLOBUS_SUCCESS, Some (msk, url, Some rsl))"
proof -
  have "globus_gram_protocol_unpack_message True True (Some (message (request_lines msk url rsl) @ [NUL]))
      (int (length (message (request_lines msk url rsl)) + 1))
    = Some (GLOBUS_SUCCESS, Some (field_values (request_lines msk url rsl)))"
    using assms by (intro unpack_message_lines request_lines_ok) simp_all
  moreover have "(if (case url of Some u \<Rightarrow> u | None \<Rightarrow> []) = [] then None
      else Some (case url of Some u \<Rightarrow> u | None \<Rightarrow> [])) = url"
    using assms(2) by (auto simp: sendable_def split: option.splits)
  ultimately show ?thesis
    using assms by (simp add: globus_gram_protocol_unpack_job_request_def attribute_defs request_values
        atoi_print_int)
qed

definition reply_lines :: "int \<Rightarrow> string option \<Rightarrow> (string \<times> string \<times> string) list" where
  "reply_lines status contact =
     [(''protocol-version'', ''2'', ''2''), (''status'', print_int status, print_int status)]
     @ (case contact of None \<Rightarrow> [] | Some c \<Rightarrow> [(''job-manager-url'', c, c)])"

definition status_lines :: "int \<Rightarrow> int \<Rightarrow> int \<Rightarrow> (string \<times> string \<times> string) list" where
  "status_lines status failure job_failure =
     [(''protocol-version'', ''2'', ''2''), (''status'', print_int status, print_int status),
      (''failure-code'', print_int failure, print_int failure),
      (''job-failure-code'', print_int job_failure, print_int job_failure)]"

definition update_lines :: "string \<Rightarrow> int \<Rightarrow> int \<Rightarrow> (string \<times> string \<times> string) list" where
  "update_lines contact status failure =
     [(''protocol-version'', ''2'', ''2''), (''job-manager-url'', contact, contact),
      (''status'', print_int status, print_int status),
      (''failure-code'', print_int failure, print_int failure)]"

lemma lines_ok:
  "sendable contact \<Longrightarrow> list_all line_ok (reply_lines status contact)"
  "list_all line_ok (status_lines status failure job_failure)"
  "plain_value c \<Longrightarrow> list_all line_ok (update_lines c status failure)"
  by (auto simp: reply_lines_def status_lines_def update_lines_def line_ok_def sendable_def
      split: option.splits)

lemma message_simps [simp]:
  "message [] = []" "message ((a, w, v) # xs) = line a w @ message xs"
  "message (xs @ ys) = message xs @ message ys"
  by (simp_all add: message_def)

lemma pack_reply_eq:
  "globus_gram_protocol_pack_job_request_reply True status contact =
     (if contact = None \<and> length (print_int status) < 27 \<or> length (print_int status) \<le> 7
      then Some (GLOBUS_SUCCESS, Some (message (reply_lines status contact),
                   length (message (reply_lines status contact)) + 1))
      else None)"
  unfolding globus_gram_protocol_pack_job_request_reply_def
  by (cases contact) (auto simp: pack_simps reply_lines_def simp del: c_sprintf.simps(2))

lemma pack_status_reply_eq:
  "globus_gram_protocol_pack_status_reply True status failure job_failure =
     (if length (print_int status) + length (print_int failure) + length (print_int job_failure) \<le> 10
      then Some (GLOBUS_SUCCESS, Some (message (status_lines status failure job_failure),
                   length (message (status_lines status failure job_failure)) + 1))
      else None)"
  unfolding globus_gram_protocol_pack_status_reply_def
  by (auto simp: pack_simps status_lines_def simp del: c_sprintf.simps(2))

lemma pack_update_eq:
  "globus_gram_protocol_pack_status_update_message True (Some c) status failure =
     (if length (print_int status) + length (print_int failure) \<le> 11
      then Some (GLOBUS_SUCCESS, Some (message (update_lines c status failure),
                   length (message (update_lines c status failure)) + 1))
      else None)"
  unfolding globus_gram_protocol_pack_status_update_message_def
  by (auto simp: pack_simps update_lines_def simp del: c_sprintf.simps(2))

section \<open>Reading packed messages back\<close>

lemma reply_values:
  "field_values (reply_lines status contact) ''protocol-version'' = Some ''2''"
  "field_values (reply_lines status contact) ''status'' = Some (print_int status)"
  "field_values (reply_lines status contact) ''job-manager-url'' = contact"
  by (simp_all add: field_values_def reply_lines_def split: option.splits)

lemma update_values:
  "field_values (update_lines c status failure) ''protocol-version'' = Some ''2''"
  "field_values (update_lines c status failure) ''job-manager-url'' = Some c"
  "field_values (update_lines c status failure) ''status'' = Some (print_int status)"
  "field_values (update_lines c status failure) ''failure-code'' = Some (print_int failure)"
  "field_values (update_lines c status failure) ''gt3-failure-type'' = None"
  "field_values (update_lines c status failure) ''gt3-failure-message'' = None"
  "field_values (update_lines c status failure) ''gt3-failure-source'' = None"
  "field_values (update_lines c status failure) ''gt3-failure-destination'' = None"
  by (simp_all add: field_values_def update_lines_def)

lemma unpack_reply_eq:
  assumes "int_range status" and "sendable contact" and "dup ''job-manager-url''"
  shows "globus_gram_protocol_unpack_job_request_reply True True dup
      (Some (message (reply_lines status contact) @ [NUL]))
      (int (length (message (reply_lines status contact)) + 1))
    = Some (GLOBUS_SUCCESS, Some (status, contact))"
proof -
  have "globus_gram_protocol_unpack_message True True (Some (message (reply_lines status contact) @ [NUL]))
      (int (length (message (reply_lines status contact)) + 1))
    = Some (GLOBUS_SUCCESS, Some (field_values (reply_lines status contact)))"
    using assms by (intro unpack_message_lines lines_ok) simp_all
  then show ?thesis
    using assms by (cases contact) (simp_all add: globus_gram_protocol_unpack_job_request_reply_def
        attribute_defs reply_values atoi_print_int gram_codes)
qed

lemma unpack_update_eq:
  assumes "int_range status" and "int_range failure" and "plain_value c" and "dup ''job-manager-url''"
  shows "globus_gram_protocol_unpack_status_update_message True True dup mem_text
      (Some (message (update_lines c status failure) @ [NUL]))
      (int (length (message (update_lines c status failure)) + 1))
    = Some (GLOBUS_SUCCESS, Some (Some c, status, failure))"
proof -
  have "globus_gram_protocol_unpack_message True True (Some (message (update_lines c status failure) @ [NUL]))
      (int (length (message (update_lines c status failure)) + 1))
    = Some (GLOBUS_SUCCESS, Some (field_values (update_lines c status failure)))"
    using assms by (intro unpack_message_lines lines_ok) simp_all
  then show ?thesis
    using assms by (simp add: globus_gram_protocol_unpack_status_update_message_def
        globus_gram_protocol_unpack_status_update_message_with_extensions_def optional_attribute_def
        attribute_defs update_values atoi_print_int gram_codes)
qed

text \<open>\<open>sscanf\<close> over the same lines.\<close>

lemma sscanf_line:
  assumes "\<forall>c \<in> set a. \<not> isspace c \<and> c \<noteq> CHR ''%''" and "int_range i"
    and "rest = [] \<or> \<not> isspace (hd rest)"
  shows "c_sscanf ((a @ '': %d'' @ CRLF) @ f) (line a (print_int i) @ rest) = i # c_sscanf f rest"
proof -
  have colon: "\<not> isspace CHR '':''" and cr: "\<not> isdigit CR"
    by (simp_all add: isspace_def isdigit_def CR_def)
  have rest: "dropWhile isspace rest = rest"
    using assms(3) by (cases rest) simp_all
  have "c_sscanf ((a @ '': %d'' @ CRLF) @ f) (line a (print_int i) @ rest)
    = c_sscanf (a @ '': %d'' @ CRLF @ f) (a @ '': '' @ print_int i @ CRLF @ rest)"
    by (simp add: line_def)
  also have "\<dots> = c_sscanf (CHR '' '' # ''%d'' @ CRLF @ f) (CHR '' '' # print_int i @ CRLF @ rest)"
    unfolding c_sscanf_lit [OF assms(1)] using colon by simp
  also have "\<dots> = c_sscanf (CHR ''%'' # CHR ''d'' # CRLF @ f) (print_int i @ CRLF @ rest)"
    by (subst c_sscanf_space) (simp_all add: dropWhile_print_int del: c_sscanf.simps)
  also have "\<dots> = i # c_sscanf (CRLF @ f) (CRLF @ rest)"
    by (rule c_sscanf_D [OF assms(2)]) (simp add: CRLF_def cr)
  also have "\<dots> = i # c_sscanf f rest"
    by (simp add: CRLF_def rest)
  finally show ?thesis .
qed

lemma sscanf_lines:
  assumes "int_range i" and "rest = [] \<or> \<not> isspace (hd rest)"
  shows "c_sscanf (GLOBUS_GRAM_HTTP_PACK_PROTOCOL_VERSION_LINE @ f)
      (line ''protocol-version'' (print_int i) @ rest) = i # c_sscanf f rest"
    and "c_sscanf (GLOBUS_GRAM_HTTP_PACK_STATUS_LINE @ f)
      (line ''status'' (print_int i) @ rest) = i # c_sscanf f rest"
    and "c_sscanf (GLOBUS_GRAM_HTTP_PACK_FAILURE_CODE_LINE @ f)
      (line ''failure-code'' (print_int i) @ rest) = i # c_sscanf f rest"
    and "c_sscanf (GLOBUS_GRAM_HTTP_PACK_JOB_FAILURE_CODE_LINE @ f)
      (line ''job-failure-code'' (print_int i) @ rest) = i # c_sscanf f rest"
  using sscanf_line [of "''protocol-version''", OF _ assms] sscanf_line [of "''status''", OF _ assms]
    sscanf_line [of "''failure-code''", OF _ assms] sscanf_line [of "''job-failure-code''", OF _ assms]
  by (simp_all add: isspace_def GLOBUS_GRAM_HTTP_PACK_PROTOCOL_VERSION_LINE_def
      GLOBUS_GRAM_HTTP_PACK_STATUS_LINE_def GLOBUS_GRAM_HTTP_PACK_FAILURE_CODE_LINE_def
      GLOBUS_GRAM_HTTP_PACK_JOB_FAILURE_CODE_LINE_def del: c_sscanf.simps)

lemma cstr_of_append [simp]: "c_string t \<Longrightarrow> cstr_of (t @ NUL # rest) = Some t"
  by (auto simp: cstr_of_def c_string_def takeWhile_append takeWhile_eq_all_conv)

lemma c_string_append [simp]: "c_string (s @ t) \<longleftrightarrow> c_string s \<and> c_string t"
  by (auto simp: c_string_def)

lemma c_string_literals [simp]: "c_string CRLF" "c_string ''2''"
  by (simp_all add: c_string_def CRLF_def NUL_def CR_def LF_def)

lemma c_string_line: "attr_name a \<Longrightarrow> c_string w \<Longrightarrow> c_string (line a w)"
  by (auto simp: line_def attr_name_def c_string_def CRLF_def)

lemma line_start: "a \<noteq> [] \<Longrightarrow> hd (line a w @ rest) = hd a"
  by (simp add: line_def)

lemma unpack_status_reply_eq:
  assumes "int_range status" and "int_range failure" and "int_range job_failure"
  shows "globus_gram_protocol_unpack_status_reply True
      (Some (message (status_lines status failure job_failure) @ [NUL]))
    = Some (GLOBUS_SUCCESS, [status, failure, job_failure])"
proof -
  let ?pv = "line ''protocol-version'' (print_int 2)" and ?st = "line ''status'' (print_int status)"
    and ?fc = "line ''failure-code'' (print_int failure)"
    and ?jf = "line ''job-failure-code'' (print_int job_failure)"
  have two: "print_int 2 = ''2''" "int_range 2"
    using print_version by (simp_all add: GLOBUS_GRAM_PROTOCOL_VERSION_def int_range_def)
  have "c_sscanf (GLOBUS_GRAM_HTTP_PACK_PROTOCOL_VERSION_LINE @ GLOBUS_GRAM_HTTP_PACK_STATUS_LINE
        @ GLOBUS_GRAM_HTTP_PACK_FAILURE_CODE_LINE @ GLOBUS_GRAM_HTTP_PACK_JOB_FAILURE_CODE_LINE @ [])
      (?pv @ ?st @ ?fc @ ?jf @ []) = [2, status, failure, job_failure]"
    using assms two(2) sscanf_lines(4) [OF assms(3), of "[]" "[]"]
    by (simp add: sscanf_lines(1-3) line_start isspace_def del: append_Nil2)
  moreover have "c_string (?pv @ ?st @ ?fc @ ?jf)"
    by (simp add: c_string_line)
  then have "cstr_of ((?pv @ ?st @ ?fc @ ?jf) @ [NUL]) = Some (?pv @ ?st @ ?fc @ ?jf)"
    by (rule cstr_of_append)
  ultimately show ?thesis
    by (simp add: globus_gram_protocol_unpack_status_reply_def status_lines_def two(1)
        GLOBUS_GRAM_PROTOCOL_VERSION_def)
qed

section \<open>Status requests\<close>

lemma find_crlf_append:
  "c_string u \<Longrightarrow> CR \<notin> set u \<Longrightarrow> find_crlf (u @ CR # LF # rest) = Some (Some (CR # LF # rest))"
  by (induction u) (auto simp: c_string_def)

lemma unquote_quote:
  assumes "c_string s" and "int (length (globus_l_gram_protocol_quote_string s)) \<le> n" and "length s < cap"
  shows "globus_l_gram_protocol_unquote_string cap (globus_l_gram_protocol_quote_string s @ rest) n
    = Some (GLOBUS_SUCCESS, Some s)"
  using unquote_loop_escape [OF assms(1), of "n - 1" "[]" cap rest] assms
  by (simp add: globus_l_gram_protocol_unquote_string_def globus_l_gram_protocol_quote_string_def)

lemma pack_status_request_eq:
  "globus_gram_protocol_pack_status_request True (Some r) =
    Some (GLOBUS_SUCCESS,
      Some (line ''protocol-version'' ''2'' @ globus_l_gram_protocol_quote_string r @ CRLF,
            length (line ''protocol-version'' ''2'' @ globus_l_gram_protocol_quote_string r @ CRLF) + 1))"
  unfolding globus_gram_protocol_pack_status_request_def
  using length_escape [of r] by (simp add: pack_simps del: c_sprintf.simps(2))

lemma unpack_status_request_eq:
  fixes r :: string
  defines "m \<equiv> line ''protocol-version'' ''2'' @ globus_l_gram_protocol_quote_string r @ CRLF"
  assumes "c_string r" and "length m < 2 ^ 64 - 1"
  shows "globus_gram_protocol_unpack_status_request True True (Some (m @ [NUL])) (int (length m + 1))
    = Some (GLOBUS_SUCCESS, Some r)"
proof -
  let ?p = "globus_l_gram_protocol_quote_string r @ CRLF @ [NUL]"
  have m: "m @ [NUL] = ''protocol-version: 2'' @ CR # LF # ?p"
    by (simp add: m_def line_def CRLF_def)
  have find: "find_crlf (m @ [NUL]) = Some (Some (CR # LF # ?p))"
    unfolding m by (rule find_crlf_append) (simp_all add: c_string_def NUL_def CR_def)
  have quote: "c_string (globus_l_gram_protocol_quote_string r)"
    using assms(2) by (induction r)
      (auto simp: c_string_def globus_l_gram_protocol_quote_string_def)
  then have "cstr_of (m @ [NUL]) = Some m"
    by (intro cstr_of_append) (simp add: m_def c_string_line)
  moreover have "c_sscanf GLOBUS_GRAM_HTTP_PACK_PROTOCOL_VERSION_LINE m = [2]"
    using sscanf_lines(1) [of 2 "globus_l_gram_protocol_quote_string r @ CRLF" "[]"] print_version
    by (simp add: m_def int_range_def GLOBUS_GRAM_PROTOCOL_VERSION_def isspace_def
        globus_l_gram_protocol_quote_string_def)
  moreover have "globus_l_gram_protocol_unquote_string (length ?p) ?p (int (length ?p))
      = Some (GLOBUS_SUCCESS, Some r)"
    using unquote_quote [OF assms(2), of "int (length ?p)" "length ?p" "CRLF @ [NUL]"]
      length_escape(2) [of r] by (simp add: length_quote)
  moreover have "(int (length m + 1) - (int (length (m @ [NUL])) - int (length ?p))) mod 2 ^ 64
      = int (length ?p)"
    using assms(3) by (simp add: m_def length_line)
  moreover have "nat (1 + (int a + int b)) = Suc (a + b)" for a b
    by simp
  ultimately show ?thesis
    using find by (simp add: globus_gram_protocol_unpack_status_request_def Let_def
        GLOBUS_GRAM_PROTOCOL_VERSION_def)
qed

section \<open>Extensions\<close>

abbreviation ext :: "string \<times> string \<Rightarrow> extension" where
  "ext av \<equiv> \<lparr>ext_attribute = Some (fst av), ext_value = Some (snd av)\<rparr>"

definition ext_lines :: "(string \<times> string) list \<Rightarrow> (string \<times> string \<times> string) list" where
  "ext_lines avs = map (\<lambda>(a, v). (a, globus_l_gram_protocol_quote_string v, v)) avs"

text \<open>The bytes by which the extensions exceed the space computed for them: quotes and escapes against
  twice the length of the value.\<close>

definition quote_need :: "(string \<times> string) list \<Rightarrow> nat" where
  "quote_need avs = (\<Sum>(a, v) \<leftarrow> avs. length (escape v) + 2)"

definition quote_room :: "(string \<times> string) list \<Rightarrow> nat" where
  "quote_room avs = (\<Sum>(a, v) \<leftarrow> avs. 2 * length v)"

lemma ext_lines_simps [simp]:
  "ext_lines [] = []"
  "ext_lines ((a, v) # avs) = (a, globus_l_gram_protocol_quote_string v, v) # ext_lines avs"
  by (simp_all add: ext_lines_def)

lemma ext_length_eq:
  "ext_length (map ext avs) = Some (sum_list (map (length \<circ> fst) avs) + quote_room avs + 4 * length avs)"
  by (induction avs) (auto simp: quote_room_def)

lemma ext_message_length:
  "length (message (ext_lines avs)) = sum_list (map (length \<circ> fst) avs) + quote_need avs + 4 * length avs"
  by (induction avs) (auto simp: quote_need_def length_line length_quote)

lemma put_extensions_eq:
  "put_extensions cap out (map ext avs) =
     (if avs = [] \<or> length out + length (message (ext_lines avs)) < cap
      then Some (out @ message (ext_lines avs)) else None)"
proof (induction avs arbitrary: out)
  case (Cons av avs)
  obtain a v where av: "av = (a, v)" by (cases av)
  have attr: "c_sprintf ''%s: '' [S a] = Some (a @ '': '')" by simp
  show ?case
    using Cons.IH
    by (auto simp: av line_def buf_sprintf_def attr buf_put_def line_lengths length_quote
        simp del: c_sprintf.simps(2))
qed simp

lemma put_message_extensions:
  assumes "ext_length (map ext avs) = Some n"
  shows "Option.bind (buf_put (base + n) [] m) (\<lambda>out.
      Option.bind (put_extensions (base + n) out (map ext avs)) k) =
    (if length m + quote_need avs < base + quote_room avs then k (m @ message (ext_lines avs)) else None)"
  using assms by (cases "avs = []")
    (auto simp: put_extensions_eq ext_length_eq ext_message_length buf_put_def quote_need_def quote_room_def)

lemma pack_status_reply_ext_eq:
  "globus_gram_protocol_pack_status_reply_with_extensions True True status failure job_failure
      (Some (map ext avs)) =
    (if length (print_int status) + length (print_int failure) + length (print_int job_failure)
          + quote_need avs \<le> 10 + quote_room avs
     then Some (GLOBUS_SUCCESS, Some (message (status_lines status failure job_failure @ ext_lines avs),
            length (message (status_lines status failure job_failure @ ext_lines avs)) + 1))
     else None)"
proof -
  let ?m = "message (status_lines status failure job_failure)"
  obtain n where n: "ext_length (map ext avs) = Some n" by (simp add: ext_length_eq)
  have "buf_sprintf (78 + n) [] (GLOBUS_GRAM_HTTP_PACK_PROTOCOL_VERSION_LINE
       @ GLOBUS_GRAM_HTTP_PACK_STATUS_LINE @ GLOBUS_GRAM_HTTP_PACK_FAILURE_CODE_LINE
       @ GLOBUS_GRAM_HTTP_PACK_JOB_FAILURE_CODE_LINE)
     [D GLOBUS_GRAM_PROTOCOL_VERSION, D status, D failure, D job_failure] = buf_put (78 + n) [] ?m"
    by (simp add: buf_sprintf_def fmt_simps status_lines_def del: c_sprintf.simps(2))
  moreover have "length ?m = 67 + length (print_int status) + length (print_int failure)
      + length (print_int job_failure)"
    by (simp add: status_lines_def length_line)
  ultimately show ?thesis
    unfolding globus_gram_protocol_pack_status_reply_with_extensions_def
    by (auto simp: n Let_def line_lengths put_message_extensions [OF n])
qed

lemma pack_reply_ext_eq:
  "globus_gram_protocol_pack_job_request_reply_with_extensions True True status contact (Some (map ext avs)) =
    (if length (print_int status) + quote_need avs \<le> (if contact = None then 6 else 8) + quote_room avs
     then Some (GLOBUS_SUCCESS, Some (message (reply_lines status contact @ ext_lines avs),
            length (message (reply_lines status contact @ ext_lines avs)) + 1))
     else None)"
proof -
  let ?m = "message (reply_lines status contact)"
  obtain n where n: "ext_length (map ext avs) = Some n" by (simp add: ext_length_eq)
  show ?thesis
  proof (cases contact)
    case None
    have "buf_sprintf (38 + n) [] (GLOBUS_GRAM_HTTP_PACK_PROTOCOL_VERSION_LINE
         @ GLOBUS_GRAM_HTTP_PACK_STATUS_LINE) [D GLOBUS_GRAM_PROTOCOL_VERSION, D status]
       = buf_put (38 + n) [] ?m"
      by (simp add: buf_sprintf_def fmt_simps reply_lines_def None del: c_sprintf.simps(2))
    moreover have "length ?m = 31 + length (print_int status)"
      by (simp add: reply_lines_def length_line None)
    ultimately show ?thesis
      unfolding globus_gram_protocol_pack_job_request_reply_with_extensions_def
      by (auto simp: n Let_def line_lengths put_message_extensions [OF n] None)
  next
    case (Some c)
    have cap: "n + 22 + 12 + (21 + length c) + 4 = 59 + length c + n" by simp
    have "buf_sprintf (59 + length c + n) [] (GLOBUS_GRAM_HTTP_PACK_PROTOCOL_VERSION_LINE
         @ GLOBUS_GRAM_HTTP_PACK_STATUS_LINE @ GLOBUS_GRAM_HTTP_PACK_JOB_MANAGER_URL_LINE)
         [D GLOBUS_GRAM_PROTOCOL_VERSION, D status, S c]
       = buf_put (59 + length c + n) [] ?m"
      by (simp add: buf_sprintf_def fmt_simps reply_lines_def Some del: c_sprintf.simps(2))
    moreover have "length ?m = 50 + length (print_int status) + length c"
      by (simp add: reply_lines_def length_line Some)
    ultimately show ?thesis
      unfolding globus_gram_protocol_pack_job_request_reply_with_extensions_def Let_def option.case Some n
        line_lengths cap
      by (simp only: put_message_extensions [OF n] Some if_False simp_thms if_True not_True_eq_False) auto
  qed
qed

lemma pack_update_ext_eq:
  "globus_gram_protocol_pack_status_update_message_with_extensions True True True (Some c) status failure
      (Some (map ext avs)) =
    (if quote_need avs \<le> quote_room avs
     then Some (GLOBUS_SUCCESS, Some (message (update_lines c status failure @ ext_lines avs),
            length (message (update_lines c status failure @ ext_lines avs)) + 1))
     else None)"
proof -
  let ?m = "message (update_lines c status failure)"
  obtain n where n: "ext_length (map ext avs) = Some n" by (simp add: ext_length_eq)
  have m: "c_sprintf (GLOBUS_GRAM_HTTP_PACK_PROTOCOL_VERSION_LINE
       @ GLOBUS_GRAM_HTTP_PACK_JOB_MANAGER_URL_LINE @ GLOBUS_GRAM_HTTP_PACK_STATUS_LINE
       @ GLOBUS_GRAM_HTTP_PACK_FAILURE_CODE_LINE)
     [D GLOBUS_GRAM_PROTOCOL_VERSION, S c, D status, D failure] = Some ?m"
    by (simp add: fmt_simps update_lines_def del: c_sprintf.simps(2))
  have "buf_put (length ?m + 1 + n) [] ?m = Some ?m"
    by (simp add: buf_put_def)
  then have "put_extensions (n + length ?m + 1) ?m (map ext avs) =
      (if quote_need avs \<le> quote_room avs then Some (?m @ message (ext_lines avs)) else None)"
    using put_message_extensions [OF n, of "length ?m + 1" ?m Some] by (auto simp: ac_simps)
  then show ?thesis
    unfolding globus_gram_protocol_pack_status_update_message_with_extensions_def
    by (simp add: n m)
qed

lemma ext_lines_ok:
  "\<forall>(a, v) \<in> set avs. attr_name a \<and> c_string v \<Longrightarrow> list_all line_ok (ext_lines avs)"
  by (auto simp: list_all_iff line_ok_def ext_lines_def)

lemma ext_values:
  assumes "(a, v) \<in> set avs" and "distinct (map fst avs)"
    and "set (map fst avs) \<inter> {''protocol-version'', ''job-manager-url'', ''status'', ''failure-code''} = {}"
  shows "field_values (update_lines c status failure @ ext_lines avs) a = Some v"
proof -
  have "map_of avs a = Some v" using assms(1,2) by simp
  moreover have "map_of (map (\<lambda>(a, w, v). (a, v)) (ext_lines avs)) = map_of avs"
    by (simp add: ext_lines_def comp_def split_beta)
  moreover have "a \<noteq> ''protocol-version''" "a \<noteq> ''job-manager-url''" "a \<noteq> ''status''" "a \<noteq> ''failure-code''"
    using assms(1,3) by (force simp del: list.inject)+
  ultimately show ?thesis
    by (simp add: field_values_def update_lines_def map_add_def)
qed

section \<open>Memory safety of the parser\<close>












section \<open>Codecs\<close>

text \<open>The contract of a pair of pack and unpack functions, for the payloads that can be sent: packing
  succeeds inside its buffer and reports the size of the terminated string, and unpacking that string
  with that size gives the payload back.\<close>

locale codec =
  fixes valid :: "'a \<Rightarrow> bool" and pack :: "'a \<Rightarrow> packed option" and unpack :: "string \<Rightarrow> int \<Rightarrow> 'a option"
  assumes pack_fits: "valid x \<Longrightarrow> \<exists>m. pack x = Some (GLOBUS_SUCCESS, Some (m, length m + 1))"
    and unpack_pack: "valid x \<Longrightarrow> pack x = Some (GLOBUS_SUCCESS, Some (m, n)) \<Longrightarrow> unpack (m @ [NUL]) (int n) = Some x"
begin

lemma round_trip:
  assumes "valid x"
  shows "\<exists>m. pack x = Some (GLOBUS_SUCCESS, Some (m, length m + 1))
    \<and> unpack (m @ [NUL]) (int (length m + 1)) = Some x"
proof -
  obtain m where m: "pack x = Some (GLOBUS_SUCCESS, Some (m, length m + 1))"
    using pack_fits [OF assms] by (rule exE)
  then show ?thesis
    using unpack_pack [OF assms m] by (intro exI [of _ m] conjI)
qed

lemma pack_inj:
  assumes "valid x" and "valid y" and "pack x = pack y"
  shows "x = y"
proof -
  obtain m where m: "pack x = Some (GLOBUS_SUCCESS, Some (m, length m + 1))"
    using pack_fits [OF assms(1)] by (rule exE)
  then have "unpack (m @ [NUL]) (int (length m + 1)) = Some x"
    and "unpack (m @ [NUL]) (int (length m + 1)) = Some y"
    using unpack_pack [OF assms(1) m] unpack_pack [OF assms(2)] assms(3) by simp_all
  then show ?thesis by simp
qed

end

definition request_valid :: "int \<times> string option \<times> string \<Rightarrow> bool" where
  "request_valid = (\<lambda>(msk, url, rsl). int_range msk \<and> sendable url \<and> c_string rsl)"

interpretation request: codec request_valid
  "\<lambda>(msk, url, rsl). globus_gram_protocol_pack_job_request True True msk url (Some rsl)"
  "\<lambda>s n. case globus_gram_protocol_unpack_job_request True True (\<lambda>_. True) (Some s) n of
     Some (rc, Some (msk, url, Some rsl)) \<Rightarrow> if rc = GLOBUS_SUCCESS then Some (msk, url, rsl) else None
   | _ \<Rightarrow> None"
  by unfold_locales (auto simp: request_valid_def pack_job_request_eq unpack_job_request_eq [simplified])

definition reply_valid :: "int \<times> string option \<Rightarrow> bool" where
  "reply_valid = (\<lambda>(status, contact). int_range status \<and> sendable contact
     \<and> (contact = None \<or> length (print_int status) \<le> 7))"

lemma reply_fits: "int_range status \<Longrightarrow> length (print_int status) < 27"
  using length_print_int [of status] by simp

interpretation reply: codec reply_valid
  "\<lambda>(status, contact). globus_gram_protocol_pack_job_request_reply True status contact"
  "\<lambda>s n. case globus_gram_protocol_unpack_job_request_reply True True (\<lambda>_. True) (Some s) n of
     Some (rc, Some x) \<Rightarrow> if rc = GLOBUS_SUCCESS then Some x else None
   | _ \<Rightarrow> None"
  by unfold_locales
    (auto simp: pack_reply_eq reply_valid_def unpack_reply_eq [simplified] reply_fits split: if_splits)

definition update_valid :: "string \<times> int \<times> int \<Rightarrow> bool" where
  "update_valid = (\<lambda>(c, status, failure). plain_value c \<and> int_range status \<and> int_range failure
     \<and> length (print_int status) + length (print_int failure) \<le> 11)"

interpretation update: codec update_valid
  "\<lambda>(c, status, failure). globus_gram_protocol_pack_status_update_message True (Some c) status failure"
  "\<lambda>s n. case globus_gram_protocol_unpack_status_update_message True True (\<lambda>_. True) True (Some s) n of
     Some (rc, Some (Some c, status, failure)) \<Rightarrow>
       if rc = GLOBUS_SUCCESS then Some (c, status, failure) else None
   | _ \<Rightarrow> None"
  by unfold_locales (auto simp: update_valid_def pack_update_eq unpack_update_eq [simplified])

definition status_valid :: "int \<times> int \<times> int \<Rightarrow> bool" where
  "status_valid = (\<lambda>(status, failure, job_failure).
     int_range status \<and> int_range failure \<and> int_range job_failure
     \<and> length (print_int status) + length (print_int failure) + length (print_int job_failure) \<le> 10)"

interpretation status: codec status_valid
  "\<lambda>(status, failure, job_failure). globus_gram_protocol_pack_status_reply True status failure job_failure"
  "\<lambda>s n. case globus_gram_protocol_unpack_status_reply True (Some s) of
     Some (rc, [status, failure, job_failure]) \<Rightarrow>
       if rc = GLOBUS_SUCCESS then Some (status, failure, job_failure) else None
   | _ \<Rightarrow> None"
  by unfold_locales (auto simp: status_valid_def pack_status_reply_eq unpack_status_reply_eq)

definition query_valid :: "string \<Rightarrow> bool" where
  "query_valid r \<longleftrightarrow> c_string r \<and> 2 * length r < 2 ^ 64 - 32"

interpretation query: codec query_valid
  "\<lambda>r. globus_gram_protocol_pack_status_request True (Some r)"
  "\<lambda>s n. case globus_gram_protocol_unpack_status_request True True (Some s) n of
     Some (rc, Some r) \<Rightarrow> if rc = GLOBUS_SUCCESS then Some r else None
   | _ \<Rightarrow> None"
proof
  fix r m n assume r: "query_valid r"
  show "\<exists>m. globus_gram_protocol_pack_status_request True (Some r)
      = Some (GLOBUS_SUCCESS, Some (m, length m + 1))"
    by (simp add: pack_status_request_eq)
  assume "globus_gram_protocol_pack_status_request True (Some r) = Some (GLOBUS_SUCCESS, Some (m, n))"
  moreover have "length (line ''protocol-version'' ''2'' @ globus_l_gram_protocol_quote_string r @ CRLF)
      < 2 ^ 64 - 1"
    using r length_escape(1) [of r]
    by (simp add: query_valid_def length_line length_quote line_lengths)
  ultimately show "(case globus_gram_protocol_unpack_status_request True True (Some (m @ [NUL])) (int n) of
     Some (rc, Some r) \<Rightarrow> if rc = GLOBUS_SUCCESS then Some r else None | _ \<Rightarrow> None) = Some r"
    using r unpack_status_request_eq [of r] by (auto simp: query_valid_def pack_status_request_eq)
qed

section \<open>Properties\<close>

text \<open>
  C11. A job request survives the wire. For every 32-bit job state mask, every RSL string, and a
  callback URL that is absent or can be written unquoted, \<open>globus_gram_protocol_pack_job_request\<close> stays
  inside the buffer it allocated and reports the size of the terminated message, and
  \<open>globus_gram_protocol_unpack_job_request\<close> of that message returns success with the same mask, URL and
  RSL; two different such requests have different messages.
\<close>

theorem gram_job_request_roundtrip:
  assumes "int_range msk" and "sendable url" and "c_string rsl"
  shows "(\<exists>m. globus_gram_protocol_pack_job_request True True msk url (Some rsl)
        = Some (GLOBUS_SUCCESS, Some (m, length m + 1))
      \<and> globus_gram_protocol_unpack_job_request True True (\<lambda>_. True) (Some (m @ [NUL])) (int (length m + 1))
        = Some (GLOBUS_SUCCESS, Some (msk, url, Some rsl)))
    \<and> (request_valid (msk', url', rsl') \<and>
        globus_gram_protocol_pack_job_request True True msk url (Some rsl)
          = globus_gram_protocol_pack_job_request True True msk' url' (Some rsl')
        \<longrightarrow> (msk', url', rsl') = (msk, url, rsl))"
  using assms request.pack_inj [of "(msk, url, rsl)" "(msk', url', rsl')"]
  by (auto simp: pack_job_request_eq unpack_job_request_eq [simplified] request_valid_def)

lemma gram_job_request_witness:
  "(\<exists>m. globus_gram_protocol_pack_job_request True True 12 (Some ''https://h:2119/'') (Some ''&(executable=a)'')
        = Some (GLOBUS_SUCCESS, Some (m, length m + 1))
      \<and> globus_gram_protocol_unpack_job_request True True (\<lambda>_. True) (Some (m @ [NUL])) (int (length m + 1))
        = Some (GLOBUS_SUCCESS, Some (12, Some ''https://h:2119/'', Some ''&(executable=a)'')))"
  using gram_job_request_roundtrip [of 12 "Some ''https://h:2119/''" "''&(executable=a)''"]
  by (simp add: int_range_def sendable_def plain_value_def c_string_def NUL_def CR_def)

text \<open>
  C12. Replies and status messages survive the wire as long as their codes fit the space reserved for
  them: the reply to a job request with a code of at most seven characters (any code when there is no
  contact), the status reply with codes of at most ten characters in all, which \<open>sscanf\<close> reads back, and
  the status update with codes of at most eleven characters in all.
\<close>

theorem gram_replies_roundtrip:
  "(reply_valid (status, contact) \<longrightarrow>
      (\<exists>m. globus_gram_protocol_pack_job_request_reply True status contact
          = Some (GLOBUS_SUCCESS, Some (m, length m + 1))
        \<and> globus_gram_protocol_unpack_job_request_reply True True (\<lambda>_. True) (Some (m @ [NUL]))
            (int (length m + 1))
          = Some (GLOBUS_SUCCESS, Some (status, contact))))
   \<and> (status_valid (status, failure, job_failure) \<longrightarrow>
      (\<exists>m. globus_gram_protocol_pack_status_reply True status failure job_failure
          = Some (GLOBUS_SUCCESS, Some (m, length m + 1))
        \<and> globus_gram_protocol_unpack_status_reply True (Some (m @ [NUL]))
          = Some (GLOBUS_SUCCESS, [status, failure, job_failure])))
   \<and> (update_valid (c, status, failure) \<longrightarrow>
      (\<exists>m. globus_gram_protocol_pack_status_update_message True (Some c) status failure
          = Some (GLOBUS_SUCCESS, Some (m, length m + 1))
        \<and> globus_gram_protocol_unpack_status_update_message True True (\<lambda>_. True) True (Some (m @ [NUL]))
            (int (length m + 1))
          = Some (GLOBUS_SUCCESS, Some (Some c, status, failure))))"
proof (intro conjI impI)
  assume "reply_valid (status, contact)"
  then show "\<exists>m. globus_gram_protocol_pack_job_request_reply True status contact
        = Some (GLOBUS_SUCCESS, Some (m, length m + 1))
      \<and> globus_gram_protocol_unpack_job_request_reply True True (\<lambda>_. True) (Some (m @ [NUL])) (int (length m + 1))
        = Some (GLOBUS_SUCCESS, Some (status, contact))"
    by (auto simp: reply_valid_def pack_reply_eq unpack_reply_eq [simplified] reply_fits)
next
  assume "status_valid (status, failure, job_failure)"
  then show "\<exists>m. globus_gram_protocol_pack_status_reply True status failure job_failure
        = Some (GLOBUS_SUCCESS, Some (m, length m + 1))
      \<and> globus_gram_protocol_unpack_status_reply True (Some (m @ [NUL]))
        = Some (GLOBUS_SUCCESS, [status, failure, job_failure])"
    by (simp add: status_valid_def pack_status_reply_eq unpack_status_reply_eq)
next
  assume "update_valid (c, status, failure)"
  then show "\<exists>m. globus_gram_protocol_pack_status_update_message True (Some c) status failure
        = Some (GLOBUS_SUCCESS, Some (m, length m + 1))
      \<and> globus_gram_protocol_unpack_status_update_message True True (\<lambda>_. True) True (Some (m @ [NUL]))
          (int (length m + 1))
        = Some (GLOBUS_SUCCESS, Some (Some c, status, failure))"
    by (simp add: update_valid_def pack_update_eq unpack_update_eq [simplified])
qed

lemma sample_codes [simp]: "int_range 4" "int_range 0" "length (print_int 4) = 1" "length (print_int 0) = 1"
  by (simp_all add: int_range_def print_int_def digits.simps)

lemma sample_contact [simp]: "plain_value ''https://h:2119/1/''"
  by (simp add: plain_value_def c_string_def NUL_def CR_def)

lemma gram_replies_witness:
  "(\<exists>m. globus_gram_protocol_pack_status_update_message True (Some ''https://h:2119/1/'') 4 0
        = Some (GLOBUS_SUCCESS, Some (m, length m + 1))
      \<and> globus_gram_protocol_unpack_status_update_message True True (\<lambda>_. True) True (Some (m @ [NUL]))
          (int (length m + 1))
        = Some (GLOBUS_SUCCESS, Some (Some ''https://h:2119/1/'', 4, 0)))
   \<and> (\<exists>m. globus_gram_protocol_pack_status_reply True 4 0 0
        = Some (GLOBUS_SUCCESS, Some (m, length m + 1))
      \<and> globus_gram_protocol_unpack_status_reply True (Some (m @ [NUL]))
        = Some (GLOBUS_SUCCESS, [4, 0, 0]))
   \<and> (\<exists>m. globus_gram_protocol_pack_job_request_reply True 4 None
        = Some (GLOBUS_SUCCESS, Some (m, length m + 1))
      \<and> globus_gram_protocol_unpack_job_request_reply True True (\<lambda>_. True) (Some (m @ [NUL])) (int (length m + 1))
        = Some (GLOBUS_SUCCESS, Some (4, None)))"
  using gram_replies_roundtrip [of 4 None 0 0 "''https://h:2119/1/''"]
  by (simp add: reply_valid_def status_valid_def update_valid_def sendable_def)

text \<open>
  A status request (a query such as \<open>status\<close>, \<open>cancel\<close> or \<open>signal 3 ...\<close>) survives the wire whatever
  characters it contains: packing stays inside its buffer, unpacking stays inside the message and the
  copy it allocated, and returns the request; the quoted form of a string has at most twice its
  characters and the two quotes.
\<close>

theorem gram_status_request_roundtrip:
  assumes "c_string r" and "2 * length r < 2 ^ 64 - 32"
  shows "\<exists>m. globus_gram_protocol_pack_status_request True (Some r)
        = Some (GLOBUS_SUCCESS, Some (m, length m + 1))
      \<and> globus_gram_protocol_unpack_status_request True True (Some (m @ [NUL])) (int (length m + 1))
        = Some (GLOBUS_SUCCESS, Some r)
      \<and> length (globus_l_gram_protocol_quote_string r) \<le> 2 * length r + 2"
proof -
  let ?m = "line ''protocol-version'' ''2'' @ globus_l_gram_protocol_quote_string r @ CRLF"
  have "length ?m < 2 ^ 64 - 1"
    using assms(2) length_escape(1) [of r] by (simp add: length_line length_quote line_lengths)
  then show ?thesis
    using unpack_status_request_eq [OF assms(1)] length_escape(1) [of r]
    by (intro exI [of _ ?m] conjI) (simp_all add: pack_status_request_eq length_quote)
qed

lemma gram_status_request_witness:
  "\<exists>m. globus_gram_protocol_pack_status_request True (Some [CHR 0x22, CHR 0x5C])
        = Some (GLOBUS_SUCCESS, Some (m, length m + 1))
      \<and> globus_gram_protocol_unpack_status_request True True (Some (m @ [NUL])) (int (length m + 1))
        = Some (GLOBUS_SUCCESS, Some [CHR 0x22, CHR 0x5C])"
  using gram_status_request_roundtrip [of "[CHR 0x22, CHR 0x5C]"]
  by (auto simp: c_string_def NUL_def)

text \<open>
  C13. The exact bounds of the message buffers. A job request with a 32-bit mask always fits. A reply
  with a contact fits exactly when its code prints in at most seven characters, a status reply exactly
  when its three codes print in at most ten, a status update exactly when its two codes print in at most
  eleven; beyond that the \<open>sprintf\<close> writes past the allocation. Job states and error codes between 0 and
  999 always fit.
\<close>

theorem gram_pack_buffers:
  "(int_range msk \<longrightarrow> globus_gram_protocol_pack_job_request True True msk url (Some rsl) \<noteq> None)
   \<and> (globus_gram_protocol_pack_job_request_reply True status (Some c) \<noteq> None
        \<longleftrightarrow> length (print_int status) \<le> 7)
   \<and> (globus_gram_protocol_pack_status_reply True status failure job_failure \<noteq> None
        \<longleftrightarrow> length (print_int status) + length (print_int failure) + length (print_int job_failure) \<le> 10)
   \<and> (globus_gram_protocol_pack_status_update_message True (Some c) status failure \<noteq> None
        \<longleftrightarrow> length (print_int status) + length (print_int failure) \<le> 11)
   \<and> (set [status, failure, job_failure] \<subseteq> {0..999} \<longrightarrow>
        globus_gram_protocol_pack_job_request_reply True status (Some c) \<noteq> None
        \<and> globus_gram_protocol_pack_status_reply True status failure job_failure \<noteq> None
        \<and> globus_gram_protocol_pack_status_update_message True (Some c) status failure \<noteq> None)"
  using length_print_small [of status] length_print_small [of failure] length_print_small [of job_failure]
  by (auto simp: pack_job_request_eq pack_reply_eq pack_status_reply_eq pack_update_eq)

lemma gram_pack_buffers_witness:
  "globus_gram_protocol_pack_job_request True True 4 None (Some ''x'') \<noteq> None
   \<and> globus_gram_protocol_pack_status_reply True 4 135 999 \<noteq> None"
proof -
  have "set [4, 135, 999] \<subseteq> {0..999::int}" and "int_range 4" by simp_all
  then show ?thesis
    using gram_pack_buffers [of 4 None "''x''" 4 "''c''" 135 999] by blast
qed

text \<open>
  The exact bounds of the buffers of messages with extensions. The space computed for an extension
  is the attribute, twice the value and four bytes, but the quotes, the separator and the line end need
  six: a status update is packed inside its buffer exactly when the quoted values, escapes and quotes
  included, are together at most twice as long as the values, a status reply or a job request reply
  when the excess is covered by the space the codes leave. One extension whose value is a single
  character, such as an exit code, overruns the buffer of a status update.
\<close>

theorem gram_extension_buffers:
  "(globus_gram_protocol_pack_status_update_message_with_extensions True True True (Some c) status failure
      (Some (map ext avs)) \<noteq> None \<longleftrightarrow> quote_need avs \<le> quote_room avs)
   \<and> (globus_gram_protocol_pack_status_reply_with_extensions True True status failure job_failure
      (Some (map ext avs)) \<noteq> None \<longleftrightarrow>
        length (print_int status) + length (print_int failure) + length (print_int job_failure)
          + quote_need avs \<le> 10 + quote_room avs)
   \<and> (globus_gram_protocol_pack_job_request_reply_with_extensions True True status (Some c)
      (Some (map ext avs)) \<noteq> None \<longleftrightarrow> length (print_int status) + quote_need avs \<le> 8 + quote_room avs)
   \<and> globus_gram_protocol_pack_status_update_message_with_extensions True True True (Some c) status failure
      (Some [ext (''exit-code'', ''0'')]) = None"
  using pack_update_ext_eq [of c status failure "[(''exit-code'', ''0'')]"]
  by (simp add: pack_update_ext_eq pack_status_reply_ext_eq pack_reply_ext_eq quote_need_def quote_room_def)



text \<open>
  C15. What a parsed job request must contain. When the message parses into the attribute table
  \<open>attrs\<close>, \<open>globus_gram_protocol_unpack_job_request\<close> answers \<open>HTTP_UNPACK_FAILED\<close> if the protocol version is
  missing, \<open>VERSION_MISMATCH\<close> if it is not 2, \<open>HTTP_UNPACK_FAILED\<close> if the mask, the callback URL or the RSL is
  missing, and otherwise success with the values of those attributes.
\<close>

theorem gram_job_request_errors:
  assumes "globus_gram_protocol_unpack_message True mem (Some q) n = Some (GLOBUS_SUCCESS, Some attrs)"
  shows "\<exists>out. globus_gram_protocol_unpack_job_request True mem (\<lambda>_. True) (Some q) n = Some (
      (case attrs ''protocol-version'' of
         None \<Rightarrow> GLOBUS_GRAM_PROTOCOL_ERROR_HTTP_UNPACK_FAILED
       | Some v \<Rightarrow>
           if atoi v \<noteq> GLOBUS_GRAM_PROTOCOL_VERSION then GLOBUS_GRAM_PROTOCOL_ERROR_VERSION_MISMATCH
           else if attrs ''job-state-mask'' = None \<or> attrs ''callback-url'' = None \<or> attrs ''rsl'' = None
           then GLOBUS_GRAM_PROTOCOL_ERROR_HTTP_UNPACK_FAILED
           else GLOBUS_SUCCESS), Some out)
    \<and> (attrs ''rsl'' \<noteq> None \<and> attrs ''callback-url'' \<noteq> None \<and> attrs ''job-state-mask'' \<noteq> None
        \<and> map_option atoi (attrs ''protocol-version'') = Some GLOBUS_GRAM_PROTOCOL_VERSION \<longrightarrow>
        out = (atoi (the (attrs ''job-state-mask'')),
               if attrs ''callback-url'' = Some [] then None else attrs ''callback-url'', attrs ''rsl''))"
proof (cases "attrs ''protocol-version''")
  case None
  then show ?thesis
    using assms by (simp add: globus_gram_protocol_unpack_job_request_def attribute_defs)
next
  case (Some v)
  show ?thesis
  proof (cases "atoi v = GLOBUS_GRAM_PROTOCOL_VERSION")
    case True
    then show ?thesis
      using assms Some by (cases "attrs ''job-state-mask''"; cases "attrs ''callback-url''"; cases "attrs ''rsl''")
        (simp_all add: globus_gram_protocol_unpack_job_request_def attribute_defs)
  next
    case False
    then show ?thesis
      using assms Some by (simp add: globus_gram_protocol_unpack_job_request_def attribute_defs)
  qed
qed

definition sample_attrs :: attributes where
  "sample_attrs = [''protocol-version'' \<mapsto> ''3'']"

lemma gram_job_request_errors_witness:
  "\<exists>out. globus_gram_protocol_unpack_job_request True True (\<lambda>_. True)
      (Some (message [(''protocol-version'', ''3'', ''3'')] @ [NUL]))
      (int (length (message [(''protocol-version'', ''3'', ''3'')])) + 1)
    = Some (GLOBUS_GRAM_PROTOCOL_ERROR_VERSION_MISMATCH, Some out)"
proof -
  have "encodes ''3'' ''3''"
    by (simp add: encodes_def plain_value_def c_string_def NUL_def CR_def)
  then have "globus_gram_protocol_unpack_message True True
      (Some (message [(''protocol-version'', ''3'', ''3'')] @ [NUL]))
      (int (length (message [(''protocol-version'', ''3'', ''3'')])) + 1) = Some (GLOBUS_SUCCESS, Some sample_attrs)"
    by (subst unpack_message_lines)
      (auto simp: line_ok_def field_values_def sample_attrs_def simp del: message_simps)
  moreover have "atoi ''3'' \<noteq> GLOBUS_GRAM_PROTOCOL_VERSION" by code_simp
  ultimately show ?thesis
    using gram_job_request_errors [of True "message [(''protocol-version'', ''3'', ''3'')] @ [NUL]"
        "int (length (message [(''protocol-version'', ''3'', ''3'')])) + 1" sample_attrs]
    by (auto simp: sample_attrs_def simp del: message_simps)
qed

text \<open>
  Extensions survive the wire. When the extensions fit their buffer, have names without a colon
  that differ from each other and from the four standard attributes, and values without NUL,
  \<open>globus_gram_protocol_unpack_status_update_message_with_extensions\<close> of the packed status update
  succeeds and its table holds the value of every extension, unescaped, next to the job contact and
  the two codes.
\<close>

theorem gram_update_extensions_roundtrip:
  assumes "plain_value c" and "int_range failure" and "quote_need avs \<le> quote_room avs"
    and "\<forall>(a, v) \<in> set avs. attr_name a \<and> c_string v" and "distinct (map fst avs)"
    and "set (map fst avs) \<inter> {''protocol-version'', ''job-manager-url'', ''status'', ''failure-code''} = {}"
  shows "\<exists>m table text.
      globus_gram_protocol_pack_status_update_message_with_extensions True True True (Some c) status failure
        (Some (map ext avs)) = Some (GLOBUS_SUCCESS, Some (m, length m + 1))
    \<and> globus_gram_protocol_unpack_status_update_message_with_extensions True True (\<lambda>_. True) True
        (Some (m @ [NUL])) (int (length m + 1)) = Some (GLOBUS_SUCCESS, Some table, text)
    \<and> (\<forall>(a, v) \<in> set avs. table a = Some v) \<and> table ''job-manager-url'' = Some c
    \<and> table ''status'' = Some (print_int status) \<and> table ''failure-code'' = Some (print_int failure)"
proof -
  let ?xs = "update_lines c status failure @ ext_lines avs"
  let ?t = "field_values ?xs"
  have ok: "list_all line_ok ?xs"
    using assms(1,4) by (simp add: lines_ok ext_lines_ok)
  have std: "?t ''protocol-version'' = Some ''2''" "?t ''job-manager-url'' = Some c"
    "?t ''status'' = Some (print_int status)" "?t ''failure-code'' = Some (print_int failure)"
    by (simp_all add: field_values_def update_lines_def)
  have exts: "\<forall>(a, v) \<in> set avs. ?t a = Some v"
    using ext_values [OF _ assms(5,6)] by blast
  have opt: "\<exists>v. optional_attribute (\<lambda>_. True) ?t a = Some v" for a
    by (auto simp: optional_attribute_def attribute_defs split: option.splits)
  obtain o1 o2 o3 o4 where o:
    "optional_attribute (\<lambda>_. True) ?t ''gt3-failure-type'' = Some o1"
    "optional_attribute (\<lambda>_. True) ?t ''gt3-failure-message'' = Some o2"
    "optional_attribute (\<lambda>_. True) ?t ''gt3-failure-source'' = Some o3"
    "optional_attribute (\<lambda>_. True) ?t ''gt3-failure-destination'' = Some o4"
    using opt by metis
  have unpack: "globus_gram_protocol_unpack_message True True (Some (message ?xs @ [NUL]))
      (int (length (message ?xs) + 1)) = Some (GLOBUS_SUCCESS, Some ?t)"
    by (rule unpack_message_lines [OF ok]) simp
  have "\<exists>text. globus_gram_protocol_unpack_status_update_message_with_extensions True True (\<lambda>_. True) True
      (Some (message ?xs @ [NUL])) (int (length (message ?xs) + 1)) = Some (GLOBUS_SUCCESS, Some ?t, text)"
    unfolding globus_gram_protocol_unpack_status_update_message_with_extensions_def unpack
    using std by (simp add: attribute_defs o)
  then show ?thesis
    using pack_update_ext_eq [of c status failure avs] assms(3) exts std
    by (intro exI [of _ "message ?xs"] exI [of _ ?t]) (auto simp del: message_simps)
qed

lemma gram_update_extensions_witness:
  "\<exists>m table text.
      globus_gram_protocol_pack_status_update_message_with_extensions True True True
        (Some ''https://h:2119/1/'') 4 0 (Some [ext (''version'', [CHR 0x22, CHR ''5'', CHR ''2''])])
        = Some (GLOBUS_SUCCESS, Some (m, length m + 1))
    \<and> globus_gram_protocol_unpack_status_update_message_with_extensions True True (\<lambda>_. True) True
        (Some (m @ [NUL])) (int (length m + 1)) = Some (GLOBUS_SUCCESS, Some table, text)
    \<and> table ''version'' = Some [CHR 0x22, CHR ''5'', CHR ''2'']"
  using gram_update_extensions_roundtrip [of "''https://h:2119/1/''" 0
      "[(''version'', [CHR 0x22, CHR ''5'', CHR ''2''])]" 4]
  by (auto simp: quote_need_def quote_room_def attr_name_def c_string_def NUL_def)

end
