(* ===== verification/C_Scan.thy ===== *)
theory C_Scan
  imports C_String
begin

text \<open>
  \<open>sscanf\<close> with the conversions that the message framing and the FTP libraries use: \<open>%s\<close>, \<open>%d\<close>, \<open>%ld\<close>
  and \<open>%lld\<close> with an optional field width, \<open>%[^...]\<close> and \<open>%n\<close>. A format string of the
  source is first read into directives. The result is the list of the values assigned; a call that
  reports the end of input (\<open>EOF\<close>) has assigned none, which the callers do not tell apart. A string
  that is stored needs room for itself and its terminator, which the callers' buffers are checked for.
\<close>

named_theorems scan_simps \<open>evaluation of scan formats\<close>

section \<open>Directives\<close>

datatype directive =
    White
  | Lit char
  | Conv_int "nat option" bool
  | Conv_str
  | Conv_except string
  | Conv_pos

function (sequential) directives :: "string \<Rightarrow> directive list" where
  "directives [] = []"
| "directives (c # cs) =
     (if isspace c then White # directives (dropWhile isspace cs)
      else if c \<noteq> CHR ''%'' then Lit c # directives cs
      else case cs of
        [] \<Rightarrow> []
      | d # ds \<Rightarrow>
          if d = CHR ''s'' then Conv_str # directives ds
          else if d = CHR ''n'' then Conv_pos # directives ds
          else if d = CHR ''['' then
            (case ds of [] \<Rightarrow> [] | _ # es \<Rightarrow>
               Conv_except (takeWhile (\<lambda>x. x \<noteq> CHR '']'') es) # directives (tl (dropWhile (\<lambda>x. x \<noteq> CHR '']'') es)))
          else if isdigit d then
            (case ds of [] \<Rightarrow> [] | _ # es \<Rightarrow> Conv_int (Some (of_char d - 48)) False # directives es)
          else if d = CHR ''l'' then Conv_int None True # directives (tl (dropWhile (\<lambda>x. x = CHR ''l'') ds))
          else Conv_int None False # directives ds)"
  by pat_completeness auto

lemma length_dropWhile_tl: "length (dropWhile P xs) - Suc 0 \<le> length xs"
  using length_dropWhile_le [of P xs] by simp

termination directives
  by (relation "measure length")
    (auto simp: less_Suc_eq_le intro!: length_dropWhile_le length_dropWhile_tl le_SucI)

declare directives.simps [simp del]

section \<open>Scanning\<close>

datatype scan_val = Int_val int | Str_val string | Pos_val nat

text \<open>A number of at most \<open>w\<close> characters.\<close>

definition read_int_width :: "nat option \<Rightarrow> string \<Rightarrow> (int \<times> string) option" where
  "read_int_width w s =
     (case w of
        None \<Rightarrow> read_int s
      | Some n \<Rightarrow>
          (let t = dropWhile isspace s
           in case read_int (take n t) of None \<Rightarrow> None | Some (i, r) \<Rightarrow> Some (i, r @ drop n t)))"

fun scan :: "directive list \<Rightarrow> string \<Rightarrow> nat \<Rightarrow> scan_val list" where
  "scan [] s n = []"
| "scan (White # ds) s n = scan ds (dropWhile isspace s) (n + length (takeWhile isspace s))"
| "scan (Lit c # ds) s n = (case s of [] \<Rightarrow> [] | d # t \<Rightarrow> if d = c then scan ds t (Suc n) else [])"
| "scan (Conv_int w long # ds) s n =
     (case read_int_width w s of
        None \<Rightarrow> []
      | Some (i, r) \<Rightarrow> Int_val (if long then clamp_long i else wrap_s 32 (clamp_long i))
          # scan ds r (n + (length s - length r)))"
| "scan (Conv_str # ds) s n =
     (let t = dropWhile isspace s; u = takeWhile (\<lambda>x. \<not> isspace x) t
      in if u = [] then []
         else Str_val u # scan ds (drop (length u) t) (n + (length s - length t) + length u))"
| "scan (Conv_except cs # ds) s n =
     (let u = takeWhile (\<lambda>x. x \<notin> set cs) s
      in if u = [] then [] else Str_val u # scan ds (drop (length u) s) (n + length u))"
| "scan (Conv_pos # ds) s n = Pos_val n # scan ds s n"

definition sscanf :: "string \<Rightarrow> string \<Rightarrow> scan_val list" where
  "sscanf s f = scan (directives f) s 0"

text \<open>The C string in a buffer, and the first position of a substring.\<close>

definition c_str :: "string \<Rightarrow> string" where
  "c_str b = takeWhile (\<lambda>x. x \<noteq> NUL) b"

section \<open>Facts\<close>

lemma scan_lits [scan_simps]: "scan (map Lit l @ ds) (l @ s) n = scan ds s (n + length l)"
  by (induction l arbitrary: n) auto

lemma scan_str [scan_simps]:
  assumes "u \<noteq> []" and "\<forall>x \<in> set u. \<not> isspace x" and "s = [] \<or> isspace (hd s)"
  shows "scan (Conv_str # ds) (u @ s) n = Str_val u # scan ds s (n + length u)"
proof -
  have "dropWhile isspace (u @ s) = u @ s" using assms(1,2) by (cases u) auto
  moreover have "takeWhile (\<lambda>x. \<not> isspace x) (u @ s) = u"
    using assms(2,3) by (cases s) (auto simp: takeWhile_append)
  ultimately show ?thesis using assms(1) by (simp add: Let_def)
qed

lemma scan_long [scan_simps]:
  assumes "rest = [] \<or> \<not> isdigit (hd rest)" and "- (2 ^ 63) \<le> i" and "i < 2 ^ 63"
  shows "scan (Conv_int None True # ds) (print_int i @ rest) n
    = Int_val i # scan ds rest (n + length (print_int i))"
  using read_print_int [OF assms(1), of i] assms(2,3)
  by (simp add: read_int_width_def clamp_long_def)

lemma scan_white [scan_simps]:
  assumes "\<forall>x \<in> set w. isspace x" and "s = [] \<or> \<not> isspace (hd s)"
  shows "scan (White # ds) (w @ s) n = scan ds s (n + length w)"
proof -
  have "dropWhile isspace (w @ s) = s" "takeWhile isspace (w @ s) = w"
    using assms by (cases s; auto simp: dropWhile_append takeWhile_append)+
  then show ?thesis by simp
qed

lemma scan_except [scan_simps]:
  assumes "u \<noteq> []" and "set u \<inter> set cs = {}" and "s = [] \<or> hd s \<in> set cs"
  shows "scan (Conv_except cs # ds) (u @ s) n = Str_val u # scan ds s (n + length u)"
proof -
  have "takeWhile (\<lambda>x. x \<notin> set cs) (u @ s) = u"
    using assms(2,3) by (cases s) (auto simp: takeWhile_append)
  then show ?thesis using assms(1) by (simp add: Let_def)
qed

text \<open>Every string that is assigned is a part of the input.\<close>

lemma read_digits_rest: "snd (read_digits a t) = dropWhile isdigit t"
  by (induction a t rule: read_digits.induct) auto

lemma read_int_rest: "read_int s = Some (i, r) \<Longrightarrow> length r \<le> length s"
proof -
  have "length (snd (read_digits 0 u)) \<le> length u" for u
    by (simp add: read_digits_rest length_dropWhile_le)
  moreover assume "read_int s = Some (i, r)"
  then obtain u where "r = snd (read_digits 0 u)" "u = dropWhile isspace s \<or> u = tl (dropWhile isspace s)"
    by (auto simp: read_int_def Let_def split: if_splits prod.splits) (metis snd_conv)+
  ultimately show ?thesis
    using length_dropWhile_le [of isspace s] by (metis diff_le_self dual_order.trans length_tl)
qed

lemma read_int_width_rest: "read_int_width w s = Some (i, r) \<Longrightarrow> length r \<le> length s"
  using length_dropWhile_le [of isspace s]
  by (fastforce simp: read_int_width_def Let_def split: option.splits dest: read_int_rest)

lemma scan_str_length: "Str_val u \<in> set (scan ds s n) \<Longrightarrow> length u \<le> length s"
proof (induction ds s n rule: scan.induct)
  case (2 ds s n)
  then show ?case using length_dropWhile_le [of isspace s] by simp
next
  case (3 c ds s n)
  then show ?case by (auto split: list.splits if_splits)
next
  case (4 w long ds s n)
  then show ?case
    by (cases "read_int_width w s") (fastforce dest: read_int_width_rest)+
next
  case (5 ds s n)
  then show ?case
    using length_dropWhile_le [of isspace s] length_takeWhile_le [of "\<lambda>x. \<not> isspace x" "dropWhile isspace s"]
    by (fastforce simp: Let_def split: if_splits)
next
  case (6 cs ds s n)
  then show ?case
    using length_takeWhile_le [of "\<lambda>x. x \<notin> set cs" s] by (fastforce simp: Let_def split: if_splits)
qed auto

end
