(* ===== verification/Gram_Frame.thy ===== *)
theory Gram_Frame
  imports C_Scan Globus_Url_Contract Gram_Protocol
begin

text \<open>
  Framing of GRAM messages in HTTP (\<open>gram/protocol/source/globus_gram_protocol_frame.c\<close>) and the two
  read callbacks that take the frames apart (\<open>globus_gram_protocol_io.c\<close>).

  \<open>globus_gram_protocol_frame_request\<close> and \<open>globus_gram_protocol_frame_reply\<close> write into a buffer of the
  size they computed; \<open>None\<close> is a write outside it, or a NULL host. A connection is a record with its
  buffer as the list of its bytes; each call of a read callback is a step on it, given what the
  network delivered. Shown: frames are parsed back, which frames fit their buffers, when a request is
  delivered to the job manager's callback, and when the callbacks write outside the buffer.
\<close>

section \<open>Constants\<close>

definition GLOBUS_GRAM_PROTOCOL_ERROR_AUTHORIZATION :: int where
  "GLOBUS_GRAM_PROTOCOL_ERROR_AUTHORIZATION = 7"

definition GLOBUS_GRAM_PROTOCOL_ERROR_PROTOCOL_FAILED :: int where
  "GLOBUS_GRAM_PROTOCOL_ERROR_PROTOCOL_FAILED = 10"

definition GLOBUS_GRAM_PROTOCOL_ERROR_GATEKEEPER_MISCONFIGURED :: int where
  "GLOBUS_GRAM_PROTOCOL_ERROR_GATEKEEPER_MISCONFIGURED = 47"

definition GLOBUS_GRAM_PROTOCOL_ERROR_INVALID_JOB_CONTACT :: int where
  "GLOBUS_GRAM_PROTOCOL_ERROR_INVALID_JOB_CONTACT = 80"

definition GLOBUS_GRAM_PROTOCOL_ERROR_HTTP_UNFRAME_FAILED :: int where
  "GLOBUS_GRAM_PROTOCOL_ERROR_HTTP_UNFRAME_FAILED = 89"

definition GLOBUS_GRAM_PROTOCOL_ERROR_SERVICE_NOT_FOUND :: int where
  "GLOBUS_GRAM_PROTOCOL_ERROR_SERVICE_NOT_FOUND = 93"

definition GLOBUS_GRAM_PROTOCOL_MAX_MSG_SIZE :: nat where
  "GLOBUS_GRAM_PROTOCOL_MAX_MSG_SIZE = 64000"

lemmas frame_codes =
  GLOBUS_SUCCESS_def GLOBUS_GRAM_PROTOCOL_ERROR_AUTHORIZATION_def
  GLOBUS_GRAM_PROTOCOL_ERROR_PROTOCOL_FAILED_def GLOBUS_GRAM_PROTOCOL_ERROR_GATEKEEPER_MISCONFIGURED_def
  GLOBUS_GRAM_PROTOCOL_ERROR_INVALID_JOB_CONTACT_def GLOBUS_GRAM_PROTOCOL_ERROR_HTTP_UNFRAME_FAILED_def
  GLOBUS_GRAM_PROTOCOL_ERROR_SERVICE_NOT_FOUND_def

definition GLOBUS_GRAM_HTTP_REQUEST_LINE :: string where
  "GLOBUS_GRAM_HTTP_REQUEST_LINE = ''POST %s HTTP/1.1'' @ CRLF"

definition GLOBUS_GRAM_HTTP_HOST_LINE :: string where
  "GLOBUS_GRAM_HTTP_HOST_LINE = ''Host: %s'' @ CRLF"

definition GLOBUS_GRAM_HTTP_CONTENT_TYPE_LINE :: string where
  "GLOBUS_GRAM_HTTP_CONTENT_TYPE_LINE = ''Content-Type: application/x-globus-gram'' @ CRLF"

definition GLOBUS_GRAM_HTTP_CONTENT_LENGTH_LINE :: string where
  "GLOBUS_GRAM_HTTP_CONTENT_LENGTH_LINE = ''Content-Length: %ld'' @ CRLF"

definition GLOBUS_GRAM_HTTP_REPLY_LINE :: string where
  "GLOBUS_GRAM_HTTP_REPLY_LINE = ''HTTP/1.1 %3d %s'' @ CRLF"

definition GLOBUS_GRAM_HTTP_PARSE_REPLY_LINE :: string where
  "GLOBUS_GRAM_HTTP_PARSE_REPLY_LINE = ''HTTP/1.1 %3d %[^'' @ CRLF @ '']'' @ CRLF"

definition GLOBUS_GRAM_HTTP_CONNECTION_LINE :: string where
  "GLOBUS_GRAM_HTTP_CONNECTION_LINE = ''Connection: Close'' @ CRLF"

lemmas frame_lines =
  GLOBUS_GRAM_HTTP_REQUEST_LINE_def GLOBUS_GRAM_HTTP_HOST_LINE_def GLOBUS_GRAM_HTTP_CONTENT_TYPE_LINE_def
  GLOBUS_GRAM_HTTP_CONTENT_LENGTH_LINE_def GLOBUS_GRAM_HTTP_REPLY_LINE_def
  GLOBUS_GRAM_HTTP_PARSE_REPLY_LINE_def GLOBUS_GRAM_HTTP_CONNECTION_LINE_def

section \<open>Framing\<close>

text \<open>The conversion \<open>%3d\<close>: at least three characters, padded with spaces on the left.\<close>

definition print_width3 :: "int \<Rightarrow> string" where
  "print_width3 i = replicate (3 - length (print_int i)) (CHR '' '') @ print_int i"

text \<open>The results of \<open>sprintf\<close> on the lines; \<open>%ld\<close> prints a \<open>long\<close>.\<close>

definition put_request_line :: "string \<Rightarrow> string" where
  "put_request_line path = ''POST '' @ path @ '' HTTP/1.1'' @ CRLF"

definition put_host_line :: "string \<Rightarrow> string" where
  "put_host_line host = ''Host: '' @ host @ CRLF"

definition put_content_length_line :: "int \<Rightarrow> string" where
  "put_content_length_line n = ''Content-Length: '' @ print_int n @ CRLF"

definition put_reply_line :: "int \<Rightarrow> string \<Rightarrow> string" where
  "put_reply_line code reason = ''HTTP/1.1 '' @ print_width3 code @ '' '' @ reason @ CRLF"

text \<open>The digits of a size (the do-while loop).\<close>

fun count_digits :: "nat \<Rightarrow> nat" where
  "count_digits tmp = (if tmp div 10 > 0 then Suc (count_digits (tmp div 10)) else 1)"

declare count_digits.simps [simp del]

text \<open>\<open>memcpy\<close> into the rest of a buffer of \<open>cap\<close> bytes; no terminator is written.\<close>

definition buf_copy :: "nat \<Rightarrow> string \<Rightarrow> string \<Rightarrow> string option" where
  "buf_copy cap out s = (if length out + length s \<le> cap then Some (out @ s) else None)"

text \<open>
  \<open>globus_gram_protocol_frame_request\<close>: \<open>room\<close> is the memory for the URL. The size of the message is a
  \<open>long\<close> when it is printed.
\<close>

definition globus_gram_protocol_frame_request ::
  "nat \<Rightarrow> string \<Rightarrow> string \<Rightarrow> (int \<times> string option) option" where
  "globus_gram_protocol_frame_request room url msg =
     do {
       (rc, parsed) \<leftarrow> globus_url_parse room (Some url) (Some url_zero);
       if rc \<noteq> GLOBUS_SUCCESS then Some (GLOBUS_GRAM_PROTOCOL_ERROR_INVALID_JOB_CONTACT, None)
       else do {
         u \<leftarrow> parsed;
         case u_url_path u of
           None \<Rightarrow> Some (GLOBUS_GRAM_PROTOCOL_ERROR_INVALID_JOB_CONTACT, None)
         | Some path \<Rightarrow> do {
             host \<leftarrow> u_host u;
             let msgsize = length msg;
                 framedlen = length GLOBUS_GRAM_HTTP_REQUEST_LINE + length path
                   + length GLOBUS_GRAM_HTTP_HOST_LINE + length host
                   + length GLOBUS_GRAM_HTTP_CONTENT_TYPE_LINE + length GLOBUS_GRAM_HTTP_CONTENT_LENGTH_LINE
                   + count_digits msgsize + 2 + msgsize;
                 cap = framedlen + 1
             in do {
               b1 \<leftarrow> buf_put cap [] (put_request_line path);
               b2 \<leftarrow> buf_put cap b1 (put_host_line host);
               b3 \<leftarrow> buf_put cap b2 GLOBUS_GRAM_HTTP_CONTENT_TYPE_LINE;
               b4 \<leftarrow> buf_put cap b3 (put_content_length_line (wrap_s 64 (int msgsize)));
               b5 \<leftarrow> buf_put cap b4 CRLF;
               b6 \<leftarrow> buf_copy cap b5 msg;
               Some (GLOBUS_SUCCESS, Some b6) } } } }"



section \<open>Parsing of headers\<close>

text \<open>A \<open>long\<close> assigned to a \<open>globus_size_t\<close>.\<close>

definition size_of_long :: "int \<Rightarrow> nat" where
  "size_of_long tmp = nat (tmp mod 2 ^ 64)"

text \<open>
  \<open>globus_l_gram_protocol_parse_request_header\<close>: the strings are stored in buffers as long as the input.
\<close>

definition strings_fit :: "nat \<Rightarrow> scan_val list \<Rightarrow> bool" where
  "strings_fit cap vals \<longleftrightarrow> list_all (\<lambda>v. case v of Str_val u \<Rightarrow> length u < cap | _ \<Rightarrow> True) vals"

definition globus_l_gram_protocol_parse_request_header :: "string \<Rightarrow> (int \<times> nat \<times> string option) option" where
  "globus_l_gram_protocol_parse_request_header buf =
     (let s = c_str buf;
          vals = sscanf s (GLOBUS_GRAM_HTTP_REQUEST_LINE @ GLOBUS_GRAM_HTTP_HOST_LINE @
            GLOBUS_GRAM_HTTP_CONTENT_TYPE_LINE @ GLOBUS_GRAM_HTTP_CONTENT_LENGTH_LINE @ CRLF)
      in if \<not> strings_fit (length s) vals then None
         else Some (case vals of
             [Str_val tmp_uri, Str_val host, Int_val tmp] \<Rightarrow> (GLOBUS_SUCCESS, size_of_long tmp, Some tmp_uri)
           | _ \<Rightarrow> (GLOBUS_GRAM_PROTOCOL_ERROR_PROTOCOL_FAILED, 0, None)))"


section \<open>Reading\<close>

text \<open>
  The members of a connection that the read callbacks use. \<open>buf\<close> (\<open>replybuf\<close> for a reply) is the list of
  all bytes of the buffer, so its length is \<open>bufsize\<close>.
\<close>

record connection =
  got_header :: bool
  cbuf :: string
  payload_length :: nat
  n_read :: nat
  conn_rc :: int
  conn_uri :: "string option"
  keep_open :: bool

text \<open>What the I/O library reports: the result and the bytes that were read.\<close>

datatype io_result = Io_success | Io_eof | Io_error

record read_event =
  ev_result :: io_result
  ev_bytes :: string
  ev_reregister :: bool

text \<open>
  What a callback leads to: it waits for more data, closes the connection, hands the request or the
  reply to the user's callback, or starts the delegation of a credential.
\<close>

datatype read_outcome =
    Waiting
  | Closing
  | Request string "string option"
  | Reply string int
  | Delegating

text \<open>Writing bytes at a position of a buffer; outside it is a fault.\<close>

definition buf_write :: "string \<Rightarrow> nat \<Rightarrow> string \<Rightarrow> string option" where
  "buf_write b i s = (if i + length s \<le> length b then Some (take i b @ s @ drop (i + length s) b) else None)"

text \<open>
  The part common to both callbacks, from the arrival of \<open>nbytes\<close> bytes to the position of the blank line.
\<close>

definition take_bytes :: "read_event \<Rightarrow> connection \<Rightarrow> (connection \<times> nat option) option" where
  "take_bytes ev c =
     (let n = n_read c + length (ev_bytes ev)
      in do {
        b \<leftarrow> buf_write (cbuf c) n [NUL];
        Some (c\<lparr>n_read := n, cbuf := b\<rparr>, strstr (c_str b) (CRLF @ CRLF)) })"

text \<open>Moving the payload to the start of the buffer.\<close>

definition drop_header :: "nat \<Rightarrow> connection \<Rightarrow> connection option" where
  "drop_header p c =
     (let n = n_read c - p - 4
      in do {
        b1 \<leftarrow> buf_write (cbuf c) 0 (take n (drop (p + 4) (cbuf c)));
        b2 \<leftarrow> buf_write b1 n [NUL];
        Some (c\<lparr>cbuf := b2, n_read := n\<rparr>) })"

definition delegation_packet :: "connection \<Rightarrow> bool" where
  "delegation_packet c \<longleftrightarrow> n_read c = 0 \<and> cbuf c \<noteq> [] \<and> (hd (cbuf c) = CHR ''0'' \<or> hd (cbuf c) = CHR ''D'')"

definition reregister_read :: "read_event \<Rightarrow> connection \<Rightarrow> connection \<times> read_outcome" where
  "reregister_read ev c = (c, if ev_reregister ev then Waiting else Closing)"

text \<open>
  \<open>globus_l_gram_protocol_read_request_callback\<close>. The I/O library has stored the bytes behind the first
  \<open>n_read\<close> bytes of the buffer (\<open>ev_stored\<close>).
\<close>

definition ev_stored :: "read_event \<Rightarrow> connection \<Rightarrow> connection option" where
  "ev_stored ev c = do { b \<leftarrow> buf_write (cbuf c) (n_read c) (ev_bytes ev); Some (c\<lparr>cbuf := b\<rparr>) }"

definition request_complete :: "read_event \<Rightarrow> connection \<Rightarrow> connection \<times> read_outcome" where
  "request_complete ev c =
     (if n_read c < payload_length c then reregister_read ev c
      else (c, Request (take (payload_length c) (cbuf c)) (conn_uri c)))"

definition globus_l_gram_protocol_read_request_callback ::
  "read_event \<Rightarrow> connection \<Rightarrow> (connection \<times> read_outcome) option" where
  "globus_l_gram_protocol_read_request_callback ev c0 =
     do {
       c \<leftarrow> ev_stored ev c0;
       if ev_result ev \<noteq> Io_success \<and> (ev_result ev \<noteq> Io_eof \<or> \<not> got_header c) then Some (c, Closing)
       else if got_header c then Some (request_complete ev c)
       else if delegation_packet c then Some (reregister_read ev c)
       else do {
         (c1, p) \<leftarrow> take_bytes ev c;
         case p of
           None \<Rightarrow> Some (reregister_read ev c1)
         | Some p \<Rightarrow> do {
             (rc, len, uri) \<leftarrow> globus_l_gram_protocol_parse_request_header (cbuf c1);
             let c2 = c1\<lparr>got_header := True, payload_length := len,
                         conn_uri := (if rc = GLOBUS_SUCCESS then uri else conn_uri c1)\<rparr>
             in if rc \<noteq> GLOBUS_SUCCESS then Some (c2, Closing)
                else do { c3 \<leftarrow> drop_header p c2; Some (request_complete ev c3) } } } }"




text \<open>A sequence of reads on a connection, up to the first outcome other than waiting.\<close>

fun read_run ::
  "(read_event \<Rightarrow> connection \<Rightarrow> (connection \<times> read_outcome) option) \<Rightarrow> read_event list \<Rightarrow> connection \<Rightarrow>
   (connection \<times> read_outcome) option" where
  "read_run step [] c = Some (c, Waiting)"
| "read_run step (ev # evs) c =
     do { (c1, r) \<leftarrow> step ev c; if r = Waiting then read_run step evs c1 else Some (c1, r) }"

section \<open>Frames\<close>

definition request_header :: "string \<Rightarrow> string \<Rightarrow> nat \<Rightarrow> string" where
  "request_header path host n =
     put_request_line path @ put_host_line host @ GLOBUS_GRAM_HTTP_CONTENT_TYPE_LINE @
     put_content_length_line (int n) @ CRLF"


lemmas put_lines = put_request_line_def put_host_line_def put_content_length_line_def put_reply_line_def

lemma count_digits_length: "count_digits n = length (digits n)"
proof (induction n rule: count_digits.induct)
  case (1 n)
  then show ?case
    by (subst count_digits.simps, subst digits.simps) (auto simp: div_greater_zero_iff)
qed

lemma wrap_size: "n < 2 ^ 63 \<Longrightarrow> wrap_s 64 (int n) = int n"
  by (rule wrap_s_id) simp_all

lemma length_CRLF [simp]: "length CRLF = 2"
  by (simp add: CRLF_def)

text \<open>A buffer that is written to its end.\<close>

lemma length_print_nat [simp]: "length (print_int (int n)) = length (digits n)"
  by (simp add: print_int_def)

lemma length_lines:
  "length (put_request_line path) = length path + 16" "length (put_host_line host) = length host + 8"
  "length (put_content_length_line i) = length (print_int i) + 18"
  "length (put_reply_line code reason) = max 3 (length (print_int code)) + length reason + 12"
  "length GLOBUS_GRAM_HTTP_REQUEST_LINE = 18" "length GLOBUS_GRAM_HTTP_HOST_LINE = 10"
  "length GLOBUS_GRAM_HTTP_CONTENT_TYPE_LINE = 41" "length GLOBUS_GRAM_HTTP_CONTENT_LENGTH_LINE = 21"
  "length GLOBUS_GRAM_HTTP_REPLY_LINE = 17" "length GLOBUS_GRAM_HTTP_CONNECTION_LINE = 19"
  by (simp_all add: put_lines frame_lines print_width3_def)

lemma frame_request_eq:
  assumes "globus_url_parse room (Some url) (Some url_zero) = Some (GLOBUS_SUCCESS, Some u)"
    and "u_url_path u = Some path" and "u_host u = Some host" and "length msg < 2 ^ 63"
  shows "globus_gram_protocol_frame_request room url msg
    = Some (GLOBUS_SUCCESS, Some (request_header path host (length msg) @ msg))"
  using assms(1-3) wrap_size [OF assms(4)]
  by (simp add: globus_gram_protocol_frame_request_def buf_put_def buf_copy_def Let_def length_lines
      count_digits_length request_header_def)


section \<open>Headers are parsed back\<close>

lemma request_directives:
  "directives (GLOBUS_GRAM_HTTP_REQUEST_LINE @ GLOBUS_GRAM_HTTP_HOST_LINE @
      GLOBUS_GRAM_HTTP_CONTENT_TYPE_LINE @ GLOBUS_GRAM_HTTP_CONTENT_LENGTH_LINE @ CRLF)
    = map Lit ''POST'' @ White # Conv_str # White # map Lit ''HTTP/1.1'' @ White # map Lit ''Host:'' @ White #
      Conv_str # White # map Lit ''Content-Type:'' @ White # map Lit ''application/x-globus-gram'' @ White #
      map Lit ''Content-Length:'' @ White # Conv_int None True # [White]"
  by code_simp



text \<open>A word that \<open>%s\<close> reads back.\<close>

definition scan_word :: "string \<Rightarrow> bool" where
  "scan_word s \<longleftrightarrow> s \<noteq> [] \<and> (\<forall>c \<in> set s. \<not> isspace c \<and> c \<noteq> NUL)"

lemma scan_wordD: "scan_word s \<Longrightarrow> s \<noteq> []" "scan_word s \<Longrightarrow> \<forall>c \<in> set s. \<not> isspace c" "scan_word s \<Longrightarrow> \<not> isspace (hd s)"
  "scan_word s \<Longrightarrow> \<not> isspace (hd (s @ t))"
  by (auto simp: scan_word_def)

lemma scan_space: "s = [] \<or> \<not> isspace (hd s) \<Longrightarrow> scan (White # ds) (CHR '' '' # s) n = scan ds s (Suc n)"
  using scan_white [of "'' ''" s ds n] by simp

lemma scan_CRLF: "s = [] \<or> \<not> isspace (hd s) \<Longrightarrow> scan (White # ds) (CRLF @ s) n = scan ds s (n + 2)"
  using scan_white [of CRLF s ds n] by (simp add: CRLF_def)

lemma print_int_hd: "\<not> isspace (hd (print_int i))"
  using print_int_plain [of "hd (print_int i)" i] by simp

lemma isspace_lits: "\<not> isspace CHR ''H''" "\<not> isspace CHR ''C''" "\<not> isspace CHR ''a''" "\<not> isspace CHR ''P''"
  by (simp_all add: isspace_def)

lemma CRLF_hd: "isspace (hd (CRLF @ s))" "\<not> isdigit (hd (CRLF @ s))" "CRLF @ s \<noteq> []"
  by (simp_all add: CRLF_def CR_def isdigit_def isspace_def)

lemma scan_request_header:
  assumes "scan_word path" and "scan_word host" and "n < 2 ^ 63"
  shows "sscanf (request_header path host n @ rest)
      (GLOBUS_GRAM_HTTP_REQUEST_LINE @ GLOBUS_GRAM_HTTP_HOST_LINE @
       GLOBUS_GRAM_HTTP_CONTENT_TYPE_LINE @ GLOBUS_GRAM_HTTP_CONTENT_LENGTH_LINE @ CRLF)
    = [Str_val path, Str_val host, Int_val (int n)]"
proof -
  have s: "request_header path host n @ rest = ''POST'' @ CHR '' '' # path @ CHR '' '' # ''HTTP/1.1'' @ CRLF @
     ''Host:'' @ CHR '' '' # host @ CRLF @ ''Content-Type:'' @ CHR '' '' # ''application/x-globus-gram'' @ CRLF @
     ''Content-Length:'' @ CHR '' '' # print_int (int n) @ CRLF @ CRLF @ rest"
    by (simp add: request_header_def put_lines frame_lines)
  have n: "- (2 ^ 63) \<le> int n" "int n < 2 ^ 63" using assms(3) by simp_all
  show ?thesis
    unfolding sscanf_def request_directives s scan_lits
    apply (subst scan_space, simp add: scan_wordD assms)
    apply (subst scan_str [OF scan_wordD(1,2) [OF assms(1)]], simp)
    apply (subst scan_space, simp add: isspace_lits)
    unfolding scan_lits
    apply (subst scan_CRLF, simp add: isspace_lits)
    unfolding scan_lits
    apply (subst scan_space, simp add: scan_wordD assms)
    apply (subst scan_str [OF scan_wordD(1,2) [OF assms(2)]], simp add: CRLF_hd)
    apply (subst scan_CRLF, simp add: isspace_lits)
    unfolding scan_lits
    apply (subst scan_space, simp add: isspace_lits)
    unfolding scan_lits
    apply (subst scan_CRLF, simp add: isspace_lits)
    unfolding scan_lits
    apply (subst scan_space, simp add: print_int_hd)
    apply (subst scan_long [OF _ n], simp add: CRLF_hd)
    by simp
qed

lemma header_NUL:
  assumes "scan_word path" and "scan_word host"
  shows "NUL \<notin> set (request_header path host n)"
proof -
  have "NUL \<notin> set path" "NUL \<notin> set host" using assms by (auto simp: scan_word_def)
  moreover have "NUL \<notin> set (print_int (int n))" using print_int_plain by blast
  ultimately show ?thesis
    by (simp add: request_header_def put_lines frame_lines CRLF_def) (simp add: NUL_def)
qed

lemma c_str_append: "NUL \<notin> set a \<Longrightarrow> c_str (a @ b) = a @ c_str b"
  by (auto simp: c_str_def takeWhile_append)

lemma scan_strings_fit: "strings_fit (length s) (scan (Lit c # ds) s n)"
proof -
  have "length u < length s" if u: "Str_val u \<in> set (scan (Lit c # ds) s n)" for u
  proof -
    obtain d t where "s = d # t" "Str_val u \<in> set (scan ds t (Suc n))"
      using u by (auto split: list.splits if_splits)
    then show ?thesis using scan_str_length [of u ds t "Suc n"] by simp
  qed
  then show ?thesis by (auto simp: strings_fit_def list_all_iff split: scan_val.split)
qed

lemma parse_request_header_fits:
  "globus_l_gram_protocol_parse_request_header buf \<noteq> None"
proof -
  have "strings_fit (length s) (sscanf s (GLOBUS_GRAM_HTTP_REQUEST_LINE @ GLOBUS_GRAM_HTTP_HOST_LINE @
      GLOBUS_GRAM_HTTP_CONTENT_TYPE_LINE @ GLOBUS_GRAM_HTTP_CONTENT_LENGTH_LINE @ CRLF))" for s
    unfolding sscanf_def request_directives
    using scan_strings_fit [of s "CHR ''P''"] by (simp del: scan.simps)
  then show ?thesis by (simp add: globus_l_gram_protocol_parse_request_header_def Let_def)
qed


lemma parse_request_header_eq:
  assumes "scan_word path" and "scan_word host" and "n < 2 ^ 63"
  shows "globus_l_gram_protocol_parse_request_header (request_header path host n @ rest)
    = Some (GLOBUS_SUCCESS, n, Some path)"
proof -
  have "int n mod 2 ^ 64 = int n" using assms(3) by simp
  then have "size_of_long (int n) = n" by (simp add: size_of_long_def)
  with parse_request_header_fits [of "request_header path host n @ rest"]
    scan_request_header [OF assms, of "c_str rest"] c_str_append [OF header_NUL [OF assms(1,2)]]
  show ?thesis
    by (simp add: globus_l_gram_protocol_parse_request_header_def Let_def split: if_splits)
qed

text \<open>The lines of a header, and the blank line behind it.\<close>

lemma strstr_line:
  assumes "CR \<notin> set l" and "t = [] \<or> hd t \<noteq> CR"
  shows "strstr (l @ CRLF @ t) (CRLF @ CRLF) = map_option (\<lambda>p. length l + 2 + p) (strstr t (CRLF @ CRLF))"
  using assms
proof (induction l)
  case Nil
  then show ?case by (cases t; cases "strstr t (CRLF @ CRLF)") (auto simp: CRLF_def)
next
  case (Cons a l)
  then show ?case by (cases "strstr t (CRLF @ CRLF)") (auto simp: CRLF_def)
qed

lemma strstr_blank: "CR \<notin> set l \<Longrightarrow> strstr (l @ CRLF @ CRLF @ t) (CRLF @ CRLF) = Some (length l)"
  by (induction l) (auto simp: CRLF_def)

lemma strstr_take:
  "strstr s p = Some i \<Longrightarrow> k < i + length p \<Longrightarrow> strstr (take k s) p = None"
proof (induction s p arbitrary: i k rule: strstr.induct)
  case (1 p)
  then show ?case by (auto split: if_splits)
next
  case (2 c cs p)
  show ?case
  proof (cases k)
    case 0
    then show ?thesis using "2.prems" by (auto split: if_splits)
  next
    case (Suc k')
    show ?thesis
    proof (cases "take (length p) (c # cs) = p")
      case True
      then have "i = 0" using "2.prems"(1) by simp
      with "2.prems" Suc have "k < length p" by simp
      have none: "strstr s p = None" if "length s < length p" for s
        using that by (induction s p rule: strstr.induct) auto
      show ?thesis by (rule none) (use \<open>k < length p\<close> in simp)
    next
      case False
      then obtain j where j: "strstr cs p = Some j" "i = Suc j" using "2.prems"(1) by auto
      have "strstr (take k' cs) p = None" using "2.IH" [OF False j(1)] "2.prems"(2) Suc j(2) by simp
      moreover have "take (length p) (take k (c # cs)) \<noteq> p"
      proof
        assume a: "take (length p) (take k (c # cs)) = p"
        then have "length p \<le> k" by (metis length_take min.cobounded1 min.cobounded2 dual_order.trans)
        with a False show False by (simp add: take_take min_def)
      qed
      ultimately show ?thesis using Suc by simp
    qed
  qed
qed

lemma strstr_request_header:
  assumes "scan_word path" and "scan_word host"
  shows "strstr (request_header path host n @ rest) (CRLF @ CRLF) = Some (length (request_header path host n) - 4)"
proof -
  have s: "request_header path host n @ rest = (''POST '' @ path @ '' HTTP/1.1'') @ CRLF @
     (''Host: '' @ host) @ CRLF @ ''Content-Type: application/x-globus-gram'' @ CRLF @
     (''Content-Length: '' @ print_int (int n)) @ CRLF @ CRLF @ rest"
    by (simp add: request_header_def put_lines frame_lines)
  have cr: "CR \<notin> set path" "CR \<notin> set host" "CR \<notin> set (print_int (int n))"
    using assms print_int_plain [of CR "int n"] by (auto simp: scan_word_def)
  have "CR \<notin> set (''POST '' @ path @ '' HTTP/1.1'')" "CR \<notin> set (''Host: '' @ host)"
      "CR \<notin> set ''Content-Type: application/x-globus-gram''" "CR \<notin> set (''Content-Length: '' @ print_int (int n))"
    using cr by (auto simp: CR_def)
  note l = this
  show ?thesis
    unfolding s using strstr_blank [OF l(4), of rest]
    by (subst strstr_line [OF l(1)], simp add: CR_def,
        subst strstr_line [OF l(2)], simp add: CR_def,
        subst strstr_line [OF l(3)], simp add: CR_def)
      (simp add: request_header_def put_lines frame_lines)
qed











section \<open>Delivery of requests\<close>

text \<open>A connection that has been accepted: the structure is zeroed, the buffer has any content.\<close>

definition fresh_connection :: "string \<Rightarrow> bool \<Rightarrow> connection" where
  "fresh_connection b keep =
     \<lparr>got_header = False, cbuf = b, payload_length = 0, n_read = 0, conn_rc = 0, conn_uri = None,
      keep_open = keep\<rparr>"

definition arrives :: "string \<Rightarrow> read_event" where
  "arrives b = \<lparr>ev_result = Io_success, ev_bytes = b, ev_reregister = True\<rparr>"

text \<open>The first \<open>k\<close> bytes of \<open>F\<close> have been read, and the header is not complete.\<close>

definition reading :: "string \<Rightarrow> nat \<Rightarrow> connection \<Rightarrow> bool" where
  "reading F k c \<longleftrightarrow> \<not> got_header c \<and> n_read c = k \<and> take k (cbuf c) = take k F \<and> k \<le> length F \<and>
     length F < length (cbuf c)"

lemma buf_write_eq:
  "i + length s \<le> length b \<Longrightarrow> buf_write b i s = Some (take i b @ s @ drop (i + length s) b)"
  by (simp add: buf_write_def)

lemma buf_write_after:
  "length a = n \<Longrightarrow> n < length b \<Longrightarrow> buf_write (a @ drop n b) n [x] = Some (a @ x # drop (Suc n) b)"
  by (simp add: buf_write_def drop_Suc)

lemma c_str_NUL: "c_str (a @ NUL # s) = c_str a"
  by (induction a) (auto simp: c_str_def)

lemma arrives_simps [simp]:
  "ev_result (arrives b) = Io_success" "ev_bytes (arrives b) = b" "ev_reregister (arrives b)"
  by (simp_all add: arrives_def)

lemma take_next:
  "take (length b) (drop k F) = b \<Longrightarrow> k + length b \<le> length F \<Longrightarrow> take k F @ b = take (k + length b) F"
  by (simp add: take_add)

lemma take_bytes_eq:
  assumes "reading F k c" and "take (length b) (drop k F) = b" and "k + length b \<le> length F"
    and "F \<noteq> []" and "hd F = CHR ''P''" and "b \<noteq> []"
  shows "\<exists>c1 rest. ev_stored (arrives b) c = Some c1 \<and> \<not> delegation_packet c1 \<and> \<not> got_header c1 \<and>
    take_bytes (arrives b) c1 =
      Some (c1\<lparr>n_read := k + length b, cbuf := take (k + length b) F @ NUL # rest\<rparr>,
            strstr (c_str (take (k + length b) F)) (CRLF @ CRLF)) \<and>
    length (take (k + length b) F @ NUL # rest) = length (cbuf c)"
proof -
  let ?j = "k + length b"
  let ?b1 = "take k (cbuf c) @ b @ drop ?j (cbuf c)"
  let ?rest = "drop (Suc ?j) (cbuf c)"
  have r: "n_read c = k" "take k (cbuf c) = take k F" "?j < length (cbuf c)" "\<not> got_header c"
    using assms(1,3) by (auto simp: reading_def)
  have b1: "?b1 = take ?j F @ drop ?j (cbuf c)" using r(2) take_next [OF assms(2,3)] by simp
  have st: "ev_stored (arrives b) c = Some (c\<lparr>cbuf := ?b1\<rparr>)"
    using r by (simp add: ev_stored_def arrives_def buf_write_eq)
  have "hd (cbuf c) = CHR ''P''" if "k \<noteq> 0" using that r(2) assms(4,5) by (metis hd_take neq0_conv)
  moreover have "hd b = CHR ''P''" if "k = 0" using that assms(2,5,6)
    by (metis drop0 hd_take length_greater_0_conv)
  ultimately have "\<not> delegation_packet (c\<lparr>cbuf := ?b1\<rparr>)"
    using assms(6) r(1) by (auto simp: delegation_packet_def)
  moreover have "buf_write ?b1 ?j [NUL] = Some (take ?j F @ NUL # ?rest)"
    unfolding b1 using r(3) assms(3) by (subst buf_write_eq) simp_all
  then have "take_bytes (arrives b) (c\<lparr>cbuf := ?b1\<rparr>) =
      Some (c\<lparr>n_read := ?j, cbuf := take ?j F @ NUL # ?rest\<rparr>, strstr (c_str (take ?j F @ NUL # ?rest)) (CRLF @ CRLF))"
    using r(1) by (simp add: take_bytes_def arrives_def Let_def)
  moreover have "c_str (take ?j F @ NUL # ?rest) = c_str (take ?j F)"
    by (rule c_str_NUL)
  moreover have "length (take ?j F @ NUL # ?rest) = length (cbuf c)" using r(3) assms(3) by simp
  ultimately show ?thesis using st r(4) by (intro exI [of _ "c\<lparr>cbuf := ?b1\<rparr>"] exI [of _ ?rest]) simp
qed

lemma read_part_of_header:
  assumes c: "reading (H @ msg) k c" and b: "take (length b) (drop k (H @ msg)) = b" "b \<noteq> []"
    and k: "k + length b < length H"
    and H: "NUL \<notin> set H" "strstr H (CRLF @ CRLF) = Some (length H - 4)" "hd H = CHR ''P''" "4 \<le> length H"
  shows "\<exists>c'. globus_l_gram_protocol_read_request_callback (arrives b) c = Some (c', Waiting) \<and>
    reading (H @ msg) (k + length b) c' \<and> length (cbuf c') = length (cbuf c)"
proof -
  let ?j = "k + length b" and ?F = "H @ msg"
  have F: "?F \<noteq> []" "hd ?F = CHR ''P''" using H(3,4) by (auto simp: hd_append)
  obtain c1 rest where s: "ev_stored (arrives b) c = Some c1" "\<not> delegation_packet c1" "\<not> got_header c1"
      "take_bytes (arrives b) c1 = Some (c1\<lparr>n_read := ?j, cbuf := take ?j ?F @ NUL # rest\<rparr>,
            strstr (c_str (take ?j ?F)) (CRLF @ CRLF))" "length (take ?j ?F @ NUL # rest) = length (cbuf c)"
    using take_bytes_eq [OF c b(1) _ F b(2)] k by auto
  have t: "take ?j ?F = take ?j H" using k by simp
  have "NUL \<notin> set (take ?j H)" using H(1) by (meson in_set_takeD)
  then have "c_str (take ?j ?F) = take ?j H" unfolding t using c_str_append [of "take ?j H" "[]"] by (simp add: c_str_def)
  moreover have "strstr (take ?j H) (CRLF @ CRLF) = None" by (rule strstr_take [OF H(2)]) (use k H(4) in simp)
  ultimately have "globus_l_gram_protocol_read_request_callback (arrives b) c
      = Some (c1\<lparr>n_read := ?j, cbuf := take ?j ?F @ NUL # rest\<rparr>, Waiting)"
    using s(1-4) by (simp add: globus_l_gram_protocol_read_request_callback_def reregister_read_def)
  moreover have "reading ?F ?j (c1\<lparr>n_read := ?j, cbuf := take ?j ?F @ NUL # rest\<rparr>)"
    using s(3,5) c k by (simp add: reading_def)
  ultimately show ?thesis using s(5) by auto
qed

lemma read_end_of_header:
  assumes c: "reading (H @ msg) k c" and b: "take (length b) (drop k (H @ msg)) = b" "b \<noteq> []"
    and k: "length H \<le> k + length b" "k + length b \<le> length (H @ msg)"
    and H: "NUL \<notin> set H" "\<And>s. strstr (H @ s) (CRLF @ CRLF) = Some (length H - 4)" "hd H = CHR ''P''" "4 \<le> length H"
      "\<And>s. globus_l_gram_protocol_parse_request_header (H @ s) = Some (GLOBUS_SUCCESS, length msg, Some path)"
  defines "n \<equiv> k + length b - length H"
  shows "\<exists>c' rest. globus_l_gram_protocol_read_request_callback (arrives b) c = Some (request_complete (arrives b) c') \<and>
    got_header c' \<and> n_read c' = n \<and> payload_length c' = length msg \<and> conn_uri c' = Some path \<and>
    cbuf c' = take n msg @ NUL # rest"
proof -
  let ?j = "k + length b" and ?F = "H @ msg"
  have F: "?F \<noteq> []" "hd ?F = CHR ''P''" using H(3,4) by (auto simp: hd_append)
  obtain c1 rest where s: "ev_stored (arrives b) c = Some c1" "\<not> delegation_packet c1" "\<not> got_header c1"
      "take_bytes (arrives b) c1 = Some (c1\<lparr>n_read := ?j, cbuf := take ?j ?F @ NUL # rest\<rparr>,
            strstr (c_str (take ?j ?F)) (CRLF @ CRLF))" "length (take ?j ?F @ NUL # rest) = length (cbuf c)"
    using take_bytes_eq [OF c b(1) k(2) F b(2)] by auto
  let ?c2 = "c1\<lparr>n_read := ?j, cbuf := H @ take n msg @ NUL # rest, got_header := True, payload_length := length msg,
    conn_uri := Some path\<rparr>"
  have t: "take ?j ?F = H @ take n msg" using k(1) by (simp add: n_def)
  have str: "strstr (c_str (take ?j ?F)) (CRLF @ CRLF) = Some (length H - 4)"
    unfolding t c_str_append [OF H(1)] by (rule H(2))
  have ln: "length (take n msg) = n" using k by (simp add: n_def)
  have drop: "drop_header (length H - 4) ?c2
      = Some (?c2\<lparr>cbuf := take n msg @ NUL # drop (Suc n) (H @ take n msg @ NUL # rest), n_read := n\<rparr>)"
  proof -
    have "take n (drop (length H - 4 + 4) (H @ take n msg @ NUL # rest)) = take n msg"
      using H(4) ln by simp
    moreover have "?j - (length H - 4) - 4 = n" using H(4) k(1) by (simp add: n_def)
    moreover have "buf_write (H @ take n msg @ NUL # rest) 0 (take n msg)
        = Some (take n msg @ drop n (H @ take n msg @ NUL # rest))"
      using ln by (subst buf_write_eq) simp_all
    moreover have "buf_write (take n msg @ drop n (H @ take n msg @ NUL # rest)) n [NUL]
        = Some (take n msg @ NUL # drop (Suc n) (H @ take n msg @ NUL # rest))"
      using ln H(4) by (intro buf_write_after) simp_all
    ultimately show ?thesis by (simp add: drop_header_def Let_def)
  qed
  define c3 where
    "c3 = ?c2\<lparr>cbuf := take n msg @ NUL # drop (Suc n) (H @ take n msg @ NUL # rest), n_read := n\<rparr>"
  have "globus_l_gram_protocol_read_request_callback (arrives b) c = Some (request_complete (arrives b) c3)"
    using drop s(1-3) s(4) [unfolded t append_assoc] str [unfolded t] H(5) [of "take n msg @ NUL # rest"]
    by (simp add: globus_l_gram_protocol_read_request_callback_def Let_def c3_def)
  then show ?thesis
    by (intro exI [of _ c3] exI [of _ "drop (Suc n) (H @ take n msg @ NUL # rest)"]) (simp add: c3_def)
qed

text \<open>Once the header is complete and the payload is not, later reads change nothing that is tested.\<close>

lemma stuck_read:
  assumes "got_header c" and "n_read c < payload_length c"
    and "globus_l_gram_protocol_read_request_callback ev c = Some (c', r)"
  shows "got_header c' \<and> n_read c' < payload_length c' \<and> r \<in> {Waiting, Closing}"
proof -
  obtain c1 where c1: "ev_stored ev c = Some c1"
    using assms(3) by (cases "ev_stored ev c") (simp_all add: globus_l_gram_protocol_read_request_callback_def)
  then have "got_header c1" "n_read c1 < payload_length c1"
    using assms(1,2) by (auto simp: ev_stored_def bind_eq_Some_conv)
  then show ?thesis
    using assms(3) c1
    by (auto simp: globus_l_gram_protocol_read_request_callback_def request_complete_def reregister_read_def
        split: if_splits)
qed

lemma stuck_run:
  assumes "got_header c" and "n_read c < payload_length c"
    and "read_run globus_l_gram_protocol_read_request_callback evs c = Some (c', r)"
  shows "r \<in> {Waiting, Closing}"
  using assms
proof (induction evs arbitrary: c)
  case (Cons ev evs)
  then obtain c1 r1 where s: "globus_l_gram_protocol_read_request_callback ev c = Some (c1, r1)"
      "if r1 = Waiting then read_run globus_l_gram_protocol_read_request_callback evs c1 = Some (c', r)
       else c' = c1 \<and> r = r1"
    by (auto simp: bind_eq_Some_conv split: if_splits)
  from stuck_read [OF Cons.prems(1,2) s(1)] s(2) Cons.IH [of c1] show ?case by (auto split: if_splits)
qed simp

lemma read_run_append:
  "read_run step evs c = Some (c1, Waiting) \<Longrightarrow> read_run step (evs @ evs') c = read_run step evs' c1"
  by (induction evs arbitrary: c) (auto simp: bind_eq_Some_conv split: if_splits)

lemma read_header_parts:
  assumes "reading (H @ msg) k c" and "[] \<notin> set bs" and "concat bs @ rest = drop k (H @ msg)"
    and "k + length (concat bs) < length H"
    and H: "NUL \<notin> set H" "strstr H (CRLF @ CRLF) = Some (length H - 4)" "hd H = CHR ''P''" "4 \<le> length H"
  shows "\<exists>c'. read_run globus_l_gram_protocol_read_request_callback (map arrives bs) c = Some (c', Waiting) \<and>
    reading (H @ msg) (k + length (concat bs)) c'"
  using assms(1-4)
proof (induction bs arbitrary: k c)
  case (Cons b bs)
  have d: "drop k (H @ msg) = b @ concat bs @ rest" using Cons.prems(3) by simp
  then have b: "take (length b) (drop k (H @ msg)) = b" "drop (k + length b) (H @ msg) = concat bs @ rest"
    using drop_drop [of "length b" k "H @ msg"] by (simp_all add: add.commute)
  obtain c1 where c1: "globus_l_gram_protocol_read_request_callback (arrives b) c = Some (c1, Waiting)"
      "reading (H @ msg) (k + length b) c1"
    using read_part_of_header [OF Cons.prems(1) b(1) _ _ H] Cons.prems(2,4) by auto
  have "\<exists>c'. read_run globus_l_gram_protocol_read_request_callback (map arrives bs) c1 = Some (c', Waiting) \<and>
    reading (H @ msg) (k + length b + length (concat bs)) c'"
    by (rule Cons.IH [OF c1(2)]) (use Cons.prems b(2) in auto)
  with c1(1) show ?case by (auto simp: add.assoc)
qed simp

lemma request_header_facts:
  "4 \<le> length (request_header path host n)" "hd (request_header path host n) = CHR ''P''"
  by (simp_all add: request_header_def put_lines)

section \<open>Faults of the read callbacks\<close>








section \<open>Properties\<close>

text \<open>
  C17. Delivery of a request. A client frames a message for a URL whose host and path have no white
  space; the bytes of the frame arrive in parts, the last of which completes the header. If that part
  also brings the rest of the message, the callback of the job manager gets exactly the message and
  the path. If it does not, the request is never delivered, whatever arrives afterwards, because the
  bytes of later reads are not counted.
\<close>

theorem gram_request_delivery:
  assumes url: "globus_url_parse room (Some url) (Some url_zero) = Some (GLOBUS_SUCCESS, Some u)"
      "u_url_path u = Some path" "u_host u = Some host" "scan_word path" "scan_word host"
    and frame: "globus_gram_protocol_frame_request room url msg = Some (GLOBUS_SUCCESS, Some framed)"
      "length msg < 2 ^ 63" "length framed < length buffer"
    and parts: "[] \<notin> set bs" "b \<noteq> []" "concat bs @ b @ rest = framed"
      "length (concat bs) < length framed - length msg" "length framed - length msg \<le> length (concat bs @ b)"
  defines "step \<equiv> globus_l_gram_protocol_read_request_callback"
  defines "start \<equiv> fresh_connection buffer False"
  shows "if rest = []
     then \<exists>c. read_run step (map arrives (bs @ [b])) start = Some (c, Request msg (Some path))
     else (\<exists>c. read_run step (map arrives (bs @ [b])) start = Some (c, Waiting)) \<and>
       (\<forall>evs c r. read_run step (map arrives (bs @ [b]) @ evs) start = Some (c, r) \<longrightarrow> r \<in> {Waiting, Closing})"
proof -
  let ?H = "request_header path host (length msg)"
  have F: "framed = ?H @ msg" using frame(1) frame_request_eq [OF url(1-3) frame(2)] by simp
  have H: "NUL \<notin> set ?H" "strstr (?H @ s) (CRLF @ CRLF) = Some (length ?H - 4)" "hd ?H = CHR ''P''"
      "4 \<le> length ?H" "globus_l_gram_protocol_parse_request_header (?H @ s) = Some (GLOBUS_SUCCESS, length msg, Some path)"
      for s
    using header_NUL [OF url(4,5)] strstr_request_header [OF url(4,5)] request_header_facts
      parse_request_header_eq [OF url(4,5) frame(2)] by blast+
  have len: "length (concat bs) < length ?H" "length ?H \<le> length (concat bs) + length b"
      "length (concat bs) + length b \<le> length (?H @ msg)"
    using parts(3-5) by (auto simp: F dest: arg_cong [of _ _ length])
  have "reading (?H @ msg) 0 start" using frame(3) F by (simp add: reading_def start_def fresh_connection_def)
  then obtain c1 where c1: "read_run step (map arrives bs) start = Some (c1, Waiting)"
      "reading (?H @ msg) (length (concat bs)) c1"
    using read_header_parts [of ?H msg 0 start bs "b @ rest"] parts(1,3) len(1) H(1,3,4) H(2) [of "[]"] F
    unfolding step_def by auto
  have b: "take (length b) (drop (length (concat bs)) (?H @ msg)) = b" using parts(3) F by (metis append_eq_conv_conj)
  obtain c2 junk where c2: "step (arrives b) c1 = Some (request_complete (arrives b) c2)" "got_header c2"
      "n_read c2 = length (concat bs) + length b - length ?H" "payload_length c2 = length msg"
      "conn_uri c2 = Some path" "cbuf c2 = take (n_read c2) msg @ NUL # junk"
    using read_end_of_header [OF c1(2) b parts(2) len(2,3) H] unfolding step_def by auto
  have n: "length msg = n_read c2 + length rest" using parts(3) len(2) by (auto simp: F c2(3) dest: arg_cong [of _ _ length])
  have run: "read_run step (map arrives (bs @ [b]) @ evs) start
      = (case request_complete (arrives b) c2 of (c, r) \<Rightarrow> if r = Waiting then read_run step evs c else Some (c, r))" for evs
    using read_run_append [OF c1(1), of "arrives b # evs"] c2(1) by (simp add: split_def)
  show ?thesis
  proof (cases "rest = []")
    case True
    then have "request_complete (arrives b) c2 = (c2, Request msg (Some path))"
      using n c2(4-6) by (simp add: request_complete_def)
    then show ?thesis using run [of "[]"] True by simp
  next
    case False
    then have w: "request_complete (arrives b) c2 = (c2, Waiting)" "n_read c2 < payload_length c2"
      using n c2(4) by (simp_all add: request_complete_def reregister_read_def)
    then have "read_run step (map arrives (bs @ [b]) @ evs) start = Some (c, r) \<longrightarrow> r \<in> {Waiting, Closing}" for evs c r
      using run [of evs] stuck_run [OF c2(2) w(2), of evs c r] unfolding step_def by simp
    moreover have "read_run step (map arrives (bs @ [b])) start = Some (c2, Waiting)" using run [of "[]"] w(1) by simp
    ultimately show ?thesis using False by auto
  qed
qed

lemma https_sample:
  "globus_url_parse 9 (Some ''https://h/p'') (Some url_zero) =
     Some (GLOBUS_SUCCESS, Some (url_zero\<lparr>u_scheme := Some ''https'', u_scheme_type := GLOBUS_URL_SCHEME_HTTPS,
       u_host := Some ''h'', u_url_path := Some ''/p''\<rparr>))"
  by code_simp

lemma sample_words: "scan_word ''/p''" "scan_word ''h''"
  by (simp_all add: scan_word_def isspace_def NUL_def)

lemma sample_frame:
  "globus_gram_protocol_frame_request 9 ''https://h/p'' ''ab'' =
     Some (GLOBUS_SUCCESS, Some (request_header ''/p'' ''h'' 2 @ ''ab''))"
  using frame_request_eq [OF https_sample, of "''/p''" "''h''" "''ab''"]
  by (simp flip: numeral_2_eq_2)

text \<open>A message of two bytes, whose frame arrives whole, and one whose last byte comes by itself.\<close>

theorem gram_request_delivery_witness:
  "(\<exists>c. read_run globus_l_gram_protocol_read_request_callback
      (map arrives [request_header ''/p'' ''h'' 2 @ ''ab'']) (fresh_connection (replicate 200 NUL) False)
      = Some (c, Request ''ab'' (Some ''/p''))) \<and>
   (\<forall>c m u. read_run globus_l_gram_protocol_read_request_callback
      (map arrives [request_header ''/p'' ''h'' 2 @ ''a'', ''b'']) (fresh_connection (replicate 200 NUL) False)
      \<noteq> Some (c, Request m u))"
proof
  let ?H = "request_header ''/p'' ''h'' 2"
  have n: "?H \<noteq> []" "length ?H < 198" by (simp_all add: request_header_def put_lines frame_lines print_int_def digits.simps)
  show "\<exists>c. read_run globus_l_gram_protocol_read_request_callback (map arrives [?H @ ''ab''])
      (fresh_connection (replicate 200 NUL) False) = Some (c, Request ''ab'' (Some ''/p''))"
    using gram_request_delivery [OF https_sample _ _ sample_words sample_frame, where bs = "[]" and b = "?H @ ''ab''"
        and rest = "[]" and buffer = "replicate 200 NUL"] n
    by simp
  have "\<forall>evs c r. read_run globus_l_gram_protocol_read_request_callback (map arrives [?H @ ''a''] @ evs)
      (fresh_connection (replicate 200 NUL) False) = Some (c, r) \<longrightarrow> r \<in> {Waiting, Closing}"
    using gram_request_delivery [OF https_sample _ _ sample_words sample_frame, where bs = "[]" and b = "?H @ ''a''"
        and rest = "''b''" and buffer = "replicate 200 NUL"] n
    by simp
  from this [rule_format, of "[arrives ''b'']"]
  show "\<forall>c m u. read_run globus_l_gram_protocol_read_request_callback (map arrives [?H @ ''a'', ''b''])
      (fresh_connection (replicate 200 NUL) False) \<noteq> Some (c, Request m u)"
    by (simp del: read_run.simps) blast
qed








end
