(* ===== verification/Gram_Job_State.thy ===== *)
theory Gram_Job_State
  imports Gram_Protocol
begin

text \<open>
  The job manager's state machine (\<open>gram/jobmanager/source/globus_gram_job_manager_state.c\<close>), the scheduler
  events it consumes (\<open>globus_gram_job_manager_seg.c\<close>), the client queries that interleave with it
  (\<open>globus_gram_job_manager_query.c\<close>) and the lines that its scripts report
  (\<open>globus_gram_job_manager_script.c\<close>, \<open>globus_gram_job_manager_staging.c\<close>).

  A job request is the record \<open>job_request\<close>, with the fields of the C struct that these operations read or
  write; \<open>poll_timer\<close> says whether a timer is registered, and \<open>need_stage_in\<close>, \<open>need_stage_out\<close> and
  \<open>need_file_cleanup\<close> what the RSL of the job asks for. \<open>trace\<close> lists the calls to the outside (files,
  scripts, contacts, replies) in the order they are made. What the outside answers during one step is the
  record \<open>env\<close>: the outcome of registering a callback, of starting a script, of registering a job id, of
  looking for a Condor log. Each case of the \<open>switch\<close> is one definition; a step returns whether an event was
  registered, and \<open>None\<close> is a fault (an empty queue dequeued, a NULL job id) or a loop that does not end.
  Job statistics, update times and log output are left out; a script's log line is recorded whatever the
  log level.
\<close>

named_theorems jm_steps \<open>the cases of the state machine and the history\<close>

section \<open>States\<close>

datatype jm_state =
    JM_START | JM_TWO_PHASE | JM_TWO_PHASE_COMMITTED | JM_STAGE_IN | JM_SUBMIT | JM_POLL1 | JM_POLL2
  | JM_CLOSE_OUTPUT | JM_STAGE_OUT | JM_TWO_PHASE_END | JM_TWO_PHASE_END_COMMITTED
  | JM_FILE_CLEAN_UP | JM_SCRATCH_CLEAN_UP | JM_CACHE_CLEAN_UP | JM_DONE
  | JM_FAILED | JM_FAILED_CLOSE_OUTPUT | JM_FAILED_TWO_PHASE | JM_FAILED_TWO_PHASE_COMMITTED
  | JM_FAILED_FILE_CLEAN_UP | JM_FAILED_SCRATCH_CLEAN_UP | JM_FAILED_CACHE_CLEAN_UP | JM_FAILED_DONE
  | JM_STOP | JM_POLL_QUERY1 | JM_POLL_QUERY2 | JM_PRE_CLOSE_OUTPUT
  | JM_TWO_PHASE_QUERY1 | JM_TWO_PHASE_QUERY2

datatype job_status =
    ST_PENDING | ST_ACTIVE | ST_FAILED | ST_DONE | ST_SUSPENDED | ST_UNSUBMITTED | ST_STAGE_IN | ST_STAGE_OUT
  | ST_OTHER int

datatype event_type = EV_PENDING | EV_ACTIVE | EV_FAILED | EV_DONE | EV_RAW

datatype query_type = Q_SIGNAL | Q_CANCEL | Q_PROXY_REFRESH

datatype manager_type = MT_FORK | MT_CONDOR | MT_OTHER

definition GLOBUS_GRAM_PROTOCOL_ERROR_USER_CANCELLED :: int where
  "GLOBUS_GRAM_PROTOCOL_ERROR_USER_CANCELLED = 8"

definition GLOBUS_GRAM_PROTOCOL_ERROR_OPENING_STDOUT :: int where
  "GLOBUS_GRAM_PROTOCOL_ERROR_OPENING_STDOUT = 73"

definition GLOBUS_GRAM_PROTOCOL_ERROR_OPENING_STDERR :: int where
  "GLOBUS_GRAM_PROTOCOL_ERROR_OPENING_STDERR = 74"

definition GLOBUS_GRAM_PROTOCOL_ERROR_JOB_QUERY_DENIAL :: int where
  "GLOBUS_GRAM_PROTOCOL_ERROR_JOB_QUERY_DENIAL = 94"

definition GLOBUS_GRAM_PROTOCOL_ERROR_COMMIT_TIMED_OUT :: int where
  "GLOBUS_GRAM_PROTOCOL_ERROR_COMMIT_TIMED_OUT = 111"

definition GLOBUS_GRAM_PROTOCOL_ERROR_SUBMIT_UNKNOWN :: int where
  "GLOBUS_GRAM_PROTOCOL_ERROR_SUBMIT_UNKNOWN = 126"

definition GLOBUS_GRAM_PROTOCOL_ERROR_INVALID_SCRIPT_STATUS :: int where
  "GLOBUS_GRAM_PROTOCOL_ERROR_INVALID_SCRIPT_STATUS = 25"

definition GLOBUS_GRAM_PROTOCOL_ERROR_JM_STOPPED :: int where
  "GLOBUS_GRAM_PROTOCOL_ERROR_JM_STOPPED = 130"

definition GLOBUS_GRAM_PROTOCOL_ERROR_INVALID_COMMIT :: int where
  "GLOBUS_GRAM_PROTOCOL_ERROR_INVALID_COMMIT = 133"

definition GLOBUS_GRAM_PROTOCOL_ERROR_STAGE_OUT_FAILED :: int where
  "GLOBUS_GRAM_PROTOCOL_ERROR_STAGE_OUT_FAILED = 155"

lemmas jm_codes = GLOBUS_GRAM_PROTOCOL_ERROR_USER_CANCELLED_def GLOBUS_GRAM_PROTOCOL_ERROR_OPENING_STDOUT_def
  GLOBUS_GRAM_PROTOCOL_ERROR_OPENING_STDERR_def GLOBUS_GRAM_PROTOCOL_ERROR_JOB_QUERY_DENIAL_def
  GLOBUS_GRAM_PROTOCOL_ERROR_COMMIT_TIMED_OUT_def GLOBUS_GRAM_PROTOCOL_ERROR_SUBMIT_UNKNOWN_def
  GLOBUS_GRAM_PROTOCOL_ERROR_STAGE_OUT_FAILED_def GLOBUS_GRAM_PROTOCOL_ERROR_INVALID_SCRIPT_STATUS_def
  GLOBUS_GRAM_PROTOCOL_ERROR_JM_STOPPED_def GLOBUS_GRAM_PROTOCOL_ERROR_INVALID_COMMIT_def gram_codes

definition SIGNAL_CANCEL :: int where
  "SIGNAL_CANCEL = 1"

definition SIGNAL_SUSPEND :: int where
  "SIGNAL_SUSPEND = 2"

definition SIGNAL_RESUME :: int where
  "SIGNAL_RESUME = 3"

definition SIGNAL_PRIORITY :: int where
  "SIGNAL_PRIORITY = 4"

lemmas signal_codes = SIGNAL_CANCEL_def SIGNAL_SUSPEND_def SIGNAL_RESUME_def SIGNAL_PRIORITY_def

record scheduler_event =
  ev_type :: event_type
  ev_job_id :: string
  ev_exit_code :: int
  ev_timestamp :: int

record job_query =
  q_type :: query_type
  q_handle :: nat
  q_signal :: int
  q_failure_code :: int

datatype script = SC_STAGE_IN | SC_SUBMIT | SC_POLL | SC_SIGNAL nat | SC_CANCEL nat | SC_STAGE_OUT

datatype job_action =
    Registered int
  | State_file_written jm_state
  | Contacts_told job_status bool
  | Script_started script
  | Seg_paused | Seg_resumed
  | Job_id_registered string | Job_id_unregistered
  | Cache_info_added
  | History_written job_status
  | Query_queued nat
  | Replied nat job_status int int
  | Files_removed | Directory_destroyed | Cache_cleaned
  | State_file_removed
  | Audited | Stats_sent
  | Accounted string | Logged string
  | Job_id_dropped string

record job_request =
  jobmanager_state :: jm_state
  restart_state :: jm_state
  status :: job_status
  expected_terminal_state :: job_status
  job_history_status :: job_status
  failure_code :: int
  stop_reason :: int
  exit_code :: int
  dry_run :: bool
  jm_restart :: bool
  two_phase_commit :: int
  commit_extend :: int
  unsent_status_change :: bool
  job_id_string :: "string option"
  original_job_id_string :: "string option"
  stage_in_todo :: "(string \<times> string) list"
  stage_in_shared_todo :: "(string \<times> string) list"
  stage_out_todo :: "(string \<times> string) list"
  stage_stream_todo :: "(string \<times> string) list"
  need_stage_in :: bool
  need_stage_out :: bool
  need_file_cleanup :: bool
  seg_event_queue :: "scheduler_event list"
  seg_last_timestamp :: int
  queued_time :: int
  pending_queries :: "job_query list"
  client_contacts :: bool
  poll_timer :: bool
  poll_frequency :: int
  job_state_file :: bool
  seg_module :: bool
  jobmanager_type :: manager_type
  seg_started :: bool
  references :: int
  scratchdir :: "string option"
  gt3_failure_type :: "string option"
  gt3_failure_message :: "string option"
  gt3_failure_source :: "string option"
  gt3_failure_destination :: "string option"
  trace :: "job_action list"

record env =
  e_reference :: int
  e_oneshot :: bool
  e_script :: int
  e_job_id :: int
  e_time :: int
  e_condor_id :: "int \<times> string option"

definition act :: "job_action \<Rightarrow> job_request \<Rightarrow> job_request" where
  "act a r = r\<lparr>trace := trace r @ [a]\<rparr>"

definition globus_gram_job_manager_request_set_status :: "job_status \<Rightarrow> job_request \<Rightarrow> job_request" where
  "globus_gram_job_manager_request_set_status s r = r\<lparr>status := s\<rparr>"

text \<open>The result is the code and the request.\<close>

definition globus_gram_job_manager_state_machine_register ::
  "env \<Rightarrow> int \<Rightarrow> job_request \<Rightarrow> int \<times> job_request" where
  "globus_gram_job_manager_state_machine_register e delay r =
     (if e_reference e \<noteq> GLOBUS_SUCCESS then (e_reference e, r)
      else if poll_timer r then (GLOBUS_SUCCESS, r)
      else if e_oneshot e
      then (GLOBUS_SUCCESS, act (Registered delay) (r\<lparr>poll_timer := True, references := references r + 1\<rparr>))
      else (GLOBUS_GRAM_PROTOCOL_ERROR_MALLOC_FAILED, r))"

definition globus_i_gram_job_manager_script_valid_state_change :: "job_status \<Rightarrow> job_status \<Rightarrow> bool" where
  "globus_i_gram_job_manager_script_valid_state_change old new =
     (case old of
        ST_PENDING \<Rightarrow> new \<noteq> ST_PENDING
      | ST_ACTIVE \<Rightarrow> new \<noteq> ST_PENDING \<and> new \<noteq> ST_ACTIVE
      | ST_FAILED \<Rightarrow> False
      | ST_DONE \<Rightarrow> False
      | ST_SUSPENDED \<Rightarrow> new \<noteq> ST_PENDING \<and> new \<noteq> ST_SUSPENDED
      | ST_UNSUBMITTED \<Rightarrow> new \<noteq> ST_UNSUBMITTED
      | ST_STAGE_IN \<Rightarrow> new \<noteq> ST_STAGE_IN
      | ST_STAGE_OUT \<Rightarrow> new = ST_DONE \<or> new = ST_FAILED
      | ST_OTHER _ \<Rightarrow> False)"

section \<open>Scheduler events\<close>

text \<open>The search for a subjob in the comma-separated list of job ids. The loop starts every search at
  the beginning of the list; the result is the list after the event.\<close>

partial_function (option) subjob_loop :: "bool \<Rightarrow> string \<Rightarrow> string \<Rightarrow> string option" where
  "subjob_loop ended ids job =
     (case strstr ids job of
        None \<Rightarrow> Some ids
      | Some i \<Rightarrow>
          if i = 0 \<or> ids ! (i - 1) = CHR '','' then
            if i + length job < length ids \<and> ids ! (i + length job) = CHR '',''
            then Some (if ended then take i ids @ drop (i + length job + 1) ids else ids)
            else if i + length job = length ids
            then Some (if ended then (if i \<noteq> 0 then take (i - 1) ids else []) else ids)
            else subjob_loop ended ids job
          else subjob_loop ended ids job)"

definition ended :: "event_type \<Rightarrow> bool" where
  "ended t \<longleftrightarrow> t = EV_DONE \<or> t = EV_FAILED"

text \<open>The outcome of a finished subjob is kept for the whole job: one failure makes the job fail, and
  the first exit code that is not zero is the job's.\<close>

definition seg_outcome :: "scheduler_event \<Rightarrow> job_request \<Rightarrow> job_request" where
  "seg_outcome ev r =
     (if ended (ev_type ev)
      then r\<lparr>expected_terminal_state :=
               (if expected_terminal_state r = ST_DONE \<and> ev_type ev = EV_FAILED
                then ST_FAILED else expected_terminal_state r),
             exit_code :=
               (if ev_type ev = EV_DONE \<and> exit_code r = 0 \<and> ev_exit_code ev \<noteq> 0
                then ev_exit_code ev else exit_code r)\<rparr>
      else r)"

text \<open>The status an event asks for: none as long as subjobs are left.\<close>

definition seg_new_status :: "scheduler_event \<Rightarrow> string \<Rightarrow> job_request \<Rightarrow> job_status option" where
  "seg_new_status ev ids r =
     (if \<not> ended (ev_type ev)
      then (case ev_type ev of EV_PENDING \<Rightarrow> Some ST_PENDING | EV_ACTIVE \<Rightarrow> Some ST_ACTIVE | _ \<Rightarrow> None)
      else if ids = [] then Some (expected_terminal_state r) else None)"

definition seg_change_status :: "scheduler_event \<Rightarrow> job_status option \<Rightarrow> job_request \<Rightarrow> job_request" where
  "seg_change_status ev change r =
     (case change of None \<Rightarrow> r
      | Some s \<Rightarrow>
         if globus_i_gram_job_manager_script_valid_state_change (status r) s
         then (globus_gram_job_manager_request_set_status
                 (if ended (ev_type ev) \<and> s = ST_DONE \<and> need_stage_out r then ST_STAGE_OUT else s) r)
              \<lparr>unsent_status_change := True\<rparr>
         else r)"

definition globus_gram_job_manager_seg_handle_event :: "job_request \<Rightarrow> job_request option" where
  "globus_gram_job_manager_seg_handle_event r =
     (case seg_event_queue r of [] \<Rightarrow> None
      | ev # evs \<Rightarrow>
         (case job_id_string r of None \<Rightarrow> None
          | Some ids \<Rightarrow>
             (case subjob_loop (ended (ev_type ev)) ids (ev_job_id ev) of None \<Rightarrow> None
              | Some ids' \<Rightarrow>
                 let r1 = seg_outcome ev (r\<lparr>seg_event_queue := evs,
                            seg_last_timestamp := max (seg_last_timestamp r) (ev_timestamp ev),
                            job_id_string := Some ids'\<rparr>);
                     r2 = seg_change_status ev (seg_new_status ev ids' r1) r1
                 in Some (r2\<lparr>references := references r2 - 1\<rparr>))))"

fun clear_seg_events :: "nat \<Rightarrow> job_request \<Rightarrow> job_request option" where
  "clear_seg_events 0 r = Some r"
| "clear_seg_events (Suc n) r =
     (if seg_event_queue r = [] then Some r
      else Option.bind (globus_gram_job_manager_seg_handle_event r) (clear_seg_events n))"

section \<open>Queries\<close>

definition globus_gram_job_manager_query_reply :: "job_query \<Rightarrow> job_request \<Rightarrow> job_request" where
  "globus_gram_job_manager_query_reply q r =
     (let code = (if (q_type q = Q_CANCEL \<or> q_signal q = SIGNAL_CANCEL)
                     \<and> q_failure_code q = GLOBUS_GRAM_PROTOCOL_ERROR_USER_CANCELLED
                  then GLOBUS_SUCCESS else q_failure_code q)
      in act (Replied (q_handle q) (status r) code (if code \<noteq> 0 then 0 else failure_code r)) r)"

fun deny_queries :: "job_query list \<Rightarrow> job_request \<Rightarrow> job_request" where
  "deny_queries [] r = r"
| "deny_queries (q # qs) r =
     deny_queries qs (globus_gram_job_manager_query_reply
       (q\<lparr>q_failure_code := GLOBUS_GRAM_PROTOCOL_ERROR_JOB_QUERY_DENIAL\<rparr>) (r\<lparr>pending_queries := qs\<rparr>))"

definition globus_l_gram_job_manager_cancel_queries :: "job_request \<Rightarrow> job_request" where
  "globus_l_gram_job_manager_cancel_queries r = deny_queries (pending_queries r) r"

section \<open>Restarts\<close>

text \<open>The result says whether the state was changed.\<close>

definition globus_l_gram_job_manager_set_restart_state :: "env \<Rightarrow> job_request \<Rightarrow> bool \<times> job_request" where
  "globus_l_gram_job_manager_set_restart_state e r =
     (case restart_state r of
        JM_SUBMIT \<Rightarrow>
          if jobmanager_type r = MT_CONDOR then
            let r1 = r\<lparr>original_job_id_string := snd (e_condor_id e)\<rparr>
            in if fst (e_condor_id e) = GLOBUS_SUCCESS \<and> snd (e_condor_id e) \<noteq> None
               then (True, (act Seg_paused (r1\<lparr>job_id_string := snd (e_condor_id e)\<rparr>))
                       \<lparr>status := ST_PENDING, jobmanager_state := JM_SUBMIT\<rparr>)
               else (False, r1)
          else (False, r)
      | JM_POLL_QUERY1 \<Rightarrow> (True, r\<lparr>jobmanager_state := JM_SUBMIT\<rparr>)
      | JM_POLL_QUERY2 \<Rightarrow> (True, r\<lparr>jobmanager_state := JM_SUBMIT\<rparr>)
      | JM_POLL1 \<Rightarrow> (True, r\<lparr>jobmanager_state := JM_SUBMIT\<rparr>)
      | JM_POLL2 \<Rightarrow> (True, r\<lparr>jobmanager_state := JM_SUBMIT\<rparr>)
      | _ \<Rightarrow>
         if restart_state r = JM_FAILED \<or> restart_state r = JM_FAILED_TWO_PHASE then
           if failure_code r = GLOBUS_GRAM_PROTOCOL_ERROR_STAGE_OUT_FAILED
              \<or> failure_code r = GLOBUS_GRAM_PROTOCOL_ERROR_OPENING_STDOUT
              \<or> failure_code r = GLOBUS_GRAM_PROTOCOL_ERROR_OPENING_STDERR
           then (True, (globus_gram_job_manager_request_set_status ST_STAGE_OUT (r\<lparr>failure_code := GLOBUS_SUCCESS\<rparr>))
                   \<lparr>unsent_status_change := True, jobmanager_state := JM_POLL1\<rparr>)
           else if failure_code r = GLOBUS_GRAM_PROTOCOL_ERROR_STAGING_EXECUTABLE
              \<or> failure_code r = GLOBUS_GRAM_PROTOCOL_ERROR_STAGING_STDIN
              \<or> failure_code r = GLOBUS_GRAM_PROTOCOL_ERROR_STAGE_IN_FAILED
           then (True, (globus_gram_job_manager_request_set_status ST_UNSUBMITTED (r\<lparr>failure_code := GLOBUS_SUCCESS\<rparr>))
                   \<lparr>unsent_status_change := True, jobmanager_state := JM_TWO_PHASE_COMMITTED\<rparr>)
           else (False, (globus_gram_job_manager_request_set_status ST_FAILED r)
                   \<lparr>unsent_status_change := True, jobmanager_state := JM_POLL1\<rparr>)
         else if restart_state r \<in> {JM_CLOSE_OUTPUT, JM_PRE_CLOSE_OUTPUT, JM_STAGE_OUT, JM_TWO_PHASE_END,
                                    JM_TWO_PHASE_END_COMMITTED}
         then (True, (globus_gram_job_manager_request_set_status ST_DONE r)
                 \<lparr>unsent_status_change := True, jobmanager_state := JM_POLL1\<rparr>)
         else (False, r))"

section \<open>The cases of the state machine\<close>

text \<open>Each case returns whether an event was registered, and the request.\<close>

type_synonym step_result = "(bool \<times> job_request) option"

definition registered :: "env \<Rightarrow> int \<Rightarrow> job_request \<Rightarrow> step_result" where
  "registered e delay r =
     (case globus_gram_job_manager_state_machine_register e delay r of
        (rc, r') \<Rightarrow> Some (rc = GLOBUS_SUCCESS, r'))"

definition sm_start :: "env \<Rightarrow> job_request \<Rightarrow> step_result" where
  "sm_start e r =
     (let r1 = r\<lparr>jobmanager_state := JM_TWO_PHASE\<rparr>
      in if \<not> dry_run r \<and> two_phase_commit r \<noteq> 0 then registered e (two_phase_commit r) r1
         else Some (False, r1))"

definition sm_two_phase :: "env \<Rightarrow> job_request \<Rightarrow> step_result" where
  "sm_two_phase e r =
     (if two_phase_commit r \<noteq> 0 \<and> commit_extend r \<noteq> 0
      then registered e (commit_extend r) (r\<lparr>commit_extend := 0\<rparr>)
      else if two_phase_commit r = 0 then Some (False, r\<lparr>jobmanager_state := JM_TWO_PHASE_COMMITTED\<rparr>)
      else if jm_restart r
      then Some (False, r\<lparr>poll_timer := False, jobmanager_state := JM_STOP,
                         stop_reason := GLOBUS_GRAM_PROTOCOL_ERROR_COMMIT_TIMED_OUT\<rparr>)
      else Some (False, r\<lparr>poll_timer := False, jobmanager_state := JM_FAILED,
                         failure_code := GLOBUS_GRAM_PROTOCOL_ERROR_COMMIT_TIMED_OUT,
                         unsent_status_change := True\<rparr>))"

definition enter_stage_in :: "env \<Rightarrow> job_request \<Rightarrow> step_result" where
  "enter_stage_in e r =
     (let r1 = r\<lparr>jobmanager_state := JM_STAGE_IN\<rparr>
      in if need_stage_in r then
           let r2 = globus_gram_job_manager_request_set_status ST_STAGE_IN r1;
               r3 = (if dry_run r then r2 else act (Contacts_told (status r2) False) r2)
           in if e_script e \<noteq> GLOBUS_SUCCESS
              then Some (False, r3\<lparr>failure_code := e_script e, jobmanager_state := JM_FAILED\<rparr>)
              else Some (True, act (Script_started SC_STAGE_IN) r3)
         else Some (False, r1))"

definition sm_two_phase_committed :: "env \<Rightarrow> job_request \<Rightarrow> step_result" where
  "sm_two_phase_committed e r =
     (if jm_restart r then
        (case globus_l_gram_job_manager_set_restart_state e r of
           (changed, r1) \<Rightarrow> if changed then Some (False, r1) else enter_stage_in e r1)
      else enter_stage_in e r)"

definition sm_stage_in :: "env \<Rightarrow> job_request \<Rightarrow> step_result" where
  "sm_stage_in e r =
     (if stage_in_todo r \<noteq> [] \<or> stage_in_shared_todo r \<noteq> []
      then Some (False, r\<lparr>jobmanager_state := JM_FAILED,
             failure_code := (if failure_code r = GLOBUS_SUCCESS
                              then GLOBUS_GRAM_PROTOCOL_ERROR_STAGE_IN_FAILED else failure_code r)\<rparr>)
      else if status r = ST_FAILED \<and> dry_run r
      then Some (False, r\<lparr>jobmanager_state := JM_FAILED_TWO_PHASE_COMMITTED\<rparr>)
      else if status r = ST_FAILED then Some (False, r\<lparr>jobmanager_state := JM_FAILED\<rparr>)
      else
        let r1 = (act Seg_paused (act (State_file_written JM_SUBMIT)
                   (r\<lparr>jobmanager_state := JM_SUBMIT, restart_state := JM_SUBMIT\<rparr>)))
                 \<lparr>seg_last_timestamp := e_time e\<rparr>
        in if e_script e \<noteq> GLOBUS_SUCCESS then
             let r2 = globus_gram_job_manager_request_set_status ST_FAILED (r1\<lparr>failure_code := e_script e\<rparr>);
                 r3 = (if dry_run r2 then r2
                       else r2\<lparr>jobmanager_state := JM_FAILED, unsent_status_change := True\<rparr>)
             in Some (False, act Seg_resumed r3)
           else Some (True, act (Script_started SC_SUBMIT) r1))"

definition write_history :: "job_request \<Rightarrow> job_request" where
  "write_history r = (act (History_written (status r)) r)\<lparr>job_history_status := status r\<rparr>"

definition sm_poll1 :: "env \<Rightarrow> bool \<Rightarrow> job_request \<Rightarrow> step_result" where
  "sm_poll1 e first_poll r0 =
     (case (if seg_event_queue r0 = [] then Some r0 else globus_gram_job_manager_seg_handle_event r0) of
        None \<Rightarrow> None
      | Some r \<Rightarrow>
         let r1 = (if unsent_status_change r
                   then act (State_file_written (jobmanager_state r)) (r\<lparr>restart_state := jobmanager_state r\<rparr>)
                   else r);
             r2 = (if unsent_status_change r1 \<and> job_history_status r1 \<noteq> status r1 then write_history r1 else r1)
         in if status r2 = ST_FAILED then Some (False, r2\<lparr>jobmanager_state := JM_FAILED\<rparr>)
            else if status r2 = ST_DONE \<or> status r2 = ST_STAGE_OUT
            then Some (False, r2\<lparr>jobmanager_state := JM_PRE_CLOSE_OUTPUT\<rparr>)
            else
              let r3 = (if unsent_status_change r2
                        then (act (Contacts_told (status r2) False) r2)\<lparr>unsent_status_change := False\<rparr> else r2)
              in if pending_queries r3 \<noteq> [] then Some (False, r3\<lparr>jobmanager_state := JM_POLL_QUERY1\<rparr>)
                 else
                   let r4 = r3\<lparr>jobmanager_state := JM_POLL2\<rparr>
                   in if \<not> first_poll \<and> \<not> seg_started r4 then registered e (poll_frequency r4) r4
                      else if seg_started r4 then
                        if seg_event_queue r4 \<noteq> [] then Some (False, r4\<lparr>jobmanager_state := JM_POLL1\<rparr>)
                        else Some (True, r4)
                      else Some (False, r4))"

definition sm_submit :: "env \<Rightarrow> job_request \<Rightarrow> step_result" where
  "sm_submit e r =
     (if status r = ST_FAILED \<and> dry_run r
      then Some (False, act Seg_resumed (r\<lparr>jobmanager_state := JM_FAILED_TWO_PHASE_COMMITTED\<rparr>))
      else
        let r1 = (case job_id_string r of
             None \<Rightarrow> act Seg_resumed ((globus_gram_job_manager_request_set_status ST_FAILED
                 (r\<lparr>failure_code := (if failure_code r = GLOBUS_SUCCESS
                     then GLOBUS_GRAM_PROTOCOL_ERROR_SUBMIT_UNKNOWN else failure_code r)\<rparr>))
                 \<lparr>unsent_status_change := True\<rparr>)
           | Some ids \<Rightarrow>
               act Seg_resumed (act Cache_info_added
                 (if e_job_id e \<noteq> GLOBUS_SUCCESS
                  then (globus_gram_job_manager_request_set_status ST_FAILED (r\<lparr>failure_code := e_job_id e\<rparr>))
                         \<lparr>unsent_status_change := True\<rparr>
                  else act (Job_id_registered ids) r)));
            r2 = write_history (r1\<lparr>queued_time := e_time e\<rparr>);
            r3 = act (State_file_written JM_POLL1) (r2\<lparr>restart_state := JM_POLL1, jobmanager_state := JM_POLL1\<rparr>)
        in sm_poll1 e True r3)"

definition sm_poll2 :: "env \<Rightarrow> job_request \<Rightarrow> step_result" where
  "sm_poll2 e r =
     (if \<not> seg_module r \<and> jobmanager_type r \<noteq> MT_FORK \<and> jobmanager_type r \<noteq> MT_CONDOR then
        (if e_script e \<noteq> GLOBUS_SUCCESS then Some (False, r\<lparr>jobmanager_state := JM_POLL1\<rparr>)
         else Some (True, act (Script_started SC_POLL) (r\<lparr>jobmanager_state := JM_POLL1\<rparr>)))
      else if seg_event_queue r \<noteq> [] then Some (False, r\<lparr>jobmanager_state := JM_POLL1\<rparr>)
      else Some (True, r))"

definition sm_query1 :: "env \<Rightarrow> job_request \<Rightarrow> step_result" where
  "sm_query1 e r =
     (case pending_queries r of [] \<Rightarrow> None
      | q # qs \<Rightarrow>
         let next_state = (if jobmanager_state r = JM_POLL_QUERY1 then JM_POLL_QUERY2 else JM_TWO_PHASE_QUERY2);
             rc = (if q_type q = Q_SIGNAL \<or> q_type q = Q_CANCEL then e_script e else GLOBUS_SUCCESS);
             r1 = (if rc \<noteq> GLOBUS_SUCCESS then r
                   else if q_type q = Q_SIGNAL then act (Script_started (SC_SIGNAL (q_handle q))) r
                   else if q_type q = Q_CANCEL then act (Script_started (SC_CANCEL (q_handle q))) r
                   else r)
         in if rc = GLOBUS_SUCCESS then Some (True, r1\<lparr>jobmanager_state := next_state\<rparr>)
            else
              let r2 = globus_gram_job_manager_query_reply (q\<lparr>q_failure_code := rc\<rparr>) (r\<lparr>pending_queries := qs\<rparr>)
              in Some (False, if qs = [] then r2\<lparr>jobmanager_state := JM_POLL2\<rparr> else r2))"

definition sm_two_phase_query2 :: "env \<Rightarrow> job_request \<Rightarrow> step_result" where
  "sm_two_phase_query2 e r =
     (case pending_queries r of [] \<Rightarrow> None
      | q # qs \<Rightarrow>
         let r1 = globus_gram_job_manager_query_reply q (r\<lparr>pending_queries := qs\<rparr>)
         in if qs = [] then registered e (two_phase_commit r1) (r1\<lparr>jobmanager_state := JM_TWO_PHASE\<rparr>)
            else Some (False, r1\<lparr>jobmanager_state := JM_TWO_PHASE_QUERY1\<rparr>))"

definition sm_poll_query2 :: "job_request \<Rightarrow> step_result" where
  "sm_poll_query2 r =
     (case pending_queries r of [] \<Rightarrow> None
      | q # qs \<Rightarrow>
         let r1 = globus_gram_job_manager_query_reply q (r\<lparr>pending_queries := qs\<rparr>)
         in Some (False, r1\<lparr>jobmanager_state :=
              (if qs = [] \<and> (unsent_status_change r1 \<or> seg_event_queue r1 \<noteq> []) then JM_POLL1
               else if qs = [] then JM_POLL2 else JM_POLL_QUERY1)\<rparr>))"

definition sm_failed :: "job_request \<Rightarrow> step_result" where
  "sm_failed r =
     (let r1 = (if unsent_status_change r then
                  let w = act (State_file_written (jobmanager_state r)) (r\<lparr>restart_state := jobmanager_state r\<rparr>)
                  in if status w = ST_STAGE_OUT
                     then (act (Contacts_told (status w) False) w)\<lparr>unsent_status_change := False\<rparr> else w
                else r);
          r2 = r1\<lparr>jobmanager_state := (if jobmanager_state r1 = JM_PRE_CLOSE_OUTPUT then JM_CLOSE_OUTPUT
                                      else JM_FAILED_CLOSE_OUTPUT)\<rparr>
      in Some (False, deny_queries (pending_queries r2) r2))"

definition sm_two_phase_end :: "env \<Rightarrow> job_request \<Rightarrow> step_result" where
  "sm_two_phase_end e r =
     (if two_phase_commit r \<noteq> 0 \<and> commit_extend r \<noteq> 0
         \<and> failure_code r \<noteq> GLOBUS_GRAM_PROTOCOL_ERROR_COMMIT_TIMED_OUT
      then registered e (commit_extend r) (r\<lparr>commit_extend := 0\<rparr>)
      else if two_phase_commit r = 0 \<or> \<not> client_contacts r
              \<or> failure_code r = GLOBUS_GRAM_PROTOCOL_ERROR_COMMIT_TIMED_OUT
      then Some (False, r\<lparr>jobmanager_state :=
             (if jobmanager_state r = JM_TWO_PHASE_END then JM_TWO_PHASE_END_COMMITTED
              else JM_FAILED_TWO_PHASE_COMMITTED)\<rparr>)
      else Some (True, r\<lparr>restart_state := jobmanager_state r, jobmanager_state := JM_STOP,
             stop_reason := GLOBUS_GRAM_PROTOCOL_ERROR_COMMIT_TIMED_OUT\<rparr>))"

definition sm_two_phase_end_committed :: "job_request \<Rightarrow> step_result" where
  "sm_two_phase_end_committed r =
     (let r1 = r\<lparr>jobmanager_state := (if jobmanager_state r = JM_TWO_PHASE_END_COMMITTED then JM_FILE_CLEAN_UP
                                     else JM_FAILED_FILE_CLEAN_UP)\<rparr>
      in Some (False, if need_file_cleanup r1 \<or> jobmanager_type r1 = MT_CONDOR then act Files_removed r1 else r1))"

definition sm_file_clean_up :: "job_request \<Rightarrow> step_result" where
  "sm_file_clean_up r =
     Some (False, r\<lparr>jobmanager_state :=
       (if jobmanager_state r = JM_FILE_CLEAN_UP \<and> status r \<noteq> ST_FAILED then JM_SCRATCH_CLEAN_UP
        else JM_FAILED_SCRATCH_CLEAN_UP)\<rparr>)"

definition sm_scratch_clean_up :: "job_request \<Rightarrow> step_result" where
  "sm_scratch_clean_up r =
     Some (False, act Cache_cleaned (act Directory_destroyed (r\<lparr>jobmanager_state :=
       (if jobmanager_state r = JM_SCRATCH_CLEAN_UP then JM_CACHE_CLEAN_UP else JM_FAILED_CACHE_CLEAN_UP)\<rparr>)))"

definition remove_state_file :: "job_request \<Rightarrow> job_request" where
  "remove_state_file r = (if job_state_file r then act State_file_removed r else r)"

definition sm_cache_clean_up :: "job_request \<Rightarrow> step_result" where
  "sm_cache_clean_up r =
     Some (False, globus_l_gram_job_manager_cancel_queries (remove_state_file (r\<lparr>jobmanager_state :=
       (if jobmanager_state r = JM_CACHE_CLEAN_UP then JM_DONE else JM_FAILED_DONE)\<rparr>)))"

definition sm_stop :: "job_request \<Rightarrow> step_result" where
  "sm_stop r = Some (True, act (State_file_written (restart_state r)) (act (Contacts_told (status r) False) r))"

text \<open>The common end of the two final states: no new scheduler events, the queued ones consumed.\<close>

definition sm_failed_done :: "job_request \<Rightarrow> step_result" where
  "sm_failed_done r =
     (let r1 = globus_l_gram_job_manager_cancel_queries (remove_state_file r);
          r2 = act Job_id_unregistered (act Audited (r1\<lparr>restart_state := jobmanager_state r1\<rparr>))
      in map_option (\<lambda>r3. (True, act Stats_sent r3)) (clear_seg_events (length (seg_event_queue r2)) r2))"

definition sm_done :: "job_request \<Rightarrow> step_result" where
  "sm_done r =
     (let r1 = globus_l_gram_job_manager_cancel_queries r;
          r2 = act Job_id_unregistered (act Audited (r1\<lparr>restart_state := jobmanager_state r1\<rparr>))
      in map_option (\<lambda>r3. (True, act Stats_sent r3)) (clear_seg_events (length (seg_event_queue r2)) r2))"

definition sm_close_output :: "env \<Rightarrow> job_request \<Rightarrow> step_result" where
  "sm_close_output e r =
     (if status r = ST_FAILED \<and> failure_code r = GLOBUS_GRAM_PROTOCOL_ERROR_STAGE_OUT_FAILED
      then Some (False, r\<lparr>jobmanager_state := JM_FAILED_CLOSE_OUTPUT\<rparr>)
      else
        let r1 = r\<lparr>jobmanager_state := JM_STAGE_OUT\<rparr>
        in if stage_stream_todo r \<noteq> [] \<or> stage_out_todo r \<noteq> [] then
             if e_script e \<noteq> GLOBUS_SUCCESS
             then Some (False, r1\<lparr>failure_code := e_script e, jobmanager_state := JM_FAILED\<rparr>)
             else Some (True, (act (Script_started SC_STAGE_OUT) r1)\<lparr>unsent_status_change := True\<rparr>)
           else Some (False, r1\<lparr>unsent_status_change := True\<rparr>))"

text \<open>The end of the output states: the outcome is settled, then told to the contacts.\<close>

definition settle_outcome :: "job_request \<Rightarrow> job_request" where
  "settle_outcome r =
     (if jobmanager_state r = JM_STAGE_OUT
      then globus_gram_job_manager_request_set_status ST_DONE (r\<lparr>jobmanager_state := JM_TWO_PHASE_END\<rparr>)
      else if jobmanager_state r = JM_FAILED_CLOSE_OUTPUT
      then globus_gram_job_manager_request_set_status ST_FAILED (r\<lparr>jobmanager_state := JM_FAILED_TWO_PHASE\<rparr>)
      else r)"

definition tell_outcome :: "job_request \<Rightarrow> step_result" where
  "tell_outcome r =
     (if unsent_status_change r then
        let r1 = (if job_history_status r \<noteq> status r then write_history r else r);
            r2 = (act (Contacts_told (status r1) (two_phase_commit r1 \<noteq> 0)) r1)\<lparr>unsent_status_change := False\<rparr>
        in Some (two_phase_commit r2 \<noteq> 0, r2)
      else Some (False, r))"

definition sm_failed_close_output :: "job_request \<Rightarrow> step_result" where
  "sm_failed_close_output r = tell_outcome (settle_outcome r)"

definition sm_stage_out :: "job_request \<Rightarrow> step_result" where
  "sm_stage_out r =
     sm_failed_close_output
       (if stage_stream_todo r \<noteq> []
        then r\<lparr>jobmanager_state := JM_FAILED_CLOSE_OUTPUT,
               failure_code := (if failure_code r = GLOBUS_SUCCESS
                                   \<or> failure_code r = GLOBUS_GRAM_PROTOCOL_ERROR_STAGE_OUT_FAILED
                                then GLOBUS_GRAM_PROTOCOL_ERROR_OPENING_STDOUT else failure_code r)\<rparr>
        else if stage_out_todo r \<noteq> []
        then r\<lparr>jobmanager_state := JM_FAILED_CLOSE_OUTPUT,
               failure_code := (if failure_code r = GLOBUS_SUCCESS
                                then GLOBUS_GRAM_PROTOCOL_ERROR_STAGE_OUT_FAILED else failure_code r)\<rparr>
        else r)"

fun globus_l_gram_job_manager_state_machine_in :: "jm_state \<Rightarrow> env \<Rightarrow> job_request \<Rightarrow> step_result" where
  "globus_l_gram_job_manager_state_machine_in JM_START e r = sm_start e r"
| "globus_l_gram_job_manager_state_machine_in JM_TWO_PHASE e r = sm_two_phase e r"
| "globus_l_gram_job_manager_state_machine_in JM_TWO_PHASE_COMMITTED e r = sm_two_phase_committed e r"
| "globus_l_gram_job_manager_state_machine_in JM_STAGE_IN e r = sm_stage_in e r"
| "globus_l_gram_job_manager_state_machine_in JM_SUBMIT e r = sm_submit e r"
| "globus_l_gram_job_manager_state_machine_in JM_POLL1 e r = sm_poll1 e False r"
| "globus_l_gram_job_manager_state_machine_in JM_POLL2 e r = sm_poll2 e r"
| "globus_l_gram_job_manager_state_machine_in JM_POLL_QUERY1 e r = sm_query1 e r"
| "globus_l_gram_job_manager_state_machine_in JM_TWO_PHASE_QUERY1 e r = sm_query1 e r"
| "globus_l_gram_job_manager_state_machine_in JM_TWO_PHASE_QUERY2 e r = sm_two_phase_query2 e r"
| "globus_l_gram_job_manager_state_machine_in JM_POLL_QUERY2 e r = sm_poll_query2 r"
| "globus_l_gram_job_manager_state_machine_in JM_PRE_CLOSE_OUTPUT e r = sm_failed r"
| "globus_l_gram_job_manager_state_machine_in JM_FAILED e r = sm_failed r"
| "globus_l_gram_job_manager_state_machine_in JM_TWO_PHASE_END e r = sm_two_phase_end e r"
| "globus_l_gram_job_manager_state_machine_in JM_FAILED_TWO_PHASE e r = sm_two_phase_end e r"
| "globus_l_gram_job_manager_state_machine_in JM_TWO_PHASE_END_COMMITTED e r = sm_two_phase_end_committed r"
| "globus_l_gram_job_manager_state_machine_in JM_FAILED_TWO_PHASE_COMMITTED e r = sm_two_phase_end_committed r"
| "globus_l_gram_job_manager_state_machine_in JM_FILE_CLEAN_UP e r = sm_file_clean_up r"
| "globus_l_gram_job_manager_state_machine_in JM_FAILED_FILE_CLEAN_UP e r = sm_file_clean_up r"
| "globus_l_gram_job_manager_state_machine_in JM_SCRATCH_CLEAN_UP e r = sm_scratch_clean_up r"
| "globus_l_gram_job_manager_state_machine_in JM_FAILED_SCRATCH_CLEAN_UP e r = sm_scratch_clean_up r"
| "globus_l_gram_job_manager_state_machine_in JM_CACHE_CLEAN_UP e r = sm_cache_clean_up r"
| "globus_l_gram_job_manager_state_machine_in JM_FAILED_CACHE_CLEAN_UP e r = sm_cache_clean_up r"
| "globus_l_gram_job_manager_state_machine_in JM_STOP e r = sm_stop r"
| "globus_l_gram_job_manager_state_machine_in JM_FAILED_DONE e r = sm_failed_done r"
| "globus_l_gram_job_manager_state_machine_in JM_DONE e r = sm_done r"
| "globus_l_gram_job_manager_state_machine_in JM_CLOSE_OUTPUT e r = sm_close_output e r"
| "globus_l_gram_job_manager_state_machine_in JM_STAGE_OUT e r = sm_stage_out r"
| "globus_l_gram_job_manager_state_machine_in JM_FAILED_CLOSE_OUTPUT e r = sm_failed_close_output r"

definition globus_l_gram_job_manager_state_machine :: "env \<Rightarrow> job_request \<Rightarrow> step_result" where
  "globus_l_gram_job_manager_state_machine e r =
     globus_l_gram_job_manager_state_machine_in (jobmanager_state r) e r"

text \<open>The callback: the timer is dropped, the machine steps until an event is registered, and the
  reference of the callback is released. \<open>es\<close> gives the outside's answers at each step; the result is
  \<open>None\<close> when the steps of \<open>fuel\<close> do not suffice or a step faults.\<close>

fun state_machine_loop :: "nat \<Rightarrow> (nat \<Rightarrow> env) \<Rightarrow> job_request \<Rightarrow> job_request option" where
  "state_machine_loop 0 es r = None"
| "state_machine_loop (Suc fuel) es r =
     (case globus_l_gram_job_manager_state_machine (es 0) r of None \<Rightarrow> None
      | Some (event_registered, r1) \<Rightarrow>
          if event_registered then Some r1 else state_machine_loop fuel (\<lambda>i. es (Suc i)) r1)"

definition globus_gram_job_manager_state_machine_callback ::
  "nat \<Rightarrow> (nat \<Rightarrow> env) \<Rightarrow> job_request \<Rightarrow> job_request option" where
  "globus_gram_job_manager_state_machine_callback fuel es r =
     map_option (\<lambda>r1. r1\<lparr>references := references r1 - 1\<rparr>)
       (state_machine_loop fuel es (r\<lparr>poll_timer := False\<rparr>))"

section \<open>Cancelling and signalling a job\<close>

text \<open>\<open>wake\<close> is the end of a handler that must let the machine run: the timer is adjusted when there is
  one, or the callback registered. The result of a handler is the code, whether it replies at once, and
  the request.\<close>

definition enqueue_query :: "job_query \<Rightarrow> job_request \<Rightarrow> job_request" where
  "enqueue_query q r = act (Query_queued (q_handle q)) (r\<lparr>pending_queries := pending_queries r @ [q]\<rparr>)"

definition wake :: "env \<Rightarrow> job_request \<Rightarrow> job_request" where
  "wake e r = (if poll_timer r then r else snd (globus_gram_job_manager_state_machine_register e 0 r))"

definition fail_cancelled :: "job_request \<Rightarrow> job_request" where
  "fail_cancelled r =
     (globus_gram_job_manager_request_set_status ST_FAILED (r\<lparr>jobmanager_state := JM_FAILED\<rparr>))
       \<lparr>failure_code := GLOBUS_GRAM_PROTOCOL_ERROR_USER_CANCELLED\<rparr>"

definition globus_l_gram_job_manager_cancel ::
  "env \<Rightarrow> nat \<Rightarrow> bool \<Rightarrow> job_request \<Rightarrow> int \<times> bool \<times> job_request" where
  "globus_l_gram_job_manager_cancel e handle reply r =
     (if jobmanager_state r = JM_START then (GLOBUS_SUCCESS, reply, fail_cancelled r)
      else if jobmanager_state r \<in> {JM_TWO_PHASE, JM_TWO_PHASE_COMMITTED, JM_STAGE_IN}
      then (GLOBUS_SUCCESS, reply, (fail_cancelled r)\<lparr>unsent_status_change := True\<rparr>)
      else if jobmanager_state r \<in> {JM_SUBMIT, JM_POLL1, JM_POLL2, JM_POLL_QUERY1, JM_POLL_QUERY2} then
        let r1 = enqueue_query \<lparr>q_type = Q_CANCEL, q_handle = handle, q_signal = 0, q_failure_code = 0\<rparr> r
        in (GLOBUS_SUCCESS, False,
            if jobmanager_state r = JM_POLL2 then wake e (r1\<lparr>jobmanager_state := JM_POLL_QUERY1\<rparr>) else r1)
      else (GLOBUS_GRAM_PROTOCOL_ERROR_JOB_QUERY_DENIAL, True, r))"

fun globus_l_gram_job_manager_query_valid :: "jm_state \<Rightarrow> bool" where
  "globus_l_gram_job_manager_query_valid s \<longleftrightarrow>
     s \<in> {JM_START, JM_TWO_PHASE, JM_TWO_PHASE_COMMITTED, JM_TWO_PHASE_QUERY1, JM_TWO_PHASE_QUERY2,
          JM_STAGE_IN, JM_SUBMIT, JM_POLL1, JM_POLL2, JM_POLL_QUERY1, JM_POLL_QUERY2}"

text \<open>The signals cancel, suspend, resume and priority. \<open>arg\<close> is the text after the signal's number;
  \<open>dup\<close> whether the copy of it could be allocated.\<close>

definition signal_query ::
  "env \<Rightarrow> bool \<Rightarrow> int \<Rightarrow> string option \<Rightarrow> nat \<Rightarrow> job_request \<Rightarrow> int \<times> bool \<times> job_request" where
  "signal_query e dup sig arg handle r =
     (case arg of None \<Rightarrow> (GLOBUS_GRAM_PROTOCOL_ERROR_HTTP_UNPACK_FAILED, True, r)
      | Some a \<Rightarrow>
         if a = [] then (GLOBUS_GRAM_PROTOCOL_ERROR_HTTP_UNPACK_FAILED, True, r)
         else if \<not> globus_l_gram_job_manager_query_valid (jobmanager_state r)
         then (GLOBUS_GRAM_PROTOCOL_ERROR_JOB_QUERY_DENIAL, True, r)
         else if \<not> dup then (GLOBUS_GRAM_PROTOCOL_ERROR_MALLOC_FAILED, True, r)
         else
           let r1 = enqueue_query \<lparr>q_type = Q_SIGNAL, q_handle = handle, q_signal = sig, q_failure_code = 0\<rparr> r
           in (GLOBUS_SUCCESS, False,
               if jobmanager_state r = JM_POLL2 then wake e (r1\<lparr>jobmanager_state := JM_POLL_QUERY1\<rparr>)
               else if jobmanager_state r = JM_TWO_PHASE
               then wake e (r1\<lparr>jobmanager_state := JM_TWO_PHASE_QUERY1\<rparr>) else r1))"

definition signal_commit_request :: "env \<Rightarrow> job_request \<Rightarrow> int \<times> bool \<times> job_request" where
  "signal_commit_request e r =
     (if two_phase_commit r = 0 then (GLOBUS_GRAM_PROTOCOL_ERROR_INVALID_COMMIT, True, r)
      else if jobmanager_state r \<in> {JM_TWO_PHASE, JM_START, JM_TWO_PHASE_QUERY1, JM_TWO_PHASE_QUERY2}
      then (GLOBUS_SUCCESS, True, wake e (r\<lparr>jobmanager_state := JM_TWO_PHASE_COMMITTED\<rparr>))
      else if jobmanager_state r = JM_STOP then (GLOBUS_GRAM_PROTOCOL_ERROR_JOB_QUERY_DENIAL, True, r)
      else (GLOBUS_SUCCESS, True, r))"

definition signal_commit_end :: "env \<Rightarrow> job_request \<Rightarrow> int \<times> bool \<times> job_request" where
  "signal_commit_end e r =
     (if two_phase_commit r = 0 then (GLOBUS_GRAM_PROTOCOL_ERROR_INVALID_COMMIT, True, r)
      else if jobmanager_state r = JM_TWO_PHASE_END \<or> jobmanager_state r = JM_STOP
      then (GLOBUS_SUCCESS, True, wake e (r\<lparr>jobmanager_state := JM_TWO_PHASE_END_COMMITTED\<rparr>))
      else if jobmanager_state r = JM_FAILED_TWO_PHASE
      then (GLOBUS_SUCCESS, True, wake e (r\<lparr>jobmanager_state := JM_FAILED_TWO_PHASE_COMMITTED\<rparr>))
      else (GLOBUS_GRAM_PROTOCOL_ERROR_JOB_QUERY_DENIAL, True, r))"

definition signal_commit_extend :: "string option \<Rightarrow> job_request \<Rightarrow> int \<times> bool \<times> job_request" where
  "signal_commit_extend arg r =
     (case arg of None \<Rightarrow> (GLOBUS_GRAM_PROTOCOL_ERROR_HTTP_UNPACK_FAILED, True, r)
      | Some a \<Rightarrow>
         if a = [] then (GLOBUS_GRAM_PROTOCOL_ERROR_HTTP_UNPACK_FAILED, True, r)
         else if two_phase_commit r = 0 then (GLOBUS_GRAM_PROTOCOL_ERROR_INVALID_COMMIT, True, r)
         else if jobmanager_state r \<in> {JM_TWO_PHASE, JM_TWO_PHASE_END, JM_FAILED_TWO_PHASE,
                                       JM_TWO_PHASE_QUERY1, JM_TWO_PHASE_QUERY2}
         then (GLOBUS_SUCCESS, True, r\<lparr>commit_extend := wrap_s 32 (commit_extend r + atoi a)\<rparr>)
         else (GLOBUS_SUCCESS, True, r))"

definition globus_l_gram_job_manager_query_stop_manager :: "env \<Rightarrow> job_request \<Rightarrow> int \<times> job_request" where
  "globus_l_gram_job_manager_query_stop_manager e r =
     (let r1 = (if jobmanager_state r = JM_POLL2 then wake e r else r)
      in if jobmanager_state r = JM_STOP
         then (GLOBUS_SUCCESS, r1\<lparr>unsent_status_change := True,
                 stop_reason := GLOBUS_GRAM_PROTOCOL_ERROR_JM_STOPPED, jobmanager_state := JM_STOP\<rparr>)
         else if jobmanager_state r \<in> {JM_FILE_CLEAN_UP, JM_SCRATCH_CLEAN_UP, JM_CACHE_CLEAN_UP, JM_DONE,
                   JM_FAILED_DONE, JM_FAILED, JM_FAILED_FILE_CLEAN_UP, JM_FAILED_SCRATCH_CLEAN_UP,
                   JM_FAILED_CACHE_CLEAN_UP, JM_FAILED_CLOSE_OUTPUT}
         then (GLOBUS_GRAM_PROTOCOL_ERROR_JOB_QUERY_DENIAL, r1)
         else (GLOBUS_SUCCESS, r1\<lparr>unsent_status_change := True,
                 stop_reason := GLOBUS_GRAM_PROTOCOL_ERROR_JM_STOPPED,
                 restart_state := jobmanager_state r1, jobmanager_state := JM_STOP\<rparr>))"

section \<open>What the scripts report\<close>

text \<open>The numbers of the job states.\<close>

definition job_status_of :: "int \<Rightarrow> job_status" where
  "job_status_of i =
     (if i = 1 then ST_PENDING else if i = 2 then ST_ACTIVE else if i = 4 then ST_FAILED
      else if i = 8 then ST_DONE else if i = 16 then ST_SUSPENDED else if i = 32 then ST_UNSUBMITTED
      else if i = 64 then ST_STAGE_IN else if i = 128 then ST_STAGE_OUT else ST_OTHER i)"

text \<open>The accounting text: a backslash before \<open>n\<close> is a line feed, before another character that
  character, and before the end the end.\<close>

fun acct_unescape :: "string \<Rightarrow> string" where
  "acct_unescape [] = []"
| "acct_unescape (c # s) =
     (if c \<noteq> CHR 0x5C then c # acct_unescape s
      else (case s of [] \<Rightarrow> [] | d # t \<Rightarrow> (if d = CHR ''n'' then LF else d) # acct_unescape t))"

definition next_word :: "string \<Rightarrow> string \<times> string" where
  "next_word s = (let t = dropWhile isspace s in (takeWhile (\<lambda>c. \<not> isspace c) t, dropWhile (\<lambda>c. \<not> isspace c) t))"

datatype staging_type = STAGE_TYPE_IN | STAGE_TYPE_IN_SHARED | STAGE_TYPE_OUT | STAGE_TYPE_STREAMS

text \<open>The first matching entry of the list is removed.\<close>

definition globus_gram_job_manager_staging_remove ::
  "staging_type \<Rightarrow> string \<Rightarrow> string \<Rightarrow> job_request \<Rightarrow> job_request" where
  "globus_gram_job_manager_staging_remove t from to r =
     (case t of
        STAGE_TYPE_IN \<Rightarrow> r\<lparr>stage_in_todo := remove1 (from, to) (stage_in_todo r)\<rparr>
      | STAGE_TYPE_IN_SHARED \<Rightarrow> r\<lparr>stage_in_shared_todo := remove1 (from, to) (stage_in_shared_todo r)\<rparr>
      | STAGE_TYPE_OUT \<Rightarrow> r\<lparr>stage_out_todo := remove1 (from, to) (stage_out_todo r)\<rparr>
      | STAGE_TYPE_STREAMS \<Rightarrow> r\<lparr>stage_stream_todo := remove1 (from, to) (stage_stream_todo r)\<rparr>)"

text \<open>A value without two words leaves the names unset: a fault.\<close>

definition globus_l_gram_job_manager_script_staged_done ::
  "staging_type \<Rightarrow> string \<Rightarrow> job_request \<Rightarrow> job_request option" where
  "globus_l_gram_job_manager_script_staged_done t v r =
     (case next_word v of (from, rest) \<Rightarrow>
        (case next_word rest of (to, _) \<Rightarrow>
           if from = [] \<or> to = [] then None
           else
             let r1 = globus_gram_job_manager_staging_remove t from to r
             in Some (if jobmanager_state r1 \<noteq> JM_STOP
                      then act (State_file_written (restart_state r1)) r1 else r1)))"

text \<open>One line of a script's output: the variable and its value, or the end of the output (\<open>None\<close>). \<open>start\<close>
  is the state in which the script was started; a line that reports a failure counts only while the
  machine is still in that state.\<close>

definition fail_script :: "int \<Rightarrow> job_request \<Rightarrow> job_request" where
  "fail_script code r =
     (globus_gram_job_manager_request_set_status ST_FAILED r)\<lparr>failure_code := code, unsent_status_change := True\<rparr>"

definition script_job_state :: "string \<Rightarrow> job_request \<Rightarrow> job_request" where
  "script_job_state v r =
     (if atoi v < 0 then r\<lparr>failure_code := GLOBUS_GRAM_PROTOCOL_ERROR_INVALID_SCRIPT_STATUS\<rparr>
      else if globus_i_gram_job_manager_script_valid_state_change (status r) (job_status_of (atoi v))
      then (globus_gram_job_manager_request_set_status
              (if job_status_of (atoi v) = ST_DONE \<and> need_stage_out r then ST_STAGE_OUT
               else job_status_of (atoi v)) r)\<lparr>unsent_status_change := True\<rparr>
      else r)"

definition script_gt3 :: "string \<Rightarrow> string \<Rightarrow> job_request \<Rightarrow> job_request" where
  "script_gt3 var v r =
     (if gt3_failure_type r = None \<and> var = ''GRAM_SCRIPT_GT3_FAILURE_TYPE''
      then r\<lparr>gt3_failure_type := Some v\<rparr>
      else if gt3_failure_message r = None \<and> var = ''GRAM_SCRIPT_GT3_FAILURE_MESSAGE''
      then r\<lparr>gt3_failure_message := Some v\<rparr>
      else if gt3_failure_source r = None \<and> var = ''GRAM_SCRIPT_GT3_FAILURE_SOURCE''
      then r\<lparr>gt3_failure_source := Some v\<rparr>
      else if gt3_failure_destination r = None \<and> var = ''GRAM_SCRIPT_GT3_FAILURE_DESTINATION''
      then r\<lparr>gt3_failure_destination := Some v\<rparr>
      else r)"

definition globus_l_gram_job_manager_default_done ::
  "env \<Rightarrow> int \<Rightarrow> jm_state \<Rightarrow> (string \<times> string) option \<Rightarrow> job_request \<Rightarrow> job_request option" where
  "globus_l_gram_job_manager_default_done e code start report r0 =
     (let r = (if code \<noteq> 0 then r0\<lparr>failure_code := code\<rparr> else r0);
          here = (jobmanager_state r = start)
      in case report of
           None \<Rightarrow> Some (snd (globus_gram_job_manager_state_machine_register e 0 r))
         | Some (var, v) \<Rightarrow>
             if var = ''GRAM_SCRIPT_JOB_STATE'' then Some (script_job_state v r)
             else if var = ''GRAM_SCRIPT_ERROR''
             then Some (if here then fail_script (if atoi v \<le> 0
                          then GLOBUS_GRAM_PROTOCOL_ERROR_INVALID_SCRIPT_STATUS else atoi v) r else r)
             else if var = ''GRAM_SCRIPT_JOB_ID''
             then Some (if v \<noteq> [] then r\<lparr>job_id_string := Some v, original_job_id_string := Some v\<rparr> else r)
             else if var = ''GRAM_SCRIPT_JOB_ACCT_INFO''
             then Some (if v \<noteq> [] then act (Accounted (acct_unescape v)) r else r)
             else if var = ''GRAM_SCRIPT_SCRATCH_DIR'' then Some (r\<lparr>scratchdir := Some v\<rparr>)
             else if var = ''GRAM_SCRIPT_STAGED_IN''
             then globus_l_gram_job_manager_script_staged_done STAGE_TYPE_IN v r
             else if var = ''GRAM_SCRIPT_STAGED_IN_SHARED''
             then globus_l_gram_job_manager_script_staged_done STAGE_TYPE_IN_SHARED v r
             else if var = ''GRAM_SCRIPT_STAGED_OUT''
             then if here then globus_l_gram_job_manager_script_staged_done STAGE_TYPE_OUT v r else Some r
             else if var = ''GRAM_SCRIPT_STAGED_STREAM''
             then if here then globus_l_gram_job_manager_script_staged_done STAGE_TYPE_STREAMS v r else Some r
             else if take 15 var = ''GRAM_SCRIPT_GT3'' then Some (script_gt3 var v r)
             else if var = ''GRAM_SCRIPT_LOG'' then Some (act (Logged v) r)
             else Some (if here then fail_script GLOBUS_GRAM_PROTOCOL_ERROR_INVALID_SCRIPT_STATUS r else r))"

text \<open>The script of a query writes to the query, found here by its handle among the pending ones; a
  query that has been answered is freed memory.\<close>

fun find_query :: "nat \<Rightarrow> job_query list \<Rightarrow> job_query option" where
  "find_query h [] = None"
| "find_query h (q # qs) = (if q_handle q = h then Some q else find_query h qs)"

fun set_query_code :: "nat \<Rightarrow> int \<Rightarrow> job_query list \<Rightarrow> job_query list" where
  "set_query_code h c [] = []"
| "set_query_code h c (q # qs) = (if q_handle q = h then q\<lparr>q_failure_code := c\<rparr> # qs else q # set_query_code h c qs)"

definition fail_query :: "nat \<Rightarrow> int \<Rightarrow> job_request \<Rightarrow> job_request" where
  "fail_query h c r = r\<lparr>pending_queries := set_query_code h c (pending_queries r)\<rparr>"

definition query_job_state :: "job_query \<Rightarrow> string \<Rightarrow> job_request \<Rightarrow> job_request" where
  "query_job_state q v r =
     (let s = job_status_of (atoi v);
          valid = globus_i_gram_job_manager_script_valid_state_change (status r) s
      in if atoi v \<le> 0 then fail_query (q_handle q) GLOBUS_GRAM_PROTOCOL_ERROR_INVALID_SCRIPT_STATUS r
         else if (q_type q = Q_CANCEL \<or> q_signal q = SIGNAL_CANCEL) \<and> valid then
           let r1 = globus_gram_job_manager_request_set_status s (r\<lparr>unsent_status_change := True\<rparr>)
           in if status r1 = ST_FAILED
              then fail_query (q_handle q) GLOBUS_GRAM_PROTOCOL_ERROR_USER_CANCELLED
                     (r1\<lparr>failure_code := GLOBUS_GRAM_PROTOCOL_ERROR_USER_CANCELLED\<rparr>)
              else r1
         else if (q_signal q = SIGNAL_SUSPEND \<or> q_signal q = SIGNAL_RESUME) \<and> valid
         then (globus_gram_job_manager_request_set_status s r)\<lparr>unsent_status_change := True\<rparr>
         else r)"

definition globus_l_gram_job_manager_query_done ::
  "env \<Rightarrow> nat \<Rightarrow> int \<Rightarrow> (string \<times> string) option \<Rightarrow> job_request \<Rightarrow> job_request option" where
  "globus_l_gram_job_manager_query_done e h code report r0 =
     (let r = (if code \<noteq> 0 then r0\<lparr>failure_code := code\<rparr> else r0)
      in case report of
           None \<Rightarrow> Some (snd (globus_gram_job_manager_state_machine_register e 0 r))
         | Some (var, v) \<Rightarrow>
             if var = ''GRAM_SCRIPT_LOG'' then Some (act (Logged v) r)
             else (case find_query h (pending_queries r) of None \<Rightarrow> None
                   | Some q \<Rightarrow>
                      Some (if var = ''GRAM_SCRIPT_ERROR''
                            then fail_query h (if atoi v \<le> 0 then GLOBUS_GRAM_PROTOCOL_ERROR_INVALID_SCRIPT_STATUS
                                               else atoi v) r
                            else if var = ''GRAM_SCRIPT_JOB_STATE'' then query_job_state q v r
                            else fail_query h GLOBUS_GRAM_PROTOCOL_ERROR_INVALID_SCRIPT_STATUS r)))"

text \<open>The arrival of a scheduler event; \<open>room\<close> says whether the queue could grow.\<close>

definition globus_l_gram_deliver_event :: "env \<Rightarrow> bool \<Rightarrow> scheduler_event \<Rightarrow> job_request \<Rightarrow> int \<times> job_request" where
  "globus_l_gram_deliver_event e room ev r =
     (if \<not> room then (GLOBUS_GRAM_PROTOCOL_ERROR_MALLOC_FAILED, r)
      else
        let r1 = r\<lparr>seg_event_queue := seg_event_queue r @ [ev]\<rparr>;
            r2 = (if ended (ev_type ev) then act (Job_id_dropped (ev_job_id ev)) r1 else r1)
        in (GLOBUS_SUCCESS,
            if jobmanager_state r2 = JM_POLL2 then
              (case globus_gram_job_manager_state_machine_register e 0 (r2\<lparr>jobmanager_state := JM_POLL1\<rparr>) of
                 (rc, r3) \<Rightarrow> if rc \<noteq> GLOBUS_SUCCESS then r3\<lparr>jobmanager_state := JM_POLL2\<rparr> else r3)
            else r2))"

section \<open>The life of a job request\<close>

text \<open>The states reached from a start by steps that return and are allowed.\<close>

inductive reachable :: "('a \<Rightarrow> bool) \<Rightarrow> ('s \<Rightarrow> 'a \<Rightarrow> bool) \<Rightarrow> ('s \<Rightarrow> 'a \<Rightarrow> 'a option) \<Rightarrow> 'a \<Rightarrow> bool"
  for start ok run where
  init: "start x \<Longrightarrow> reachable start ok run x"
| step: "reachable start ok run x \<Longrightarrow> ok s x \<Longrightarrow> run s x = Some y \<Longrightarrow> reachable start ok run y"

text \<open>Everything that changes a request, as steps that may follow each other in any order: a step of the
  machine, the queries of clients, lines from scripts, events of the scheduler.\<close>

datatype job_step =
    Machine env
  | Timer_fired
  | Cancel env nat
  | Signal_query env bool int "string option" nat
  | Commit_request env
  | Commit_end env
  | Commit_extend "string option"
  | Stop_manager env
  | Script_line env int jm_state "(string \<times> string) option"
  | Query_line env nat int "(string \<times> string) option"
  | Deliver env bool scheduler_event

text \<open>The states in which the machine starts a script whose output \<open>default_done\<close> reads.\<close>

definition script_states :: "jm_state list" where
  "script_states = [JM_STAGE_IN, JM_SUBMIT, JM_POLL1, JM_STAGE_OUT]"

fun job_do :: "job_step \<Rightarrow> job_request \<Rightarrow> job_request option" where
  "job_do (Machine e) r = map_option snd (globus_l_gram_job_manager_state_machine e r)"
| "job_do Timer_fired r = Some (r\<lparr>poll_timer := False\<rparr>)"
| "job_do (Cancel e h) r = Some (snd (snd (globus_l_gram_job_manager_cancel e h True r)))"
| "job_do (Signal_query e dup sig arg h) r = Some (snd (snd (signal_query e dup sig arg h r)))"
| "job_do (Commit_request e) r = Some (snd (snd (signal_commit_request e r)))"
| "job_do (Commit_end e) r = Some (snd (snd (signal_commit_end e r)))"
| "job_do (Commit_extend arg) r = Some (snd (snd (signal_commit_extend arg r)))"
| "job_do (Stop_manager e) r = Some (snd (globus_l_gram_job_manager_query_stop_manager e r))"
| "job_do (Script_line e code start report) r =
     (if start \<in> set script_states then globus_l_gram_job_manager_default_done e code start report r else None)"
| "job_do (Query_line e h code report) r = globus_l_gram_job_manager_query_done e h code report r"
| "job_do (Deliver e room ev) r = Some (snd (globus_l_gram_deliver_event e room ev r))"

text \<open>A request that has just been made.\<close>

definition job_init :: "job_request \<Rightarrow> bool" where
  "job_init r \<longleftrightarrow> jobmanager_state r = JM_START \<and> pending_queries r = [] \<and> trace r = []"

text \<open>The end of the two-phase commit accepted in a stopped job manager.\<close>

definition commits_stopped :: "job_step \<Rightarrow> job_request \<Rightarrow> bool" where
  "commits_stopped s r = (case s of Commit_end e \<Rightarrow> jobmanager_state r = JM_STOP | _ \<Rightarrow> False)"

definition job_reach :: "bool \<Rightarrow> job_request \<Rightarrow> bool" where
  "job_reach strict = reachable job_init (\<lambda>s r. strict \<longrightarrow> \<not> commits_stopped s r) job_do"

fun job_run :: "job_step list \<Rightarrow> job_request \<Rightarrow> job_request option" where
  "job_run [] r = Some r"
| "job_run (s # ss) r = Option.bind (job_do s r) (job_run ss)"

section \<open>What the helpers keep\<close>

definition replied :: "job_action list \<Rightarrow> nat list" where
  "replied t = concat (map (\<lambda>a. case a of Replied h _ _ _ \<Rightarrow> [h] | _ \<Rightarrow> []) t)"

definition queued :: "job_action list \<Rightarrow> nat list" where
  "queued t = concat (map (\<lambda>a. case a of Query_queued h \<Rightarrow> [h] | _ \<Rightarrow> []) t)"

definition submits :: "job_action list \<Rightarrow> nat" where
  "submits t = length (filter (\<lambda>a. a = Script_started SC_SUBMIT) t)"

definition cleaned :: "job_action list \<Rightarrow> bool" where
  "cleaned t = list_ex (\<lambda>a. a = Files_removed \<or> a = Directory_destroyed \<or> a = State_file_removed) t"

lemma trace_views [simp]:
  "replied (t @ u) = replied t @ replied u" "queued (t @ u) = queued t @ queued u"
  "submits (t @ u) = submits t + submits u" "replied [] = []" "queued [] = []" "submits [] = 0"
  "cleaned (t @ u) = (cleaned t \<or> cleaned u)" "\<not> cleaned []"
  by (simp_all add: replied_def queued_def submits_def cleaned_def)

lemma trace_view_Cons [simp]:
  "replied (a # t) = (case a of Replied h _ _ _ \<Rightarrow> h # replied t | _ \<Rightarrow> replied t)"
  "queued (a # t) = (case a of Query_queued h \<Rightarrow> h # queued t | _ \<Rightarrow> queued t)"
  "submits (a # t) = (if a = Script_started SC_SUBMIT then Suc (submits t) else submits t)"
  "cleaned (a # t) = (a = Files_removed \<or> a = Directory_destroyed \<or> a = State_file_removed \<or> cleaned t)"
  by (simp_all add: replied_def queued_def submits_def cleaned_def split: job_action.split)

lemma act_fields [simp]:
  "jobmanager_state (act a r) = jobmanager_state r" "status (act a r) = status r"
  "pending_queries (act a r) = pending_queries r" "seg_event_queue (act a r) = seg_event_queue r"
  "job_id_string (act a r) = job_id_string r" "jm_restart (act a r) = jm_restart r"
  "failure_code (act a r) = failure_code r" "restart_state (act a r) = restart_state r"
  "poll_timer (act a r) = poll_timer r" "trace (act a r) = trace r @ [a]"
  "dry_run (act a r) = dry_run r" "unsent_status_change (act a r) = unsent_status_change r"
  "two_phase_commit (act a r) = two_phase_commit r" "seg_started (act a r) = seg_started r"
  "job_history_status (act a r) = job_history_status r" "poll_frequency (act a r) = poll_frequency r"
  "job_state_file (act a r) = job_state_file r" "seg_module (act a r) = seg_module r"
  "jobmanager_type (act a r) = jobmanager_type r" "need_file_cleanup (act a r) = need_file_cleanup r"
  "seg_last_timestamp (act a r) = seg_last_timestamp r" "need_stage_out (act a r) = need_stage_out r"
  by (simp_all add: act_def)

lemma set_status_fields [simp]:
  "jobmanager_state (globus_gram_job_manager_request_set_status st r) = jobmanager_state r"
  "status (globus_gram_job_manager_request_set_status st r) = st"
  "pending_queries (globus_gram_job_manager_request_set_status st r) = pending_queries r"
  "seg_event_queue (globus_gram_job_manager_request_set_status st r) = seg_event_queue r"
  "job_id_string (globus_gram_job_manager_request_set_status st r) = job_id_string r"
  "jm_restart (globus_gram_job_manager_request_set_status st r) = jm_restart r"
  "failure_code (globus_gram_job_manager_request_set_status st r) = failure_code r"
  "restart_state (globus_gram_job_manager_request_set_status st r) = restart_state r"
  "poll_timer (globus_gram_job_manager_request_set_status st r) = poll_timer r"
  "trace (globus_gram_job_manager_request_set_status st r) = trace r"
  "dry_run (globus_gram_job_manager_request_set_status st r) = dry_run r"
  "unsent_status_change (globus_gram_job_manager_request_set_status st r) = unsent_status_change r"
  "two_phase_commit (globus_gram_job_manager_request_set_status st r) = two_phase_commit r"
  "job_history_status (globus_gram_job_manager_request_set_status st r) = job_history_status r"
  "seg_started (globus_gram_job_manager_request_set_status st r) = seg_started r"
  "poll_frequency (globus_gram_job_manager_request_set_status st r) = poll_frequency r"
  by (simp_all add: globus_gram_job_manager_request_set_status_def)

lemma register_fields [simp]:
  "jobmanager_state (snd (globus_gram_job_manager_state_machine_register e d r)) = jobmanager_state r"
  "status (snd (globus_gram_job_manager_state_machine_register e d r)) = status r"
  "pending_queries (snd (globus_gram_job_manager_state_machine_register e d r)) = pending_queries r"
  "two_phase_commit (snd (globus_gram_job_manager_state_machine_register e d r)) = two_phase_commit r"
  "replied (trace (snd (globus_gram_job_manager_state_machine_register e d r))) = replied (trace r)"
  "queued (trace (snd (globus_gram_job_manager_state_machine_register e d r))) = queued (trace r)"
  "submits (trace (snd (globus_gram_job_manager_state_machine_register e d r))) = submits (trace r)"
  "cleaned (trace (snd (globus_gram_job_manager_state_machine_register e d r))) = cleaned (trace r)"
  by (simp_all add: globus_gram_job_manager_state_machine_register_def)

lemma wake_fields [simp]:
  "jobmanager_state (wake e r) = jobmanager_state r" "status (wake e r) = status r"
  "pending_queries (wake e r) = pending_queries r" "two_phase_commit (wake e r) = two_phase_commit r"
  "replied (trace (wake e r)) = replied (trace r)" "queued (trace (wake e r)) = queued (trace r)"
  "submits (trace (wake e r)) = submits (trace r)"
  "cleaned (trace (wake e r)) = cleaned (trace r)"
  by (simp_all add: wake_def)

lemma reply_fields [simp]:
  "jobmanager_state (globus_gram_job_manager_query_reply q r) = jobmanager_state r"
  "status (globus_gram_job_manager_query_reply q r) = status r"
  "pending_queries (globus_gram_job_manager_query_reply q r) = pending_queries r"
  "seg_event_queue (globus_gram_job_manager_query_reply q r) = seg_event_queue r"
  "job_id_string (globus_gram_job_manager_query_reply q r) = job_id_string r"
  "unsent_status_change (globus_gram_job_manager_query_reply q r) = unsent_status_change r"
  "two_phase_commit (globus_gram_job_manager_query_reply q r) = two_phase_commit r"
  "jm_restart (globus_gram_job_manager_query_reply q r) = jm_restart r"
  "failure_code (globus_gram_job_manager_query_reply q r) = failure_code r"
  "poll_timer (globus_gram_job_manager_query_reply q r) = poll_timer r"
  "replied (trace (globus_gram_job_manager_query_reply q r)) = replied (trace r) @ [q_handle q]"
  "queued (trace (globus_gram_job_manager_query_reply q r)) = queued (trace r)"
  "submits (trace (globus_gram_job_manager_query_reply q r)) = submits (trace r)"
  "cleaned (trace (globus_gram_job_manager_query_reply q r)) = cleaned (trace r)"
  by (simp_all add: globus_gram_job_manager_query_reply_def Let_def)

lemma deny_fields [simp]:
  "jobmanager_state (deny_queries qs r) = jobmanager_state r" "status (deny_queries qs r) = status r"
  "seg_event_queue (deny_queries qs r) = seg_event_queue r" "job_id_string (deny_queries qs r) = job_id_string r"
  "pending_queries (deny_queries qs r) = (if qs = [] then pending_queries r else [])"
  "jm_restart (deny_queries qs r) = jm_restart r" "failure_code (deny_queries qs r) = failure_code r"
  "replied (trace (deny_queries qs r)) = replied (trace r) @ map q_handle qs"
  "queued (trace (deny_queries qs r)) = queued (trace r)"
  "submits (trace (deny_queries qs r)) = submits (trace r)"
  "cleaned (trace (deny_queries qs r)) = cleaned (trace r)"
  by (induction qs arbitrary: r) simp_all

lemma cancel_queries_fields [simp]:
  "jobmanager_state (globus_l_gram_job_manager_cancel_queries r) = jobmanager_state r"
  "status (globus_l_gram_job_manager_cancel_queries r) = status r"
  "seg_event_queue (globus_l_gram_job_manager_cancel_queries r) = seg_event_queue r"
  "job_id_string (globus_l_gram_job_manager_cancel_queries r) = job_id_string r"
  "pending_queries (globus_l_gram_job_manager_cancel_queries r) = []"
  "replied (trace (globus_l_gram_job_manager_cancel_queries r)) = replied (trace r) @ map q_handle (pending_queries r)"
  "queued (trace (globus_l_gram_job_manager_cancel_queries r)) = queued (trace r)"
  "submits (trace (globus_l_gram_job_manager_cancel_queries r)) = submits (trace r)"
  "cleaned (trace (globus_l_gram_job_manager_cancel_queries r)) = cleaned (trace r)"
  by (simp_all add: globus_l_gram_job_manager_cancel_queries_def)

lemma remove_file_fields [simp]:
  "jobmanager_state (remove_state_file r) = jobmanager_state r" "status (remove_state_file r) = status r"
  "pending_queries (remove_state_file r) = pending_queries r"
  "seg_event_queue (remove_state_file r) = seg_event_queue r"
  "job_id_string (remove_state_file r) = job_id_string r"
  "replied (trace (remove_state_file r)) = replied (trace r)"
  "queued (trace (remove_state_file r)) = queued (trace r)"
  "submits (trace (remove_state_file r)) = submits (trace r)"
  "cleaned (trace (remove_state_file r)) = (cleaned (trace r) \<or> job_state_file r)"
  by (simp_all add: remove_state_file_def)

lemma history_fields [simp]:
  "jobmanager_state (write_history r) = jobmanager_state r" "status (write_history r) = status r"
  "pending_queries (write_history r) = pending_queries r" "seg_event_queue (write_history r) = seg_event_queue r"
  "job_id_string (write_history r) = job_id_string r" "seg_started (write_history r) = seg_started r"
  "unsent_status_change (write_history r) = unsent_status_change r"
  "two_phase_commit (write_history r) = two_phase_commit r" "poll_timer (write_history r) = poll_timer r"
  "jm_restart (write_history r) = jm_restart r" "failure_code (write_history r) = failure_code r"
  "poll_frequency (write_history r) = poll_frequency r"
  "replied (trace (write_history r)) = replied (trace r)" "queued (trace (write_history r)) = queued (trace r)"
  "submits (trace (write_history r)) = submits (trace r)"
  "cleaned (trace (write_history r)) = cleaned (trace r)"
  by (simp_all add: write_history_def)

text \<open>A terminal status is final for scripts and scheduler events.\<close>

lemma terminal_final [simp]:
  "\<not> globus_i_gram_job_manager_script_valid_state_change ST_DONE st"
  "\<not> globus_i_gram_job_manager_script_valid_state_change ST_FAILED st"
  by (simp_all add: globus_i_gram_job_manager_script_valid_state_change_def)

text \<open>What a scheduler event changes.\<close>

lemma seg_outcome_fields [simp]:
  "jobmanager_state (seg_outcome ev r) = jobmanager_state r" "status (seg_outcome ev r) = status r"
  "pending_queries (seg_outcome ev r) = pending_queries r" "trace (seg_outcome ev r) = trace r"
  "seg_event_queue (seg_outcome ev r) = seg_event_queue r" "job_id_string (seg_outcome ev r) = job_id_string r"
  "seg_started (seg_outcome ev r) = seg_started r" "poll_timer (seg_outcome ev r) = poll_timer r"
  "jm_restart (seg_outcome ev r) = jm_restart r"
  by (simp_all add: seg_outcome_def)

lemma seg_change_fields [simp]:
  "jobmanager_state (seg_change_status ev c r) = jobmanager_state r"
  "pending_queries (seg_change_status ev c r) = pending_queries r" "trace (seg_change_status ev c r) = trace r"
  "seg_event_queue (seg_change_status ev c r) = seg_event_queue r"
  "job_id_string (seg_change_status ev c r) = job_id_string r"
  "seg_started (seg_change_status ev c r) = seg_started r" "poll_timer (seg_change_status ev c r) = poll_timer r"
  "jm_restart (seg_change_status ev c r) = jm_restart r"
  "status r = ST_DONE \<Longrightarrow> status (seg_change_status ev c r) = ST_DONE"
  "status r = ST_FAILED \<Longrightarrow> status (seg_change_status ev c r) = ST_FAILED"
  by (simp_all add: seg_change_status_def split: option.split)

lemma seg_event_fields:
  assumes "globus_gram_job_manager_seg_handle_event r = Some r'"
  shows "jobmanager_state r' = jobmanager_state r" "pending_queries r' = pending_queries r" "trace r' = trace r"
    "seg_event_queue r' = tl (seg_event_queue r)" "seg_event_queue r \<noteq> []"
    "seg_started r' = seg_started r" "poll_timer r' = poll_timer r" "jm_restart r' = jm_restart r"
    "status r = ST_DONE \<Longrightarrow> status r' = ST_DONE" "status r = ST_FAILED \<Longrightarrow> status r' = ST_FAILED"
  using assms
  by (simp_all add: globus_gram_job_manager_seg_handle_event_def Let_def split: list.splits option.splits)
    auto

lemma clear_seg_fields:
  "clear_seg_events n r = Some r' \<Longrightarrow>
   jobmanager_state r' = jobmanager_state r \<and> pending_queries r' = pending_queries r \<and> trace r' = trace r
    \<and> (status r = ST_DONE \<or> status r = ST_FAILED \<longrightarrow> status r' = status r)"
proof (induction n r rule: clear_seg_events.induct)
  case (1 r)
  then show ?case by simp
next
  case (2 n r)
  show ?case
  proof (cases "seg_event_queue r = []")
    case True
    then show ?thesis using 2(2) by simp
  next
    case False
    then obtain r1 where h: "globus_gram_job_manager_seg_handle_event r = Some r1" "clear_seg_events n r1 = Some r'"
      using 2(2) by (auto simp: bind_eq_Some_conv)
    show ?thesis using 2(1) [OF False h(1) h(2)] seg_event_fields [OF h(1)] by (auto simp only:)
  qed
qed

end
