(* ===== verification/Gram_Job_Lifecycle.thy ===== *)
theory Gram_Job_Lifecycle
  imports Gram_Job_State
begin

text \<open>
  Properties of the job manager over the whole life of a request: what every interleaving of machine
  steps, client queries, script lines and scheduler events keeps (one submission, queries answered once
  and in order, the outcome), and that the machine's callback returns. The locale \<open>step_invariant\<close> is the
  proof rule for invariants of a step function; it is interpreted for the two invariants of requests.
\<close>

locale step_invariant =
  fixes start :: "'a \<Rightarrow> bool"
    and ok :: "'s \<Rightarrow> 'a \<Rightarrow> bool"
    and run :: "'s \<Rightarrow> 'a \<Rightarrow> 'a option"
    and inv :: "'a \<Rightarrow> bool"
  assumes start_inv: "start x \<Longrightarrow> inv x"
    and run_inv: "run s x = Some y \<Longrightarrow> ok s x \<Longrightarrow> inv x \<Longrightarrow> inv y"
begin

lemma reachable_inv: "reachable start ok run x \<Longrightarrow> inv x"
  by (induction rule: reachable.induct) (auto intro: start_inv run_inv)

end

section \<open>Submission and queries\<close>

definition early :: "jm_state \<Rightarrow> bool" where
  "early s \<longleftrightarrow> s \<in> {JM_START, JM_TWO_PHASE, JM_TWO_PHASE_QUERY1, JM_TWO_PHASE_QUERY2, JM_TWO_PHASE_COMMITTED,
     JM_STAGE_IN}"

definition query_state :: "jm_state \<Rightarrow> bool" where
  "query_state s \<longleftrightarrow> s \<in> {JM_POLL_QUERY1, JM_POLL_QUERY2, JM_TWO_PHASE_QUERY1, JM_TWO_PHASE_QUERY2}"

text \<open>The submit script has been started at most once, and never before the stage-in is over; the
  queries accepted are those answered, in order, followed by the pending ones; a query state has a query.\<close>

definition job_inv :: "job_request \<Rightarrow> bool" where
  "job_inv r \<longleftrightarrow> submits (trace r) \<le> (if early (jobmanager_state r) then 0 else 1)
     \<and> queued (trace r) = replied (trace r) @ map q_handle (pending_queries r)
     \<and> (query_state (jobmanager_state r) \<longrightarrow> pending_queries r \<noteq> [])"

lemmas state_kinds = early_def query_state_def

lemma registered_Some:
  "registered e d r = Some (b, r') \<Longrightarrow> r' = snd (globus_gram_job_manager_state_machine_register e d r)"
  by (auto simp: registered_def split: prod.splits)

lemma restart_fields:
  assumes "globus_l_gram_job_manager_set_restart_state e r = (c, r')"
  shows "pending_queries r' = pending_queries r" "replied (trace r') = replied (trace r)"
    "queued (trace r') = queued (trace r)" "submits (trace r') = submits (trace r)" "cleaned (trace r') = cleaned (trace r)"
    "seg_event_queue r' = seg_event_queue r" "poll_timer r' = poll_timer r" "jm_restart r' = jm_restart r"
    "c \<Longrightarrow> jobmanager_state r' \<in> {JM_SUBMIT, JM_POLL1, JM_TWO_PHASE_COMMITTED}"
  using assms
  by (auto simp: globus_l_gram_job_manager_set_restart_state_def Let_def
      split: jm_state.splits if_splits)

text \<open>\<open>ensures P x\<close>: the request of the step result \<open>x\<close>, when there is one, satisfies \<open>P\<close>.\<close>

definition ensures :: "(job_request \<Rightarrow> bool) \<Rightarrow> step_result \<Rightarrow> bool" where
  "ensures P x = (case x of None \<Rightarrow> True | Some (b, r) \<Rightarrow> P r)"

lemma ensures_simps [simp]:
  "ensures P None" "ensures P (Some (b, r)) = P r"
  "ensures P (registered e d r) = P (snd (globus_gram_job_manager_state_machine_register e d r))"
  by (simp_all add: ensures_def registered_def split: prod.split)

lemma start_inv [jm_steps]:
  "jobmanager_state r = JM_START \<Longrightarrow> job_inv r \<Longrightarrow> ensures job_inv (sm_start e r)"
  by (auto simp: sm_start_def job_inv_def state_kinds Let_def split: list.split)

lemma two_phase_inv [jm_steps]:
  "jobmanager_state r = JM_TWO_PHASE \<Longrightarrow> job_inv r \<Longrightarrow> ensures job_inv (sm_two_phase e r)"
  by (auto simp: sm_two_phase_def job_inv_def state_kinds Let_def split: list.split)

lemma stage_in_inv [jm_steps]:
  "jobmanager_state r = JM_STAGE_IN \<Longrightarrow> job_inv r \<Longrightarrow> ensures job_inv (sm_stage_in e r)"
  by (auto simp: sm_stage_in_def job_inv_def state_kinds Let_def split: list.split)

lemma poll2_inv [jm_steps]:
  "jobmanager_state r = JM_POLL2 \<Longrightarrow> job_inv r \<Longrightarrow> ensures job_inv (sm_poll2 e r)"
  by (auto simp: sm_poll2_def job_inv_def state_kinds Let_def split: list.split)

lemma query1_inv [jm_steps]:
  "jobmanager_state r \<in> {JM_POLL_QUERY1, JM_TWO_PHASE_QUERY1} \<Longrightarrow> job_inv r \<Longrightarrow> ensures job_inv (sm_query1 e r)"
  by (auto simp: sm_query1_def job_inv_def state_kinds Let_def split: list.split)

lemma two_phase_query2_inv [jm_steps]:
  "jobmanager_state r = JM_TWO_PHASE_QUERY2 \<Longrightarrow> job_inv r \<Longrightarrow> ensures job_inv (sm_two_phase_query2 e r)"
  by (auto simp: sm_two_phase_query2_def job_inv_def state_kinds Let_def split: list.split)

lemma poll_query2_inv [jm_steps]:
  "jobmanager_state r = JM_POLL_QUERY2 \<Longrightarrow> job_inv r \<Longrightarrow> ensures job_inv (sm_poll_query2 r)"
  by (auto simp: sm_poll_query2_def job_inv_def state_kinds Let_def split: list.split)

lemma failed_inv [jm_steps]:
  "jobmanager_state r \<in> {JM_FAILED, JM_PRE_CLOSE_OUTPUT} \<Longrightarrow> job_inv r \<Longrightarrow> ensures job_inv (sm_failed r)"
  by (auto simp: sm_failed_def job_inv_def state_kinds Let_def split: list.split)

lemma two_phase_end_inv [jm_steps]:
  "jobmanager_state r \<in> {JM_TWO_PHASE_END, JM_FAILED_TWO_PHASE} \<Longrightarrow> job_inv r \<Longrightarrow> ensures job_inv (sm_two_phase_end e r)"
  by (auto simp: sm_two_phase_end_def job_inv_def state_kinds Let_def split: list.split)

lemma two_phase_end_committed_inv [jm_steps]:
  "jobmanager_state r \<in> {JM_TWO_PHASE_END_COMMITTED, JM_FAILED_TWO_PHASE_COMMITTED} \<Longrightarrow> job_inv r \<Longrightarrow> ensures job_inv (sm_two_phase_end_committed r)"
  by (auto simp: sm_two_phase_end_committed_def job_inv_def state_kinds Let_def split: list.split)

lemma file_clean_up_inv [jm_steps]:
  "jobmanager_state r \<in> {JM_FILE_CLEAN_UP, JM_FAILED_FILE_CLEAN_UP} \<Longrightarrow> job_inv r \<Longrightarrow> ensures job_inv (sm_file_clean_up r)"
  by (auto simp: sm_file_clean_up_def job_inv_def state_kinds Let_def split: list.split)

lemma scratch_clean_up_inv [jm_steps]:
  "jobmanager_state r \<in> {JM_SCRATCH_CLEAN_UP, JM_FAILED_SCRATCH_CLEAN_UP} \<Longrightarrow> job_inv r \<Longrightarrow> ensures job_inv (sm_scratch_clean_up r)"
  by (auto simp: sm_scratch_clean_up_def job_inv_def state_kinds Let_def split: list.split)

lemma cache_clean_up_inv [jm_steps]:
  "jobmanager_state r \<in> {JM_CACHE_CLEAN_UP, JM_FAILED_CACHE_CLEAN_UP} \<Longrightarrow> job_inv r \<Longrightarrow> ensures job_inv (sm_cache_clean_up r)"
  by (auto simp: sm_cache_clean_up_def job_inv_def state_kinds Let_def split: list.split)

lemma stop_inv [jm_steps]:
  "jobmanager_state r = JM_STOP \<Longrightarrow> job_inv r \<Longrightarrow> ensures job_inv (sm_stop r)"
  by (auto simp: sm_stop_def job_inv_def state_kinds Let_def split: list.split)

lemma close_output_inv [jm_steps]:
  "jobmanager_state r = JM_CLOSE_OUTPUT \<Longrightarrow> job_inv r \<Longrightarrow> ensures job_inv (sm_close_output e r)"
  by (auto simp: sm_close_output_def job_inv_def state_kinds Let_def split: list.split)

lemma settle_fields:
  "jobmanager_state r = JM_STAGE_OUT \<Longrightarrow> jobmanager_state (settle_outcome r) = JM_TWO_PHASE_END \<and> status (settle_outcome r) = ST_DONE"
  "jobmanager_state r = JM_FAILED_CLOSE_OUTPUT \<Longrightarrow>
     jobmanager_state (settle_outcome r) = JM_FAILED_TWO_PHASE \<and> status (settle_outcome r) = ST_FAILED"
  "pending_queries (settle_outcome r) = pending_queries r" "trace (settle_outcome r) = trace r"
  "seg_event_queue (settle_outcome r) = seg_event_queue r" "job_id_string (settle_outcome r) = job_id_string r"
  by (simp_all add: settle_outcome_def)

lemma tell_inv: "job_inv r \<Longrightarrow> ensures job_inv (tell_outcome r)"
  by (auto simp: tell_outcome_def Let_def job_inv_def)

lemma failed_close_output_inv [jm_steps]:
  "jobmanager_state r \<in> {JM_STAGE_OUT, JM_FAILED_CLOSE_OUTPUT} \<Longrightarrow> job_inv r \<Longrightarrow> ensures job_inv (sm_failed_close_output r)"
  unfolding sm_failed_close_output_def
  by (rule tell_inv) (auto simp: job_inv_def settle_fields state_kinds)

lemma stage_out_inv [jm_steps]:
  "jobmanager_state r = JM_STAGE_OUT \<Longrightarrow> job_inv r \<Longrightarrow> ensures job_inv (sm_stage_out r)"
  unfolding sm_stage_out_def
  by (rule failed_close_output_inv) (auto simp: job_inv_def state_kinds)

lemma failed_done_inv [jm_steps]:
  "jobmanager_state r = JM_FAILED_DONE \<Longrightarrow> job_inv r \<Longrightarrow> ensures job_inv (sm_failed_done r)"
  by (auto simp: sm_failed_done_def ensures_def job_inv_def state_kinds Let_def
      split: option.split dest!: clear_seg_fields)

lemma done_inv [jm_steps]:
  "jobmanager_state r = JM_DONE \<Longrightarrow> job_inv r \<Longrightarrow> ensures job_inv (sm_done r)"
  by (auto simp: sm_done_def ensures_def job_inv_def state_kinds Let_def
      split: option.split dest!: clear_seg_fields)

lemma poll1_inv [jm_steps]:
  assumes "jobmanager_state r = JM_POLL1" "job_inv r"
  shows "ensures job_inv (sm_poll1 e fst_poll r)"
proof (cases "if seg_event_queue r = [] then Some r else globus_gram_job_manager_seg_handle_event r")
  case (Some r1)
  have "jobmanager_state r1 = JM_POLL1" "pending_queries r1 = pending_queries r" "trace r1 = trace r"
    using Some assms(1) by (auto simp: seg_event_fields split: if_splits)
  then show ?thesis
    using assms unfolding sm_poll1_def Some Let_def option.case
    by (auto simp: job_inv_def state_kinds)
qed (simp add: sm_poll1_def)

lemma submit_inv [jm_steps]:
  "jobmanager_state r = JM_SUBMIT \<Longrightarrow> job_inv r \<Longrightarrow> ensures job_inv (sm_submit e r)"
  unfolding sm_submit_def Let_def
  by (auto intro!: poll1_inv simp: job_inv_def state_kinds split: option.split)

lemma enter_stage_in_inv:
  "submits (trace r) = 0 \<Longrightarrow> queued (trace r) = replied (trace r) @ map q_handle (pending_queries r) \<Longrightarrow>
   ensures job_inv (enter_stage_in e r)"
  by (auto simp: enter_stage_in_def job_inv_def state_kinds Let_def)

lemma two_phase_committed_inv [jm_steps]:
  assumes "jobmanager_state r = JM_TWO_PHASE_COMMITTED" "job_inv r"
  shows "ensures job_inv (sm_two_phase_committed e r)"
proof -
  obtain c r1 where h: "globus_l_gram_job_manager_set_restart_state e r = (c, r1)"
    by fastforce
  have z: "submits (trace r) = 0" "queued (trace r) = replied (trace r) @ map q_handle (pending_queries r)"
    using assms by (simp_all add: job_inv_def state_kinds)
  show ?thesis
    unfolding sm_two_phase_committed_def h
    using assms z restart_fields [OF h]
    by (auto intro!: enter_stage_in_inv simp: job_inv_def state_kinds)
qed

lemma machine_inv:
  assumes "job_inv r"
  shows "ensures job_inv (globus_l_gram_job_manager_state_machine e r)"
  using assms unfolding globus_l_gram_job_manager_state_machine_def
  by (cases "jobmanager_state r") (simp_all add: jm_steps)

text \<open>The other steps keep it too.\<close>

lemma set_query_code_handles [simp]: "map q_handle (set_query_code h c qs) = map q_handle qs"
  by (induction qs) simp_all

lemma set_query_code_Nil [simp]: "(set_query_code h c qs = []) = (qs = [])"
  by (cases qs) simp_all

lemma fail_query_fields [simp]:
  "jobmanager_state (fail_query h c r) = jobmanager_state r" "status (fail_query h c r) = status r"
  "map q_handle (pending_queries (fail_query h c r)) = map q_handle (pending_queries r)"
  "(pending_queries (fail_query h c r) = []) = (pending_queries r = [])" "trace (fail_query h c r) = trace r"
  by (simp_all add: fail_query_def)

lemma fail_script_fields [simp]:
  "jobmanager_state (fail_script c r) = jobmanager_state r" "status (fail_script c r) = ST_FAILED"
  "pending_queries (fail_script c r) = pending_queries r" "trace (fail_script c r) = trace r"
  by (simp_all add: fail_script_def)

lemma script_job_state_fields [simp]:
  "jobmanager_state (script_job_state v r) = jobmanager_state r"
  "pending_queries (script_job_state v r) = pending_queries r" "trace (script_job_state v r) = trace r"
  "status r = ST_DONE \<Longrightarrow> status (script_job_state v r) = ST_DONE"
  "status r = ST_FAILED \<Longrightarrow> status (script_job_state v r) = ST_FAILED"
  by (simp_all add: script_job_state_def)

lemma script_gt3_fields [simp]:
  "jobmanager_state (script_gt3 var v r) = jobmanager_state r" "status (script_gt3 var v r) = status r"
  "pending_queries (script_gt3 var v r) = pending_queries r" "trace (script_gt3 var v r) = trace r"
  by (simp_all add: script_gt3_def)

lemma query_job_state_fields [simp]:
  "jobmanager_state (query_job_state q v r) = jobmanager_state r"
  "map q_handle (pending_queries (query_job_state q v r)) = map q_handle (pending_queries r)"
  "(pending_queries (query_job_state q v r) = []) = (pending_queries r = [])"
  "trace (query_job_state q v r) = trace r"
  "status r = ST_DONE \<Longrightarrow> status (query_job_state q v r) = ST_DONE"
  "status r = ST_FAILED \<Longrightarrow> status (query_job_state q v r) = ST_FAILED"
  by (simp_all add: query_job_state_def Let_def)

lemma staging_remove_fields [simp]:
  "jobmanager_state (globus_gram_job_manager_staging_remove t from to r) = jobmanager_state r"
  "status (globus_gram_job_manager_staging_remove t from to r) = status r"
  "pending_queries (globus_gram_job_manager_staging_remove t from to r) = pending_queries r"
  "trace (globus_gram_job_manager_staging_remove t from to r) = trace r"
  by (simp_all add: globus_gram_job_manager_staging_remove_def split: staging_type.split)

lemma staged_done_fields:
  assumes "globus_l_gram_job_manager_script_staged_done t v r = Some r'"
  shows "jobmanager_state r' = jobmanager_state r" "status r' = status r"
    "pending_queries r' = pending_queries r" "replied (trace r') = replied (trace r)"
    "queued (trace r') = queued (trace r)" "submits (trace r') = submits (trace r)" "cleaned (trace r') = cleaned (trace r)"
  using assms
  by (auto simp: globus_l_gram_job_manager_script_staged_done_def Let_def split: prod.splits if_splits)

text \<open>What a line from a script leaves alone.\<close>

lemma script_line_fields:
  assumes "globus_l_gram_job_manager_default_done e code start report r = Some r'"
  shows "jobmanager_state r' = jobmanager_state r \<and> pending_queries r' = pending_queries r
    \<and> replied (trace r') = replied (trace r) \<and> queued (trace r') = queued (trace r)
    \<and> submits (trace r') = submits (trace r) \<and> cleaned (trace r') = cleaned (trace r)
    \<and> (status r = ST_FAILED \<longrightarrow> status r' = ST_FAILED)
    \<and> (status r = ST_DONE \<longrightarrow> status r' = ST_DONE \<or> jobmanager_state r = start)"
proof -
  define r0 where "r0 = (if code \<noteq> 0 then r\<lparr>failure_code := code\<rparr> else r)"
  have z: "jobmanager_state r0 = jobmanager_state r" "pending_queries r0 = pending_queries r"
    "trace r0 = trace r" "status r0 = status r"
    by (simp_all add: r0_def)
  have h: "globus_l_gram_job_manager_default_done e 0 start report r0 = Some r'"
    using assms by (simp add: globus_l_gram_job_manager_default_done_def r0_def)
  show ?thesis
  proof (cases report)
    case None
    then show ?thesis using h z by (auto simp: globus_l_gram_job_manager_default_done_def)
  next
    case (Some p)
    obtain var v where p: "p = (var, v)" by fastforce
    show ?thesis
      using h unfolding globus_l_gram_job_manager_default_done_def Some p Let_def option.case prod.case z [symmetric]
      by (simp only: simp_thms if_True if_False if_cancel split: if_splits)
         (auto dest: staged_done_fields)
  qed
qed

lemma query_line_fields:
  assumes "globus_l_gram_job_manager_query_done e h code report r = Some r'"
  shows "jobmanager_state r' = jobmanager_state r
    \<and> map q_handle (pending_queries r') = map q_handle (pending_queries r)
    \<and> replied (trace r') = replied (trace r) \<and> queued (trace r') = queued (trace r)
    \<and> submits (trace r') = submits (trace r) \<and> cleaned (trace r') = cleaned (trace r)
    \<and> (status r = ST_FAILED \<longrightarrow> status r' = ST_FAILED) \<and> (status r = ST_DONE \<longrightarrow> status r' = ST_DONE)"
proof -
  define r0 where "r0 = (if code \<noteq> 0 then r\<lparr>failure_code := code\<rparr> else r)"
  have z: "jobmanager_state r0 = jobmanager_state r" "pending_queries r0 = pending_queries r"
    "trace r0 = trace r" "status r0 = status r"
    by (simp_all add: r0_def)
  have h: "globus_l_gram_job_manager_query_done e h 0 report r0 = Some r'"
    using assms by (simp add: globus_l_gram_job_manager_query_done_def r0_def)
  show ?thesis
    using h unfolding globus_l_gram_job_manager_query_done_def Let_def z [symmetric]
    by (simp only: simp_thms if_False if_cancel split: if_splits option.splits prod.splits) auto
qed

lemma deliver_fields:
  "jobmanager_state (snd (globus_l_gram_deliver_event e room ev r)) = jobmanager_state r
    \<or> jobmanager_state r = JM_POLL2 \<and> jobmanager_state (snd (globus_l_gram_deliver_event e room ev r)) = JM_POLL1"
  "status (snd (globus_l_gram_deliver_event e room ev r)) = status r"
  "pending_queries (snd (globus_l_gram_deliver_event e room ev r)) = pending_queries r"
  "replied (trace (snd (globus_l_gram_deliver_event e room ev r))) = replied (trace r)"
  "queued (trace (snd (globus_l_gram_deliver_event e room ev r))) = queued (trace r)"
  "submits (trace (snd (globus_l_gram_deliver_event e room ev r))) = submits (trace r)"
  "cleaned (trace (snd (globus_l_gram_deliver_event e room ev r))) = cleaned (trace r)"
  by (auto simp: globus_l_gram_deliver_event_def globus_gram_job_manager_state_machine_register_def Let_def)

lemma enqueue_fields [simp]:
  "jobmanager_state (enqueue_query q r) = jobmanager_state r" "status (enqueue_query q r) = status r"
  "pending_queries (enqueue_query q r) = pending_queries r @ [q]"
  "trace (enqueue_query q r) = trace r @ [Query_queued (q_handle q)]"
  by (simp_all add: enqueue_query_def)

lemma fail_cancelled_fields [simp]:
  "jobmanager_state (fail_cancelled r) = JM_FAILED" "status (fail_cancelled r) = ST_FAILED"
  "pending_queries (fail_cancelled r) = pending_queries r" "trace (fail_cancelled r) = trace r"
  by (simp_all add: fail_cancelled_def)

lemmas handler_defs = globus_l_gram_job_manager_cancel_def signal_query_def signal_commit_request_def
  signal_commit_end_def signal_commit_extend_def globus_l_gram_job_manager_query_stop_manager_def

text \<open>A change of state keeps the invariant when it does not lead back to the early states, nor to a query
  state without a query.\<close>

lemma inv_state:
  "job_inv r \<Longrightarrow> early s \<longrightarrow> early (jobmanager_state r) \<Longrightarrow> query_state s \<longrightarrow> pending_queries r \<noteq> [] \<Longrightarrow>
   job_inv (r\<lparr>jobmanager_state := s\<rparr>)"
  by (auto simp: job_inv_def split: if_splits)

lemma inv_cong:
  "jobmanager_state r' = jobmanager_state r \<Longrightarrow> map q_handle (pending_queries r') = map q_handle (pending_queries r) \<Longrightarrow>
   replied (trace r') = replied (trace r) \<Longrightarrow> queued (trace r') = queued (trace r) \<Longrightarrow>
   submits (trace r') = submits (trace r) \<Longrightarrow> job_inv r' = job_inv r"
  unfolding job_inv_def by (metis map_is_Nil_conv)

lemma wake_inv [simp]: "job_inv (wake e r) = job_inv r"
  by (rule inv_cong) simp_all

lemma enqueue_inv [simp]: "job_inv r \<Longrightarrow> job_inv (enqueue_query q r)"
  by (simp add: job_inv_def)

lemma state_kind_simps [simp]:
  "\<not> early JM_STOP" "\<not> query_state JM_STOP" "\<not> early JM_FAILED" "\<not> query_state JM_FAILED"
  "\<not> early JM_POLL1" "\<not> early JM_POLL2" "\<not> query_state JM_POLL1" "\<not> query_state JM_POLL2"
  "\<not> early JM_POLL_QUERY1" "early JM_TWO_PHASE" "early JM_TWO_PHASE_QUERY1" "early JM_TWO_PHASE_QUERY2" "early JM_START"
  "early JM_TWO_PHASE_COMMITTED" "\<not> query_state JM_TWO_PHASE_COMMITTED"
  "\<not> early JM_TWO_PHASE_END_COMMITTED" "\<not> query_state JM_TWO_PHASE_END_COMMITTED"
  "\<not> early JM_FAILED_TWO_PHASE_COMMITTED" "\<not> query_state JM_FAILED_TWO_PHASE_COMMITTED"
  by (simp_all add: state_kinds)

lemma cancel_inv: "job_inv r \<Longrightarrow> job_inv (snd (snd (globus_l_gram_job_manager_cancel e h rep r)))"
proof -
  assume h: "job_inv r"
  have f: "job_inv (fail_cancelled r)" "job_inv ((fail_cancelled r)\<lparr>unsent_status_change := b\<rparr>)" for b
    using h by (auto simp: job_inv_def split: if_splits)
  show ?thesis
    unfolding globus_l_gram_job_manager_cancel_def Let_def
    using h by (simp add: f inv_state)
qed

lemma signal_query_inv: "job_inv r \<Longrightarrow> job_inv (snd (snd (signal_query e dup sig arg h r)))"
  by (simp add: signal_query_def Let_def inv_state split: option.split)

lemma commit_request_inv: "job_inv r \<Longrightarrow> job_inv (snd (snd (signal_commit_request e r)))"
  by (simp add: signal_commit_request_def inv_state)

lemma commit_end_inv: "job_inv r \<Longrightarrow> job_inv (snd (snd (signal_commit_end e r)))"
  by (simp add: signal_commit_end_def inv_state)

lemma extend_inv [simp]: "job_inv (r\<lparr>commit_extend := x\<rparr>) = job_inv r"
  by (rule inv_cong) simp_all

lemma commit_extend_inv: "job_inv r \<Longrightarrow> job_inv (snd (snd (signal_commit_extend arg r)))"
  by (simp add: signal_commit_extend_def split: option.split)

lemma stop_manager_inv: "job_inv r \<Longrightarrow> job_inv (snd (globus_l_gram_job_manager_query_stop_manager e r))"
proof -
  assume h: "job_inv r"
  define r1 where "r1 = (if jobmanager_state r = JM_POLL2 then wake e r else r)"
  have "job_inv r1" using h by (simp add: r1_def)
  then have "job_inv (r1\<lparr>jobmanager_state := JM_STOP\<rparr>)" by (simp add: inv_state)
  then have "job_inv (r1\<lparr>unsent_status_change := a, stop_reason := b, jobmanager_state := JM_STOP\<rparr>)"
     "job_inv (r1\<lparr>unsent_status_change := a, stop_reason := b, restart_state := c, jobmanager_state := JM_STOP\<rparr>)" for a b c
    by (simp_all add: job_inv_def)
  with \<open>job_inv r1\<close> show ?thesis
    unfolding globus_l_gram_job_manager_query_stop_manager_def Let_def r1_def [symmetric] by simp
qed

lemma job_do_inv:
  assumes "job_do s r = Some r'" "job_inv r"
  shows "job_inv r'"
proof (cases s)
  case (Machine e)
  then show ?thesis using assms machine_inv [of r e] by (auto simp: ensures_def)
next
  case (Script_line e code start report)
  then show ?thesis using assms script_line_fields [of e code start report r r'] inv_cong [of r' r]
    by (auto split: if_splits)
next
  case (Query_line e h code report)
  then show ?thesis using assms query_line_fields [of e h code report r r'] inv_cong [of r' r] by auto
next
  case (Deliver e room ev)
  let ?d = "snd (globus_l_gram_deliver_event e room ev r)"
  have "jobmanager_state ?d = jobmanager_state r \<or> jobmanager_state r = JM_POLL2 \<and> jobmanager_state ?d = JM_POLL1"
    by (rule deliver_fields(1))
  then show ?thesis using assms Deliver by (auto simp: job_inv_def deliver_fields(2-) split: if_splits)
next
  case Timer_fired
  then show ?thesis using assms by (auto simp: job_inv_def)
qed (use assms in \<open>auto simp: cancel_inv signal_query_inv commit_request_inv commit_end_inv commit_extend_inv
       stop_manager_inv\<close>)

interpretation history: step_invariant job_init "\<lambda>s r. strict \<longrightarrow> \<not> commits_stopped s r" job_do job_inv for strict
proof
  show "job_inv r" if "job_init r" for r
    using that by (simp add: job_init_def job_inv_def state_kinds)
  show "job_inv y" if "job_do s x = Some y" "job_inv x" for s x y
    by (rule job_do_inv [OF that])
qed

section \<open>The outcome of a job\<close>

named_theorems jm_outcome \<open>the cases of the state machine and the outcome\<close>

text \<open>The status a state stands for, and the states in which the job's files are being removed.\<close>

fun outcome_of :: "jm_state \<Rightarrow> job_status option" where
  "outcome_of JM_TWO_PHASE_END = Some ST_DONE"
| "outcome_of JM_TWO_PHASE_END_COMMITTED = Some ST_DONE"
| "outcome_of JM_FILE_CLEAN_UP = Some ST_DONE"
| "outcome_of JM_SCRATCH_CLEAN_UP = Some ST_DONE"
| "outcome_of JM_CACHE_CLEAN_UP = Some ST_DONE"
| "outcome_of JM_DONE = Some ST_DONE"
| "outcome_of JM_FAILED_TWO_PHASE = Some ST_FAILED"
| "outcome_of JM_FAILED_TWO_PHASE_COMMITTED = Some ST_FAILED"
| "outcome_of JM_FAILED_FILE_CLEAN_UP = Some ST_FAILED"
| "outcome_of JM_FAILED_SCRATCH_CLEAN_UP = Some ST_FAILED"
| "outcome_of JM_FAILED_CACHE_CLEAN_UP = Some ST_FAILED"
| "outcome_of JM_FAILED_DONE = Some ST_FAILED"
| "outcome_of _ = None"

fun clean_up_state :: "jm_state \<Rightarrow> bool" where
  "clean_up_state JM_FILE_CLEAN_UP = True"
| "clean_up_state JM_SCRATCH_CLEAN_UP = True"
| "clean_up_state JM_CACHE_CLEAN_UP = True"
| "clean_up_state JM_DONE = True"
| "clean_up_state JM_FAILED_FILE_CLEAN_UP = True"
| "clean_up_state JM_FAILED_SCRATCH_CLEAN_UP = True"
| "clean_up_state JM_FAILED_CACHE_CLEAN_UP = True"
| "clean_up_state JM_FAILED_DONE = True"
| "clean_up_state _ = False"

text \<open>The states after the end of the output agree with the status, and nothing of the job (its files,
  its directory, its state file) is removed before the clean-up states.\<close>

definition outcome_inv :: "job_request \<Rightarrow> bool" where
  "outcome_inv r \<longleftrightarrow>
     (outcome_of (jobmanager_state r) = None \<or> outcome_of (jobmanager_state r) = Some (status r))
     \<and> (cleaned (trace r) \<longrightarrow> clean_up_state (jobmanager_state r))"

lemma outcome_None:
  "outcome_of (jobmanager_state r) = None \<Longrightarrow> \<not> cleaned (trace r) \<Longrightarrow> outcome_inv r"
  by (simp add: outcome_inv_def)

lemma outcome_None_iff:
  "\<not> clean_up_state (jobmanager_state r) \<Longrightarrow> outcome_inv r \<Longrightarrow> \<not> cleaned (trace r)"
  by (simp add: outcome_inv_def)

lemma start_outcome [jm_outcome]:
  "jobmanager_state r = JM_START \<Longrightarrow> outcome_inv r \<Longrightarrow> ensures outcome_inv (sm_start e r)"
  by (frule outcome_None_iff [rotated], force)
    (simp add: sm_start_def Let_def outcome_None split: list.split)

lemma two_phase_outcome [jm_outcome]:
  "jobmanager_state r = JM_TWO_PHASE \<Longrightarrow> outcome_inv r \<Longrightarrow> ensures outcome_inv (sm_two_phase e r)"
  by (frule outcome_None_iff [rotated], force)
    (simp add: sm_two_phase_def Let_def outcome_None split: list.split)

lemma stage_in_outcome [jm_outcome]:
  "jobmanager_state r = JM_STAGE_IN \<Longrightarrow> outcome_inv r \<Longrightarrow> ensures outcome_inv (sm_stage_in e r)"
  by (frule outcome_None_iff [rotated], force)
    (simp add: sm_stage_in_def Let_def outcome_inv_def)

lemma poll2_outcome [jm_outcome]:
  "jobmanager_state r = JM_POLL2 \<Longrightarrow> outcome_inv r \<Longrightarrow> ensures outcome_inv (sm_poll2 e r)"
  by (frule outcome_None_iff [rotated], force)
    (simp add: sm_poll2_def Let_def outcome_None split: list.split)

lemma query1_outcome [jm_outcome]:
  "jobmanager_state r \<in> {JM_POLL_QUERY1, JM_TWO_PHASE_QUERY1} \<Longrightarrow> outcome_inv r \<Longrightarrow> ensures outcome_inv (sm_query1 e r)"
  by (elim insertE emptyE; simp add: sm_query1_def Let_def outcome_inv_def split: list.split)

lemma two_phase_query2_outcome [jm_outcome]:
  "jobmanager_state r = JM_TWO_PHASE_QUERY2 \<Longrightarrow> outcome_inv r \<Longrightarrow> ensures outcome_inv (sm_two_phase_query2 e r)"
  by (frule outcome_None_iff [rotated], force)
    (simp add: sm_two_phase_query2_def Let_def outcome_None split: list.split)

lemma poll_query2_outcome [jm_outcome]:
  "jobmanager_state r = JM_POLL_QUERY2 \<Longrightarrow> outcome_inv r \<Longrightarrow> ensures outcome_inv (sm_poll_query2 r)"
  by (frule outcome_None_iff [rotated], force)
    (simp add: sm_poll_query2_def Let_def outcome_None split: list.split)

lemma failed_outcome [jm_outcome]:
  "jobmanager_state r \<in> {JM_FAILED, JM_PRE_CLOSE_OUTPUT} \<Longrightarrow> outcome_inv r \<Longrightarrow> ensures outcome_inv (sm_failed r)"
  by (frule outcome_None_iff [rotated], force)
    (simp add: sm_failed_def Let_def outcome_None split: list.split)

lemma two_phase_end_outcome [jm_outcome]:
  "jobmanager_state r \<in> {JM_TWO_PHASE_END, JM_FAILED_TWO_PHASE} \<Longrightarrow> outcome_inv r \<Longrightarrow> ensures outcome_inv (sm_two_phase_end e r)"
  by (elim insertE emptyE; simp add: sm_two_phase_end_def outcome_inv_def Let_def)

lemma two_phase_end_committed_outcome [jm_outcome]:
  "jobmanager_state r \<in> {JM_TWO_PHASE_END_COMMITTED, JM_FAILED_TWO_PHASE_COMMITTED} \<Longrightarrow> outcome_inv r \<Longrightarrow> ensures outcome_inv (sm_two_phase_end_committed r)"
  by (elim insertE emptyE; simp add: sm_two_phase_end_committed_def outcome_inv_def Let_def)

lemma file_clean_up_outcome [jm_outcome]:
  "jobmanager_state r \<in> {JM_FILE_CLEAN_UP, JM_FAILED_FILE_CLEAN_UP} \<Longrightarrow> outcome_inv r \<Longrightarrow> ensures outcome_inv (sm_file_clean_up r)"
  by (elim insertE emptyE; simp add: sm_file_clean_up_def outcome_inv_def Let_def)

lemma scratch_clean_up_outcome [jm_outcome]:
  "jobmanager_state r \<in> {JM_SCRATCH_CLEAN_UP, JM_FAILED_SCRATCH_CLEAN_UP} \<Longrightarrow> outcome_inv r \<Longrightarrow> ensures outcome_inv (sm_scratch_clean_up r)"
  by (elim insertE emptyE; simp add: sm_scratch_clean_up_def outcome_inv_def Let_def)

lemma cache_clean_up_outcome [jm_outcome]:
  "jobmanager_state r \<in> {JM_CACHE_CLEAN_UP, JM_FAILED_CACHE_CLEAN_UP} \<Longrightarrow> outcome_inv r \<Longrightarrow> ensures outcome_inv (sm_cache_clean_up r)"
  by (elim insertE emptyE; simp add: sm_cache_clean_up_def outcome_inv_def Let_def)

lemma stop_outcome [jm_outcome]:
  "jobmanager_state r = JM_STOP \<Longrightarrow> outcome_inv r \<Longrightarrow> ensures outcome_inv (sm_stop r)"
  by (frule outcome_None_iff [rotated], force)
    (simp add: sm_stop_def Let_def outcome_None split: list.split)

lemma close_output_outcome [jm_outcome]:
  "jobmanager_state r = JM_CLOSE_OUTPUT \<Longrightarrow> outcome_inv r \<Longrightarrow> ensures outcome_inv (sm_close_output e r)"
  by (frule outcome_None_iff [rotated], force)
    (simp add: sm_close_output_def Let_def outcome_None split: list.split)

lemma tell_outcome_inv: "outcome_inv r \<Longrightarrow> ensures outcome_inv (tell_outcome r)"
  by (simp add: tell_outcome_def Let_def outcome_inv_def split: option.splits)

lemma failed_close_output_outcome [jm_outcome]:
  "jobmanager_state r \<in> {JM_STAGE_OUT, JM_FAILED_CLOSE_OUTPUT} \<Longrightarrow> outcome_inv r \<Longrightarrow>
   ensures outcome_inv (sm_failed_close_output r)"
  unfolding sm_failed_close_output_def
  by (rule tell_outcome_inv) (auto simp: outcome_inv_def settle_fields)

lemma stage_out_outcome [jm_outcome]:
  "jobmanager_state r = JM_STAGE_OUT \<Longrightarrow> outcome_inv r \<Longrightarrow> ensures outcome_inv (sm_stage_out r)"
  unfolding sm_stage_out_def
  by (rule failed_close_output_outcome) (auto simp: outcome_inv_def)

lemma failed_done_outcome [jm_outcome]:
  "jobmanager_state r = JM_FAILED_DONE \<Longrightarrow> outcome_inv r \<Longrightarrow> ensures outcome_inv (sm_failed_done r)"
  by (auto simp: sm_failed_done_def ensures_def outcome_inv_def Let_def
      split: option.split dest!: clear_seg_fields)

lemma done_outcome [jm_outcome]:
  "jobmanager_state r = JM_DONE \<Longrightarrow> outcome_inv r \<Longrightarrow> ensures outcome_inv (sm_done r)"
  by (auto simp: sm_done_def ensures_def outcome_inv_def Let_def
      split: option.split dest!: clear_seg_fields)

lemma poll1_outcome [jm_outcome]:
  assumes "jobmanager_state r = JM_POLL1" "outcome_inv r"
  shows "ensures outcome_inv (sm_poll1 e fst_poll r)"
proof (cases "if seg_event_queue r = [] then Some r else globus_gram_job_manager_seg_handle_event r")
  case (Some r1)
  have "jobmanager_state r1 = JM_POLL1" "trace r1 = trace r"
    using Some assms(1) by (auto simp: seg_event_fields split: if_splits)
  then show ?thesis
    using assms unfolding sm_poll1_def Some Let_def option.case
    by (auto simp: outcome_inv_def)
qed (simp add: sm_poll1_def)

lemma submit_outcome [jm_outcome]:
  "jobmanager_state r = JM_SUBMIT \<Longrightarrow> outcome_inv r \<Longrightarrow> ensures outcome_inv (sm_submit e r)"
  unfolding sm_submit_def Let_def
  by (auto intro!: poll1_outcome simp: outcome_inv_def split: option.split)

lemma enter_stage_in_outcome: "\<not> cleaned (trace r) \<Longrightarrow> ensures outcome_inv (enter_stage_in e r)"
  by (auto simp: enter_stage_in_def outcome_inv_def Let_def)

lemma two_phase_committed_outcome [jm_outcome]:
  assumes "jobmanager_state r = JM_TWO_PHASE_COMMITTED" "outcome_inv r"
  shows "ensures outcome_inv (sm_two_phase_committed e r)"
proof -
  obtain c r1 where h: "globus_l_gram_job_manager_set_restart_state e r = (c, r1)"
    by fastforce
  have z: "\<not> cleaned (trace r)"
    using assms by (auto simp: outcome_inv_def)
  then have "\<not> cleaned (trace r1)" by (simp add: restart_fields [OF h])
  moreover have "c \<Longrightarrow> jobmanager_state r1 \<in> {JM_SUBMIT, JM_POLL1, JM_TWO_PHASE_COMMITTED}"
    by (rule restart_fields [OF h])
  ultimately show ?thesis
    unfolding sm_two_phase_committed_def h using z
    by (auto intro!: enter_stage_in_outcome simp: outcome_inv_def)
qed

lemma machine_outcome:
  assumes "outcome_inv r"
  shows "ensures outcome_inv (globus_l_gram_job_manager_state_machine e r)"
  using assms unfolding globus_l_gram_job_manager_state_machine_def
  by (cases "jobmanager_state r") (simp_all add: jm_outcome)

text \<open>The other steps. A change to a state without an outcome needs that nothing was removed.\<close>

lemma outcome_cong:
  "jobmanager_state r' = jobmanager_state r \<Longrightarrow> cleaned (trace r') = cleaned (trace r) \<Longrightarrow>
   status r' = status r \<Longrightarrow> outcome_inv r' = outcome_inv r"
  by (simp add: outcome_inv_def)

lemma wake_outcome [simp]: "outcome_inv (wake e r) = outcome_inv r"
  by (rule outcome_cong) simp_all

lemma cancel_outcome: "outcome_inv r \<Longrightarrow> outcome_inv (snd (snd (globus_l_gram_job_manager_cancel e h rep r)))"
  by (cases "clean_up_state (jobmanager_state r)")
    (auto simp: globus_l_gram_job_manager_cancel_def Let_def outcome_inv_def)

lemma signal_query_outcome: "outcome_inv r \<Longrightarrow> outcome_inv (snd (snd (signal_query e dup sig arg h r)))"
  by (auto simp: signal_query_def Let_def outcome_inv_def split: option.split)

lemma commit_request_outcome: "outcome_inv r \<Longrightarrow> outcome_inv (snd (snd (signal_commit_request e r)))"
  by (auto simp: signal_commit_request_def outcome_inv_def)

lemma commit_end_outcome:
  "outcome_inv r \<Longrightarrow> jobmanager_state r \<noteq> JM_STOP \<Longrightarrow> outcome_inv (snd (snd (signal_commit_end e r)))"
  by (auto simp: signal_commit_end_def outcome_inv_def)

lemma commit_extend_outcome: "outcome_inv r \<Longrightarrow> outcome_inv (snd (snd (signal_commit_extend arg r)))"
  by (simp add: signal_commit_extend_def outcome_inv_def split: option.split)

lemma clean_up_refused:
  "clean_up_state s \<Longrightarrow> s \<in> {JM_FILE_CLEAN_UP, JM_SCRATCH_CLEAN_UP, JM_CACHE_CLEAN_UP, JM_DONE, JM_FAILED_DONE,
     JM_FAILED, JM_FAILED_FILE_CLEAN_UP, JM_FAILED_SCRATCH_CLEAN_UP, JM_FAILED_CACHE_CLEAN_UP, JM_FAILED_CLOSE_OUTPUT}"
  by (cases s) simp_all

lemma stop_manager_outcome:
  assumes "outcome_inv r"
  shows "outcome_inv (snd (globus_l_gram_job_manager_query_stop_manager e r))"
proof -
  define r1 where "r1 = (if jobmanager_state r = JM_POLL2 then wake e r else r)"
  have *: "outcome_inv r1" "cleaned (trace r1) = cleaned (trace r)" using assms by (simp_all add: r1_def)
  show ?thesis
  proof (cases "clean_up_state (jobmanager_state r)")
    case True
    then show ?thesis
      using clean_up_refused [OF True] *
      unfolding globus_l_gram_job_manager_query_stop_manager_def Let_def r1_def [symmetric]
      by (cases "jobmanager_state r = JM_STOP") simp_all
  next
    case False
    then have "\<not> cleaned (trace r)" using assms by (simp add: outcome_None_iff)
    then show ?thesis
      using *
      unfolding globus_l_gram_job_manager_query_stop_manager_def Let_def r1_def [symmetric]
      by (simp add: outcome_None)
  qed
qed

lemma job_do_outcome:
  assumes "job_do s r = Some r'" "\<not> commits_stopped s r" "outcome_inv r"
  shows "outcome_inv r'"
proof (cases s)
  case (Machine e)
  then show ?thesis using assms machine_outcome [of r e] by (auto simp: ensures_def)
next
  case (Commit_end e)
  then show ?thesis using assms by (auto simp: commits_stopped_def commit_end_outcome)
next
  case (Script_line e code start report)
  then have *: "globus_l_gram_job_manager_default_done e code start report r = Some r'" "start \<in> set script_states"
    using assms(1) by (auto split: if_splits)
  then have "outcome_of start = None" by (auto simp: script_states_def)
  then show ?thesis
    using script_line_fields [OF *(1)] assms(3)
    by (cases "outcome_of (jobmanager_state r)"; cases "jobmanager_state r") (auto simp: outcome_inv_def)
next
  case (Query_line e h code report)
  then show ?thesis using query_line_fields [of e h code report r r'] assms
    by (cases "jobmanager_state r") (auto simp: outcome_inv_def)
next
  case (Deliver e room ev)
  let ?d = "snd (globus_l_gram_deliver_event e room ev r)"
  have "jobmanager_state ?d = jobmanager_state r \<or> jobmanager_state r = JM_POLL2 \<and> jobmanager_state ?d = JM_POLL1"
    by (rule deliver_fields(1))
  then show ?thesis using assms Deliver by (auto simp: outcome_inv_def deliver_fields(2-))
next
  case Timer_fired
  then show ?thesis using assms by (auto simp: outcome_inv_def)
qed (use assms in \<open>auto simp: cancel_outcome signal_query_outcome commit_request_outcome commit_extend_outcome
       stop_manager_outcome\<close>)

interpretation outcome: step_invariant job_init "\<lambda>s r. True \<longrightarrow> \<not> commits_stopped s r" job_do outcome_inv
proof
  show "outcome_inv r" if "job_init r" for r
    using that by (simp add: job_init_def outcome_inv_def)
  show "outcome_inv y" if "job_do s x = Some y" "True \<longrightarrow> \<not> commits_stopped s x" "outcome_inv x" for s x y
    by (rule job_do_outcome) (use that in simp_all)
qed

section \<open>The machine comes to rest\<close>

named_theorems jm_progress \<open>the cases of the state machine and their progress\<close>

fun state_rank :: "jm_state \<Rightarrow> nat" where
  "state_rank JM_START = 20"
| "state_rank JM_TWO_PHASE = 19"
| "state_rank JM_TWO_PHASE_COMMITTED = 17"
| "state_rank JM_STAGE_IN = 16"
| "state_rank JM_SUBMIT = 15"
| "state_rank JM_POLL2 = 14"
| "state_rank JM_POLL1 = 13"
| "state_rank JM_PRE_CLOSE_OUTPUT = 12"
| "state_rank JM_CLOSE_OUTPUT = 11"
| "state_rank JM_FAILED = 10"
| "state_rank JM_STAGE_OUT = 9"
| "state_rank JM_FAILED_CLOSE_OUTPUT = 8"
| "state_rank JM_TWO_PHASE_END = 7"
| "state_rank JM_FAILED_TWO_PHASE = 7"
| "state_rank JM_TWO_PHASE_END_COMMITTED = 6"
| "state_rank JM_FAILED_TWO_PHASE_COMMITTED = 6"
| "state_rank JM_FILE_CLEAN_UP = 5"
| "state_rank JM_FAILED_FILE_CLEAN_UP = 5"
| "state_rank JM_SCRATCH_CLEAN_UP = 4"
| "state_rank JM_FAILED_SCRATCH_CLEAN_UP = 4"
| "state_rank JM_CACHE_CLEAN_UP = 3"
| "state_rank JM_FAILED_CACHE_CLEAN_UP = 3"
| "state_rank _ = 0"

definition retry_staging :: "job_request \<Rightarrow> bool" where
  "retry_staging r \<longleftrightarrow> jobmanager_state r = JM_TWO_PHASE_COMMITTED \<and> jm_restart r \<and> failure_code r \<noteq> GLOBUS_SUCCESS"

text \<open>The number of steps left: events and queries first, then the distance to the end.\<close>

definition steps_left :: "job_request \<Rightarrow> nat" where
  "steps_left r = 21 * (length (seg_event_queue r) + length (pending_queries r)) + state_rank (jobmanager_state r)
     + (if retry_staging r then 1 else 0)"

text \<open>The states in which the machine waits: for a timer, a script, a client, or for ever.\<close>

fun resting :: "jm_state \<Rightarrow> bool" where
  "resting s \<longleftrightarrow> s \<in> {JM_TWO_PHASE, JM_STAGE_IN, JM_SUBMIT, JM_POLL1, JM_POLL2, JM_POLL_QUERY2, JM_TWO_PHASE_QUERY2,
     JM_STAGE_OUT, JM_TWO_PHASE_END, JM_FAILED_TWO_PHASE, JM_STOP, JM_DONE, JM_FAILED_DONE}"

text \<open>The queued events can be consumed: each search for a subjob ends.\<close>

fun seg_ok :: "string \<Rightarrow> scheduler_event list \<Rightarrow> bool" where
  "seg_ok ids [] = True"
| "seg_ok ids (ev # evs) =
     (case subjob_loop (ended (ev_type ev)) ids (ev_job_id ev) of None \<Rightarrow> False | Some ids' \<Rightarrow> seg_ok ids' evs)"

definition events_ok :: "bool \<Rightarrow> string option \<Rightarrow> scheduler_event list \<Rightarrow> bool" where
  "events_ok restarted job evs \<longleftrightarrow>
     evs = [] \<or> \<not> restarted \<and> (case job of None \<Rightarrow> False | Some ids \<Rightarrow> seg_ok ids evs)"

lemma events_ok_Nil [simp]: "events_ok b job []"
  by (simp add: events_ok_def)

definition live :: "job_request \<Rightarrow> bool" where
  "live r \<longleftrightarrow> events_ok (jm_restart r) (job_id_string r) (seg_event_queue r)
     \<and> (query_state (jobmanager_state r) \<longrightarrow> pending_queries r \<noteq> [])"

definition registers :: "env \<Rightarrow> bool" where
  "registers e \<longleftrightarrow> e_reference e = GLOBUS_SUCCESS \<and> e_oneshot e"

definition progress :: "nat \<Rightarrow> step_result \<Rightarrow> bool" where
  "progress n x = (case x of None \<Rightarrow> False | Some (b, r) \<Rightarrow> if b then resting (jobmanager_state r) else live r \<and> steps_left r < n)"

lemma progress_simps [simp]:
  "progress n (Some (b, r)) = (if b then resting (jobmanager_state r) else live r \<and> steps_left r < n)"
  by (simp add: progress_def)

lemma registered_progress [simp]:
  "registers e \<Longrightarrow> progress n (registered e d r) = resting (jobmanager_state r)"
  by (simp add: registers_def registered_def globus_gram_job_manager_state_machine_register_def)

lemma seg_event_live:
  assumes "live r" "seg_event_queue r \<noteq> []"
  obtains r' where "globus_gram_job_manager_seg_handle_event r = Some r'" "live r'"
proof -
  obtain ids ev evs where q: "job_id_string r = Some ids" "seg_event_queue r = ev # evs"
    "seg_ok ids (ev # evs)" "\<not> jm_restart r"
    using assms by (cases "seg_event_queue r") (auto simp: live_def events_ok_def split: option.splits)
  then obtain ids' where i: "subjob_loop (ended (ev_type ev)) ids (ev_job_id ev) = Some ids'" "seg_ok ids' evs"
    by (auto split: option.splits)
  define r1 where "r1 = seg_outcome ev (r\<lparr>seg_event_queue := evs,
     seg_last_timestamp := max (seg_last_timestamp r) (ev_timestamp ev), job_id_string := Some ids'\<rparr>)"
  define r2 where "r2 = seg_change_status ev (seg_new_status ev ids' r1) r1"
  have "globus_gram_job_manager_seg_handle_event r = Some (r2\<lparr>references := references r2 - 1\<rparr>)"
    by (simp add: globus_gram_job_manager_seg_handle_event_def q(1,2) i(1) r1_def r2_def Let_def)
  moreover have "live (r2\<lparr>references := references r2 - 1\<rparr>)"
    using assms(1) q i by (simp add: live_def events_ok_def r2_def r1_def)
  ultimately show ?thesis using that by blast
qed

lemma clear_seg_live: "live r \<Longrightarrow> clear_seg_events n r \<noteq> None"
proof (induction n arbitrary: r)
  case (Suc n)
  show ?case
  proof (cases "seg_event_queue r = []")
    case False
    obtain r' where "globus_gram_job_manager_seg_handle_event r = Some r'" "live r'"
      by (rule seg_event_live [OF Suc.prems False])
    then show ?thesis using Suc.IH by simp
  qed simp
qed simp

lemma start_progress [jm_progress]:
  "jobmanager_state r = JM_START \<Longrightarrow> live r \<Longrightarrow> registers e \<Longrightarrow> progress (steps_left r) (sm_start e r)"
  by (simp add: sm_start_def Let_def live_def query_state_def steps_left_def retry_staging_def)

lemma two_phase_progress [jm_progress]:
  "jobmanager_state r = JM_TWO_PHASE \<Longrightarrow> live r \<Longrightarrow> registers e \<Longrightarrow> progress (steps_left r) (sm_two_phase e r)"
  by (cases "jm_restart r") (simp_all add: sm_two_phase_def Let_def live_def query_state_def steps_left_def retry_staging_def)

lemma stage_in_progress [jm_progress]:
  "jobmanager_state r = JM_STAGE_IN \<Longrightarrow> live r \<Longrightarrow> progress (steps_left r) (sm_stage_in e r)"
  by (simp add: sm_stage_in_def Let_def live_def query_state_def steps_left_def retry_staging_def)

lemma poll2_progress [jm_progress]:
  "jobmanager_state r = JM_POLL2 \<Longrightarrow> live r \<Longrightarrow> progress (steps_left r) (sm_poll2 e r)"
  by (simp add: sm_poll2_def Let_def live_def query_state_def steps_left_def retry_staging_def)

lemma query1_progress [jm_progress]:
  assumes "jobmanager_state r \<in> {JM_POLL_QUERY1, JM_TWO_PHASE_QUERY1}" "live r"
  shows "progress (steps_left r) (sm_query1 e r)"
proof -
  obtain q qs where "pending_queries r = q # qs"
    using assms by (cases "pending_queries r") (auto simp: live_def query_state_def)
  then show ?thesis
    using assms by (elim insertE emptyE; simp add: sm_query1_def Let_def live_def query_state_def steps_left_def retry_staging_def)
qed

lemma two_phase_query2_progress [jm_progress]:
  assumes "jobmanager_state r = JM_TWO_PHASE_QUERY2" "live r" "registers e"
  shows "progress (steps_left r) (sm_two_phase_query2 e r)"
proof -
  obtain q qs where "pending_queries r = q # qs"
    using assms by (cases "pending_queries r") (auto simp: live_def query_state_def)
  then show ?thesis
    using assms by (simp add: sm_two_phase_query2_def Let_def live_def query_state_def steps_left_def retry_staging_def)
qed

lemma poll_query2_progress [jm_progress]:
  assumes "jobmanager_state r = JM_POLL_QUERY2" "live r"
  shows "progress (steps_left r) (sm_poll_query2 r)"
proof -
  obtain q qs where "pending_queries r = q # qs"
    using assms by (cases "pending_queries r") (auto simp: live_def query_state_def)
  then show ?thesis
    using assms by (simp add: sm_poll_query2_def Let_def live_def query_state_def steps_left_def retry_staging_def)
qed

lemmas live_defs = live_def query_state_def steps_left_def retry_staging_def

lemma failed_progress [jm_progress]:
  "jobmanager_state r \<in> {JM_FAILED, JM_PRE_CLOSE_OUTPUT} \<Longrightarrow> live r \<Longrightarrow> progress (steps_left r) (sm_failed r)"
  by (elim insertE emptyE; simp add: sm_failed_def Let_def live_defs)

lemma two_phase_end_progress [jm_progress]:
  "jobmanager_state r \<in> {JM_TWO_PHASE_END, JM_FAILED_TWO_PHASE} \<Longrightarrow> live r \<Longrightarrow> registers e \<Longrightarrow>
   progress (steps_left r) (sm_two_phase_end e r)"
  by (elim insertE emptyE; simp add: sm_two_phase_end_def Let_def live_defs)

lemma two_phase_end_committed_progress [jm_progress]:
  "jobmanager_state r \<in> {JM_TWO_PHASE_END_COMMITTED, JM_FAILED_TWO_PHASE_COMMITTED} \<Longrightarrow> live r \<Longrightarrow>
   progress (steps_left r) (sm_two_phase_end_committed r)"
  by (elim insertE emptyE; simp add: sm_two_phase_end_committed_def Let_def live_defs)

lemma file_clean_up_progress [jm_progress]:
  "jobmanager_state r \<in> {JM_FILE_CLEAN_UP, JM_FAILED_FILE_CLEAN_UP} \<Longrightarrow> live r \<Longrightarrow>
   progress (steps_left r) (sm_file_clean_up r)"
  by (elim insertE emptyE; simp add: sm_file_clean_up_def Let_def live_defs)

lemma scratch_clean_up_progress [jm_progress]:
  "jobmanager_state r \<in> {JM_SCRATCH_CLEAN_UP, JM_FAILED_SCRATCH_CLEAN_UP} \<Longrightarrow> live r \<Longrightarrow>
   progress (steps_left r) (sm_scratch_clean_up r)"
  by (elim insertE emptyE; simp add: sm_scratch_clean_up_def Let_def live_defs)

lemma cancel_queries_restart [simp]:
  "jm_restart (globus_l_gram_job_manager_cancel_queries r) = jm_restart r"
  "jm_restart (remove_state_file r) = jm_restart r"
  by (simp_all add: globus_l_gram_job_manager_cancel_queries_def remove_state_file_def)

lemma cache_clean_up_progress [jm_progress]:
  "jobmanager_state r \<in> {JM_CACHE_CLEAN_UP, JM_FAILED_CACHE_CLEAN_UP} \<Longrightarrow> live r \<Longrightarrow>
   progress (steps_left r) (sm_cache_clean_up r)"
  by (elim insertE emptyE; simp add: sm_cache_clean_up_def Let_def live_defs)

lemma stop_progress [jm_progress]:
  "jobmanager_state r = JM_STOP \<Longrightarrow> progress (steps_left r) (sm_stop r)"
  by (simp add: sm_stop_def)

lemma close_output_progress [jm_progress]:
  "jobmanager_state r = JM_CLOSE_OUTPUT \<Longrightarrow> live r \<Longrightarrow> progress (steps_left r) (sm_close_output e r)"
  by (simp add: sm_close_output_def Let_def live_defs)

lemma settle_live:
  "jobmanager_state r \<in> {JM_STAGE_OUT, JM_FAILED_CLOSE_OUTPUT} \<Longrightarrow> live r \<Longrightarrow>
   live (settle_outcome r) \<and> steps_left (settle_outcome r) < steps_left r
     \<and> resting (jobmanager_state (settle_outcome r))"
  by (elim insertE emptyE; simp add: settle_outcome_def live_defs)

lemma tell_progress:
  "live r \<Longrightarrow> steps_left r < n \<Longrightarrow> resting (jobmanager_state r) \<Longrightarrow> progress n (tell_outcome r)"
  by (simp add: tell_outcome_def Let_def live_defs del: resting.simps)

lemma failed_close_output_progress [jm_progress]:
  "jobmanager_state r \<in> {JM_STAGE_OUT, JM_FAILED_CLOSE_OUTPUT} \<Longrightarrow> live r \<Longrightarrow>
   progress (steps_left r) (sm_failed_close_output r)"
  unfolding sm_failed_close_output_def using settle_live [of r] by (intro tell_progress) blast+

lemma progress_mono: "progress n x \<Longrightarrow> n \<le> m \<Longrightarrow> progress m x"
  by (auto simp: progress_def split: option.splits)

lemma stage_out_progress [jm_progress]:
  assumes "jobmanager_state r = JM_STAGE_OUT" "live r"
  shows "progress (steps_left r) (sm_stage_out r)"
  unfolding sm_stage_out_def
  by (rule progress_mono [OF failed_close_output_progress]) (use assms in \<open>simp_all add: live_defs\<close>)

lemma done_progress [jm_progress]:
  assumes "jobmanager_state r = JM_DONE" "live r"
  shows "progress (steps_left r) (sm_done r)"
proof -
  define r1 where "r1 = globus_l_gram_job_manager_cancel_queries r"
  define r2 where "r2 = act Job_id_unregistered (act Audited (r1\<lparr>restart_state := jobmanager_state r1\<rparr>))"
  have "live r2" using assms by (simp add: r2_def r1_def live_defs)
  then obtain r3 where r3: "clear_seg_events (length (seg_event_queue r2)) r2 = Some r3"
    using clear_seg_live [of r2 "length (seg_event_queue r2)"] by auto
  have "jobmanager_state r3 = JM_DONE"
    using clear_seg_fields [OF r3] assms(1) by (simp add: r2_def r1_def)
  then show ?thesis
    unfolding sm_done_def Let_def r1_def [symmetric] r2_def [symmetric] r3 by simp
qed

lemma failed_done_progress [jm_progress]:
  assumes "jobmanager_state r = JM_FAILED_DONE" "live r"
  shows "progress (steps_left r) (sm_failed_done r)"
proof -
  define r1 where "r1 = globus_l_gram_job_manager_cancel_queries (remove_state_file r)"
  define r2 where "r2 = act Job_id_unregistered (act Audited (r1\<lparr>restart_state := jobmanager_state r1\<rparr>))"
  have "live r2" using assms by (simp add: r2_def r1_def live_defs)
  then obtain r3 where r3: "clear_seg_events (length (seg_event_queue r2)) r2 = Some r3"
    using clear_seg_live [of r2 "length (seg_event_queue r2)"] by auto
  have "jobmanager_state r3 = JM_FAILED_DONE"
    using clear_seg_fields [OF r3] assms(1) by (simp add: r2_def r1_def)
  then show ?thesis
    unfolding sm_failed_done_def Let_def r1_def [symmetric] r2_def [symmetric] r3 by simp
qed

lemma poll1_progress:
  assumes "jobmanager_state r = JM_POLL1" "live r" "registers e"
  shows "progress (steps_left r + (if first_poll then 2 else 0)) (sm_poll1 e first_poll r)"
proof -
  obtain r1 where r1: "(if seg_event_queue r = [] then Some r else globus_gram_job_manager_seg_handle_event r) = Some r1"
    and live: "live r1"
    using assms(2) by (cases "seg_event_queue r = []") (auto elim: seg_event_live)
  have f: "jobmanager_state r1 = JM_POLL1" "pending_queries r1 = pending_queries r"
    "length (seg_event_queue r1) = length (seg_event_queue r) - 1"
    using r1 assms(1) by (auto simp: seg_event_fields split: if_splits)
  have q: "seg_event_queue r = [] \<and> seg_event_queue r1 = [] \<or> length (seg_event_queue r) = Suc (length (seg_event_queue r1))"
    using f(3) r1 by (cases "seg_event_queue r") auto
  show ?thesis
    unfolding sm_poll1_def r1 option.case
    using live f(1,2) q assms
    by (cases "seg_event_queue r = []") (simp_all add: Let_def live_defs)
qed

lemma poll1_progress' [jm_progress]:
  "jobmanager_state r = JM_POLL1 \<Longrightarrow> live r \<Longrightarrow> registers e \<Longrightarrow> progress (steps_left r) (sm_poll1 e False r)"
  using poll1_progress [of r e False] by simp

lemma submit_progress [jm_progress]:
  assumes "jobmanager_state r = JM_SUBMIT" "live r" "registers e"
  shows "progress (steps_left r) (sm_submit e r)"
proof (cases "status r = ST_FAILED \<and> dry_run r")
  case True
  then show ?thesis using assms by (simp add: sm_submit_def live_defs)
next
  case False
  have polled: "progress (steps_left r) (sm_poll1 e True r3)"
    if "jobmanager_state r3 = JM_POLL1" "seg_event_queue r3 = seg_event_queue r"
      "pending_queries r3 = pending_queries r" "job_id_string r3 = job_id_string r" "jm_restart r3 = jm_restart r" for r3
    by (rule progress_mono [OF poll1_progress]) (use assms that in \<open>simp_all add: live_defs\<close>)
  show ?thesis
    unfolding sm_submit_def Let_def if_not_P [OF False]
    by (rule polled) (simp_all split: option.split)
qed

lemma restart_committed:
  assumes "globus_l_gram_job_manager_set_restart_state e r = (True, r')"
    "jobmanager_state r = JM_TWO_PHASE_COMMITTED" "jm_restart r"
  shows "steps_left r' < steps_left r"
  using assms
  by (simp add: globus_l_gram_job_manager_set_restart_state_def Let_def steps_left_def retry_staging_def
        gram_codes jm_codes split: jm_state.splits if_splits) auto

lemma enter_stage_in_progress:
  assumes "events_ok (jm_restart r) (job_id_string r) (seg_event_queue r)"
    "21 * (length (seg_event_queue r) + length (pending_queries r)) + 16 < n"
  shows "progress n (enter_stage_in e r)"
  using assms by (simp add: enter_stage_in_def Let_def live_defs)

lemma two_phase_committed_progress [jm_progress]:
  assumes "jobmanager_state r = JM_TWO_PHASE_COMMITTED" "live r"
  shows "progress (steps_left r) (sm_two_phase_committed e r)"
proof (cases "jm_restart r")
  case False
  then show ?thesis
    unfolding sm_two_phase_committed_def if_not_P [OF False]
    by (intro enter_stage_in_progress) (use assms in \<open>simp_all add: live_defs\<close>)
next
  case True
  obtain c r1 where h: "globus_l_gram_job_manager_set_restart_state e r = (c, r1)"
    by fastforce
  note f = restart_fields [OF h]
  have "seg_event_queue r = []"
    using assms True by (simp add: live_def events_ok_def)
  then have ok: "events_ok (jm_restart r1) (job_id_string r1) (seg_event_queue r1)"
    by (simp add: f events_ok_def)
  show ?thesis
  proof (cases c)
    case True: True
    then have "live r1" using ok f(9) by (auto simp: live_defs)
    then show ?thesis
      using h True assms \<open>jm_restart r\<close> restart_committed [of e r r1]
      by (simp add: sm_two_phase_committed_def)
  next
    case False
    then have "sm_two_phase_committed e r = enter_stage_in e r1"
      using h \<open>jm_restart r\<close> by (simp add: sm_two_phase_committed_def)
    then show ?thesis
      using enter_stage_in_progress [OF ok, of "steps_left r" e] f assms by (simp add: live_defs)
  qed
qed

lemma machine_progress:
  assumes "live r" "registers e"
  shows "progress (steps_left r) (globus_l_gram_job_manager_state_machine e r)"
  using assms unfolding globus_l_gram_job_manager_state_machine_def
  by (cases "jobmanager_state r") (simp_all add: jm_progress)

lemma loop_rests:
  assumes "live r" "\<And>i. registers (es i)" "steps_left r < fuel"
  shows "\<exists>r'. state_machine_loop fuel es r = Some r' \<and> resting (jobmanager_state r')"
  using assms
proof (induction fuel arbitrary: es r)
  case (Suc fuel)
  obtain b r1 where m: "globus_l_gram_job_manager_state_machine (es 0) r = Some (b, r1)"
    "b \<Longrightarrow> resting (jobmanager_state r1)" "\<not> b \<Longrightarrow> live r1 \<and> steps_left r1 < steps_left r"
    using machine_progress [OF Suc.prems(1) Suc.prems(2) [of 0]]
    by (auto simp: progress_def split: option.splits if_splits simp del: resting.simps)
  show ?case
  proof (cases b)
    case True
    then show ?thesis using m by simp
  next
    case False
    then have "\<exists>r'. state_machine_loop fuel (\<lambda>i. es (Suc i)) r1 = Some r' \<and> resting (jobmanager_state r')"
      using m(3) Suc.prems by (intro Suc.IH) auto
    then show ?thesis using m(1) False by simp
  qed
qed simp

section \<open>The search for a subjob\<close>

text \<open>A whole entry of the list starts at \<open>i\<close>.\<close>

definition whole_token :: "string \<Rightarrow> nat \<Rightarrow> string \<Rightarrow> bool" where
  "whole_token ids i job \<longleftrightarrow> (i = 0 \<or> ids ! (i - 1) = CHR '','')
     \<and> (i + length job < length ids \<and> ids ! (i + length job) = CHR '','' \<or> i + length job = length ids)"

lemma subjob_loop_found:
  assumes "strstr ids job = Some i" "whole_token ids i job"
  shows "subjob_loop e ids job =
     Some (if \<not> e then ids
           else if i + length job = length ids then (if i \<noteq> 0 then take (i - 1) ids else [])
           else take i ids @ drop (i + length job + 1) ids)"
  using assms by (subst subjob_loop.simps) (auto simp: whole_token_def)

lemma subjob_loop_missing: "strstr ids job = None \<Longrightarrow> subjob_loop e ids job = Some ids"
  by (subst subjob_loop.simps) simp

lemma subjob_loop_returns:
  assumes "subjob_loop e ids job = Some ids'"
  shows "\<forall>i. strstr ids job = Some i \<longrightarrow> whole_token ids i job"
proof (rule subjob_loop.raw_induct [OF _ assms], rule allI, rule impI, rule ccontr)
  fix f e ids job ids' i
  assume IH: "\<And>e ids job ids'. f e ids job = Some ids' \<Longrightarrow> \<forall>i. strstr ids job = Some i \<longrightarrow> whole_token ids i job"
    and s: "strstr ids job = Some i" "\<not> whole_token ids i job"
    and body: "(case strstr ids job of None \<Rightarrow> Some ids
      | Some i \<Rightarrow>
          if i = 0 \<or> ids ! (i - 1) = CHR '','' then
            if i + length job < length ids \<and> ids ! (i + length job) = CHR '',''
            then Some (if e then take i ids @ drop (i + length job + 1) ids else ids)
            else if i + length job = length ids
            then Some (if e then (if i \<noteq> 0 then take (i - 1) ids else []) else ids)
            else f e ids job
          else f e ids job) = Some ids'"
  have "f e ids job = Some ids'"
    using body s by (simp add: whole_token_def split: if_splits)
  then show False using IH s by blast
qed

lemma subjob_loop_None:
  "(subjob_loop e ids job = None) = (\<exists>i. strstr ids job = Some i \<and> \<not> whole_token ids i job)"
proof (cases "subjob_loop e ids job")
  case None
  then show ?thesis
    using subjob_loop_missing [of ids job e] subjob_loop_found [of ids job _ e]
    by (cases "strstr ids job") auto
next
  case (Some ids')
  then show ?thesis using subjob_loop_returns [OF Some] by auto
qed

fun csv :: "string list \<Rightarrow> string" where
  "csv [] = []"
| "csv [x] = x"
| "csv (x # y # xs) = x @ CHR '','' # csv (y # xs)"

lemma csv_append: "xs \<noteq> [] \<Longrightarrow> ys \<noteq> [] \<Longrightarrow> csv (xs @ ys) = csv xs @ CHR '','' # csv ys"
proof (induction xs rule: csv.induct)
  case (2 x)
  then show ?case by (cases ys) simp_all
qed simp_all

text \<open>Positions at which the searched string does not start can be skipped.\<close>

lemma strstr_skip:
  "m \<le> length s \<Longrightarrow> (\<And>k. k < m \<Longrightarrow> take (length t) (drop k s) \<noteq> t) \<Longrightarrow>
   strstr s t = map_option (\<lambda>i. i + m) (strstr (drop m s) t)"
proof (induction m arbitrary: s)
  case 0
  then show ?case by (simp add: option.map_ident)
next
  case (Suc m)
  then obtain c s' where s: "s = c # s'" by (cases s) auto
  have "take (length t) s \<noteq> t" using Suc.prems(2) [of 0] by simp
  moreover have "strstr s' t = map_option (\<lambda>i. i + m) (strstr (drop m s') t)"
  proof (rule Suc.IH)
    show "m \<le> length s'" using Suc.prems(1) s by simp
    show "take (length t) (drop k s') \<noteq> t" if "k < m" for k
      using Suc.prems(2) [of "Suc k"] that s by simp
  qed
  ultimately show ?case by (simp add: s option.map_comp o_def)
qed

lemma strstr_short: "length s < length t \<Longrightarrow> strstr s t = None"
  by (induction s) (auto dest: arg_cong [of _ _ length])

lemma strstr_start: "t \<noteq> [] \<Longrightarrow> strstr (t @ s) t = Some 0"
  by (cases t) simp_all

lemma strstr_token:
  assumes "length x = length t" "x \<noteq> t" "CHR '','' \<notin> set t" "t \<noteq> []"
  shows "strstr (x @ CHR '','' # s) t = map_option (\<lambda>i. i + Suc (length t)) (strstr s t)"
proof -
  have "take (length t) (drop k (x @ CHR '','' # s)) \<noteq> t" if "k < Suc (length t)" for k
  proof (cases "k = 0")
    case True
    then show ?thesis using assms by simp
  next
    case False
    define j where "j = length t - k"
    have j: "j < length t" using False that assms(4) by (simp add: j_def)
    have "k + j = length x" using that assms(1) by (simp add: j_def)
    then have "take (length t) (drop k (x @ CHR '','' # s)) ! j = CHR '',''"
      using j by (auto simp: nth_append)
    then show ?thesis using j assms(3) by (metis nth_mem)
  qed
  then show ?thesis
    using strstr_skip [of "Suc (length t)" "x @ CHR '','' # s" t] assms(1) by simp
qed

lemma strstr_csv:
  assumes "\<And>x. x \<in> set pre \<Longrightarrow> length x = length t \<and> x \<noteq> t" "CHR '','' \<notin> set t" "t \<noteq> []"
  shows "strstr (csv (pre @ t # post)) t = Some (if pre = [] then 0 else Suc (length (csv pre)))"
  using assms(1)
proof (induction pre)
  case Nil
  then show ?case using assms(3) by (cases post) (simp_all add: strstr_start strstr_start [of t "[]", simplified])
next
  case (Cons x pre)
  have "csv ((x # pre) @ t # post) = x @ CHR '','' # csv (pre @ t # post)"
    by (cases pre) simp_all
  moreover have "strstr (csv (pre @ t # post)) t = Some (if pre = [] then 0 else Suc (length (csv pre)))"
    using Cons by simp
  ultimately show ?case
    using Cons.prems [of x] assms(2,3) by (cases pre) (simp_all add: strstr_token)
qed

lemma strstr_csv_None:
  assumes "\<And>x. x \<in> set xs \<Longrightarrow> length x = length t \<and> x \<noteq> t" "CHR '','' \<notin> set t" "t \<noteq> []"
  shows "strstr (csv xs) t = None"
  using assms(1)
proof (induction xs rule: csv.induct)
  case (2 x)
  then have "length x = length t" "x \<noteq> t" by auto
  then show ?case using assms(3) by (cases x) (auto simp: strstr_short)
next
  case (3 x y xs)
  then show ?case using assms(2,3) by (simp add: strstr_token)
qed (use assms(3) in simp)

text \<open>With job ids of one length, the end of a subjob removes exactly its entry.\<close>

lemma subjob_loop_remove1:
  assumes "\<And>x. x \<in> set ids \<Longrightarrow> length x = length job" "CHR '','' \<notin> set job" "job \<noteq> []"
  shows "subjob_loop True (csv ids) job = Some (csv (remove1 job ids))"
proof (cases "job \<in> set ids")
  case False
  then have "strstr (csv ids) job = None"
    using assms by (intro strstr_csv_None) auto
  then show ?thesis using False by (simp add: subjob_loop_missing remove1_idem)
next
  case True
  then obtain pre post where ids: "ids = pre @ job # post" "job \<notin> set pre"
    by (meson split_list_first)
  have s: "strstr (csv ids) job = Some (if pre = [] then 0 else Suc (length (csv pre)))"
    unfolding ids(1)
  proof (rule strstr_csv)
    show "length x = length job \<and> x \<noteq> job" if "x \<in> set pre" for x
      using that assms(1) [of x] ids by auto
  qed (fact assms)+
  have c: "csv ids = (if pre = [] then [] else csv pre @ [CHR '','']) @ csv (job # post)"
    unfolding ids(1) by (cases "pre = []") (simp_all add: csv_append)
  have p: "csv (job # post) = job @ (if post = [] then [] else CHR '','' # csv post)"
    by (cases post) simp_all
  have r: "remove1 job ids = pre @ post" using ids by (simp add: remove1_append)
  have "whole_token (csv ids) (if pre = [] then 0 else Suc (length (csv pre))) job"
    unfolding whole_token_def c p by (cases "pre = []"; cases "post = []") (simp_all add: nth_append)
  from subjob_loop_found [OF s this, of True] show ?thesis
    unfolding r c p by (cases "pre = []"; cases "post = []") (simp_all add: csv_append)
qed

section \<open>A job's life\<close>

declare subjob_loop.simps [code]

definition example_env :: env where
  "example_env = \<lparr>e_reference = 0, e_oneshot = True, e_script = 0, e_job_id = 0, e_time = 100, e_condor_id = (0, None)\<rparr>"

definition example_job :: job_request where
  "example_job = \<lparr>jobmanager_state = JM_START, restart_state = JM_START, status = ST_UNSUBMITTED,
     expected_terminal_state = ST_DONE, job_history_status = ST_UNSUBMITTED, failure_code = 0, stop_reason = 0,
     exit_code = 0, dry_run = False, jm_restart = False, two_phase_commit = 0, commit_extend = 0,
     unsent_status_change = False, job_id_string = None, original_job_id_string = None,
     stage_in_todo = [], stage_in_shared_todo = [], stage_out_todo = [], stage_stream_todo = [],
     need_stage_in = False, need_stage_out = False, need_file_cleanup = True, seg_event_queue = [],
     seg_last_timestamp = 0, queued_time = 0, pending_queries = [], client_contacts = True, poll_timer = False,
     poll_frequency = 30, job_state_file = True, seg_module = True, jobmanager_type = MT_OTHER, seg_started = True,
     references = 1, scratchdir = None, gt3_failure_type = None, gt3_failure_message = None,
     gt3_failure_source = None, gt3_failure_destination = None, trace = []\<rparr>"

text \<open>The life of a job: the submit script reports an id, the job is polled, a client asks to suspend it, the
  scheduler reports its end.\<close>

definition example_life :: "job_step list" where
  "example_life = replicate 4 (Machine example_env)
     @ [Script_line example_env 0 JM_SUBMIT (Some (''GRAM_SCRIPT_JOB_ID'', ''42'')),
        Script_line example_env 0 JM_SUBMIT (Some (''GRAM_SCRIPT_JOB_STATE'', ''2'')),
        Machine example_env,
        Signal_query example_env True SIGNAL_SUSPEND (Some ''x'') 7,
        Machine example_env, Machine example_env,
        Deliver example_env True \<lparr>ev_type = EV_DONE, ev_job_id = ''42'', ev_exit_code = 0, ev_timestamp = 120\<rparr>]
     @ replicate 10 (Machine example_env)"

lemma example_life_ends:
  "map_option (\<lambda>r. (jobmanager_state r, replied (trace r))) (job_run example_life example_job) = Some (JM_DONE, [7])"
  by code_simp

lemma run_reachable:
  assumes "job_run ss r = Some r'" "job_reach strict r" "strict \<longrightarrow> list_all (\<lambda>s. \<forall>x. \<not> commits_stopped s x) ss"
  shows "job_reach strict r'"
  using assms
proof (induction ss arbitrary: r)
  case (Cons s ss)
  then obtain r1 where "job_do s r = Some r1" "job_run ss r1 = Some r'"
    by (auto simp: bind_eq_Some_conv)
  moreover from this have "job_reach strict r1"
    using Cons.prems by (auto simp: job_reach_def intro: reachable.step)
  ultimately show ?case using Cons by auto
qed simp

lemma example_reachable: "job_run example_life example_job = Some r \<Longrightarrow> job_reach strict r"
proof (rule run_reachable)
  show "job_reach strict example_job"
    by (simp add: job_reach_def reachable.init job_init_def example_job_def)
  show "strict \<longrightarrow> list_all (\<lambda>s. \<forall>x. \<not> commits_stopped s x) example_life"
    by (simp add: example_life_def commits_stopped_def list_all_iff)
qed

section \<open>Properties\<close>

text \<open>
  C1. The outcome of a job. Whatever steps of the machine, client queries, script lines and scheduler
  events follow each other from a new request on, unless the end of the commit is accepted in a stopped
  manager: from the end of the output on, the machine's state agrees with the status that clients are
  told (done in the states of a finished job, failed in those of a failed one), and the job's files,
  directory and state file are removed in the clean-up states only, never while the job may still run.
\<close>

theorem job_manager_outcome:
  assumes "job_reach True r"
  shows "(outcome_of (jobmanager_state r) = None \<or> outcome_of (jobmanager_state r) = Some (status r))
    \<and> (cleaned (trace r) \<longrightarrow> clean_up_state (jobmanager_state r))"
  using outcome.reachable_inv [of r] assms by (simp add: job_reach_def outcome_inv_def)

theorem job_manager_outcome_witness: "map_option status (job_run example_life example_job) = Some ST_DONE"
proof -
  obtain r where r: "job_run example_life example_job = Some r" "jobmanager_state r = JM_DONE"
    using example_life_ends by auto
  show ?thesis
    using job_manager_outcome [OF example_reachable [OF r(1)]] r by simp
qed

text \<open>
  C2. A job is submitted once and its queries are answered once. In every reachable request the submit
  script has been started at most once, and not at all before the two-phase commit and the stage-in are
  over; the queries accepted so far are exactly the ones answered, in the order of their arrival,
  followed by the pending ones; and a query state always has a query to work on.
\<close>

theorem job_manager_history:
  assumes "job_reach strict r"
  shows "submits (trace r) \<le> (if early (jobmanager_state r) then 0 else 1)
    \<and> queued (trace r) = replied (trace r) @ map q_handle (pending_queries r)
    \<and> (query_state (jobmanager_state r) \<longrightarrow> pending_queries r \<noteq> [])"
  using history.reachable_inv [of strict r] assms by (simp add: job_reach_def job_inv_def)

theorem job_manager_history_witness:
  "map_option (\<lambda>r. submits (trace r) \<le> 1 \<and> queued (trace r) = 7 # map q_handle (pending_queries r))
     (job_run example_life example_job) = Some True"
proof -
  obtain r where r: "job_run example_life example_job = Some r" "jobmanager_state r = JM_DONE" "replied (trace r) = [7]"
    using example_life_ends by auto
  show ?thesis
    using job_manager_history [OF example_reachable [OF r(1), of False]] r by (simp add: early_def)
qed

text \<open>
  C3. The callback of the state machine returns. When the callback can be registered (scripts may fail),
  the queued scheduler events can be consumed and a query state has a query, the loop comes to rest after
  at most 21 steps for each queued event and each pending query and 22 more: the machine then waits for a
  timer, a script or a client, or the job is over.
\<close>

theorem job_manager_comes_to_rest:
  assumes "\<And>i. registers (es i)"
    and "events_ok (jm_restart r) (job_id_string r) (seg_event_queue r)"
    and "query_state (jobmanager_state r) \<longrightarrow> pending_queries r \<noteq> []"
  shows "\<exists>r'. state_machine_loop (22 + 21 * (length (seg_event_queue r) + length (pending_queries r))) es r = Some r'
    \<and> resting (jobmanager_state r')"
proof (rule loop_rests)
  show "live r" using assms(2,3) by (simp add: live_def)
  show "registers (es i)" for i by (rule assms(1))
  have "state_rank (jobmanager_state r) + (if retry_staging r then 1 else 0) \<le> 20"
    by (cases "jobmanager_state r") (simp_all add: retry_staging_def)
  then show "steps_left r < 22 + 21 * (length (seg_event_queue r) + length (pending_queries r))"
    by (simp add: steps_left_def)
qed

theorem job_manager_comes_to_rest_witness:
  "\<exists>r'. state_machine_loop 22 (\<lambda>i. example_env) example_job = Some r' \<and> resting (jobmanager_state r')"
  using job_manager_comes_to_rest [of "\<lambda>i. example_env" example_job]
  by (simp add: registers_def example_env_def example_job_def query_state_def GLOBUS_SUCCESS_def del: resting.simps)

text \<open>
  C4. The search for a subjob in the list of job ids. It ends exactly when the first occurrence of the id
  in the list is a whole entry, or there is none: it starts over from the beginning of the list, so that
  an id contained in an earlier one (\<open>12\<close> in \<open>123,12\<close>) makes the job manager loop for ever. For job ids of
  one length it always ends, and the end of a subjob removes exactly its entry.
\<close>

theorem seg_subjob_search:
  "(subjob_loop e ids job = None) = (\<exists>i. strstr ids job = Some i \<and> \<not> whole_token ids i job)
   \<and> subjob_loop e ''123,12'' ''12'' = None
   \<and> ((\<forall>x \<in> set jobs. length x = length job) \<and> CHR '','' \<notin> set job \<and> job \<noteq> [] \<longrightarrow>
      subjob_loop True (csv jobs) job = Some (csv (remove1 job jobs)))"
proof (intro conjI impI)
  show "(subjob_loop e ids job = None) = (\<exists>i. strstr ids job = Some i \<and> \<not> whole_token ids i job)"
    by (rule subjob_loop_None)
  show "subjob_loop e ''123,12'' ''12'' = None"
    unfolding subjob_loop_None by (simp add: whole_token_def)
  show "subjob_loop True (csv jobs) job = Some (csv (remove1 job jobs))"
    if "(\<forall>x \<in> set jobs. length x = length job) \<and> CHR '','' \<notin> set job \<and> job \<noteq> []"
    using that by (intro subjob_loop_remove1) auto
qed

theorem seg_subjob_search_witness:
  "subjob_loop True (csv [''12'', ''13'', ''14'']) ''13'' = Some (csv [''12'', ''14''])"
  using seg_subjob_search [of True "[]" "''13''" "[''12'', ''13'', ''14'']"] by simp



end
