(* ===== verification/Ftp_Restart_Marker.thy ===== *)
theory Ftp_Restart_Marker
  imports C_Scan
begin

text \<open>
  Restart markers of the GridFTP client (\<open>gridftp/client/source/globus_ftp_client_restart_marker.c\<close>) and
  the places that fill them: the range markers a server sends (\<open>globus_ftp_client_state.c\<close>, the restart
  marker plugin) and the data callback (\<open>globus_ftp_client_data.c\<close>).

  A marker holds a stream offset or a queue of byte ranges. The queue is the list of its data in order
  (\<open>Globus_Fifo\<close> shows that the queue of the common library is such a list), a range the pair of its
  bounds, a \<open>globus_off_t\<close> an integer of 64 bits. Shown: the ranges stay sorted and apart, insertion is
  union of byte sets when the end belongs to the range, and what it does when the end does not, as
  the callers have it; markers survive printing and parsing; what copying and counting lose.
\<close>

section \<open>State\<close>

record ftp_range =
  rg_offset :: int
  rg_end_offset :: int

datatype restart_marker =
    RESTART_NONE
  | RESTART_STREAM int int
  | RESTART_EXTENDED_BLOCK "ftp_range list"

datatype ftp_error = Null_parameter string | Out_of_memory | Invalid_parameter string

text \<open>A \<open>globus_result_t\<close>: \<open>None\<close> is success.\<close>

type_synonym ftp_result = "ftp_error option"

abbreviation off_add :: "int \<Rightarrow> int \<Rightarrow> int" where
  "off_add a b \<equiv> wrap_s 64 (a + b)"

section \<open>Operations\<close>

definition globus_ftp_client_restart_marker_init :: "restart_marker option \<Rightarrow> ftp_result \<times> restart_marker option" where
  "globus_ftp_client_restart_marker_init marker =
     (case marker of
        None \<Rightarrow> (Some (Null_parameter ''marker''), None)
      | Some _ \<Rightarrow> (None, Some RESTART_NONE))"

text \<open>The ranges that are freed are returned.\<close>

definition globus_ftp_client_restart_marker_destroy ::
  "restart_marker option \<Rightarrow> ftp_result \<times> restart_marker option \<times> ftp_range list" where
  "globus_ftp_client_restart_marker_destroy marker =
     (case marker of
        None \<Rightarrow> (Some (Null_parameter ''marker''), None, [])
      | Some (RESTART_EXTENDED_BLOCK ranges) \<Rightarrow> (None, Some RESTART_NONE, ranges)
      | Some _ \<Rightarrow> (None, Some RESTART_NONE, []))"

text \<open>
  The loop of \<open>globus_ftp_client_restart_marker_insert_range\<close>. \<open>ranges\<close> is the queue of the marker, the last
  argument the queue \<open>tmp\<close>; \<open>alloc_ok\<close> is whether the one allocation of a call succeeds. When it fails, the
  entry that was taken last is in neither queue.
\<close>

fun insert_range_loop ::
  "bool \<Rightarrow> int \<Rightarrow> int \<Rightarrow> ftp_range list \<Rightarrow> ftp_range list \<Rightarrow> ftp_result \<times> ftp_range list" where
  "insert_range_loop alloc_ok offset end_offset ranges [] =
     (if \<not> alloc_ok then (Some Out_of_memory, ranges)
      else (None, ranges @ [\<lparr>rg_offset = offset, rg_end_offset = end_offset\<rparr>]))"
| "insert_range_loop alloc_ok offset end_offset ranges (rng # tmp) =
     (if offset \<le> rg_offset rng
      then if off_add end_offset 1 < rg_offset rng
           then if \<not> alloc_ok then (Some Out_of_memory, ranges @ tmp)
                else (None, ranges @ [\<lparr>rg_offset = offset, rg_end_offset = end_offset\<rparr>, rng] @ tmp)
           else if off_add end_offset 1 = rg_offset rng
           then insert_range_loop alloc_ok offset (rg_end_offset rng) ranges tmp
           else insert_range_loop alloc_ok offset
                  (if end_offset < rg_end_offset rng then rg_end_offset rng else end_offset) ranges tmp
      else if rg_end_offset rng < off_add offset (-1)
      then insert_range_loop alloc_ok offset end_offset (ranges @ [rng]) tmp
      else insert_range_loop alloc_ok (rg_offset rng)
             (if end_offset < rg_end_offset rng then rg_end_offset rng else end_offset) ranges tmp)"

definition marker_ranges :: "restart_marker \<Rightarrow> ftp_range list" where
  "marker_ranges marker = (case marker of RESTART_EXTENDED_BLOCK ranges \<Rightarrow> ranges | _ \<Rightarrow> [])"

definition globus_ftp_client_restart_marker_insert_range ::
  "bool \<Rightarrow> restart_marker option \<Rightarrow> int \<Rightarrow> int \<Rightarrow> ftp_result \<times> restart_marker option" where
  "globus_ftp_client_restart_marker_insert_range alloc_ok marker offset end_offset =
     (case marker of
        None \<Rightarrow> (Some (Null_parameter ''marker''), None)
      | Some m \<Rightarrow>
          (case insert_range_loop alloc_ok offset end_offset [] (marker_ranges m) of
             (r, ranges) \<Rightarrow> (r, Some (RESTART_EXTENDED_BLOCK ranges))))"

text \<open>
  \<open>globus_ftp_client_restart_marker_copy\<close>: \<open>alloc_ok i\<close> is whether the allocation for the range number \<open>i\<close>
  succeeds; the results of the insertions are not looked at.
\<close>

fun copy_ranges_loop :: "(nat \<Rightarrow> bool) \<Rightarrow> nat \<Rightarrow> restart_marker \<Rightarrow> ftp_range list \<Rightarrow> restart_marker" where
  "copy_ranges_loop alloc_ok i new_marker [] = new_marker"
| "copy_ranges_loop alloc_ok i new_marker (rng # tmp) =
     copy_ranges_loop alloc_ok (Suc i)
       (the (snd (globus_ftp_client_restart_marker_insert_range (alloc_ok i) (Some new_marker)
               (rg_offset rng) (rg_end_offset rng)))) tmp"

definition globus_ftp_client_restart_marker_copy ::
  "(nat \<Rightarrow> bool) \<Rightarrow> restart_marker option \<Rightarrow> restart_marker option \<Rightarrow> ftp_result \<times> restart_marker option" where
  "globus_ftp_client_restart_marker_copy alloc_ok new_marker marker =
     (if new_marker = None then (Some (Null_parameter ''new_marker''), None)
      else case marker of
        None \<Rightarrow> (Some (Null_parameter ''marker''), new_marker)
      | Some RESTART_NONE \<Rightarrow> (None, Some RESTART_NONE)
      | Some (RESTART_STREAM offset ascii_offset) \<Rightarrow> (None, Some (RESTART_STREAM offset 0))
      | Some (RESTART_EXTENDED_BLOCK ranges) \<Rightarrow>
          (None, Some (copy_ranges_loop alloc_ok 0 (RESTART_EXTENDED_BLOCK []) ranges)))"

definition globus_ftp_client_restart_marker_set_ascii_offset ::
  "restart_marker option \<Rightarrow> int \<Rightarrow> int \<Rightarrow> ftp_result \<times> restart_marker option" where
  "globus_ftp_client_restart_marker_set_ascii_offset marker offset ascii_offset =
     (case marker of
        None \<Rightarrow> (Some (Null_parameter ''marker''), None)
      | Some _ \<Rightarrow> (None, Some (RESTART_STREAM offset ascii_offset)))"

definition globus_ftp_client_restart_marker_set_offset ::
  "restart_marker option \<Rightarrow> int \<Rightarrow> ftp_result \<times> restart_marker option" where
  "globus_ftp_client_restart_marker_set_offset marker offset =
     (case marker of
        None \<Rightarrow> (Some (Null_parameter ''marker''), None)
      | Some _ \<Rightarrow> (None, Some (RESTART_STREAM offset offset)))"

fun total_loop :: "int \<Rightarrow> ftp_range list \<Rightarrow> int" where
  "total_loop t [] = t"
| "total_loop t (rng # tmp) =
     total_loop (off_add t (off_add (rg_end_offset rng) (- rg_offset rng))) tmp"

definition globus_ftp_client_restart_marker_get_total ::
  "restart_marker option \<Rightarrow> bool \<Rightarrow> ftp_result \<times> int option" where
  "globus_ftp_client_restart_marker_get_total marker total_bytes =
     (case marker of
        None \<Rightarrow> (Some (Null_parameter ''marker''), None)
      | Some m \<Rightarrow>
          if \<not> total_bytes then (Some (Null_parameter ''total_bytes''), None)
          else (None, Some (case m of
              RESTART_STREAM offset _ \<Rightarrow> offset
            | RESTART_EXTENDED_BLOCK ranges \<Rightarrow> (if ranges = [] then 0 else total_loop 0 ranges)
            | RESTART_NONE \<Rightarrow> 0)))"

definition globus_ftp_client_restart_marker_get_first_block ::
  "restart_marker option \<Rightarrow> bool \<Rightarrow> bool \<Rightarrow> ftp_result \<times> (int \<times> int) option" where
  "globus_ftp_client_restart_marker_get_first_block marker start_offset end_offset =
     (case marker of
        None \<Rightarrow> (Some (Null_parameter ''marker''), None)
      | Some m \<Rightarrow>
          if \<not> start_offset then (Some (Null_parameter ''start_offset''), None)
          else if \<not> end_offset then (Some (Null_parameter ''end_offset''), None)
          else (None, Some (case m of
              RESTART_STREAM offset _ \<Rightarrow> (0, offset)
            | RESTART_EXTENDED_BLOCK (rng # _) \<Rightarrow> (rg_offset rng, rg_end_offset rng)
            | _ \<Rightarrow> (0, 0))))"

text \<open>The number of characters of a printed offset; the negation wraps at the least integer.\<close>

function count_digits_loop :: "int \<Rightarrow> nat \<Rightarrow> nat" where
  "count_digits_loop num n =
     (let num' = c_div num 10 in if 0 < num' then count_digits_loop num' (Suc n) else n)"
  by pat_completeness auto
termination
proof (relation "measure (\<lambda>(num, _). nat num)")
  fix num x :: int and n :: nat
  assume "x = c_div num 10" and "0 < x"
  then have "0 < num" "x = num div 10"
    by (cases "0 < num"; auto simp: c_div_def sgn_if split: if_splits)+
  then show "((x, Suc n), num, n) \<in> measure (\<lambda>(num, _). nat num)" by auto
qed simp

definition globus_i_ftp_client_count_digits :: "int \<Rightarrow> nat" where
  "globus_i_ftp_client_count_digits num =
     (if num < 0 then count_digits_loop (wrap_s 64 (- num)) 2 else count_digits_loop num 1)"

text \<open>
  \<open>globus_ftp_client_restart_marker_to_string\<close>: \<open>alloc_ok i\<close> is whether the allocation number \<open>i\<close> succeeds. The
  outer \<open>None\<close> is a write outside the buffer, the inner one the NULL string.
\<close>

fun ranges_to_string :: "(nat \<Rightarrow> bool) \<Rightarrow> nat \<Rightarrow> string \<Rightarrow> ftp_range list \<Rightarrow> (ftp_error + string) option" where
  "ranges_to_string alloc_ok i buf [] = Some (Inr (butlast buf))"
| "ranges_to_string alloc_ok i buf (rng # tmp) =
     (let mylen = globus_i_ftp_client_count_digits (rg_offset rng) + 1
                + globus_i_ftp_client_count_digits (rg_end_offset rng) + 1
      in if \<not> alloc_ok i then Some (Inl Out_of_memory)
         else do {
           buf1 \<leftarrow> buf_put (length buf + mylen + 1) buf
                     (print_int (rg_offset rng) @ ''-'' @ print_int (rg_end_offset rng) @ '','');
           ranges_to_string alloc_ok (Suc i) buf1 tmp })"

definition globus_ftp_client_restart_marker_to_string ::
  "(nat \<Rightarrow> bool) \<Rightarrow> restart_marker option \<Rightarrow> bool \<Rightarrow> (ftp_result \<times> string option) option" where
  "globus_ftp_client_restart_marker_to_string alloc_ok marker marker_string =
     (case marker of
        None \<Rightarrow> Some (Some (Null_parameter ''marker''), None)
      | Some m \<Rightarrow>
          if \<not> marker_string then Some (Some (Null_parameter ''marker_string''), None)
          else case m of
            RESTART_NONE \<Rightarrow> Some (None, None)
          | RESTART_STREAM offset ascii_offset \<Rightarrow>
              (let off = (if ascii_offset > offset then ascii_offset else offset)
               in if \<not> alloc_ok 0 then Some (Some Out_of_memory, None)
                  else do {
                    s \<leftarrow> buf_put (globus_i_ftp_client_count_digits off + 1) [] (print_int (off mod 2 ^ 64));
                    Some (None, Some s) })
          | RESTART_EXTENDED_BLOCK ranges \<Rightarrow>
              if ranges = [] then Some (None, None)
              else do {
                r \<leftarrow> ranges_to_string alloc_ok 0 [] ranges;
                case r of Inl e \<Rightarrow> Some (Some e, None) | Inr s \<Rightarrow> Some (None, Some s) })"

text \<open>
  The loop over a list of ranges that \<open>globus_ftp_client_restart_marker_from_string\<close> and the two readers of
  range markers share: \<open>f\<close> is the format, \<open>n\<close> the number of ranges inserted so far.
\<close>

function read_ranges ::
  "string \<Rightarrow> (nat \<Rightarrow> bool) \<Rightarrow> nat \<Rightarrow> restart_marker \<Rightarrow> string \<Rightarrow> ftp_result \<times> nat \<times> restart_marker" where
  "read_ranges f alloc_ok n marker p =
     (case sscanf p f of
        [Int_val offset, Int_val end_offset, Pos_val consumed] \<Rightarrow>
          (case globus_ftp_client_restart_marker_insert_range (alloc_ok n) (Some marker) offset end_offset of
             (Some e, m) \<Rightarrow> (Some e, n, the m)
           | (None, m) \<Rightarrow>
               (let q = drop consumed p
                in if q \<noteq> [] \<and> hd q = CHR '','' then read_ranges f alloc_ok (Suc n) (the m) (tl q)
                   else (None, Suc n, the m)))
      | _ \<Rightarrow> (None, n, marker))"
  by pat_completeness auto
termination
  by (relation "measure (\<lambda>(_, _, _, _, p). length p)") auto

declare count_digits_loop.simps [simp del] read_ranges.simps [simp del]

definition globus_ftp_client_restart_marker_from_string ::
  "(nat \<Rightarrow> bool) \<Rightarrow> restart_marker option \<Rightarrow> string option \<Rightarrow> ftp_result \<times> restart_marker option" where
  "globus_ftp_client_restart_marker_from_string alloc_ok marker marker_string =
     (case marker of
        None \<Rightarrow> (Some (Null_parameter ''marker''), None)
      | Some m \<Rightarrow>
          (case marker_string of
             None \<Rightarrow> (Some (Null_parameter ''marker_string''), marker)
           | Some s \<Rightarrow>
               if CHR ''-'' \<in> set s
               then (case read_ranges ''%ld-%ld%n'' alloc_ok 0 (RESTART_EXTENDED_BLOCK []) s of
                       (r, _, m1) \<Rightarrow> (r, Some m1))
               else (case sscanf s ''%ld'' of
                       [Int_val offset] \<Rightarrow> (None, Some (RESTART_STREAM offset offset))
                     | _ \<Rightarrow> (Some (Invalid_parameter ''marker_string''), Some (RESTART_STREAM 0 0)))))"

section \<open>Where markers come from\<close>

text \<open>
  \<open>globus_l_ftp_client_parse_restart_marker\<close>: the reply is the string of its text. The loop that looks for
  the first digit has no bound; running past the terminator is a fault.
\<close>

fun skip_to_digit :: "string \<Rightarrow> string option" where
  "skip_to_digit [] = None"
| "skip_to_digit (c # p) = (if isdigit c then Some (c # p) else skip_to_digit p)"

definition globus_l_ftp_client_parse_restart_marker ::
  "(nat \<Rightarrow> bool) \<Rightarrow> restart_marker \<Rightarrow> int \<Rightarrow> string \<Rightarrow> restart_marker option" where
  "globus_l_ftp_client_parse_restart_marker alloc_ok marker code response_buffer =
     (if code \<noteq> 111 then Some marker
      else if length response_buffer < 4 then None
      else do {
        p \<leftarrow> skip_to_digit (drop 4 response_buffer);
        Some (snd (snd (read_ranges ''%ld-%ld%n'' alloc_ok 0 marker p))) })"

text \<open>
  \<open>restart_marker_plugin_response\<close>, once a response is there: the marker and whether the user's callback
  is called. The pointer moves behind the character that follows \<open>Range Marker\<close>.
\<close>

definition restart_marker_plugin_response ::
  "(nat \<Rightarrow> bool) \<Rightarrow> restart_marker \<Rightarrow> int \<Rightarrow> string \<Rightarrow> (restart_marker \<times> bool) option" where
  "restart_marker_plugin_response alloc_ok marker code response_buffer =
     (if code \<noteq> 111 then Some (marker, False)
      else case strstr response_buffer ''Range Marker'' of
        None \<Rightarrow> Some (marker, False)
      | Some i \<Rightarrow>
          if length response_buffer < i + 13 then None
          else (case read_ranges '' %ld - %ld %n'' alloc_ok 0 marker (drop (i + 13) response_buffer) of
                  (_, n, m) \<Rightarrow> Some (m, 0 < n)))"

text \<open>
  The part of \<open>globus_l_ftp_client_data_callback\<close> that records a block of data: \<open>base_offset\<close> is that of the
  handle, and the end of a range is the offset behind its last byte.
\<close>

datatype ftp_mode = MODE_STREAM | MODE_EXTENDED_BLOCK | MODE_OTHER

definition globus_l_ftp_client_count_lf :: "string \<Rightarrow> nat" where
  "globus_l_ftp_client_count_lf buf = length (filter (\<lambda>c. c = LF) buf)"

definition data_callback_marker ::
  "bool \<Rightarrow> ftp_mode \<Rightarrow> bool \<Rightarrow> int \<Rightarrow> restart_marker \<Rightarrow> string \<Rightarrow> int \<Rightarrow> restart_marker" where
  "data_callback_marker alloc_ok mode ascii base_offset marker buffer offset =
     (let off = (if mode = MODE_STREAM then off_add offset base_offset else offset);
          len = int (length buffer)
      in if mode = MODE_STREAM \<and> ascii \<and> buffer \<noteq> []
         then the (snd (globus_ftp_client_restart_marker_set_ascii_offset (Some marker) (off_add off len)
                (off_add (off_add off len) (int (globus_l_ftp_client_count_lf buffer)))))
         else if mode = MODE_EXTENDED_BLOCK \<and> buffer \<noteq> []
         then the (snd (globus_ftp_client_restart_marker_insert_range alloc_ok (Some marker) off (off_add off len)))
         else marker)"

section \<open>Sorted ranges\<close>

text \<open>
  The ranges of a marker: within the bounds of an offset, in order, and not adjacent when the end
  belongs to a range.
\<close>

definition range_valid :: "int \<Rightarrow> int \<Rightarrow> bool" where
  "range_valid offset end_offset \<longleftrightarrow> 0 \<le> offset \<and> offset \<le> end_offset \<and> end_offset < 2 ^ 63 - 1"

abbreviation before_gap :: "ftp_range \<Rightarrow> ftp_range \<Rightarrow> bool" where
  "before_gap a b \<equiv> rg_end_offset a + 1 < rg_offset b"

definition ranges_sorted :: "ftp_range list \<Rightarrow> bool" where
  "ranges_sorted rs \<longleftrightarrow> (\<forall>r \<in> set rs. range_valid (rg_offset r) (rg_end_offset r)) \<and> sorted_wrt before_gap rs"

text \<open>The bytes of a list of ranges whose ends belong to them, and of one whose ends do not.\<close>

definition closed_bytes :: "ftp_range list \<Rightarrow> int set" where
  "closed_bytes rs = (\<Union>r \<in> set rs. {rg_offset r..rg_end_offset r})"

definition open_bytes :: "ftp_range list \<Rightarrow> int set" where
  "open_bytes rs = (\<Union>r \<in> set rs. {rg_offset r..<rg_end_offset r})"

text \<open>The one-byte holes beside a new range that insertion closes when ends do not belong to ranges.\<close>

definition closed_holes :: "int \<Rightarrow> int \<Rightarrow> ftp_range list \<Rightarrow> int set" where
  "closed_holes offset end_offset rs =
     {x. x = offset - 1 \<and> (\<exists>r \<in> set rs. rg_end_offset r = x)} \<union>
     {x. x = end_offset \<and> (\<exists>r \<in> set rs. rg_offset r = x + 1)}"

lemma ranges_sorted_Cons [simp]:
  "ranges_sorted (r # rs) \<longleftrightarrow> range_valid (rg_offset r) (rg_end_offset r) \<and> (\<forall>s \<in> set rs. before_gap r s) \<and> ranges_sorted rs"
  by (auto simp: ranges_sorted_def)

lemma ranges_sorted_Nil [simp]: "ranges_sorted []"
  by (simp add: ranges_sorted_def)

lemma bytes_simps [simp]:
  "closed_bytes [] = {}" "closed_bytes (r # rs) = {rg_offset r..rg_end_offset r} \<union> closed_bytes rs"
  "open_bytes [] = {}" "open_bytes (r # rs) = {rg_offset r..<rg_end_offset r} \<union> open_bytes rs"
  by (simp_all add: closed_bytes_def open_bytes_def)

lemma off_add_valid: "range_valid a b \<Longrightarrow> off_add b 1 = b + 1" "range_valid a b \<Longrightarrow> off_add a (-1) = a - 1"
  using wrap_s_id [of 64 "b + 1"] wrap_s_id [of 64 "a + - 1"] by (simp_all add: range_valid_def)

lemma insert_loop_prefix:
  "insert_range_loop ok offset end_offset (pre @ ranges) tmp
    = map_prod id ((@) pre) (insert_range_loop ok offset end_offset ranges tmp)"
  by (induction ok offset end_offset ranges tmp arbitrary: pre rule: insert_range_loop.induct)
    (simp_all del: append_assoc add: append_assoc [symmetric])

lemma insert_loop_start:
  "insert_range_loop ok offset end_offset pre tmp = map_prod id ((@) pre) (insert_range_loop ok offset end_offset [] tmp)"
  using insert_loop_prefix [of ok offset end_offset pre "[]" tmp] by simp

text \<open>The specification of one insertion, and how it carries over when a range is joined to the new one.\<close>

definition inserted :: "int \<Rightarrow> int \<Rightarrow> ftp_range list \<Rightarrow> ftp_range list \<Rightarrow> bool" where
  "inserted offset end_offset tmp rs \<longleftrightarrow>
     ranges_sorted rs \<and>
     (\<forall>l. l < offset \<longrightarrow> (\<forall>t \<in> set tmp. l < rg_offset t) \<longrightarrow> (\<forall>r \<in> set rs. l < rg_offset r)) \<and>
     closed_bytes rs = {offset..end_offset} \<union> closed_bytes tmp \<and>
     open_bytes rs = {offset..<end_offset} \<union> open_bytes tmp \<union> closed_holes offset end_offset tmp"

lemma inserted_joined:
  assumes "inserted o1 e1 tmp rs" and "o1 = offset \<or> o1 = rg_offset r"
    and "{o1..e1} = {offset..end_offset} \<union> {rg_offset r..rg_end_offset r}"
    and "closed_holes o1 e1 tmp \<union> {o1..<e1} =
      closed_holes offset end_offset (r # tmp) \<union> {offset..<end_offset} \<union> {rg_offset r..<rg_end_offset r}"
  shows "inserted offset end_offset (r # tmp) rs"
proof -
  have "closed_bytes rs = {offset..end_offset} \<union> closed_bytes (r # tmp)"
  proof -
    have "closed_bytes rs = {o1..e1} \<union> closed_bytes tmp" using assms(1) unfolding inserted_def by blast
    then show ?thesis unfolding assms(3) by auto
  qed
  moreover have "open_bytes rs = {offset..<end_offset} \<union> open_bytes (r # tmp) \<union> closed_holes offset end_offset (r # tmp)"
  proof -
    have "open_bytes rs = (closed_holes o1 e1 tmp \<union> {o1..<e1}) \<union> open_bytes tmp"
      using assms(1) unfolding inserted_def by blast
    then show ?thesis unfolding assms(4) by auto
  qed
  moreover have "\<forall>x \<in> set rs. l < rg_offset x" if "l < offset" "\<forall>t \<in> set (r # tmp). l < rg_offset t" for l
  proof -
    have "l < o1" using that assms(2) by auto
    then show ?thesis using assms(1) that(2) unfolding inserted_def by simp
  qed
  moreover have "ranges_sorted rs" using assms(1) by (simp add: inserted_def)
  ultimately show ?thesis unfolding inserted_def by blast
qed

text \<open>
  One insertion: the result is success, the ranges stay sorted and start no earlier than what they
  were made of, and the bytes are the union, exactly or with the holes that were closed.
\<close>

lemma insert_loop_correct:
  assumes "ranges_sorted tmp" and "range_valid offset end_offset"
  shows "\<exists>rs. insert_range_loop True offset end_offset [] tmp = (None, rs) \<and> inserted offset end_offset tmp rs"
  using assms
proof (induction tmp arbitrary: offset end_offset)
  case Nil
  then show ?case by (auto simp: inserted_def closed_holes_def)
next
  case (Cons r tmp)
  let ?new = "\<lparr>rg_offset = offset, rg_end_offset = end_offset\<rparr>"
  let ?e = "max end_offset (rg_end_offset r)"
  have r: "range_valid (rg_offset r) (rg_end_offset r)" "\<forall>s \<in> set tmp. before_gap r s" "ranges_sorted tmp"
    using Cons.prems(1) by auto
  have v: "range_valid offset end_offset" by (rule Cons.prems(2))
  have le: "offset \<le> end_offset" "rg_offset r \<le> rg_end_offset r" using v r(1) by (auto simp: range_valid_def)
  have ends: "\<forall>s \<in> set tmp. rg_end_offset r + 1 < rg_offset s \<and> rg_offset s \<le> rg_end_offset s"
    using r(2,3) by (auto simp: ranges_sorted_def range_valid_def)
  have max: "(if end_offset < rg_end_offset r then rg_end_offset r else end_offset) = ?e" by auto
  consider (left) "offset \<le> rg_offset r" "end_offset + 1 < rg_offset r"
    | (joined) "offset \<le> rg_offset r" "\<not> end_offset + 1 < rg_offset r"
    | (right) "\<not> offset \<le> rg_offset r" "rg_end_offset r < offset - 1"
    | (over) "\<not> offset \<le> rg_offset r" "\<not> rg_end_offset r < offset - 1" by blast
  then show ?case
  proof cases
    case left
    have run: "insert_range_loop True offset end_offset [] (r # tmp) = (None, ?new # r # tmp)"
      using left off_add_valid(1) [OF v] by simp
    have "closed_holes offset end_offset (r # tmp) = {}" using left ends le by (force simp: closed_holes_def)
    moreover have "\<forall>s \<in> set (r # tmp). end_offset + 1 < rg_offset s" using left ends le by fastforce
    ultimately show ?thesis unfolding run using r v by (intro exI [of _ "?new # r # tmp"]) (auto simp: inserted_def)
  next
    case joined
    have v': "range_valid offset ?e" using v r(1) by (auto simp: range_valid_def)
    have run: "insert_range_loop True offset end_offset [] (r # tmp) = insert_range_loop True offset ?e [] tmp"
      using joined off_add_valid(1) [OF v] le by (auto simp: max_def)
    have "closed_holes offset ?e tmp \<union> {offset..<?e} =
        closed_holes offset end_offset (r # tmp) \<union> {offset..<end_offset} \<union> {rg_offset r..<rg_end_offset r}"
    proof -
      define B where "B \<longleftrightarrow> (\<exists>s \<in> set tmp. rg_offset s = end_offset + 1)"
      have far: "rg_end_offset s \<noteq> offset - 1" "rg_offset s \<noteq> rg_end_offset r + 1" if "s \<in> set tmp" for s
        using ends that joined le by fastforce+
      have B: "rg_end_offset r < end_offset" if B using that ends by (auto simp: B_def)
      have "closed_holes offset ?e tmp = (if B then {end_offset} else {})"
      proof (cases B)
        case True
        then have "?e = end_offset" using B by simp
        with True far show ?thesis by (auto simp: closed_holes_def B_def)
      next
        case False
        with far show ?thesis by (auto simp: closed_holes_def B_def max_def)
      qed
      moreover have "closed_holes offset end_offset (r # tmp) = (if B \<or> rg_offset r = end_offset + 1 then {end_offset} else {})"
        using far joined le by (auto simp: closed_holes_def B_def)
      ultimately show ?thesis using joined le B by (auto simp: max_def)
    qed
    moreover have "{offset..?e} = {offset..end_offset} \<union> {rg_offset r..rg_end_offset r}"
      using joined le by auto
    ultimately have "inserted offset end_offset (r # tmp) rs" if "inserted offset ?e tmp rs" for rs
      using inserted_joined [OF that] by blast
    then show ?thesis unfolding run using Cons.IH [OF r(3) v'] by blast
  next
    case right
    obtain rs where ih: "insert_range_loop True offset end_offset [] tmp = (None, rs)" "inserted offset end_offset tmp rs"
      using Cons.IH [OF r(3) v] by blast
    have run: "insert_range_loop True offset end_offset [] (r # tmp) = (None, r # rs)"
      using right off_add_valid(2) [OF v] ih(1) insert_loop_start [of True offset end_offset "[r]" tmp] by simp
    have "closed_holes offset end_offset (r # tmp) = closed_holes offset end_offset tmp"
      using right le by (auto simp: closed_holes_def)
    moreover have "\<forall>s \<in> set rs. before_gap r s"
      using ih(2) right r(2) unfolding inserted_def by (metis add.commute add_less_imp_less_right less_diff_eq)
    ultimately show ?thesis unfolding run using ih(2) r by (auto simp: inserted_def)
  next
    case over
    have v': "range_valid (rg_offset r) ?e" using v r(1) by (auto simp: range_valid_def)
    have run: "insert_range_loop True offset end_offset [] (r # tmp) = insert_range_loop True (rg_offset r) ?e [] tmp"
      using over off_add_valid(2) [OF v] by (auto simp: max_def)
    have "closed_holes (rg_offset r) ?e tmp \<union> {rg_offset r..<?e} =
        closed_holes offset end_offset (r # tmp) \<union> {offset..<end_offset} \<union> {rg_offset r..<rg_end_offset r}"
    proof -
      define B where "B \<longleftrightarrow> (\<exists>s \<in> set tmp. rg_offset s = end_offset + 1)"
      have far: "rg_end_offset s \<noteq> rg_offset r - 1" "rg_offset s \<noteq> rg_end_offset r + 1"
          "rg_end_offset s \<noteq> offset - 1" if "s \<in> set tmp" for s
        using ends that le over by fastforce+
      have B: "rg_end_offset r < end_offset" if B using that ends by (auto simp: B_def)
      have "closed_holes (rg_offset r) ?e tmp = (if B then {end_offset} else {})"
      proof (cases B)
        case True
        then have "?e = end_offset" using B by simp
        with True far show ?thesis by (auto simp: closed_holes_def B_def)
      next
        case False
        with far show ?thesis by (auto simp: closed_holes_def B_def max_def)
      qed
      moreover have "closed_holes offset end_offset (r # tmp)
          = (if rg_end_offset r = offset - 1 then {offset - 1} else {}) \<union> (if B then {end_offset} else {})"
        using far over le by (auto simp: closed_holes_def B_def)
      ultimately show ?thesis using over le B by (auto simp: max_def)
    qed
    moreover have "{rg_offset r..?e} = {offset..end_offset} \<union> {rg_offset r..rg_end_offset r}"
      using over le by auto
    ultimately have "inserted offset end_offset (r # tmp) rs" if "inserted (rg_offset r) ?e tmp rs" for rs
      using inserted_joined [OF that] by blast
    then show ?thesis unfolding run using Cons.IH [OF r(3) v'] by blast
  qed
qed

section \<open>Copying, printing and parsing\<close>

lemma ranges_sorted_append:
  "ranges_sorted (xs @ ys) \<longleftrightarrow> ranges_sorted xs \<and> ranges_sorted ys \<and> (\<forall>x \<in> set xs. \<forall>y \<in> set ys. before_gap x y)"
  by (induction xs) auto

lemma insert_last:
  "ranges_sorted (rs @ [r]) \<Longrightarrow> insert_range_loop True (rg_offset r) (rg_end_offset r) [] rs = (None, rs @ [r])"
proof (induction rs)
  case (Cons s rs)
  have v: "range_valid (rg_offset s) (rg_end_offset s)" "range_valid (rg_offset r) (rg_end_offset r)" "before_gap s r"
    using Cons.prems by (auto simp: ranges_sorted_append)
  then have "\<not> rg_offset r \<le> rg_offset s" "rg_end_offset s < off_add (rg_offset r) (-1)"
    using off_add_valid(2) [OF v(2)] by (auto simp: range_valid_def)
  then show ?case
    using Cons insert_loop_start [of True "rg_offset r" "rg_end_offset r" "[s]" rs] by simp
qed simp

lemma marker_insert_last:
  "ranges_sorted (rs @ [r]) \<Longrightarrow>
   globus_ftp_client_restart_marker_insert_range True (Some (RESTART_EXTENDED_BLOCK rs)) (rg_offset r) (rg_end_offset r)
     = (None, Some (RESTART_EXTENDED_BLOCK (rs @ [r])))"
  by (simp add: globus_ftp_client_restart_marker_insert_range_def marker_ranges_def insert_last)

lemma ranges_sorted_snoc: "ranges_sorted (pre @ r # rs) \<Longrightarrow> ranges_sorted (pre @ [r])"
  by (auto simp: ranges_sorted_append)

lemma copy_ranges_correct:
  "ranges_sorted (pre @ rs) \<Longrightarrow>
   copy_ranges_loop (\<lambda>_. True) i (RESTART_EXTENDED_BLOCK pre) rs = RESTART_EXTENDED_BLOCK (pre @ rs)"
proof (induction rs arbitrary: i pre)
  case (Cons r rs)
  then show ?case using Cons.IH [of "pre @ [r]"] marker_insert_last [OF ranges_sorted_snoc [OF Cons.prems]] by simp
qed simp

text \<open>The text of a list of ranges.\<close>

definition range_text :: "ftp_range \<Rightarrow> string" where
  "range_text r = print_int (rg_offset r) @ ''-'' @ print_int (rg_end_offset r)"

definition ranges_text :: "ftp_range list \<Rightarrow> string" where
  "ranges_text rs = butlast (concat (map (\<lambda>r. range_text r @ '','') rs))"

lemma ranges_text_simps:
  "ranges_text [r] = range_text r"
  "ranges_text (r # s # rs) = range_text r @ '','' @ ranges_text (s # rs)"
  by (simp_all add: ranges_text_def butlast_append)

lemma count_digits_loop_eq: "0 \<le> num \<Longrightarrow> Suc (count_digits_loop num n) = n + length (digits (nat num))"
proof (induction num n rule: count_digits_loop.induct)
  case (1 num n)
  have d: "c_div num 10 = num div 10" using 1(2) by (simp add: c_div_def sgn_if)
  show ?case
  proof (cases "num < 10")
    case True
    then show ?thesis using 1(2) d by (subst count_digits_loop.simps) (simp add: digits.simps [of "nat num"] div_pos_pos_trivial)
  next
    case False
    then have "0 < num div 10" by (simp add: pos_imp_zdiv_pos_iff)
    moreover have "length (digits (nat num)) = Suc (length (digits (nat (num div 10))))"
      using False 1(2) by (subst digits.simps) (simp add: nat_div_distrib)
    ultimately show ?thesis using 1(1) [OF refl] d False by (subst count_digits_loop.simps) simp
  qed
qed

lemma count_digits_eq: "0 \<le> num \<Longrightarrow> globus_i_ftp_client_count_digits num = length (print_int num)"
  using count_digits_loop_eq [of num 1] by (simp add: globus_i_ftp_client_count_digits_def print_int_def)

lemma range_validD: "range_valid a b \<Longrightarrow> 0 \<le> a \<and> 0 \<le> b \<and> a < 2 ^ 63 \<and> b < 2 ^ 63"
  by (auto simp: range_valid_def)

lemma ranges_to_string_eq:
  assumes "\<forall>r \<in> set rs. range_valid (rg_offset r) (rg_end_offset r)"
  shows "ranges_to_string (\<lambda>_. True) i buf rs = Some (Inr (butlast (buf @ concat (map (\<lambda>r. range_text r @ '','') rs))))"
  using assms
proof (induction rs arbitrary: i buf)
  case (Cons r rs)
  have "0 \<le> rg_offset r" "0 \<le> rg_end_offset r" using Cons.prems range_validD by auto
  then show ?case using Cons
    by (simp add: Let_def buf_put_eq count_digits_eq) (simp add: range_text_def)
qed simp

lemma range_directives:
  "directives ''%ld-%ld%n'' = [Conv_int None True, Lit CHR ''-'', Conv_int None True, Conv_pos]"
  "directives '' %ld - %ld %n''
    = [White, Conv_int None True, White, Lit CHR ''-'', White, Conv_int None True, White, Conv_pos]"
  "directives ''%ld'' = [Conv_int None True]"
  by code_simp+

lemma scan_range:
  assumes "range_valid (rg_offset r) (rg_end_offset r)" and "s = [] \<or> \<not> isdigit (hd s)"
  shows "sscanf (range_text r @ s) ''%ld-%ld%n''
    = [Int_val (rg_offset r), Int_val (rg_end_offset r), Pos_val (length (range_text r))]"
proof -
  have b: "- (2 ^ 63) \<le> rg_offset r" "rg_offset r < 2 ^ 63" "- (2 ^ 63) \<le> rg_end_offset r" "rg_end_offset r < 2 ^ 63"
    using range_validD [OF assms(1)] by auto
  have m: "\<not> isdigit CHR ''-''" by (simp add: isdigit_def)
  show ?thesis
    unfolding sscanf_def range_directives range_text_def
    using scan_long [OF _ b(1,2), of "''-'' @ print_int (rg_end_offset r) @ s"] scan_long [OF assms(2) b(3,4)] m
    by (simp del: scan.simps(4))
qed

lemma read_ranges_correct:
  assumes "ranges_sorted (pre @ rs)" and "rs \<noteq> []" and "s = [] \<or> \<not> isdigit (hd s) \<and> hd s \<noteq> CHR '',''"
  shows "read_ranges ''%ld-%ld%n'' (\<lambda>_. True) n (RESTART_EXTENDED_BLOCK pre) (ranges_text rs @ s)
    = (None, n + length rs, RESTART_EXTENDED_BLOCK (pre @ rs))"
  using assms(1,2)
proof (induction rs arbitrary: n pre)
  case (Cons r rs)
  have v: "range_valid (rg_offset r) (rg_end_offset r)" using Cons.prems(1) by (auto simp: ranges_sorted_append)
  note ins = marker_insert_last [OF ranges_sorted_snoc [OF Cons.prems(1)]]
  show ?case
  proof (cases rs)
    case Nil
    have sc: "sscanf (range_text r @ s) ''%ld-%ld%n''
        = [Int_val (rg_offset r), Int_val (rg_end_offset r), Pos_val (length (range_text r))]"
      by (rule scan_range [OF v]) (use assms(3) in auto)
    show ?thesis using sc ins assms(3) Nil
      by (subst read_ranges.simps) (auto simp: ranges_text_simps Let_def)
  next
    case (Cons r2 rs2)
    have ih: "read_ranges ''%ld-%ld%n'' (\<lambda>_. True) (Suc n) (RESTART_EXTENDED_BLOCK (pre @ [r])) (ranges_text rs @ s)
        = (None, Suc n + length rs, RESTART_EXTENDED_BLOCK ((pre @ [r]) @ rs))"
      by (rule Cons.IH) (use Cons.prems Cons in auto)
    have sc: "sscanf (range_text r @ '','' @ ranges_text rs @ s) ''%ld-%ld%n''
        = [Int_val (rg_offset r), Int_val (rg_end_offset r), Pos_val (length (range_text r))]"
      by (rule scan_range [OF v]) (simp add: isdigit_def)
    show ?thesis using sc ins ih Cons
      by (subst read_ranges.simps) (simp add: ranges_text_simps Let_def)
  qed
qed simp

lemma insert_range_correct:
  assumes "ranges_sorted (marker_ranges m)" and "range_valid offset end_offset"
  shows "\<exists>rs. globus_ftp_client_restart_marker_insert_range True (Some m) offset end_offset
      = (None, Some (RESTART_EXTENDED_BLOCK rs)) \<and> inserted offset end_offset (marker_ranges m) rs"
  using insert_loop_correct [OF assms]
  by (auto simp: globus_ftp_client_restart_marker_insert_range_def)

lemma marker_ranges_block [simp]: "marker_ranges (RESTART_EXTENDED_BLOCK rs) = rs"
  by (simp add: marker_ranges_def)

lemma total_loop_eq:
  assumes "ranges_sorted rs" and "0 \<le> t" and "t + (\<Sum>r\<leftarrow>rs. rg_end_offset r - rg_offset r) < 2 ^ 63"
  shows "total_loop t rs = t + (\<Sum>r\<leftarrow>rs. rg_end_offset r - rg_offset r)"
  using assms
proof (induction rs arbitrary: t)
  case (Cons r rs)
  have v: "range_valid (rg_offset r) (rg_end_offset r)" "ranges_sorted rs" using Cons.prems(1) by auto
  have s: "0 \<le> (\<Sum>r\<leftarrow>rs. rg_end_offset r - rg_offset r)"
    using v(2) by (intro sum_list_nonneg) (auto simp: ranges_sorted_def range_valid_def)
  have "off_add (rg_end_offset r) (- rg_offset r) = rg_end_offset r - rg_offset r"
    using v(1) wrap_s_id [of 64 "rg_end_offset r + - rg_offset r"] by (simp add: range_valid_def)
  moreover have "off_add t (rg_end_offset r - rg_offset r) = t + (rg_end_offset r - rg_offset r)"
    using v(1) s Cons.prems(2,3) by (intro wrap_s_id) (auto simp: range_valid_def)
  ultimately show ?case
    using Cons.IH [OF v(2), of "t + (rg_end_offset r - rg_offset r)"] Cons.prems(2,3) v(1) by (auto simp: range_valid_def)
qed simp

lemma card_open_bytes:
  "ranges_sorted rs \<Longrightarrow> int (card (open_bytes rs)) = (\<Sum>r\<leftarrow>rs. rg_end_offset r - rg_offset r)"
proof (induction rs)
  case (Cons r rs)
  have "finite (open_bytes rs)" by (simp add: open_bytes_def)
  moreover have "{rg_offset r..<rg_end_offset r} \<inter> open_bytes rs = {}"
    using Cons.prems by (fastforce simp: open_bytes_def)
  ultimately have "card (open_bytes (r # rs)) = nat (rg_end_offset r - rg_offset r) + card (open_bytes rs)"
    by (simp add: card_Un_disjoint)
  then show ?case using Cons by (simp add: range_valid_def)
qed simp

lemma card_closed_bytes:
  "ranges_sorted rs \<Longrightarrow>
   int (card (closed_bytes rs)) = (\<Sum>r\<leftarrow>rs. rg_end_offset r - rg_offset r) + int (length rs)"
proof (induction rs)
  case (Cons r rs)
  have "finite (closed_bytes rs)" by (simp add: closed_bytes_def)
  moreover have "{rg_offset r..rg_end_offset r} \<inter> closed_bytes rs = {}"
    using Cons.prems by (fastforce simp: closed_bytes_def)
  ultimately have "card (closed_bytes (r # rs)) = nat (rg_end_offset r - rg_offset r + 1) + card (closed_bytes rs)"
    by (simp add: card_Un_disjoint)
  then show ?case using Cons by (simp add: range_valid_def)
qed simp

section \<open>Properties\<close>

fun insert_ranges :: "restart_marker \<Rightarrow> (int \<times> int) list \<Rightarrow> restart_marker" where
  "insert_ranges m [] = m"
| "insert_ranges m ((offset, end_offset) # ps) =
     insert_ranges (the (snd (globus_ftp_client_restart_marker_insert_range True (Some m) offset end_offset))) ps"

text \<open>
  C21. Insertion of ranges. Any sequence of insertions, in any order and with any overlaps, keeps the
  ranges of a marker sorted, within the bounds of an offset and not adjacent, and the marker denotes
  the union of the ranges, the ends belonging to them.
\<close>

theorem restart_marker_insert_union:
  assumes "ranges_sorted (marker_ranges m)" and "\<forall>(a, b) \<in> set ps. range_valid a b"
  shows "ranges_sorted (marker_ranges (insert_ranges m ps)) \<and>
    closed_bytes (marker_ranges (insert_ranges m ps)) = closed_bytes (marker_ranges m) \<union> (\<Union>(a, b) \<in> set ps. {a..b})"
  using assms
proof (induction m ps rule: insert_ranges.induct)
  case (2 m a b ps)
  obtain rs where rs: "globus_ftp_client_restart_marker_insert_range True (Some m) a b
      = (None, Some (RESTART_EXTENDED_BLOCK rs))" "inserted a b (marker_ranges m) rs"
    using insert_range_correct [OF "2.prems"(1), of a b] "2.prems"(2) by auto
  then have "ranges_sorted rs" "closed_bytes rs = {a..b} \<union> closed_bytes (marker_ranges m)"
    by (simp_all add: inserted_def)
  then show ?case using "2.IH" "2.prems"(2) rs(1) by auto
qed simp

theorem restart_marker_insert_witness:
  "closed_bytes (marker_ranges (insert_ranges RESTART_NONE [(10, 19), (0, 9), (30, 39)])) = {0..19} \<union> {30..39}"
proof -
  let ?ps = "[(10, 19), (0, 9), (30, 39)] :: (int \<times> int) list"
  have "ranges_sorted (marker_ranges RESTART_NONE)" "\<forall>(a, b) \<in> set ?ps. range_valid a b"
    by (simp_all add: marker_ranges_def range_valid_def)
  from restart_marker_insert_union [OF this]
  have "closed_bytes (marker_ranges (insert_ranges RESTART_NONE ?ps))
      = closed_bytes (marker_ranges RESTART_NONE) \<union> (\<Union>(a, b) \<in> set ?ps. {a..b})" ..
  also have "\<dots> = {10..19} \<union> {0..9} \<union> {30..39}" by (simp add: marker_ranges_def Un_assoc)
  also have "\<dots> = {0..19} \<union> {30..39}" by auto
  finally show ?thesis .
qed

text \<open>
  C22. What the data callback records. It passes the offset behind the last byte as the end of a range,
  while insertion joins ranges as if the end belonged to them: the bytes recorded are those received
  before, those of the block, and the single bytes missing between the block and a neighbour. After
  the blocks 0 to 9 and 11 to 19 the marker covers byte 10, which never arrived, and a restart does
  not ask for it.
\<close>

theorem restart_marker_data_holes:
  assumes "ranges_sorted (marker_ranges m)" and "buffer \<noteq> []" and "range_valid offset (offset + int (length buffer))"
  shows "(let m' = data_callback_marker True MODE_EXTENDED_BLOCK ascii base m buffer offset
     in ranges_sorted (marker_ranges m') \<and>
        open_bytes (marker_ranges m') = open_bytes (marker_ranges m) \<union> {offset..<offset + int (length buffer)} \<union>
          closed_holes offset (offset + int (length buffer)) (marker_ranges m)) \<and>
    globus_ftp_client_restart_marker_to_string (\<lambda>_. True)
      (Some (data_callback_marker True MODE_EXTENDED_BLOCK ascii base
         (data_callback_marker True MODE_EXTENDED_BLOCK ascii base RESTART_NONE (replicate 10 CHR ''x'') 0)
         (replicate 9 CHR ''x'') 11)) True = Some (None, Some ''0-20'')"
proof
  have "off_add offset (int (length buffer)) = offset + int (length buffer)"
    using assms(3) by (intro wrap_s_id) (auto simp: range_valid_def)
  moreover obtain rs where
    "globus_ftp_client_restart_marker_insert_range True (Some m) offset (offset + int (length buffer))
      = (None, Some (RESTART_EXTENDED_BLOCK rs))" "inserted offset (offset + int (length buffer)) (marker_ranges m) rs"
    using insert_range_correct [OF assms(1,3)] by blast
  ultimately show "let m' = data_callback_marker True MODE_EXTENDED_BLOCK ascii base m buffer offset
     in ranges_sorted (marker_ranges m') \<and>
        open_bytes (marker_ranges m') = open_bytes (marker_ranges m) \<union> {offset..<offset + int (length buffer)} \<union>
          closed_holes offset (offset + int (length buffer)) (marker_ranges m)"
    using assms(2) by (auto simp: data_callback_marker_def Let_def inserted_def)
  have "data_callback_marker True MODE_EXTENDED_BLOCK ascii base
      (data_callback_marker True MODE_EXTENDED_BLOCK ascii base RESTART_NONE (replicate 10 CHR ''x'') 0)
      (replicate 9 CHR ''x'') 11 = RESTART_EXTENDED_BLOCK [\<lparr>rg_offset = 0, rg_end_offset = 20\<rparr>]"
    by (simp add: data_callback_marker_def globus_ftp_client_restart_marker_insert_range_def marker_ranges_def
        wrap_s_def)
  moreover have "globus_ftp_client_restart_marker_to_string (\<lambda>_. True)
      (Some (RESTART_EXTENDED_BLOCK [\<lparr>rg_offset = 0, rg_end_offset = 20\<rparr>])) True = Some (None, Some ''0-20'')"
    by code_simp
  ultimately show "globus_ftp_client_restart_marker_to_string (\<lambda>_. True)
      (Some (data_callback_marker True MODE_EXTENDED_BLOCK ascii base
         (data_callback_marker True MODE_EXTENDED_BLOCK ascii base RESTART_NONE (replicate 10 CHR ''x'') 0)
         (replicate 9 CHR ''x'') 11)) True = Some (None, Some ''0-20'')"
    by simp
qed

theorem restart_marker_data_holes_witness:
  "open_bytes (marker_ranges (data_callback_marker True MODE_EXTENDED_BLOCK False 0
      (RESTART_EXTENDED_BLOCK [\<lparr>rg_offset = 0, rg_end_offset = 10\<rparr>]) ''abc'' 11)) = {0..<14}"
proof -
  let ?m = "RESTART_EXTENDED_BLOCK [\<lparr>rg_offset = 0, rg_end_offset = 10\<rparr>]"
  have h: "closed_holes 11 14 [\<lparr>rg_offset = 0, rg_end_offset = 10\<rparr>] = {10}" by (auto simp: closed_holes_def)
  have "ranges_sorted (marker_ranges ?m)" "''abc'' \<noteq> []" "range_valid 11 (11 + int (length ''abc''))"
    by (simp_all add: range_valid_def)
  from restart_marker_data_holes [OF this, of False 0]
  have "open_bytes (marker_ranges (data_callback_marker True MODE_EXTENDED_BLOCK False 0 ?m ''abc'' 11))
      = open_bytes (marker_ranges ?m) \<union> {11..<11 + int (length ''abc'')} \<union>
        closed_holes 11 (11 + int (length ''abc'')) (marker_ranges ?m)"
    unfolding Let_def by blast
  also have "\<dots> = {0..<10} \<union> {11..<14} \<union> {10}" using h by simp
  also have "\<dots> = {0..<14}" by auto
  finally show ?thesis .
qed

text \<open>
  C23. Printing and parsing. The text of a marker fits the memory allocated for it and is parsed back to
  the marker: a list of ranges to the same list, a stream marker to the larger of its two offsets.
\<close>

theorem restart_marker_string_roundtrip:
  assumes "ranges_sorted rs" and "rs \<noteq> []" and "0 \<le> offset \<or> 0 \<le> ascii" and "offset < 2 ^ 63" and "ascii < 2 ^ 63"
  shows "(\<exists>s. globus_ftp_client_restart_marker_to_string (\<lambda>_. True) (Some (RESTART_EXTENDED_BLOCK rs)) True = Some (None, Some s) \<and>
      globus_ftp_client_restart_marker_from_string (\<lambda>_. True) (Some any) (Some s) = (None, Some (RESTART_EXTENDED_BLOCK rs))) \<and>
    (\<exists>s. globus_ftp_client_restart_marker_to_string (\<lambda>_. True) (Some (RESTART_STREAM offset ascii)) True = Some (None, Some s) \<and>
      globus_ftp_client_restart_marker_from_string (\<lambda>_. True) (Some any) (Some s)
        = (None, Some (RESTART_STREAM (max offset ascii) (max offset ascii))))"
proof
  have v: "\<forall>r \<in> set rs. range_valid (rg_offset r) (rg_end_offset r)" using assms(1) by (simp add: ranges_sorted_def)
  have "CHR ''-'' \<in> set (ranges_text rs)"
    using assms(2) by (cases rs; cases "tl rs") (auto simp: ranges_text_simps range_text_def)
  moreover have "read_ranges ''%ld-%ld%n'' (\<lambda>_. True) 0 (RESTART_EXTENDED_BLOCK []) (ranges_text rs)
      = (None, length rs, RESTART_EXTENDED_BLOCK rs)"
    using read_ranges_correct [of "[]" rs "[]" 0] assms(1,2) by simp
  ultimately show "\<exists>s. globus_ftp_client_restart_marker_to_string (\<lambda>_. True) (Some (RESTART_EXTENDED_BLOCK rs)) True = Some (None, Some s) \<and>
      globus_ftp_client_restart_marker_from_string (\<lambda>_. True) (Some any) (Some s) = (None, Some (RESTART_EXTENDED_BLOCK rs))"
    using assms(2) ranges_to_string_eq [OF v, of 0 "[]"]
    by (intro exI [of _ "ranges_text rs"])
      (simp add: globus_ftp_client_restart_marker_to_string_def globus_ftp_client_restart_marker_from_string_def ranges_text_def)
  let ?k = "max offset ascii"
  have k: "0 \<le> ?k" "?k < 2 ^ 63" using assms(3-5) by auto
  have "CHR ''-'' \<notin> set (print_int ?k)"
    using k(1) digits_isdigit [of "CHR ''-''" "nat ?k"] by (auto simp: print_int_def isdigit_def)
  moreover have "sscanf (print_int ?k) ''%ld'' = [Int_val ?k]"
    using scan_long [of "[]" ?k "[]" 0] k by (simp add: sscanf_def range_directives del: scan.simps(4))
  moreover have "?k mod 2 ^ 64 = ?k" using k by simp
  moreover have "(if ascii > offset then ascii else offset) = ?k" by auto
  ultimately show "\<exists>s. globus_ftp_client_restart_marker_to_string (\<lambda>_. True) (Some (RESTART_STREAM offset ascii)) True = Some (None, Some s) \<and>
      globus_ftp_client_restart_marker_from_string (\<lambda>_. True) (Some any) (Some s) = (None, Some (RESTART_STREAM ?k ?k))"
    using k(1)
    by (intro exI [of _ "print_int ?k"])
      (simp add: globus_ftp_client_restart_marker_to_string_def globus_ftp_client_restart_marker_from_string_def
        Let_def buf_put_eq count_digits_eq)
qed

theorem restart_marker_string_witness:
  "\<exists>s. globus_ftp_client_restart_marker_to_string (\<lambda>_. True) (Some (RESTART_STREAM 7 9)) True = Some (None, Some s) \<and>
     globus_ftp_client_restart_marker_from_string (\<lambda>_. True) (Some RESTART_NONE) (Some s) = (None, Some (RESTART_STREAM 9 9))"
  using restart_marker_string_roundtrip [of "[\<lparr>rg_offset = 0, rg_end_offset = 10\<rparr>]" 7 9 RESTART_NONE]
  by (simp add: range_valid_def)

text \<open>
  C24. Copies and totals. A copy of a marker with ranges has the same ranges, and one of a stream marker
  loses the offset of the text on the network: a transfer of text that is restarted from a copy asks for
  the wrong position. The total of a marker is the number of its bytes when ends do not belong to
  ranges; with the ends, as insertion takes them, it is short by one for every range.
\<close>

theorem restart_marker_copy_total:
  assumes "ranges_sorted rs" and "(\<Sum>r\<leftarrow>rs. rg_end_offset r - rg_offset r) < 2 ^ 63"
  shows "globus_ftp_client_restart_marker_copy (\<lambda>_. True) (Some any) (Some (RESTART_EXTENDED_BLOCK rs))
      = (None, Some (RESTART_EXTENDED_BLOCK rs)) \<and>
    globus_ftp_client_restart_marker_copy (\<lambda>_. True) (Some any) (Some (RESTART_STREAM offset ascii))
      = (None, Some (RESTART_STREAM offset 0)) \<and>
    globus_ftp_client_restart_marker_get_total (Some (RESTART_EXTENDED_BLOCK rs)) True
      = (None, Some (int (card (open_bytes rs)))) \<and>
    int (card (open_bytes rs)) = int (card (closed_bytes rs)) - int (length rs)"
proof (intro conjI)
  show "globus_ftp_client_restart_marker_copy (\<lambda>_. True) (Some any) (Some (RESTART_EXTENDED_BLOCK rs))
      = (None, Some (RESTART_EXTENDED_BLOCK rs))"
    using copy_ranges_correct [of "[]" rs 0] assms(1) by (simp add: globus_ftp_client_restart_marker_copy_def)
  show "globus_ftp_client_restart_marker_copy (\<lambda>_. True) (Some any) (Some (RESTART_STREAM offset ascii))
      = (None, Some (RESTART_STREAM offset 0))"
    by (simp add: globus_ftp_client_restart_marker_copy_def)
  show "globus_ftp_client_restart_marker_get_total (Some (RESTART_EXTENDED_BLOCK rs)) True
      = (None, Some (int (card (open_bytes rs))))"
    using total_loop_eq [OF assms(1), of 0] assms(2) card_open_bytes [OF assms(1)]
    by (simp add: globus_ftp_client_restart_marker_get_total_def)
  show "int (card (open_bytes rs)) = int (card (closed_bytes rs)) - int (length rs)"
    using card_open_bytes [OF assms(1)] card_closed_bytes [OF assms(1)] by simp
qed

theorem restart_marker_copy_witness:
  "globus_ftp_client_restart_marker_get_total (Some (RESTART_EXTENDED_BLOCK [\<lparr>rg_offset = 0, rg_end_offset = 9\<rparr>])) True
     = (None, Some 9) \<and>
   card (closed_bytes [\<lparr>rg_offset = 0, rg_end_offset = 9\<rparr>]) = 10"
  using restart_marker_copy_total [of "[\<lparr>rg_offset = 0, rg_end_offset = 9\<rparr>]"]
  by (simp add: range_valid_def)

text \<open>
  C25. Range markers of the server. From a reply 111 whose text has a list of ranges, the client reads
  exactly these ranges; from one without a digit the search for the first digit leaves the string.
\<close>

theorem restart_marker_from_reply:
  assumes "ranges_sorted rs" and "rs \<noteq> []" and "s = [] \<or> \<not> isdigit (hd s) \<and> hd s \<noteq> CHR '',''"
  shows "globus_l_ftp_client_parse_restart_marker (\<lambda>_. True) (RESTART_EXTENDED_BLOCK []) 111
      (''111 Range Marker '' @ ranges_text rs @ s) = Some (RESTART_EXTENDED_BLOCK rs) \<and>
    (\<forall>text. list_all (\<lambda>c. \<not> isdigit c) text \<longrightarrow>
      globus_l_ftp_client_parse_restart_marker (\<lambda>_. True) m 111 (''111 '' @ text) = None)"
proof
  have skip: "skip_to_digit (pre @ p) = skip_to_digit p" if "list_all (\<lambda>c. \<not> isdigit c) pre" for pre p
    using that by (induction pre) auto
  have "isdigit (hd (ranges_text rs @ s)) \<and> ranges_text rs @ s \<noteq> []"
  proof -
    obtain r rs' where rs: "rs = r # rs'" using assms(2) by (cases rs) auto
    then obtain u where u: "ranges_text rs = range_text r @ u"
      by (cases rs') (auto simp: ranges_text_simps)
    have "0 \<le> rg_offset r" using assms(1) rs by (simp add: range_valid_def)
    then have "print_int (rg_offset r) = digits (nat (rg_offset r))" by (simp add: print_int_def)
    then show ?thesis using u digits_isdigit [of "hd (digits (nat (rg_offset r)))" "nat (rg_offset r)"] by (simp add: range_text_def)
  qed
  then have "skip_to_digit (ranges_text rs @ s) = Some (ranges_text rs @ s)"
    by (cases "ranges_text rs @ s") auto
  moreover have "list_all (\<lambda>c. \<not> isdigit c) ''Range Marker ''" by (simp add: isdigit_def)
  ultimately have "skip_to_digit (''Range Marker '' @ ranges_text rs @ s) = Some (ranges_text rs @ s)"
    using skip by (simp del: append.simps)
  then show "globus_l_ftp_client_parse_restart_marker (\<lambda>_. True) (RESTART_EXTENDED_BLOCK []) 111
      (''111 Range Marker '' @ ranges_text rs @ s) = Some (RESTART_EXTENDED_BLOCK rs)"
    using read_ranges_correct [of "[]" rs s 0] assms
    by (simp add: globus_l_ftp_client_parse_restart_marker_def)
  show "\<forall>text. list_all (\<lambda>c. \<not> isdigit c) text \<longrightarrow>
      globus_l_ftp_client_parse_restart_marker (\<lambda>_. True) m 111 (''111 '' @ text) = None"
    using skip [where p = "[]"] by (auto simp: globus_l_ftp_client_parse_restart_marker_def)
qed

theorem restart_marker_from_reply_witness:
  "globus_l_ftp_client_parse_restart_marker (\<lambda>_. True) (RESTART_EXTENDED_BLOCK []) 111 ''111 Range Marker 0-9''
     = Some (RESTART_EXTENDED_BLOCK [\<lparr>rg_offset = 0, rg_end_offset = 9\<rparr>]) \<and>
   globus_l_ftp_client_parse_restart_marker (\<lambda>_. True) RESTART_NONE 111 ''111 Range Marker'' = None"
proof -
  have "ranges_text [\<lparr>rg_offset = 0, rg_end_offset = 9\<rparr>] = ''0-9''" by code_simp
  then show ?thesis
    using restart_marker_from_reply [of "[\<lparr>rg_offset = 0, rg_end_offset = 9\<rparr>]" "[]" RESTART_NONE]
    by (simp add: range_valid_def isdigit_def)
qed

end
