(* ===== verification/Spec2Isabelle.thy ===== *)
theory Spec2Isabelle
  imports Globus_Fifo Globus_Priority_Q Globus_Range_List Globus_Handle_Table Globus_Memory Globus_Hashtable_Copy
    Globus_Symboltable Globus_Url_Contract Gram_Rsl_Roundtrip Gram_Rsl_Eval Gram_Protocol
    Gram_Frame Gram_Job_Lifecycle Ftp_Restart_Marker
begin

text \<open>
  Verification of core parts of the Globus Toolkit (C): the containers of its common library and its URL
  parser, the job description language, the messages and the framing of GRAM, the state machine of the
  GRAM job manager, and the restart markers of GridFTP.

  \<^bold>\<open>The program.\<close> The toolkit is a collection of libraries and servers. Everything rests on the common
  library (\<open>common/source/library\<close>), whose containers hold the toolkit's run-time state: timers and scripts
  wait in priority queues, queries and events in fifos, open connections in handle tables, attributes in
  hash tables, received bytes of a transfer in range lists, nodes of the queues in memory pools, the
  variables of a job description in symbol tables; files and services are named by URLs. GRAM
  submits jobs: a client packs a job request (\<open>gram/protocol\<close>) that describes the job in the resource
  specification language (\<open>gram/rsl\<close>) and sends it in an HTTP frame, the job manager (\<open>gram/jobmanager\<close>) unpacks
  it and drives the job through a state machine, running scripts for the batch system, receiving
  scheduler events, and answering queries. GridFTP moves files
  and keeps, in a restart marker, which bytes have arrived. GASS, XIO, GSI and MyProxy move and protect
  data.

  \<^bold>\<open>Conventions.\<close> A function of the source keeps its name. The result \<open>None\<close> of an option stands for a
  fault (a NULL or freed pointer, an access outside a buffer, a failed assertion) or a loop that does not
  end; a pointer is an inner option whose \<open>None\<close> is NULL. Memory that may run out is an argument: an
  allocation that fails takes the branch of the source. Loops over linked memory are
  \<open>partial_function (option)\<close>, so that returning is a theorem. Machine integers are written with their
  wrap-around where it matters (\<open>wrap_s\<close>), or are words.

  \<^bold>\<open>Theories.\<close>
  \<^item> \<open>Globus_Prelude\<close>: the address type, stores, wrap-around, generic lemmas.
  \<^item> \<open>Globus_List\<close> (\<open>globus_list.c\<close>): nodes in a store; insertion, removal, concatenation, merge sort,
    minimum, searches, copies, parsing of a string. Shown: sorting gives a sorted permutation, removal
    unlinks exactly one node, destruction hands over each datum once.
  \<^item> \<open>Globus_Fifo\<close> (\<open>globus_fifo.c\<close>): head, tail and counter over the list store. The locale \<open>fifo_queue\<close> is
    the contract of a queue; the interpretation shows that the C queue refines a list.
  \<^item> \<open>Globus_Priority_Q\<close> (\<open>globus_priority_q.c\<close>): the binary heap in an array and the comparison functions that
    the toolkit passes to it. The locale \<open>priority_cmp\<close> is the contract of a comparison, interpreted for
    those that satisfy it; heap order, least element, removal, change of priority, sorted draining.
  \<^item> \<open>Globus_Range_List\<close> (\<open>globus_range_list.c\<close>): byte ranges with the conditions under which insertion,
    removal and merging are union and difference, and what happens without them.
  \<^item> \<open>Globus_Handle_Table\<close> (\<open>globus_handle_table.c\<close>): reference-counted slots and the chain of free ones. The
    locale \<open>refcounted\<close> states reference counting once.
  \<^item> \<open>Globus_Memory\<close> (\<open>globus_memory.c\<close>): the pool of equal nodes; nodes handed out are disjoint in every
    reachable pool.
  \<^item> \<open>Globus_Hashtable\<close> (\<open>globus_hashtable.c\<close>): buckets that are segments of one doubly linked list. The locale
    \<open>hash_contract\<close> is what hash and equality must satisfy; lookup laws of insert, update and remove,
    traversal and destruction, and the ranges of the hash functions.
  \<^item> \<open>Globus_Hashtable_Copy\<close> (\<open>globus_hashtable_copy\<close>): the copy, built bucket by bucket, is a well-formed table
    with the copied contents.
  \<^item> \<open>Globus_Symboltable\<close> (\<open>globus_symboltable.c\<close>): scopes as a linked list of hash tables on the heap. Shown: any
    sequence of operations refines a stack of finite maps; destruction gives back every scope.
  \<^item> \<open>C_String\<close>: characters, \<open>sprintf\<close>, \<open>sscanf\<close>, \<open>strtol\<close> and \<open>atoi\<close> as far as the protocol uses them, and
    buffers with a capacity, in which a write past the end is a fault.
  \<^item> \<open>C_Scan\<close>: \<open>sscanf\<close> with widths, scan sets and \<open>%n\<close>.
  \<^item> \<open>Globus_Url\<close>, \<open>Globus_Url_Roundtrip\<close>, \<open>Globus_Url_Contract\<close> (\<open>globus_url.c\<close>): the strict, the RFC 1738 and the
    loose parser on the bytes of the string, hex coding, copying. The locale \<open>url_token\<close> is the contract of
    the scanning loops, interpreted for the character classes of the code; \<open>url_paths\<close> that of the two path
    functions. Shown: every well-formed FTP URL parses to its fields, the strict parser returns on every
    string with complete fields or with cleared ones, the size of the path buffer, where the loose
    parser does not return, and what malformed URLs are accepted.
  \<^item> \<open>Gram_Rsl\<close> (\<open>globus_rsl.c\<close>, \<open>globus_rsl_assist.c\<close>): syntax trees, accessors, copies, release, parameters,
    unparsing, canonical names. Shown: copies are equal, a parameter is that of the first relation with
    its name, and its array is large enough.
  \<^item> \<open>Gram_Rsl_Parser\<close>, \<open>Gram_Rsl_Roundtrip\<close> (\<open>globus_rsl_scanner.l\<close>, \<open>globus_rsl_parser.y\<close>): the scanner as a state
    machine and the parser. Shown: the scanner returns, the parser decides the grammar, parsing inverts
    unparsing, and what is accepted or lost at the end of the input.
  \<^item> \<open>Gram_Rsl_Eval\<close> (\<open>globus_rsl_eval\<close>): evaluation on the concrete symbol table. Shown: it refines substitution
    with a stack of maps; evaluated trees are fixed points.
  \<^item> \<open>Gram_Protocol\<close> (\<open>globus_gram_protocol_pack.c\<close>): every pack and unpack function with its buffer size. The
    locale \<open>codec\<close> is interpreted for the five kinds of messages. Shown: round trips, the exact bounds of
    the buffers, memory safety of the parser, error answers.
  \<^item> \<open>Gram_Frame\<close> (\<open>globus_gram_protocol_frame.c\<close>, the header parsers and read callbacks of
    \<open>globus_gram_protocol_io.c\<close>): a request or reply in its HTTP frame and the callbacks that collect it. Shown:
    the frames parse back, the sizes of the buffers, in which deliveries of its bytes a request arrives
    and in which it never does.
  \<^item> \<open>Gram_Job_State\<close> (\<open>globus_gram_job_manager_state.c\<close>, \<open>_query.c\<close>, \<open>_seg.c\<close>, \<open>_script.c\<close>, \<open>_staging.c\<close>): the job
    request, each case of the state machine, restarts, queries and signals, scheduler events, and the
    lines that scripts report, with the calls to the outside recorded in a trace.
  \<^item> \<open>Gram_Job_Lifecycle\<close>: all these steps in any order. The locale \<open>step_invariant\<close> is the proof rule;
    interpreted for the history (one submission, queries answered once and in order) and the outcome.
    The callback of the machine returns, by a measure on states, events and queries.
  \<^item> \<open>Ftp_Restart_Marker\<close> (\<open>globus_ftp_client_restart_marker.c\<close> and its callers): stream offsets and byte
    ranges, their text, and the replies they are read from. Shown: insertion keeps the ranges sorted and
    apart and adds exactly the new bytes, text round trip, what the data callback loses.

  \<^bold>\<open>Bounds and fuel.\<close> The only fuel is that of \<open>state_machine_loop\<close>, the callback's loop: 22 steps and 21 for
  each queued event and pending query suffice (\<open>job_manager_comes_to_rest\<close>). Other loops recurse on data or
  are partial functions that are proved to return.

  \<^bold>\<open>Parameters.\<close> What the operating system answers is an argument: whether memory can be allocated, whether a
  callback or a script can be started (\<open>env\<close>), the time, the Condor log. Hash, equality, comparison and
  destructor functions that callers pass are arguments, with their contract as a locale.

  \<^bold>\<open>Not modelled.\<close> Asynchronous I/O, threads and processes (XIO, callbacks, gatekeeper, GridFTP and GASS
  engines), cryptography (GSI, MyProxy), files of the job manager (state file, history, audit), whose
  writes appear in the trace only; of the job manager also request creation, validation of attributes,
  contacts, credential renewal and the stdio signals; job statistics, log lines and update times.

  \<^bold>\<open>Plan.\<close> Next: client contacts and references of requests, the
  command parsers of the FTP libraries, then the state machines of the FTP client.
\<close>

end
